(* ===== verification/Prelude.thy ===== *)
theory Prelude
  imports Main "HOL-Library.Word"
begin

text \<open>
  Shared vocabulary of the development: the C integer types as words, the widths the
  code was compiled for (\<open>size_t\<close> and \<open>crypto_word_t\<close> are 64 bits wide, \<open>int\<close> and
  \<open>unsigned\<close> are 32), and the generic lemmas on words, byte lists and loops that the
  components use.  Lengths and offsets (\<open>size_t\<close>) are natural numbers; where the code
  relies on or guards against their wrap-around, the reduction modulo \<open>size_t_mod\<close> is
  written out.
\<close>

unbundle bit_operations_syntax

type_synonym u8 = "8 word"
type_synonym u16 = "16 word"
type_synonym u32 = "32 word"
type_synonym u64 = "64 word"
type_synonym bytes = "8 word list"

definition size_t_mod :: nat where
  "size_t_mod = 2 ^ 64"

definition int_max :: nat where
  "int_max = 2147483647"

named_theorems word_nat "the value of a word expression as a natural number"

section \<open>Words as numbers\<close>

lemma unat_u8_lt [simp]: "unat (b :: u8) < 256"
  using unsigned_less [of b, where ?'a = nat] by simp

lemma unat_u8_le [simp]: "unat (b :: u8) \<le> 255"
  using unat_u8_lt [of b] by linarith

lemma unat_push_bit [word_nat]:
  "unat (push_bit n (w :: 'a::len word)) = (unat w * 2 ^ n) mod 2 ^ LENGTH('a)"
  by (simp only: unsigned_push_bit_eq push_bit_eq_mult [of n "unat w"] take_bit_eq_mod)

lemma unat_drop_bit [word_nat]:
  "unat (drop_bit n (w :: 'a::len word)) = unat w div 2 ^ n"
  by (simp only: unat_drop_bit_eq drop_bit_eq_div [of n "unat w"])

lemma unat_ucast [word_nat]:
  "unat (ucast (w :: 'a::len word) :: 'b::len word) = unat w mod 2 ^ LENGTH('b)"
  by (simp add: unsigned_ucast_eq take_bit_eq_mod)

lemma unat_ucast_up [simp]:
  "LENGTH('a) \<le> LENGTH('b) \<Longrightarrow> unat (ucast (w :: 'a::len word) :: 'b::len word) = unat w"
  by (metis unat_ucast mod_less order_less_le_trans power_increasing unsigned_less
      one_le_numeral)

lemma unat_and_mask [word_nat]:
  "unat (w AND mask n :: 'a::len word) = unat w mod 2 ^ n"
  by (metis take_bit_eq_mask take_bit_eq_mod unsigned_take_bit_eq)

lemma unat_word_of_nat_small:
  "n < 2 ^ LENGTH('a) \<Longrightarrow> unat (word_of_nat n :: 'a::len word) = n"
  by (simp add: unat_of_nat)

text \<open>Writing a value below a shifted one: the idiom \<open>(v << n) | b\<close>.\<close>

lemma push_bit_or_eq_add:
  fixes v b :: "'a::len word"
  assumes "unat b < 2 ^ n"
  shows "push_bit n v OR b = push_bit n v + b"
proof -
  have "\<not> bit b k" if "n \<le> k" for k
  proof -
    have "take_bit n b = b"
      using assms by (simp add: take_bit_eq_mask word_unat_eq_iff unat_and_mask)
    then show ?thesis using that by (metis bit_take_bit_iff leD)
  qed
  then have "push_bit n v AND b = 0"
    by (intro bit_word_eqI) (auto simp: bit_simps not_le)
  then show ?thesis by (simp add: disjunctive_add_eq_or)
qed

lemma unat_shift_or:
  fixes v b :: "'a::len word"
  assumes "unat b < 2 ^ n" and "unat v * 2 ^ n + unat b < 2 ^ LENGTH('a)"
  shows "unat (push_bit n v OR b) = unat v * 2 ^ n + unat b"
proof -
  have "unat (push_bit n v) = unat v * 2 ^ n"
    using assms(2) by (simp add: unat_push_bit)
  moreover have "unat (push_bit n v + b) = unat (push_bit n v) + unat b"
    by (rule unat_add_lem [THEN iffD1]) (use assms(2) calculation in simp)
  ultimately show ?thesis
    using push_bit_or_eq_add [OF assms(1), of v] by simp
qed

section \<open>Facts about one byte, by enumeration\<close>

lemma all_u8_iff: "(\<forall>b :: u8. P b) \<longleftrightarrow> list_all P (map word_of_nat [0..<256])"
proof -
  have "b \<in> set (map word_of_nat [0..<256])" for b :: u8
    by (auto intro!: image_eqI [of _ _ "unat b"])
  then have "set (map word_of_nat [0..<256]) = (UNIV :: u8 set)" by blast
  then show ?thesis by (simp only: list_all_iff) simp
qed

lemma u8_by_enumeration:
  "list_all P (map word_of_nat [0..<256]) \<Longrightarrow> P (b :: u8)"
  using all_u8_iff by blast

lemma msb_u8_iff: "b AND 0x80 \<noteq> 0 \<longleftrightarrow> 128 \<le> unat (b :: u8)"
  by (rule u8_by_enumeration) code_simp

section \<open>Byte orders\<close>

text \<open>
  \<open>le_word\<close> reads a machine word as the little-endian platforms of the app lay it out
  in memory, \<open>le_bytes\<close> writes it; \<open>be_word\<close> and \<open>be_bytes\<close> are the network order.
  \<open>le_nat\<close> and \<open>be_nat\<close> are the values as numbers.
\<close>

primrec le_word :: "bytes \<Rightarrow> 'a::len word" where
  "le_word [] = 0"
| "le_word (b # bs) = push_bit 8 (le_word bs) OR ucast b"

primrec le_bytes :: "nat \<Rightarrow> 'a::len word \<Rightarrow> bytes" where
  "le_bytes 0 w = []"
| "le_bytes (Suc n) w = ucast w # le_bytes n (drop_bit 8 w)"

definition be_word :: "bytes \<Rightarrow> 'a::len word" where
  "be_word bs = foldl (\<lambda>w b. push_bit 8 w OR ucast b) 0 bs"

definition be_bytes :: "nat \<Rightarrow> 'a::len word \<Rightarrow> bytes" where
  "be_bytes n w = rev (le_bytes n w)"

primrec le_nat :: "bytes \<Rightarrow> nat" where
  "le_nat [] = 0"
| "le_nat (b # bs) = unat b + 256 * le_nat bs"

definition be_nat :: "bytes \<Rightarrow> nat" where
  "be_nat bs = le_nat (rev bs)"

lemma be_word_rev: "be_word bs = le_word (rev bs)"
proof -
  have "foldl (\<lambda>w b. push_bit 8 w OR ucast b) (0 :: 'a word) bs =
        foldr (\<lambda>b w. push_bit 8 w OR ucast b) (rev bs) 0"
    by (simp add: foldr_conv_foldl)
  moreover have "foldr (\<lambda>b w. push_bit 8 w OR ucast b) cs (0 :: 'a word) = le_word cs" for cs
    by (induction cs) simp_all
  ultimately show ?thesis by (simp add: be_word_def)
qed

lemma length_le_bytes [simp]: "length (le_bytes n w) = n"
  by (induction n arbitrary: w) simp_all

lemma length_be_bytes [simp]: "length (be_bytes n w) = n"
  by (simp add: be_bytes_def)

lemma le_nat_less: "le_nat bs < 256 ^ length bs"
proof (induction bs)
  case (Cons b bs)
  have "unat b + 256 * le_nat bs < 256 + 256 * le_nat bs" by simp
  also have "\<dots> \<le> 256 * 256 ^ length bs" using Cons by simp
  finally show ?case by simp
qed simp

lemma be_nat_less: "be_nat bs < 256 ^ length bs"
  using le_nat_less [of "rev bs"] by (simp add: be_nat_def)

lemma le_nat_append: "le_nat (as @ bs) = le_nat as + 256 ^ length as * le_nat bs"
  by (induction as) (simp_all add: algebra_simps)

lemma be_nat_Cons: "be_nat (b # bs) = unat b * 256 ^ length bs + be_nat bs"
  by (simp add: be_nat_def le_nat_append)

lemma be_nat_snoc: "be_nat (bs @ [b]) = 256 * be_nat bs + unat b"
  by (simp add: be_nat_def)

lemma be_nat_Nil [simp]: "be_nat [] = 0"
  by (simp add: be_nat_def)

lemma unat_le_word:
  assumes "256 ^ length bs \<le> (2::nat) ^ LENGTH('a)"
  shows "unat (le_word bs :: 'a::len word) = le_nat bs"
  using assms
proof (induction bs)
  case (Cons b bs)
  have "(256::nat) ^ length bs \<le> 256 ^ length (b # bs)"
    by (rule power_increasing) auto
  with Cons have IH: "unat (le_word bs :: 'a word) = le_nat bs" by linarith
  have lt: "le_nat (b # bs) < 2 ^ LENGTH('a)"
    using le_nat_less [of "b # bs"] Cons.prems by linarith
  have len: "(2::nat) ^ 8 \<le> 2 ^ LENGTH('a)"
    using Cons.prems le_trans [OF _ Cons.prems, of 256] by simp
  then have "LENGTH(8) \<le> LENGTH('a)"
    using power_le_imp_le_exp [of "2::nat" 8 "LENGTH('a)"] by simp
  then have b: "unat (ucast b :: 'a word) = unat b" by (rule unat_ucast_up)
  show ?case
    using unat_shift_or [of "ucast b :: 'a word" 8 "le_word bs"] IH b lt
    by (simp add: mult.commute)
qed simp

lemma unat_be_word:
  "256 ^ length bs \<le> (2::nat) ^ LENGTH('a) \<Longrightarrow>
   unat (be_word bs :: 'a::len word) = be_nat bs"
  by (simp add: be_word_rev unat_le_word be_nat_def)

lemma le_nat_le_bytes: "le_nat (le_bytes n w) = unat w mod 256 ^ n"
proof (induction n arbitrary: w)
  case (Suc n)
  have "unat w mod (256 * 256 ^ n) = 256 * (unat w div 256 mod 256 ^ n) + unat w mod 256"
    by (rule mod_mult2_eq)
  then show ?case
    using Suc [of "drop_bit 8 w"] by (simp add: word_nat)
qed simp

lemma be_nat_be_bytes: "be_nat (be_bytes n w) = unat w mod 256 ^ n"
  by (simp add: be_nat_def be_bytes_def le_nat_le_bytes)

lemma le_nat_inj: "length as = length bs \<Longrightarrow> le_nat as = le_nat bs \<Longrightarrow> as = bs"
proof (induction as bs rule: list_induct2)
  case (Cons a as b bs)
  have "unat a = unat b \<and> le_nat as = le_nat bs"
  proof -
    have "(unat a + 256 * le_nat as) mod 256 = (unat b + 256 * le_nat bs) mod 256"
      using Cons.prems by simp
    then have "unat a = unat b" by simp
    with Cons.prems show ?thesis by simp
  qed
  with Cons show ?case by (simp add: word_unat_eq_iff)
qed simp

lemma be_nat_inj: "length as = length bs \<Longrightarrow> be_nat as = be_nat bs \<Longrightarrow> as = bs"
  using le_nat_inj [of "rev as" "rev bs"] by (simp add: be_nat_def)

lemma be_bytes_be_word:
  assumes "length bs = n" and "256 ^ n \<le> (2::nat) ^ LENGTH('a)"
  shows "be_bytes n (be_word bs :: 'a::len word) = bs"
  using assms be_nat_less [of bs]
  by (intro be_nat_inj) (simp_all add: be_nat_be_bytes unat_be_word)

lemma be_word_be_bytes:
  assumes "unat (w :: 'a::len word) < 256 ^ n" and "256 ^ n \<le> (2::nat) ^ LENGTH('a)"
  shows "be_word (be_bytes n w) = w"
  using assms by (simp add: word_unat_eq_iff unat_be_word be_nat_be_bytes)

lemma le_word_le_bytes:
  assumes "unat (w :: 'a::len word) < 256 ^ n" and "256 ^ n \<le> (2::nat) ^ LENGTH('a)"
  shows "le_word (le_bytes n w) = w"
  using assms by (simp add: word_unat_eq_iff unat_le_word le_nat_le_bytes)

end
