(* ===== verification/Mem.thy ===== *)
theory Mem
  imports Prelude
begin

text \<open>
  The memory and C-string helpers of crypto/mem.c.  The C allocator \<open>malloc\<close> is not part
  of the repository: it is the parameter \<open>alloc\<close>, which says whether a request of a
  given size is served.  A block is the list of its bytes; the bytes of a fresh block are
  indeterminate in C and 0 in the model, and nothing below rests on their value.  A
  C string in memory is a byte list with a 0 in it.
\<close>

section \<open>Allocation\<close>

definition OPENSSL_MALLOC_PREFIX :: nat where
  "OPENSSL_MALLOC_PREFIX = 8"

definition uninit :: "nat \<Rightarrow> bytes" where
  "uninit n = replicate n 0"

text \<open>
  The sum \<open>sz + OPENSSL_MALLOC_PREFIX\<close> is computed in \<open>size_t\<close>.  What the caller can
  use is what \<open>malloc\<close> returned, less the prefix.
\<close>

definition OPENSSL_malloc :: "(nat \<Rightarrow> bool) \<Rightarrow> nat \<Rightarrow> bytes option" where
  "OPENSSL_malloc alloc sz =
     (let request = (sz + OPENSSL_MALLOC_PREFIX) mod size_t_mod
      in if alloc request then Some (uninit (request - OPENSSL_MALLOC_PREFIX)) else None)"

definition OPENSSL_realloc :: "(nat \<Rightarrow> bool) \<Rightarrow> bytes option \<Rightarrow> nat \<Rightarrow> bytes option" where
  "OPENSSL_realloc alloc orig new_size =
     (case orig of
        None \<Rightarrow> OPENSSL_malloc alloc new_size
      | Some old \<Rightarrow>
          (case OPENSSL_malloc alloc new_size of
             None \<Rightarrow> None
           | Some ret \<Rightarrow>
               (let to_copy = (if length old < new_size then length old else new_size)
                in Some (take to_copy old @ drop to_copy ret))))"

definition OPENSSL_memdup :: "(nat \<Rightarrow> bool) \<Rightarrow> bytes \<Rightarrow> nat \<Rightarrow> bytes option" where
  "OPENSSL_memdup alloc data sz =
     (if sz = 0 then None
      else case OPENSSL_malloc alloc sz of
             None \<Rightarrow> None
           | Some ret \<Rightarrow> Some (take sz data @ drop sz ret))"

text \<open>
  What the proofs rely on: no block is \<open>PTRDIFF_MAX\<close> bytes or longer, so a request for
  more is never served.  \<open>alloc_total\<close> is an allocator that serves all others.
\<close>

definition alloc_ok :: "(nat \<Rightarrow> bool) \<Rightarrow> bool" where
  "alloc_ok alloc \<longleftrightarrow> (\<forall>n. alloc n \<longrightarrow> n < 2 ^ 63)"

definition alloc_total :: "nat \<Rightarrow> bool" where
  "alloc_total n \<longleftrightarrow> n < 2 ^ 63"

lemma alloc_total_ok [simp]: "alloc_ok alloc_total"
  by (simp add: alloc_ok_def alloc_total_def)

section \<open>Comparing and hashing\<close>

definition CRYPTO_memcmp :: "bytes \<Rightarrow> bytes \<Rightarrow> nat \<Rightarrow> u8" where
  "CRYPTO_memcmp a b len = foldl (\<lambda>x i. x OR (a ! i XOR b ! i)) 0 [0..<len]"

definition OPENSSL_hash32 :: "bytes \<Rightarrow> nat \<Rightarrow> u32" where
  "OPENSSL_hash32 data len =
     foldl (\<lambda>h i. (h XOR ucast (data ! i)) * 16777619) 2166136261 [0..<len]"

section \<open>Strings\<close>

fun strnlen_loop :: "bytes \<Rightarrow> nat \<Rightarrow> nat \<Rightarrow> nat" where
  "strnlen_loop s i 0 = i"
| "strnlen_loop s i (Suc n) = (if s ! i = 0 then i else strnlen_loop s (Suc i) n)"

definition OPENSSL_strnlen :: "bytes \<Rightarrow> nat \<Rightarrow> nat" where
  "OPENSSL_strnlen s len = strnlen_loop s 0 len"

text \<open>\<open>strlen\<close> of the C library, on memory that holds a terminated string.\<close>

definition strlen :: "bytes \<Rightarrow> nat" where
  "strlen s = length (takeWhile (\<lambda>b. b \<noteq> 0) s)"

definition OPENSSL_strndup :: "(nat \<Rightarrow> bool) \<Rightarrow> bytes option \<Rightarrow> nat \<Rightarrow> bytes option" where
  "OPENSSL_strndup alloc str size0 =
     (case str of
        None \<Rightarrow> None
      | Some s \<Rightarrow>
          (let sz = OPENSSL_strnlen s size0;
               alloc_size = (sz + 1) mod size_t_mod
           in if alloc_size < sz then None
              else case OPENSSL_malloc alloc alloc_size of
                     None \<Rightarrow> None
                   | Some ret \<Rightarrow> Some ((take sz s @ drop sz ret)[sz := 0])))"

definition OPENSSL_strdup :: "(nat \<Rightarrow> bool) \<Rightarrow> bytes option \<Rightarrow> bytes option" where
  "OPENSSL_strdup alloc str =
     (case str of
        None \<Rightarrow> None
      | Some s \<Rightarrow>
          (let len = strlen s + 1
           in case OPENSSL_malloc alloc len of
                None \<Rightarrow> None
              | Some ret \<Rightarrow> Some (take len s @ drop len ret)))"

definition OPENSSL_tolower :: "int \<Rightarrow> int" where
  "OPENSSL_tolower c = (if 65 \<le> c \<and> c \<le> 90 then c + 32 else c)"

text \<open>
  \<open>char\<close> is signed on the platforms the app is built for: reading \<open>a[i]\<close> as an \<open>int\<close>
  is \<open>sint\<close>.  The unbounded loop of \<open>OPENSSL_strcasecmp\<close> stops at a terminator.
\<close>

fun OPENSSL_strncasecmp_loop :: "bytes \<Rightarrow> bytes \<Rightarrow> nat \<Rightarrow> nat \<Rightarrow> int" where
  "OPENSSL_strncasecmp_loop a b i 0 = 0"
| "OPENSSL_strncasecmp_loop a b i (Suc n) =
     (let aa = OPENSSL_tolower (sint (a ! i)); bb = OPENSSL_tolower (sint (b ! i))
      in if aa < bb then -1
         else if aa > bb then 1
         else if aa = 0 then 0
         else OPENSSL_strncasecmp_loop a b (Suc i) n)"

definition OPENSSL_strncasecmp :: "bytes \<Rightarrow> bytes \<Rightarrow> nat \<Rightarrow> int" where
  "OPENSSL_strncasecmp a b n = OPENSSL_strncasecmp_loop a b 0 n"

partial_function (option) OPENSSL_strcasecmp_loop ::
    "bytes \<Rightarrow> bytes \<Rightarrow> nat \<Rightarrow> int option" where
  "OPENSSL_strcasecmp_loop a b i =
     (let aa = OPENSSL_tolower (sint (a ! i)); bb = OPENSSL_tolower (sint (b ! i))
      in if aa < bb then Some (-1)
         else if aa > bb then Some 1
         else if aa = 0 then Some 0
         else OPENSSL_strcasecmp_loop a b (Suc i))"

definition OPENSSL_strcasecmp :: "bytes \<Rightarrow> bytes \<Rightarrow> int option" where
  "OPENSSL_strcasecmp a b = OPENSSL_strcasecmp_loop a b 0"

text \<open>
  \<open>strlcpy\<close> and \<open>strlcat\<close>: \<open>dst\<close> is the destination from the pointer on; \<open>d\<close> and \<open>s\<close>
  are how far the two pointers have moved.  The result is the destination after the call
  and the returned length.
\<close>

fun strlcpy_loop :: "bytes \<Rightarrow> bytes \<Rightarrow> nat \<Rightarrow> nat \<Rightarrow> bytes \<times> nat \<times> nat" where
  "strlcpy_loop dst src k dst_size =
     (if 1 < dst_size \<and> src ! k \<noteq> 0
      then strlcpy_loop (dst[k := src ! k]) src (Suc k) (dst_size - 1)
      else (dst, k, dst_size))"

declare strlcpy_loop.simps [simp del]

definition OPENSSL_strlcpy :: "bytes \<Rightarrow> bytes \<Rightarrow> nat \<Rightarrow> bytes \<times> nat" where
  "OPENSSL_strlcpy dst src dst_size =
     (case strlcpy_loop dst src 0 dst_size of
        (dst', l, left) \<Rightarrow>
          ((if left \<noteq> 0 then dst'[l := 0] else dst'), l + strlen (drop l src)))"

fun strlcat_skip :: "bytes \<Rightarrow> nat \<Rightarrow> nat \<Rightarrow> nat \<times> nat" where
  "strlcat_skip dst l 0 = (l, 0)"
| "strlcat_skip dst l (Suc dst_size) =
     (if dst ! l \<noteq> 0 then strlcat_skip dst (Suc l) dst_size else (l, Suc dst_size))"

definition OPENSSL_strlcat :: "bytes \<Rightarrow> bytes \<Rightarrow> nat \<Rightarrow> bytes \<times> nat" where
  "OPENSSL_strlcat dst src dst_size =
     (case strlcat_skip dst 0 dst_size of
        (l, left) \<Rightarrow>
          (case OPENSSL_strlcpy (drop l dst) src left of
             (d, n) \<Rightarrow> (take l dst @ d, l + n)))"

section \<open>What they compute\<close>

lemma OPENSSL_malloc_length:
  assumes "OPENSSL_malloc alloc sz = Some p" and "sz + 8 < size_t_mod"
  shows "length p = sz"
  using assms
  by (auto simp: OPENSSL_malloc_def OPENSSL_MALLOC_PREFIX_def uninit_def Let_def split: if_splits)

lemma OPENSSL_malloc_None_iff:
  "sz + 8 < size_t_mod \<Longrightarrow> OPENSSL_malloc alloc sz = None \<longleftrightarrow> \<not> alloc (sz + 8)"
  by (simp add: OPENSSL_malloc_def OPENSSL_MALLOC_PREFIX_def Let_def)

lemma OPENSSL_realloc_grow:
  assumes "OPENSSL_realloc alloc (Some old) n = Some p"
    and "length old \<le> n" and "n + 8 < size_t_mod"
  shows "length p = n \<and> take (length old) p = old"
  using assms OPENSSL_malloc_length [of alloc n]
  by (auto simp: OPENSSL_realloc_def Let_def split: option.splits)

lemma OPENSSL_memdup_bytes:
  assumes "OPENSSL_memdup alloc data n = Some p"
    and "n \<le> length data" and "n + 8 < size_t_mod"
  shows "p = take n data"
  using assms OPENSSL_malloc_length [of alloc n]
  by (auto simp: OPENSSL_memdup_def split: option.splits if_splits)

lemma foldl_or_eq_0:
  "foldl (\<lambda>x i. x OR f i) (w :: 'a::len word) is = 0 \<longleftrightarrow> w = 0 \<and> (\<forall>i \<in> set is. f i = 0)"
proof (induction "is" arbitrary: w)
  case (Cons i "is")
  have "w OR f i = 0 \<longleftrightarrow> w = 0 \<and> f i = 0"
    by (auto simp: bit_eq_iff bit_simps)
  then show ?case by (simp add: Cons.IH)
qed simp

lemma CRYPTO_memcmp_eq_0:
  assumes "n \<le> length a" and "n \<le> length b"
  shows "CRYPTO_memcmp a b n = 0 \<longleftrightarrow> take n a = take n b"
proof -
  have xor0: "x XOR y = 0 \<longleftrightarrow> x = y" for x y :: u8
    by (auto simp: bit_eq_iff bit_simps)
  show ?thesis
    using assms
    by (auto simp: CRYPTO_memcmp_def foldl_or_eq_0 xor0 list_eq_iff_nth_eq)
qed

lemma OPENSSL_hash32_take:
  "n \<le> length data \<Longrightarrow> OPENSSL_hash32 data n = OPENSSL_hash32 (take n data) n"
  unfolding OPENSSL_hash32_def by (rule foldl_cong) auto

lemma strlen_nth: "k < strlen s \<Longrightarrow> s ! k \<noteq> 0"
  by (metis (full_types, lifting) nth_mem set_takeWhileD strlen_def takeWhile_nth)

lemma strlen_less: "0 \<in> set s \<Longrightarrow> strlen s < length s"
  by (induction s) (auto simp: strlen_def)

lemma strlen_end: "0 \<in> set s \<Longrightarrow> s ! strlen s = 0"
  using nth_length_takeWhile [of "\<lambda>b. b \<noteq> 0" s] strlen_less [of s] by (simp add: strlen_def)

lemma strlen_drop: "k \<le> strlen s \<Longrightarrow> strlen (drop k s) = strlen s - k"
proof (induction k arbitrary: s)
  case (Suc k)
  then show ?case by (cases s) (auto simp: strlen_def split: if_splits)
qed simp

lemma strlcpy_loop_eq:
  assumes "0 \<in> set src" and "k \<le> strlen src" and "0 < n" and "k + n \<le> length dst"
  shows "strlcpy_loop dst src k n =
    (let m = min (n - 1) (strlen src - k)
     in (take k dst @ take m (drop k src) @ drop (k + m) dst, k + m, n - m))"
  using assms
proof (induction dst src k n rule: strlcpy_loop.induct)
  case (1 dst src k n)
  show ?case
  proof (cases "1 < n \<and> src ! k \<noteq> 0")
    case False
    then have "n = 1 \<or> \<not> k < strlen src"
      using 1(4) strlen_nth [of k src] by auto
    then have "min (n - 1) (strlen src - k) = 0" by auto
    then show ?thesis using False 1(5)
      by (subst strlcpy_loop.simps, subst if_not_P) (auto simp: Let_def)
  next
    case True
    then have k: "k < strlen src" using 1 strlen_end [of src] by (metis le_neq_implies_less)
    define m where "m = min (n - 1 - 1) (strlen src - Suc k)"
    have m: "min (n - 1) (strlen src - k) = Suc m" using True k unfolding m_def by linarith
    have kl: "k < length src" using k strlen_less [OF 1(2)] by simp
    have "take (Suc k) (dst[k := src ! k]) = take k dst @ [src ! k]"
      using 1(5) True by (simp add: take_Suc_conv_app_nth)
    moreover have "take (Suc m) (drop k src) = src ! k # take m (drop (Suc k) src)"
      using kl by (simp add: Cons_nth_drop_Suc [symmetric])
    ultimately show ?thesis
      using True 1 k m kl by (subst strlcpy_loop.simps) (simp add: Let_def m_def)
  qed
qed
theorem strlcpy_correct:
  assumes "0 \<in> set src" and "dst_size \<le> length dst"
  shows "OPENSSL_strlcpy dst src dst_size =
    ((if dst_size = 0 then dst
      else take (dst_size - 1) (take (strlen src) src) @ [0] @
           drop (Suc (min (dst_size - 1) (strlen src))) dst),
     strlen src)"
proof (cases "dst_size = 0")
  case True
  then show ?thesis by (simp add: OPENSSL_strlcpy_def strlcpy_loop.simps)
next
  case False
  define m where "m = min (dst_size - 1) (strlen src)"
  have l: "strlcpy_loop dst src 0 dst_size = (take m src @ drop m dst, m, dst_size - m)"
    using strlcpy_loop_eq [of src 0 dst_size dst] False assms by (simp add: Let_def m_def)
  have m: "m < dst_size" "m \<le> strlen src" "m < length dst" "m < length src"
    using False assms strlen_less [of src] by (auto simp: m_def)
  have "(take m src @ drop m dst)[m := 0] = take m src @ 0 # drop (Suc m) dst"
    using m by (simp add: list_update_append Cons_nth_drop_Suc [symmetric])
  moreover have "take (dst_size - 1) (take (strlen src) src) = take m src"
    by (simp add: m_def min.commute)
  moreover have "strlen (drop m src) = strlen src - m"
    using m by (simp add: strlen_drop)
  ultimately show ?thesis
    using False m by (simp only: OPENSSL_strlcpy_def l m_def [symmetric]) simp
qed

end
