(* ===== verification/Cbs.thy ===== *)
theory Cbs
  imports Mem
begin

text \<open>
  The byte-string reader \<open>CBS\<close> of crypto/bytestring/cbs.c.  A \<open>CBS\<close> is a pointer
  and a length; the model's \<open>cbs_data\<close> is the memory from the pointer to the end of the
  object it points into, so that advancing the pointer is \<open>drop\<close> and reading past the
  object is reading past the list.  A getter returns the value it writes through its out
  parameter, or \<open>None\<close> when it returns 0, together with the updated \<open>CBS\<close>: a failing
  getter can already have advanced it.
\<close>

record cbs =
  cbs_data :: bytes
  cbs_len :: nat

type_synonym 'a getter = "cbs \<Rightarrow> 'a option \<times> cbs"

section \<open>Operations\<close>

definition CBS_init :: "bytes \<Rightarrow> nat \<Rightarrow> cbs" where
  "CBS_init data len = \<lparr>cbs_data = data, cbs_len = len\<rparr>"

definition cbs_get :: "nat \<Rightarrow> bytes getter" where
  "cbs_get n c =
     (if cbs_len c < n then (None, c)
      else (Some (cbs_data c),
            c\<lparr>cbs_data := drop n (cbs_data c), cbs_len := cbs_len c - n\<rparr>))"

definition CBS_skip :: "nat \<Rightarrow> unit getter" where
  "CBS_skip len c = (case cbs_get len c of (p, c') \<Rightarrow> (map_option (\<lambda>_. ()) p, c'))"

definition CBS_data :: "cbs \<Rightarrow> bytes" where
  "CBS_data c = cbs_data c"

definition CBS_len :: "cbs \<Rightarrow> nat" where
  "CBS_len c = cbs_len c"

text \<open>
  \<open>CBS_stow\<close> and \<open>CBS_strdup\<close> replace the caller's buffer by a copy of the bytes.  The
  results are the return value, the new buffer (\<open>None\<close> for \<open>NULL\<close>) and its length.
\<close>

definition CBS_stow :: "(nat \<Rightarrow> bool) \<Rightarrow> cbs \<Rightarrow> bool \<times> bytes option \<times> nat" where
  "CBS_stow alloc c =
     (if cbs_len c = 0 then (True, None, 0)
      else case OPENSSL_memdup alloc (cbs_data c) (cbs_len c) of
             None \<Rightarrow> (False, None, 0)
           | Some out_ptr \<Rightarrow> (True, Some out_ptr, cbs_len c))"

definition CBS_strdup :: "(nat \<Rightarrow> bool) \<Rightarrow> cbs \<Rightarrow> bool \<times> bytes option" where
  "CBS_strdup alloc c =
     (let out_ptr = OPENSSL_strndup alloc (Some (cbs_data c)) (cbs_len c)
      in (out_ptr \<noteq> None, out_ptr))"

definition CBS_contains_zero_byte :: "cbs \<Rightarrow> bool" where
  "CBS_contains_zero_byte c = list_ex (\<lambda>i. cbs_data c ! i = 0) [0..<cbs_len c]"

definition CBS_mem_equal :: "cbs \<Rightarrow> bytes \<Rightarrow> nat \<Rightarrow> bool" where
  "CBS_mem_equal c data len =
     (if len \<noteq> cbs_len c then False else CRYPTO_memcmp (cbs_data c) data len = 0)"

text \<open>Big-endian integers.  The loop reads \<open>data[i]\<close> for \<open>i\<close> below \<open>len\<close>.\<close>

definition cbs_get_u :: "nat \<Rightarrow> u64 getter" where
  "cbs_get_u len c =
     (case cbs_get len c of
        (None, c') \<Rightarrow> (None, c')
      | (Some data, c') \<Rightarrow>
          (Some (foldl (\<lambda>result i. push_bit 8 result OR ucast (data ! i)) 0 [0..<len]), c'))"

definition CBS_get_u8 :: "u8 getter" where
  "CBS_get_u8 c =
     (case cbs_get 1 c of (None, c') \<Rightarrow> (None, c') | (Some v, c') \<Rightarrow> (Some (v ! 0), c'))"

definition map_get :: "('a \<Rightarrow> 'b) \<Rightarrow> 'a getter \<Rightarrow> 'b getter" where
  "map_get f g c = (case g c of (v, c') \<Rightarrow> (map_option f v, c'))"

definition CBS_get_u16 :: "u16 getter" where
  "CBS_get_u16 = map_get ucast (cbs_get_u 2)"

text \<open>The byte swaps of crypto/internal.h, as its portable definitions write them.\<close>

definition CRYPTO_bswap2 :: "u16 \<Rightarrow> u16" where
  "CRYPTO_bswap2 x = drop_bit 8 x OR push_bit 8 x"

definition CRYPTO_bswap4 :: "u32 \<Rightarrow> u32" where
  "CRYPTO_bswap4 x0 =
     (let x = drop_bit 16 x0 OR push_bit 16 x0
      in drop_bit 8 (x AND 0xff00ff00) OR push_bit 8 (x AND 0x00ff00ff))"

definition CRYPTO_bswap8 :: "u64 \<Rightarrow> u64" where
  "CRYPTO_bswap8 x =
     ucast (CRYPTO_bswap4 (ucast (drop_bit 32 x))) OR
     push_bit 32 (ucast (CRYPTO_bswap4 (ucast x)))"

definition CBS_get_u16le :: "u16 getter" where
  "CBS_get_u16le = map_get CRYPTO_bswap2 CBS_get_u16"

definition CBS_get_u24 :: "u32 getter" where
  "CBS_get_u24 = map_get ucast (cbs_get_u 3)"

definition CBS_get_u32 :: "u32 getter" where
  "CBS_get_u32 = map_get ucast (cbs_get_u 4)"

definition CBS_get_u32le :: "u32 getter" where
  "CBS_get_u32le = map_get CRYPTO_bswap4 CBS_get_u32"

definition CBS_get_u64 :: "u64 getter" where
  "CBS_get_u64 = cbs_get_u 8"

definition CBS_get_u64le :: "u64 getter" where
  "CBS_get_u64le = map_get CRYPTO_bswap8 (cbs_get_u 8)"

definition CBS_get_last_u8 :: "u8 getter" where
  "CBS_get_last_u8 c =
     (if cbs_len c = 0 then (None, c)
      else (Some (cbs_data c ! (cbs_len c - 1)), c\<lparr>cbs_len := cbs_len c - 1\<rparr>))"

definition CBS_get_bytes :: "nat \<Rightarrow> cbs getter" where
  "CBS_get_bytes len c =
     (case cbs_get len c of
        (None, c') \<Rightarrow> (None, c')
      | (Some v, c') \<Rightarrow> (Some (CBS_init v len), c'))"

definition CBS_copy_bytes :: "nat \<Rightarrow> bytes getter" where
  "CBS_copy_bytes len c =
     (case cbs_get len c of
        (None, c') \<Rightarrow> (None, c')
      | (Some v, c') \<Rightarrow> (Some (take len v), c'))"

definition cbs_get_length_prefixed :: "nat \<Rightarrow> cbs getter" where
  "cbs_get_length_prefixed len_len c =
     (case cbs_get_u len_len c of
        (None, c') \<Rightarrow> (None, c')
      | (Some len, c') \<Rightarrow> CBS_get_bytes (unat len) c')"

definition CBS_get_u8_length_prefixed :: "cbs getter" where
  "CBS_get_u8_length_prefixed = cbs_get_length_prefixed 1"

definition CBS_get_u16_length_prefixed :: "cbs getter" where
  "CBS_get_u16_length_prefixed = cbs_get_length_prefixed 2"

definition CBS_get_u24_length_prefixed :: "cbs getter" where
  "CBS_get_u24_length_prefixed = cbs_get_length_prefixed 3"

section \<open>Well-formed byte strings\<close>

text \<open>
  \<open>cbs_over bs r\<close> is a \<open>CBS\<close> over the bytes \<open>bs\<close>, in an object that goes on with \<open>r\<close>.
  Every well-formed \<open>CBS\<close> is one, and an operation that never reads past its length
  computes the same for every \<open>r\<close>.
\<close>

definition cbs_over :: "bytes \<Rightarrow> bytes \<Rightarrow> cbs" where
  "cbs_over bs r = \<lparr>cbs_data = bs @ r, cbs_len = length bs\<rparr>"

definition cbs_ok :: "cbs \<Rightarrow> bool" where
  "cbs_ok c \<longleftrightarrow> cbs_len c \<le> length (cbs_data c)"

definition cbs_bytes :: "cbs \<Rightarrow> bytes" where
  "cbs_bytes c = take (cbs_len c) (cbs_data c)"

lemma cbs_over_sel [simp]:
  "cbs_data (cbs_over bs r) = bs @ r" "cbs_len (cbs_over bs r) = length bs"
  by (simp_all add: cbs_over_def)

lemma CBS_len_over [simp]: "CBS_len (cbs_over bs r) = length bs"
  and CBS_data_over [simp]: "CBS_data (cbs_over bs r) = bs @ r"
  by (simp_all add: CBS_len_def CBS_data_def)

lemma cbs_over_inject [simp]: "cbs_over bs r = cbs_over bs' r' \<longleftrightarrow> bs = bs' \<and> r = r'"
  by (auto simp: cbs_over_def)

lemma cbs_ok_over [simp]: "cbs_ok (cbs_over bs r)"
  and cbs_bytes_over [simp]: "cbs_bytes (cbs_over bs r) = bs"
  by (simp_all add: cbs_ok_def cbs_bytes_def)

lemma cbs_ok_iff: "cbs_ok c \<longleftrightarrow> (\<exists>r. c = cbs_over (cbs_bytes c) r)"
proof
  assume "cbs_ok c"
  then have "c = cbs_over (cbs_bytes c) (drop (cbs_len c) (cbs_data c))"
    by (cases c) (simp add: cbs_ok_def cbs_bytes_def cbs_over_def min_def)
  then show "\<exists>r. c = cbs_over (cbs_bytes c) r" ..
next
  assume "\<exists>r. c = cbs_over (cbs_bytes c) r"
  then show "cbs_ok c" by (metis cbs_ok_over)
qed

lemma cbs_get_over:
  "cbs_get n (cbs_over bs r) =
     (if length bs < n then (None, cbs_over bs r)
      else (Some (bs @ r), cbs_over (drop n bs) r))"
  by (simp add: cbs_get_def cbs_over_def)

lemma CBS_skip_over:
  "CBS_skip n (cbs_over bs r) =
     (if length bs < n then (None, cbs_over bs r) else (Some (), cbs_over (drop n bs) r))"
  by (simp add: CBS_skip_def cbs_get_over)

lemma CBS_init_over: "n \<le> length bs \<Longrightarrow> CBS_init (bs @ r) n = cbs_over (take n bs) (drop n bs @ r)"
  by (simp add: CBS_init_def cbs_over_def)

lemma CBS_get_bytes_over:
  "CBS_get_bytes n (cbs_over bs r) =
     (if length bs < n then (None, cbs_over bs r)
      else (Some (cbs_over (take n bs) (drop n bs @ r)), cbs_over (drop n bs) r))"
  by (simp add: CBS_get_bytes_def cbs_get_over CBS_init_over)

lemma CBS_copy_bytes_over:
  "CBS_copy_bytes n (cbs_over bs r) =
     (if length bs < n then (None, cbs_over bs r)
      else (Some (take n bs), cbs_over (drop n bs) r))"
  by (simp add: CBS_copy_bytes_def cbs_get_over)

lemma foldl_nth_take:
  "n \<le> length bs \<Longrightarrow> foldl (\<lambda>x i. f x (bs ! i)) a [0..<n] = foldl f a (take n bs)"
proof -
  assume n: "n \<le> length bs"
  have "foldl (\<lambda>x i. f x (bs ! i)) a is = foldl f a (map ((!) bs) is)" for "is" a
    by (induction "is" arbitrary: a) simp_all
  moreover have "map ((!) bs) [0..<n] = take n bs"
    using n by (intro nth_equalityI) simp_all
  ultimately show ?thesis by simp
qed

lemma cbs_get_u_over:
  "cbs_get_u n (cbs_over bs r) =
     (if length bs < n then (None, cbs_over bs r)
      else (Some (be_word (take n bs)), cbs_over (drop n bs) r))"
proof (cases "length bs < n")
  case False
  then have "take n (bs @ r) = take n bs" by simp
  then show ?thesis
    using False foldl_nth_take [of n "bs @ r"]
    by (simp only: cbs_get_u_def cbs_get_over be_word_def) simp
qed (simp add: cbs_get_u_def cbs_get_over)

lemma CBS_get_u8_over:
  "CBS_get_u8 (cbs_over bs r) =
     (case bs of [] \<Rightarrow> (None, cbs_over [] r) | b # bs' \<Rightarrow> (Some b, cbs_over bs' r))"
  by (simp add: CBS_get_u8_def cbs_get_over split: list.split)

lemma CBS_get_u8_Cons [simp]: "CBS_get_u8 (cbs_over (b # bs) r) = (Some b, cbs_over bs r)"
  and CBS_get_u8_Nil [simp]: "CBS_get_u8 (cbs_over [] r) = (None, cbs_over [] r)"
  by (simp_all add: CBS_get_u8_over)

lemma CBS_get_last_u8_over:
  "CBS_get_last_u8 (cbs_over bs r) =
     (if bs = [] then (None, cbs_over bs r)
      else (Some (last bs), cbs_over (butlast bs) (last bs # r)))"
proof (cases bs rule: rev_cases)
  case (snoc cs b)
  then show ?thesis
    by (simp add: CBS_get_last_u8_def nth_append cbs_over_def)
qed (simp add: CBS_get_last_u8_def)

lemma map_get_over: "map_get f g c = (map_option f (fst (g c)), snd (g c))"
  by (simp add: map_get_def split: prod.split)

lemma cbs_get_length_prefixed_over:
  assumes "k \<le> 8"
  shows "cbs_get_length_prefixed k (cbs_over bs r) =
     (if length bs < k then (None, cbs_over bs r)
      else (let n = be_nat (take k bs); rest = drop k bs in
        if length rest < n then (None, cbs_over rest r)
        else (Some (cbs_over (take n rest) (drop n rest @ r)), cbs_over (drop n rest) r)))"
proof -
  have "unat (be_word (take k bs) :: u64) = be_nat (take k bs)"
  proof (rule unat_be_word)
    have "(256::nat) ^ length (take k bs) \<le> 256 ^ 8"
      by (rule power_increasing) (use assms in auto)
    then show "256 ^ length (take k bs) \<le> (2::nat) ^ LENGTH(64)" by simp
  qed
  then show ?thesis
    by (simp add: cbs_get_length_prefixed_def cbs_get_u_over CBS_get_bytes_over Let_def)
qed

lemma CBS_contains_zero_byte_over: "CBS_contains_zero_byte (cbs_over bs r) \<longleftrightarrow> 0 \<in> set bs"
  by (auto simp: CBS_contains_zero_byte_def list_ex_iff in_set_conv_nth nth_append)

lemma CBS_mem_equal_over:
  "length d = n \<Longrightarrow> CBS_mem_equal (cbs_over bs r) d n \<longleftrightarrow> bs = d"
  by (auto simp: CBS_mem_equal_def CRYPTO_memcmp_eq_0)

lemma CBS_stow_over:
  assumes "length bs + 8 < size_t_mod" and "\<And>n. alloc n"
  shows "CBS_stow alloc (cbs_over bs r) =
    (True, if bs = [] then None else Some bs, length bs)"
proof (cases "bs = []")
  case False
  then have "OPENSSL_memdup alloc (bs @ r) (length bs) \<noteq> None"
    using assms OPENSSL_malloc_None_iff [of "length bs" alloc]
    by (auto simp: OPENSSL_memdup_def split: option.splits)
  then show ?thesis
    using False assms OPENSSL_memdup_bytes [of alloc "bs @ r" "length bs"]
    by (auto simp: CBS_stow_def split: option.split)
qed (simp add: CBS_stow_def)

section \<open>Interfaces: readers and codecs\<close>

text \<open>
  What every getter owes its caller.  Over the bytes \<open>bs\<close> it may consume a prefix, and
  neither what it returns (seen through \<open>view\<close>, which looks a returned \<open>CBS\<close> up) nor
  what it leaves depends on the memory behind \<open>bs\<close>: it never reads past the length.
\<close>

locale reader =
  fixes getter :: "'a getter" and view :: "'a \<Rightarrow> 'b"
  assumes in_bounds:
    "\<exists>n x. n \<le> length bs \<and>
       (\<forall>r. map_option view (fst (getter (cbs_over bs r))) = x \<and>
            snd (getter (cbs_over bs r)) = cbs_over (drop n bs) r)"
begin

lemma keeps_ok: "cbs_ok c \<Longrightarrow> cbs_ok (snd (getter c))"
  using in_bounds [of "cbs_bytes c"] by (metis cbs_ok_iff cbs_ok_over)

lemma leaves_suffix:
  assumes "cbs_ok c"
  obtains p where "cbs_bytes c = p @ cbs_bytes (snd (getter c))"
proof -
  obtain n where "\<forall>r. snd (getter (cbs_over (cbs_bytes c) r)) = cbs_over (drop n (cbs_bytes c)) r"
    using in_bounds [of "cbs_bytes c"] by blast
  then have "cbs_bytes (snd (getter c)) = drop n (cbs_bytes c)"
    using assms by (metis cbs_ok_iff cbs_bytes_over)
  then show thesis using that [of "take n (cbs_bytes c)"] by simp
qed

lemma never_grows: "cbs_ok c \<Longrightarrow> cbs_len (snd (getter c)) \<le> cbs_len c"
  using leaves_suffix [of c] keeps_ok [of c]
  by (metis (no_types, lifting) cbs_bytes_over cbs_ok_iff cbs_over_sel(2) le_add2 length_append)

lemma reads_only_bytes:
  assumes "cbs_ok c" and "cbs_ok d" and "cbs_bytes c = cbs_bytes d"
  shows "map_option view (fst (getter c)) = map_option view (fst (getter d)) \<and>
         cbs_bytes (snd (getter c)) = cbs_bytes (snd (getter d))"
proof -
  obtain n x where nx:
    "\<forall>r. map_option view (fst (getter (cbs_over (cbs_bytes c) r))) = x \<and>
         snd (getter (cbs_over (cbs_bytes c) r)) = cbs_over (drop n (cbs_bytes c)) r"
    using in_bounds [of "cbs_bytes c"] by blast
  obtain r s where "c = cbs_over (cbs_bytes c) r" and "d = cbs_over (cbs_bytes c) s"
    using assms by (metis cbs_ok_iff)
  with nx show ?thesis by (metis cbs_bytes_over)
qed

end

text \<open>A getter that consumes something whenever it succeeds drives a loop to its end.\<close>

locale consuming_reader = reader +
  assumes progress: "getter c = (Some x, c') \<Longrightarrow> cbs_len c' < cbs_len c"

text \<open>
  The loop \<open>while (CBS_len(&cbs) != 0) { if (!get(&cbs, ...)) return 0; ... }\<close> that the
  components run over a getter, with the values it collects.  \<open>fuel\<close> bounds the rounds;
  the outer \<open>None\<close> is running out of it, the inner one the \<open>return 0\<close>.
\<close>

fun get_all :: "nat \<Rightarrow> 'a getter \<Rightarrow> cbs \<Rightarrow> 'a list option option" where
  "get_all 0 g c = (if cbs_len c = 0 then Some (Some []) else None)"
| "get_all (Suc fuel) g c =
     (if cbs_len c = 0 then Some (Some [])
      else case g c of
             (None, _) \<Rightarrow> Some None
           | (Some x, c') \<Rightarrow> map_option (map_option ((#) x)) (get_all fuel g c'))"

context consuming_reader begin

lemma get_all_terminates: "cbs_len c \<le> fuel \<Longrightarrow> get_all fuel getter c \<noteq> None"
proof (induction fuel arbitrary: c)
  case (Suc fuel)
  obtain v c' where g: "getter c = (v, c')" by fastforce
  show ?case
  proof (cases v)
    case (Some x)
    then have "cbs_len c' \<le> fuel" using progress [of c x c'] g Suc.prems by simp
    then have "get_all fuel getter c' \<noteq> None" by (rule Suc.IH)
    then show ?thesis using g Some by simp
  qed (simp add: g)
qed simp

lemma get_all_mono:
  "get_all fuel getter c = Some x \<Longrightarrow> fuel \<le> fuel' \<Longrightarrow> get_all fuel' getter c = Some x"
proof (induction fuel arbitrary: c x fuel')
  case 0
  then show ?case by (cases fuel') (simp_all split: if_splits)
next
  case (Suc fuel)
  from Suc.prems(2) obtain f where f: "fuel' = Suc f" "fuel \<le> f" by (cases fuel') auto
  obtain v c' where g: "getter c = (v, c')" by fastforce
  show ?case
  proof (cases "cbs_len c = 0 \<or> v = None")
    case False
    then obtain y where "v = Some y" by auto
    with False Suc.prems(1) g obtain z where z: "get_all fuel getter c' = Some z"
      and "x = map_option ((#) y) z" by auto
    moreover have "get_all f getter c' = Some z" using Suc.IH z f(2) by blast
    ultimately show ?thesis using False g f(1) \<open>v = Some y\<close> by simp
  qed (use Suc.prems f g in auto)
qed

end

text \<open>
  The contract between what is written and what is read back: \<open>enc\<close> is the encoding of a
  value in the domain \<open>dom\<close>, and the getter recovers the value from the front of any
  longer input and stops where it ends.
\<close>

locale codec =
  fixes getter :: "'a getter" and view :: "'a \<Rightarrow> 'b"
    and enc :: "'b \<Rightarrow> bytes" and valid :: "'b \<Rightarrow> bool"
  assumes decodes:
    "valid y \<Longrightarrow>
     \<exists>x. getter (cbs_over (enc y @ bs) r) = (Some x, cbs_over bs r) \<and> view x = y"
begin

lemma prefix_free:
  assumes "valid y" and "valid y'" and "enc y @ bs = enc y' @ bs'"
  shows "y = y' \<and> bs = bs'"
proof -
  obtain x where x: "getter (cbs_over (enc y @ bs) []) = (Some x, cbs_over bs [])" "view x = y"
    using decodes [OF assms(1), of bs "[]"] by blast
  obtain x' where "getter (cbs_over (enc y' @ bs') []) = (Some x', cbs_over bs' [])" "view x' = y'"
    using decodes [OF assms(2), of bs' "[]"] by blast
  with x show ?thesis unfolding assms(3) by simp
qed

lemma enc_injective: "valid y \<Longrightarrow> valid y' \<Longrightarrow> enc y = enc y' \<Longrightarrow> y = y'"
  using prefix_free [of y y' "[]" "[]"] by simp

lemma get_all_concat:
  assumes "\<forall>y \<in> set ys. valid y" and "\<forall>y \<in> set ys. enc y \<noteq> []" and "length ys \<le> fuel"
  shows "\<exists>xs. get_all fuel getter (cbs_over (concat (map enc ys)) r) = Some (Some xs) \<and>
              map view xs = ys"
  using assms
proof (induction ys arbitrary: fuel)
  case Nil
  show ?case by (cases fuel) simp_all
next
  case (Cons y ys)
  from Cons.prems(3) obtain f where fuel: "fuel = Suc f" and "length ys \<le> f"
    by (cases fuel) auto
  with Cons.prems Cons.IH [of f] obtain xs where
    xs: "get_all f getter (cbs_over (concat (map enc ys)) r) = Some (Some xs)" "map view xs = ys"
    by auto
  obtain x where "getter (cbs_over (enc y @ concat (map enc ys)) r) =
      (Some x, cbs_over (concat (map enc ys)) r)" and "view x = y"
    using decodes [of y] Cons.prems(1) by auto
  with xs fuel Cons.prems(2) show ?case by (intro exI [of _ "x # xs"]) simp
qed

end

text \<open>A strict codec accepts nothing else: an encoding is the only way to write a value.\<close>

locale strict_codec = codec +
  assumes canonical:
    "getter (cbs_over bs r) = (Some x, c') \<Longrightarrow>
     valid (view x) \<and> (\<exists>rest. bs = enc (view x) @ rest \<and> c' = cbs_over rest r)"
begin

lemma accepts_iff:
  "fst (getter (cbs_over bs r)) \<noteq> None \<longleftrightarrow> (\<exists>y rest. valid y \<and> bs = enc y @ rest)"
proof
  assume "fst (getter (cbs_over bs r)) \<noteq> None"
  then obtain x c' where "getter (cbs_over bs r) = (Some x, c')"
    by (metis not_None_eq surj_pair fst_conv)
  then show "\<exists>y rest. valid y \<and> bs = enc y @ rest" using canonical by blast
next
  assume "\<exists>y rest. valid y \<and> bs = enc y @ rest"
  then obtain y rest where "valid y" and "bs = enc y @ rest" by blast
  then show "fst (getter (cbs_over bs r)) \<noteq> None" using decodes [of y rest r] by auto
qed

lemma canonical_bytes:
  assumes "getter (cbs_over bs r) = (Some x, c')" and "getter (cbs_over bs' r') = (Some x', d')"
    and "view x = view x'"
  shows "take (length bs - cbs_len c') bs = take (length bs' - cbs_len d') bs'"
proof -
  obtain rest where "bs = enc (view x) @ rest" "c' = cbs_over rest r"
    using canonical [OF assms(1)] by blast
  moreover obtain rest' where "bs' = enc (view x') @ rest'" "d' = cbs_over rest' r'"
    using canonical [OF assms(2)] by blast
  ultimately show ?thesis using assms(3) by simp
qed

end

section \<open>Fixed-width integers\<close>

lemma reader_of_over:
  assumes "\<And>bs. \<exists>n x. n \<le> length bs \<and>
     (\<forall>r. map_option view (fst (g (cbs_over bs r))) = x \<and> snd (g (cbs_over bs r)) = cbs_over (drop n bs) r)"
  shows "reader g view"
  using assms by unfold_locales

lemma reader_cbs_get_u: "reader (cbs_get_u n) id"
proof unfold_locales
  fix bs
  show "\<exists>k x. k \<le> length bs \<and> (\<forall>r. map_option id (fst (cbs_get_u n (cbs_over bs r))) = x \<and>
      snd (cbs_get_u n (cbs_over bs r)) = cbs_over (drop k bs) r)"
    by (cases "length bs < n")
      (rule exI [of _ 0] exI [of _ n], simp add: cbs_get_u_over)+
qed

lemma reader_map_get:
  assumes "reader g id"
  shows "reader (map_get f g) id"
proof (rule reader_of_over)
  fix bs
  from reader.in_bounds [OF assms, of bs] obtain n x where n: "n \<le> length bs"
    and x: "\<And>r. fst (g (cbs_over bs r)) = x \<and> snd (g (cbs_over bs r)) = cbs_over (drop n bs) r"
    by (auto simp: option.map_id)
  show "\<exists>n x. n \<le> length bs \<and> (\<forall>r. map_option id (fst (map_get f g (cbs_over bs r))) = x \<and>
      snd (map_get f g (cbs_over bs r)) = cbs_over (drop n bs) r)"
    by (intro exI [of _ n] exI [of _ "map_option f x"]) (simp add: n x map_get_over option.map_id)
qed

lemma cbs_get_u_progress: "0 < n \<Longrightarrow> cbs_get_u n c = (Some x, c') \<Longrightarrow> cbs_len c' < cbs_len c"
  by (auto simp: cbs_get_u_def cbs_get_def split: if_splits)

lemma consuming_map_get:
  assumes "consuming_reader g id"
  shows "consuming_reader (map_get f g) id"
proof -
  have "reader g id" and p: "g c = (Some x, c') \<Longrightarrow> cbs_len c' < cbs_len c" for c x c'
    using assms by (simp_all add: consuming_reader_def consuming_reader_axioms_def)
  then show ?thesis
    by (auto simp: consuming_reader_def consuming_reader_axioms_def reader_map_get map_get_def
        split: prod.splits dest: p)
qed

lemma consuming_cbs_get_u: "0 < n \<Longrightarrow> consuming_reader (cbs_get_u n) id"
  by (simp add: consuming_reader_def consuming_reader_axioms_def reader_cbs_get_u)
    (blast intro: cbs_get_u_progress)

lemma ucast_be_word:
  assumes "256 ^ length bs \<le> (2::nat) ^ LENGTH('a)" and "length bs \<le> 8"
  shows "ucast (be_word bs :: u64) = (be_word bs :: 'a::len word)"
proof -
  have "256 ^ length bs \<le> (256::nat) ^ 8" using assms(2) by (intro power_increasing) auto
  then have "unat (be_word bs :: u64) = be_nat bs" by (intro unat_be_word) simp
  moreover have "be_nat bs < 2 ^ LENGTH('a)" using be_nat_less [of bs] assms(1) by linarith
  ultimately show ?thesis
    using assms(1) by (simp add: word_unat_eq_iff unat_ucast unat_be_word)
qed

text \<open>Reading \<open>n\<close> bytes into a wide enough integer undoes its \<open>n\<close>-byte encoding.\<close>

lemma strict_codec_fixed:
  assumes "n \<le> 8" and "256 ^ n \<le> (2::nat) ^ LENGTH('a)"
  shows "strict_codec (map_get (ucast :: u64 \<Rightarrow> 'a::len word) (cbs_get_u n)) id (be_bytes n)
           (\<lambda>w. unat w < 256 ^ n)"
proof unfold_locales
  fix y :: "'a word" and bs r
  assume "unat y < 256 ^ n"
  then show "\<exists>x. map_get ucast (cbs_get_u n) (cbs_over (be_bytes n y @ bs) r) =
      (Some x, cbs_over bs r) \<and> id x = y"
    using assms ucast_be_word [of "be_bytes n y", where ?'a = 'a]
    by (simp add: map_get_over cbs_get_u_over be_word_be_bytes)
next
  fix bs r c' and x :: "'a word"
  assume "map_get ucast (cbs_get_u n) (cbs_over bs r) = (Some x, c')"
  then have n: "n \<le> length bs" and x: "x = ucast (be_word (take n bs) :: u64)"
    and c': "c' = cbs_over (drop n bs) r"
    by (auto simp: map_get_over cbs_get_u_over split: if_splits)
  have x': "x = be_word (take n bs)"
    using x n assms ucast_be_word [of "take n bs", where ?'a = 'a] by (simp add: min_def)
  have "unat x < 256 ^ n"
    using x' n assms unat_be_word [of "take n bs", where ?'a = 'a] be_nat_less [of "take n bs"]
    by (simp add: min.absorb2)
  moreover have "be_bytes n x = take n bs"
    using x' n assms by (simp add: be_bytes_be_word)
  ultimately show "unat (id x) < 256 ^ n \<and>
      (\<exists>rest. bs = be_bytes n (id x) @ rest \<and> c' = cbs_over rest r)"
    using c' by simp
qed

lemma map_get_ucast_id: "map_get (ucast :: 'a::len word \<Rightarrow> 'a word) g = g"
proof -
  have "map_option (ucast :: 'a word \<Rightarrow> 'a word) v = v" for v by (cases v) simp_all
  then show ?thesis by (simp add: fun_eq_iff map_get_over)
qed

lemma strict_codec_map:
  assumes "strict_codec g id enc valid" and "\<And>w. f' (f w) = w" and "\<And>w. f (f' w) = w"
  shows "strict_codec (map_get f g) id (\<lambda>w. enc (f' w)) (\<lambda>w. valid (f' w))"
proof -
  have c: "codec g id enc valid" using assms(1) by (simp add: strict_codec_def)
  show ?thesis
  proof unfold_locales
    fix y bs r
    assume "valid (f' y)"
    then show "\<exists>x. map_get f g (cbs_over (enc (f' y) @ bs) r) = (Some x, cbs_over bs r) \<and> id x = y"
      using codec.decodes [OF c, of "f' y" bs r] assms(3) by (auto simp: map_get_over)
  next
    fix bs r x c'
    assume m: "map_get f g (cbs_over bs r) = (Some x, c')"
    then obtain w where "g (cbs_over bs r) = (Some w, c')" and "x = f w"
      by (cases "g (cbs_over bs r)") (auto simp: map_get_def)
    then show "valid (f' (id x)) \<and> (\<exists>rest. bs = enc (f' (id x)) @ rest \<and> c' = cbs_over rest r)"
      using strict_codec.canonical [OF assms(1), of bs r w c'] assms(2) by simp
  qed
qed

text \<open>The byte swaps reverse the bytes of a word.\<close>

lemma le_bytes_2: "le_bytes 2 w = [ucast w, ucast (drop_bit 8 w)]"
  by (simp only: numeral_2_eq_2 le_bytes.simps)

lemma le_bytes_4:
  "le_bytes 4 w = [ucast w, ucast (drop_bit 8 w), ucast (drop_bit 16 w), ucast (drop_bit 24 w)]"
proof -
  have "4 = Suc (Suc (Suc (Suc 0)))" by simp
  then show ?thesis by (simp only: le_bytes.simps drop_bit_drop_bit) simp
qed

lemma le_bytes_add: "le_bytes (m + n) w = le_bytes m w @ le_bytes n (drop_bit (8 * m) w)"
  by (induction m arbitrary: w) (simp_all add: drop_bit_drop_bit add.commute)

lemma bit_index_8: "n < LENGTH(8) \<Longrightarrow> n = 0 \<or> n = 1 \<or> n = 2 \<or> n = 3 \<or> n = 4 \<or> n = 5 \<or> n = 6 \<or> n = 7"
  by auto

lemma le_bytes_bswap2: "le_bytes 2 (CRYPTO_bswap2 x) = be_bytes 2 x"
  by (auto simp: le_bytes_2 be_bytes_def CRYPTO_bswap2_def bit_eq_iff bit_simps)

lemma bit_u32_high [simp]: "32 \<le> n \<Longrightarrow> \<not> bit (x :: u32) n"
  using bit_imp_le_length [of x n] by auto

lemma bswap4_bytes:
  "ucast (CRYPTO_bswap4 x) = (ucast (drop_bit 24 x) :: u8)"
  "ucast (drop_bit 8 (CRYPTO_bswap4 x)) = (ucast (drop_bit 16 x) :: u8)"
  "ucast (drop_bit 16 (CRYPTO_bswap4 x)) = (ucast (drop_bit 8 x) :: u8)"
  "ucast (drop_bit 24 (CRYPTO_bswap4 x)) = (ucast x :: u8)"
  by (rule bit_word_eqI, drule bit_index_8, elim disjE,
      simp_all add: CRYPTO_bswap4_def Let_def bit_simps)+

lemma le_bytes_bswap4: "le_bytes 4 (CRYPTO_bswap4 x) = be_bytes 4 x"
  by (simp add: le_bytes_4 be_bytes_def bswap4_bytes)

lemma le_bytes_nth: "i < n \<Longrightarrow> le_bytes n w ! i = ucast (drop_bit (8 * i) w)"
proof (induction n arbitrary: i w)
  case (Suc n)
  then show ?case by (cases i) (simp_all add: drop_bit_drop_bit add.commute)
qed simp

lemma le_bytes_cong_bits:
  assumes "\<And>k. k < 8 * n \<Longrightarrow> bit w k \<longleftrightarrow> bit v k"
  shows "le_bytes n (w :: 'a::len word) = le_bytes n (v :: 'b::len word)"
proof (rule nth_equalityI)
  fix i assume "i < length (le_bytes n w)"
  then have "i < n" by simp
  then show "le_bytes n w ! i = le_bytes n v ! i"
    by (simp add: le_bytes_nth) (rule bit_word_eqI, simp add: bit_simps assms)
qed simp

lemma le_bytes_bswap8: "le_bytes 8 (CRYPTO_bswap8 x) = be_bytes 8 x"
proof -
  let ?hi = "ucast (drop_bit 32 x) :: u32" and ?lo = "ucast x :: u32"
  have "le_bytes 4 (CRYPTO_bswap8 x) = le_bytes 4 (CRYPTO_bswap4 ?hi)"
    by (rule le_bytes_cong_bits) (simp add: CRYPTO_bswap8_def bit_simps)
  moreover have "le_bytes 4 (drop_bit 32 (CRYPTO_bswap8 x)) = le_bytes 4 (CRYPTO_bswap4 ?lo)"
    by (rule le_bytes_cong_bits) (simp add: CRYPTO_bswap8_def bit_simps)
  moreover have "le_bytes 4 x = le_bytes 4 ?lo"
    by (rule le_bytes_cong_bits) (simp add: bit_simps)
  moreover have "le_bytes 4 (drop_bit 32 x) = le_bytes 4 ?hi"
    by (rule le_bytes_cong_bits) (simp add: bit_simps)
  moreover have "le_bytes 8 w = le_bytes 4 w @ le_bytes 4 (drop_bit 32 w)" for w :: u64
    using le_bytes_add [of 4 4 w] by simp
  ultimately show ?thesis by (simp add: be_bytes_def le_bytes_bswap4)
qed

lemma bytes_inject:
  "LENGTH('a) \<le> 8 * n \<Longrightarrow> le_bytes n w = le_bytes n (v :: 'a::len word) \<Longrightarrow> w = v"
proof -
  assume n: "LENGTH('a) \<le> 8 * n" and e: "le_bytes n w = le_bytes n v"
  have "(2::nat) ^ LENGTH('a) \<le> 256 ^ n"
    using power_increasing [OF n, of "2::nat"] by (simp add: power_mult)
  then have "unat w < 256 ^ n" "unat v < 256 ^ n"
    using unsigned_less [of w, where ?'a = nat] unsigned_less [of v, where ?'a = nat] by linarith+
  then show ?thesis using arg_cong [OF e, of le_nat]
    by (simp add: le_nat_le_bytes word_unat_eq_iff)
qed

section \<open>The getters meet the contracts\<close>

lemma be_bytes_bswap2: "be_bytes 2 (CRYPTO_bswap2 x) = le_bytes 2 x"
  and be_bytes_bswap4: "be_bytes 4 (CRYPTO_bswap4 y) = le_bytes 4 y"
  and be_bytes_bswap8: "be_bytes 8 (CRYPTO_bswap8 z) = le_bytes 8 z"
  using le_bytes_bswap2 [of x] le_bytes_bswap4 [of y] le_bytes_bswap8 [of z]
  by (simp_all add: be_bytes_def)

lemma bswap2_bswap2 [simp]: "CRYPTO_bswap2 (CRYPTO_bswap2 x) = x"
  by (rule bytes_inject [of 2]) (simp_all add: le_bytes_bswap2 be_bytes_bswap2)

lemma bswap4_bswap4 [simp]: "CRYPTO_bswap4 (CRYPTO_bswap4 x) = x"
  by (rule bytes_inject [of 4]) (simp_all add: le_bytes_bswap4 be_bytes_bswap4)

lemma bswap8_bswap8 [simp]: "CRYPTO_bswap8 (CRYPTO_bswap8 x) = x"
  by (rule bytes_inject [of 8]) (simp_all add: le_bytes_bswap8 be_bytes_bswap8)

interpretation u8_reader: consuming_reader CBS_get_u8 id
proof unfold_locales
  fix bs
  show "\<exists>n x. n \<le> length bs \<and> (\<forall>r. map_option id (fst (CBS_get_u8 (cbs_over bs r))) = x \<and>
      snd (CBS_get_u8 (cbs_over bs r)) = cbs_over (drop n bs) r)"
    by (cases bs) (auto intro: exI [of _ 1])
next
  fix c x c'
  assume "CBS_get_u8 c = (Some x, c')"
  then show "cbs_len c' < cbs_len c"
    by (auto simp: CBS_get_u8_def cbs_get_def split: if_splits)
qed

interpretation u8_codec: strict_codec CBS_get_u8 id "\<lambda>b. [b]" "\<lambda>_. True"
  by unfold_locales (auto simp: CBS_get_u8_over split: list.splits)

interpretation u16_reader: consuming_reader CBS_get_u16 id
  unfolding CBS_get_u16_def by (intro consuming_map_get consuming_cbs_get_u) simp

interpretation u24_reader: consuming_reader CBS_get_u24 id
  unfolding CBS_get_u24_def by (intro consuming_map_get consuming_cbs_get_u) simp

interpretation u32_reader: consuming_reader CBS_get_u32 id
  unfolding CBS_get_u32_def by (intro consuming_map_get consuming_cbs_get_u) simp

interpretation u64_reader: consuming_reader CBS_get_u64 id
  unfolding CBS_get_u64_def by (intro consuming_cbs_get_u) simp

interpretation u16_codec: strict_codec CBS_get_u16 id "be_bytes 2" "\<lambda>w. unat w < 256 ^ 2"
  unfolding CBS_get_u16_def by (rule strict_codec_fixed) simp_all

interpretation u24_codec: strict_codec CBS_get_u24 id "be_bytes 3" "\<lambda>w. unat w < 256 ^ 3"
  unfolding CBS_get_u24_def by (rule strict_codec_fixed) simp_all

interpretation u32_codec: strict_codec CBS_get_u32 id "be_bytes 4" "\<lambda>w. unat w < 256 ^ 4"
  unfolding CBS_get_u32_def by (rule strict_codec_fixed) simp_all

interpretation u64_codec: strict_codec CBS_get_u64 id "be_bytes 8" "\<lambda>w. unat w < 256 ^ 8"
  using strict_codec_fixed [of 8, where ?'a = 64]
  by (simp add: CBS_get_u64_def map_get_ucast_id)

interpretation u16le_codec: strict_codec CBS_get_u16le id "le_bytes 2"
    "\<lambda>w. unat (CRYPTO_bswap2 w) < 256 ^ 2"
  using strict_codec_map [OF u16_codec.strict_codec_axioms, of CRYPTO_bswap2 CRYPTO_bswap2]
  by (simp only: CBS_get_u16le_def be_bytes_bswap2 bswap2_bswap2)

interpretation u32le_codec: strict_codec CBS_get_u32le id "le_bytes 4"
    "\<lambda>w. unat (CRYPTO_bswap4 w) < 256 ^ 4"
  using strict_codec_map [OF u32_codec.strict_codec_axioms, of CRYPTO_bswap4 CRYPTO_bswap4]
  by (simp only: CBS_get_u32le_def be_bytes_bswap4 bswap4_bswap4)

interpretation u64le_codec: strict_codec CBS_get_u64le id "le_bytes 8"
    "\<lambda>w. unat (CRYPTO_bswap8 w) < 256 ^ 8"
  using strict_codec_map [OF u64_codec.strict_codec_axioms, of CRYPTO_bswap8 CRYPTO_bswap8]
  by (simp only: CBS_get_u64le_def CBS_get_u64_def be_bytes_bswap8 bswap8_bswap8)

text \<open>Length-prefixed vectors, seen as their contents.\<close>

definition length_prefixed :: "nat \<Rightarrow> bytes \<Rightarrow> bytes" where
  "length_prefixed k bs = be_bytes k (word_of_nat (length bs) :: u64) @ bs"

lemma strict_codec_length_prefixed:
  assumes "k \<le> 8"
  shows "strict_codec (cbs_get_length_prefixed k) cbs_bytes (length_prefixed k)
           (\<lambda>bs. length bs < 256 ^ k)"
proof unfold_locales
  fix y bs r
  assume y: "length (y :: bytes) < 256 ^ k"
  have "256 ^ k \<le> (256::nat) ^ 8" using assms by (intro power_increasing) auto
  then have "unat (word_of_nat (length y) :: u64) = length y"
    using y by (intro unat_word_of_nat_small) simp
  then have "be_nat (be_bytes k (word_of_nat (length y) :: u64)) = length y"
    using y by (simp add: be_nat_be_bytes)
  then show "\<exists>x. cbs_get_length_prefixed k (cbs_over (length_prefixed k y @ bs) r) =
      (Some x, cbs_over bs r) \<and> cbs_bytes x = y"
    by (simp add: cbs_get_length_prefixed_over [OF assms] length_prefixed_def)
next
  fix bs r x c'
  assume g: "cbs_get_length_prefixed k (cbs_over bs r) = (Some x, c')"
  define n where "n = be_nat (take k bs)"
  have k: "k \<le> length bs" and n: "n \<le> length (drop k bs)"
    and x: "x = cbs_over (take n (drop k bs)) (drop n (drop k bs) @ r)"
    and c': "c' = cbs_over (drop n (drop k bs)) r"
    using g by (auto simp: cbs_get_length_prefixed_over [OF assms] Let_def n_def split: if_splits)
  have lt: "n < 256 ^ k" using be_nat_less [of "take k bs"] k by (simp add: n_def min.absorb2)
  have "256 ^ k \<le> (256::nat) ^ 8" using assms by (intro power_increasing) auto
  then have "unat (word_of_nat n :: u64) = n" using lt by (intro unat_word_of_nat_small) simp
  then have "be_bytes k (word_of_nat n :: u64) = take k bs"
    using k lt by (intro be_nat_inj) (simp_all add: be_nat_be_bytes n_def min.absorb2)
  then show "length (cbs_bytes x) < 256 ^ k \<and>
      (\<exists>rest. bs = length_prefixed k (cbs_bytes x) @ rest \<and> c' = cbs_over rest r)"
    using x c' n lt append_take_drop_id [of n "drop k bs"] append_take_drop_id [of k bs]
    by (simp add: length_prefixed_def min.absorb2)
qed

interpretation u8_prefixed: strict_codec CBS_get_u8_length_prefixed cbs_bytes "length_prefixed 1"
    "\<lambda>bs. length bs < 256 ^ 1"
  unfolding CBS_get_u8_length_prefixed_def by (rule strict_codec_length_prefixed) simp

interpretation u16_prefixed: strict_codec CBS_get_u16_length_prefixed cbs_bytes "length_prefixed 2"
    "\<lambda>bs. length bs < 256 ^ 2"
  unfolding CBS_get_u16_length_prefixed_def by (rule strict_codec_length_prefixed) simp

interpretation u24_prefixed: strict_codec CBS_get_u24_length_prefixed cbs_bytes "length_prefixed 3"
    "\<lambda>bs. length bs < 256 ^ 3"
  unfolding CBS_get_u24_length_prefixed_def by (rule strict_codec_length_prefixed) simp

end
