(* ===== verification/Asn1_read.thy ===== *)
theory Asn1_read
  imports Cbs
begin

text \<open>
  The ASN.1 half of crypto/bytestring/cbs.c: tags, lengths, elements and the primitive
  types read from them.  The out parameters of an element getter are returned together,
  as the element, its tag and its header length; the functions that pass \<open>NULL\<close> for one
  of them drop that component.
\<close>

section \<open>Tags (include/openssl/bytestring.h)\<close>

abbreviation (input) CBS_ASN1_TAG_SHIFT :: nat where "CBS_ASN1_TAG_SHIFT \<equiv> 24"
definition CBS_ASN1_CONSTRUCTED :: u32 where "CBS_ASN1_CONSTRUCTED = push_bit 24 0x20"
definition CBS_ASN1_TAG_NUMBER_MASK :: u32 where
  "CBS_ASN1_TAG_NUMBER_MASK = push_bit (5 + CBS_ASN1_TAG_SHIFT) 1 - 1"

abbreviation (input) CBS_ASN1_BOOLEAN :: u32 where "CBS_ASN1_BOOLEAN \<equiv> 0x1"
abbreviation (input) CBS_ASN1_INTEGER :: u32 where "CBS_ASN1_INTEGER \<equiv> 0x2"
abbreviation (input) CBS_ASN1_BITSTRING :: u32 where "CBS_ASN1_BITSTRING \<equiv> 0x3"
abbreviation (input) CBS_ASN1_OCTETSTRING :: u32 where "CBS_ASN1_OCTETSTRING \<equiv> 0x4"

section \<open>Operations\<close>

text \<open>
  The loop of \<open>parse_base128_integer\<close>: every round consumes a byte, which is why it ends.
\<close>

function parse_base128_loop :: "u64 \<Rightarrow> u64 getter" where
  "parse_base128_loop v c =
     (case CBS_get_u8 c of
        (None, c') \<Rightarrow> (None, c')
      | (Some b, c') \<Rightarrow>
          if drop_bit (64 - 7) v \<noteq> 0 then (None, c')
          else if v = 0 \<and> b = 0x80 then (None, c')
          else
            (let v' = push_bit 7 v OR ucast (b AND 0x7f)
             in if b AND 0x80 \<noteq> 0 then parse_base128_loop v' c' else (Some v', c')))"
  by pat_completeness auto
termination
  by (relation "measure (\<lambda>(v, c). cbs_len c)")
    (auto simp: CBS_get_u8_def cbs_get_def split: if_splits)

declare parse_base128_loop.simps [simp del]

definition parse_base128_integer :: "u64 getter" where
  "parse_base128_integer = parse_base128_loop 0"

definition parse_asn1_tag :: "u32 getter" where
  "parse_asn1_tag c =
     (case CBS_get_u8 c of
        (None, c1) \<Rightarrow> (None, c1)
      | (Some tag_byte, c1) \<Rightarrow>
          (let tag = push_bit CBS_ASN1_TAG_SHIFT (ucast tag_byte AND 0xe0 :: u32);
               tag_number = ucast (tag_byte AND 0x1f) :: u32
           in if tag_number = 0x1f then
                (case parse_base128_integer c1 of
                   (None, c2) \<Rightarrow> (None, c2)
                 | (Some v, c2) \<Rightarrow>
                     if v > ucast CBS_ASN1_TAG_NUMBER_MASK \<or> v < 0x1f then (None, c2)
                     else (Some (tag OR ucast v), c2))
              else (Some (tag OR tag_number), c1)))"

definition cbs_get_any_asn1_element :: "bool \<Rightarrow> (cbs \<times> u32 \<times> nat) getter" where
  "cbs_get_any_asn1_element ber_ok c =
     (case parse_asn1_tag c of
        (None, _) \<Rightarrow> (None, c)
      | (Some tag, h1) \<Rightarrow>
       (case CBS_get_u8 h1 of
          (None, _) \<Rightarrow> (None, c)
        | (Some length_byte, h2) \<Rightarrow>
         (let header_len = CBS_len c - CBS_len h2 in
          if length_byte AND 0x80 = 0 then
            (let len = unat length_byte + header_len in
             case CBS_get_bytes len c of
               (None, c') \<Rightarrow> (None, c')
             | (Some out, c') \<Rightarrow> (Some (out, tag, header_len), c'))
          else
            (let num_bytes = unat (length_byte AND 0x7f) in
             if ber_ok \<and> tag AND CBS_ASN1_CONSTRUCTED \<noteq> 0 \<and> num_bytes = 0 then
               (case CBS_get_bytes header_len c of
                  (None, c') \<Rightarrow> (None, c')
                | (Some out, c') \<Rightarrow> (Some (out, tag, header_len), c'))
             else if num_bytes = 0 \<or> num_bytes > 4 then (None, c)
             else
               (case cbs_get_u num_bytes h2 of
                  (None, _) \<Rightarrow> (None, c)
                | (Some len64, _) \<Rightarrow>
                    if len64 < 128 then (None, c)
                    else if drop_bit ((num_bytes - 1) * 8) len64 = 0 then (None, c)
                    else
                      (let len = unat len64 in
                       if (len + header_len + num_bytes) mod size_t_mod < len then (None, c)
                       else
                         (case CBS_get_bytes (len + header_len + num_bytes) c of
                            (None, c') \<Rightarrow> (None, c')
                          | (Some out, c') \<Rightarrow>
                              (Some (out, tag, header_len + num_bytes), c'))))))))"

definition CBS_get_any_asn1_element :: "(cbs \<times> u32 \<times> nat) getter" where
  "CBS_get_any_asn1_element = cbs_get_any_asn1_element False"

definition CBS_get_any_ber_asn1_element :: "(cbs \<times> u32 \<times> nat) getter" where
  "CBS_get_any_ber_asn1_element = cbs_get_any_asn1_element True"

definition CBS_get_any_asn1 :: "(cbs \<times> u32) getter" where
  "CBS_get_any_asn1 c =
     (case CBS_get_any_asn1_element c of
        (None, c') \<Rightarrow> (None, c')
      | (Some (out, tag, header_len), c') \<Rightarrow>
          (case CBS_skip header_len out of
             (None, _) \<Rightarrow> (None, c')
           | (Some _, out') \<Rightarrow> (Some (out', tag), c')))"

definition cbs_get_asn1 :: "u32 \<Rightarrow> bool \<Rightarrow> cbs getter" where
  "cbs_get_asn1 tag_value skip_header c =
     (case CBS_get_any_asn1_element c of
        (None, c') \<Rightarrow> (None, c')
      | (Some (out, tag, header_len), c') \<Rightarrow>
          if tag \<noteq> tag_value then (None, c')
          else if skip_header then
            (case CBS_skip header_len out of
               (None, _) \<Rightarrow> (None, c')
             | (Some _, out') \<Rightarrow> (Some out', c'))
          else (Some out, c'))"

definition CBS_get_asn1 :: "u32 \<Rightarrow> cbs getter" where
  "CBS_get_asn1 tag_value = cbs_get_asn1 tag_value True"

definition CBS_get_asn1_element :: "u32 \<Rightarrow> cbs getter" where
  "CBS_get_asn1_element tag_value = cbs_get_asn1 tag_value False"

definition CBS_peek_asn1_tag :: "cbs \<Rightarrow> u32 \<Rightarrow> bool" where
  "CBS_peek_asn1_tag c tag_value =
     (if CBS_len c < 1 then False
      else (case parse_asn1_tag c of
              (None, _) \<Rightarrow> False
            | (Some actual_tag, _) \<Rightarrow> tag_value = actual_tag))"

text \<open>INTEGER, as unsigned and as signed 64-bit values.\<close>

fun asn1_uint64_loop :: "u64 \<Rightarrow> bytes \<Rightarrow> nat \<Rightarrow> nat \<Rightarrow> u64 option" where
  "asn1_uint64_loop out data i 0 = Some out"
| "asn1_uint64_loop out data i (Suc n) =
     (if drop_bit 56 out \<noteq> 0 then None
      else asn1_uint64_loop (push_bit 8 out OR ucast (data ! i)) data (Suc i) n)"

definition CBS_get_asn1_uint64 :: "u64 getter" where
  "CBS_get_asn1_uint64 c =
     (case CBS_get_asn1 CBS_ASN1_INTEGER c of
        (None, c') \<Rightarrow> (None, c')
      | (Some b, c') \<Rightarrow>
          (let data = CBS_data b; len = CBS_len b in
           if len = 0 then (None, c')
           else if data ! 0 AND 0x80 \<noteq> 0 then (None, c')
           else if data ! 0 = 0 \<and> len > 1 \<and> data ! 1 AND 0x80 = 0 then (None, c')
           else (asn1_uint64_loop 0 data 0 len, c')))"

text \<open>
  \<open>CBS_get_asn1_int64\<close> fills the bytes of a union, least significant first, and reads it
  back as an \<open>int64_t\<close>; the result here is its bit pattern, whose value is \<open>sint\<close>.
\<close>

definition CBS_get_asn1_int64 :: "u64 getter" where
  "CBS_get_asn1_int64 c =
     (case CBS_get_asn1 CBS_ASN1_INTEGER c of
        (None, c') \<Rightarrow> (None, c')
      | (Some b, c') \<Rightarrow>
          (let data = CBS_data b; len = CBS_len b in
           if len = 0 \<or> len > 8 then (None, c')
           else if len > 1 \<and> data ! 0 = 0 \<and> data ! 1 AND 0x80 = 0 then (None, c')
           else if len > 1 \<and> data ! 0 = 0xff \<and> data ! 1 AND 0x80 \<noteq> 0 then (None, c')
           else
             (let u0 = replicate 8 (if data ! 0 AND 0x80 \<noteq> 0 then 0xff else 0);
                  u = foldl (\<lambda>u i. u[i := data ! (len - i - 1)]) u0 [0..<len]
              in (Some (le_word u), c'))))"

definition CBS_get_asn1_bool :: "bool getter" where
  "CBS_get_asn1_bool c =
     (case CBS_get_asn1 CBS_ASN1_BOOLEAN c of
        (None, c') \<Rightarrow> (None, c')
      | (Some b, c') \<Rightarrow>
          if CBS_len b \<noteq> 1 then (None, c')
          else
            (let v = CBS_data b ! 0 in
             if v \<noteq> 0 \<and> v \<noteq> 0xff then (None, c') else (Some (v \<noteq> 0), c')))"

text \<open>
  Optional elements: \<open>Some (Some x)\<close> is a present element, \<open>Some None\<close> an absent one
  (\<open>*out_present\<close> is 0 and \<open>out\<close> is not written).
\<close>

definition CBS_get_optional_asn1 :: "u32 \<Rightarrow> cbs option getter" where
  "CBS_get_optional_asn1 tag c =
     (if CBS_peek_asn1_tag c tag then
        (case CBS_get_asn1 tag c of
           (None, c') \<Rightarrow> (None, c')
         | (Some out, c') \<Rightarrow> (Some (Some out), c'))
      else (Some None, c))"

definition CBS_get_optional_asn1_octet_string :: "u32 \<Rightarrow> (cbs \<times> bool) getter" where
  "CBS_get_optional_asn1_octet_string tag c =
     (case CBS_get_optional_asn1 tag c of
        (None, c') \<Rightarrow> (None, c')
      | (Some None, c') \<Rightarrow> (Some (CBS_init [] 0, False), c')
      | (Some (Some child), c') \<Rightarrow>
          (case CBS_get_asn1 CBS_ASN1_OCTETSTRING child of
             (None, _) \<Rightarrow> (None, c')
           | (Some out, child') \<Rightarrow>
               if CBS_len child' \<noteq> 0 then (None, c') else (Some (out, True), c')))"

definition CBS_get_optional_asn1_uint64 :: "u32 \<Rightarrow> u64 \<Rightarrow> u64 getter" where
  "CBS_get_optional_asn1_uint64 tag default_value c =
     (case CBS_get_optional_asn1 tag c of
        (None, c') \<Rightarrow> (None, c')
      | (Some None, c') \<Rightarrow> (Some default_value, c')
      | (Some (Some child), c') \<Rightarrow>
          (case CBS_get_asn1_uint64 child of
             (None, _) \<Rightarrow> (None, c')
           | (Some out, child') \<Rightarrow>
               if CBS_len child' \<noteq> 0 then (None, c') else (Some out, c')))"

definition CBS_get_optional_asn1_bool :: "u32 \<Rightarrow> int \<Rightarrow> int getter" where
  "CBS_get_optional_asn1_bool tag default_value c =
     (case CBS_get_optional_asn1 tag c of
        (None, c') \<Rightarrow> (None, c')
      | (Some None, c') \<Rightarrow> (Some default_value, c')
      | (Some (Some child), c') \<Rightarrow>
          (case CBS_get_asn1 CBS_ASN1_BOOLEAN child of
             (None, _) \<Rightarrow> (None, c')
           | (Some child2, child') \<Rightarrow>
               if CBS_len child2 \<noteq> 1 \<or> CBS_len child' \<noteq> 0 then (None, c')
               else
                 (let boolean = CBS_data child2 ! 0 in
                  if boolean = 0 then (Some 0, c')
                  else if boolean = 0xff then (Some 1, c')
                  else (None, c'))))"

text \<open>BIT STRING contents.\<close>

definition CBS_is_valid_asn1_bitstring :: "cbs \<Rightarrow> bool" where
  "CBS_is_valid_asn1_bitstring c =
     (case CBS_get_u8 c of
        (None, _) \<Rightarrow> False
      | (Some num_unused_bits, in1) \<Rightarrow>
          if num_unused_bits > 7 then False
          else if num_unused_bits = 0 then True
          else
            (case CBS_get_last_u8 in1 of
               (None, _) \<Rightarrow> False
             | (Some last_byte, _) \<Rightarrow>
                 (ucast last_byte :: u32) AND (push_bit (unat num_unused_bits) 1 - 1) = 0))"

definition CBS_asn1_bitstring_has_bit :: "cbs \<Rightarrow> u32 \<Rightarrow> bool" where
  "CBS_asn1_bitstring_has_bit c k =
     (if \<not> CBS_is_valid_asn1_bitstring c then False
      else
        (let byte_num = drop_bit 3 k + 1; bit_num = 7 - (k AND 7)
         in unat byte_num < CBS_len c \<and>
            (ucast (CBS_data c ! unat byte_num) :: u32) AND push_bit (unat bit_num) 1 \<noteq> 0))"

end
