(* ===== verification/Der.thy ===== *)
theory Der
  imports Asn1_read
begin

text \<open>
  The encoding the reader of \<open>Asn1_read\<close> accepts, stated on its own: X.690's identifier
  and length octets for DER, on natural numbers and byte lists.  \<open>parse_asn1_tag\<close>,
  \<open>parse_base128_integer\<close> and \<open>CBS_get_any_asn1_element\<close> are shown to be strict decoders
  of it: they accept exactly these encodings.
\<close>

section \<open>Base-128 integers\<close>

function b128_hi :: "nat \<Rightarrow> bytes" where
  "b128_hi n = (if n = 0 then [] else b128_hi (n div 128) @ [word_of_nat (n mod 128 + 128)])"
  by pat_completeness auto
termination
  by (relation "measure id") auto

declare b128_hi.simps [simp del]

lemma b128_hi_0 [simp]: "b128_hi 0 = []"
  by (simp add: b128_hi.simps)

lemma b128_hi_pos: "0 < n \<Longrightarrow> b128_hi n = b128_hi (n div 128) @ [word_of_nat (n mod 128 + 128)]"
  by (subst b128_hi.simps) simp

definition b128 :: "nat \<Rightarrow> bytes" where
  "b128 n = b128_hi (n div 128) @ [word_of_nat (n mod 128)]"

lemma b128_nonempty [simp]: "b128 n \<noteq> []"
  by (simp add: b128_def)

lemma mask_7: "(0x7f :: 'a::len word) = mask 7"
  by (simp add: mask_numeral)

text \<open>One round of the decoder, on numbers.\<close>

lemma base128_step:
  assumes "drop_bit (64 - 7) v = (0 :: u64)"
  shows "unat (push_bit 7 v OR ucast ((b :: u8) AND 0x7f)) = unat v * 128 + unat b mod 128"
proof -
  have "unat v div 2 ^ 57 = 0"
    using arg_cong [OF assms, of unat] by (simp add: unat_drop_bit)
  then have v: "unat v < 2 ^ 57" by (simp add: div_eq_0_iff)
  have b: "unat (ucast (b AND 0x7f) :: u64) = unat b mod 128"
    by (simp add: mask_7 unat_and_mask)
  have "unat v * 2 ^ 7 + unat b mod 128 < 2 ^ 64"
    using v by (simp add: algebra_simps)
  then show ?thesis
    using unat_shift_or [of "ucast (b AND 0x7f)" 7 v] b by simp
qed

lemma parse_base128_loop_over:
  "parse_base128_loop v (cbs_over bs r) =
     (case bs of [] \<Rightarrow> (None, cbs_over [] r)
      | b # bs' \<Rightarrow>
         if drop_bit (64 - 7) v \<noteq> 0 then (None, cbs_over bs' r)
         else if v = 0 \<and> b = 0x80 then (None, cbs_over bs' r)
         else (let v' = push_bit 7 v OR ucast (b AND 0x7f)
               in if 128 \<le> unat b then parse_base128_loop v' (cbs_over bs' r)
                  else (Some v', cbs_over bs' r)))"
  by (subst parse_base128_loop.simps) (simp add: msb_u8_iff Let_def split: list.split)

lemma parse_base128_round:
  assumes "drop_bit (64 - 7) v = 0" and "\<not> (v = 0 \<and> b = 0x80)"
  shows "parse_base128_loop v (cbs_over (b # bs) r) =
    (let v' = push_bit 7 v OR ucast (b AND 0x7f)
     in if 128 \<le> unat b then parse_base128_loop v' (cbs_over bs r) else (Some v', cbs_over bs r))"
  using assms by (subst parse_base128_loop_over) auto

lemma drop_57_iff: "drop_bit 57 v = (0 :: u64) \<longleftrightarrow> unat v < 2 ^ 57"
proof -
  have "drop_bit 57 v = 0 \<longleftrightarrow> unat (drop_bit 57 v) = 0" by (simp add: unat_eq_0)
  also have "\<dots> \<longleftrightarrow> unat v < 2 ^ 57" by (simp add: unat_drop_bit div_eq_0_iff)
  finally show ?thesis by simp
qed

lemma parse_base128_hi:
  "n < 2 ^ 64 \<Longrightarrow>
   parse_base128_loop 0 (cbs_over (b128_hi n @ ys) r) =
   parse_base128_loop (word_of_nat n) (cbs_over ys r)"
proof (induction n arbitrary: ys rule: b128_hi.induct)
  case (1 n)
  show ?case
  proof (cases "n = 0")
    case False
    define b :: u8 where "b = word_of_nat (n mod 128 + 128)"
    let ?b = b and ?v = "word_of_nat (n div 128) :: u64"
    have b: "unat ?b = n mod 128 + 128" unfolding b_def by (rule unat_word_of_nat_small) simp
    have v: "unat ?v = n div 128" using "1.prems" by (intro unat_word_of_nat_small) simp
    have d: "drop_bit (64 - 7) ?v = 0" using "1.prems" by (simp add: drop_57_iff v)
    have "\<not> (?v = 0 \<and> ?b = 0x80)"
    proof
      assume "?v = 0 \<and> ?b = 0x80"
      then have "n div 128 = 0" "n mod 128 = 0" using v b by auto
      then show False using False by simp
    qed
    moreover have "push_bit 7 ?v OR ucast (?b AND 0x7f) = word_of_nat n"
      using base128_step [OF d, of ?b] "1.prems"
      by (simp add: word_unat_eq_iff b v unat_word_of_nat_small)
    ultimately have "parse_base128_loop ?v (cbs_over (?b # ys) r) =
        parse_base128_loop (word_of_nat n) (cbs_over ys r)"
      using d by (subst parse_base128_round) (simp_all add: b Let_def)
    then show ?thesis
      using False "1.IH" "1.prems" by (subst b128_hi_pos) (simp_all add: b_def)
  qed simp
qed

lemma parse_base128_complete:
  assumes "n < 2 ^ 64"
  shows "parse_base128_integer (cbs_over (b128 n @ ys) r) = (Some (word_of_nat n), cbs_over ys r)"
proof -
  define b :: u8 where "b = word_of_nat (n mod 128)"
  let ?b = b and ?v = "word_of_nat (n div 128) :: u64"
  have b: "unat ?b = n mod 128" unfolding b_def by (rule unat_word_of_nat_small) simp
  have v: "unat ?v = n div 128" using assms by (intro unat_word_of_nat_small) simp
  have d: "drop_bit (64 - 7) ?v = 0" using assms by (simp add: drop_57_iff v)
  have "push_bit 7 ?v OR ucast (?b AND 0x7f) = word_of_nat n"
    using base128_step [OF d, of ?b] assms
    by (simp add: word_unat_eq_iff b v unat_word_of_nat_small)
  moreover have "\<not> 128 \<le> unat ?b" by (simp add: b not_le)
  moreover from this have "?b \<noteq> 0x80" by auto
  ultimately have "parse_base128_loop ?v (cbs_over (?b # ys) r) = (Some (word_of_nat n), cbs_over ys r)"
    using d by (subst parse_base128_round) (simp_all add: Let_def)
  then show ?thesis
    using assms by (simp add: parse_base128_integer_def b128_def parse_base128_hi b_def)
qed

lemma u8_high_half: "128 \<le> unat b \<Longrightarrow> unat b = unat b mod 128 + 128" for b :: u8
proof -
  assume "128 \<le> unat b"
  then obtain k where k: "unat b = 128 + k" using le_Suc_ex by blast
  then have "k < 128" using unat_u8_lt [of b] by linarith
  with k show ?thesis by simp
qed

lemma parse_base128_sound:
  "parse_base128_loop v (cbs_over bs r) = (Some w, c') \<Longrightarrow>
   \<exists>ys rest. bs = ys @ rest \<and> c' = cbs_over rest r \<and> b128 (unat w) = b128_hi (unat v) @ ys"
proof (induction bs arbitrary: v)
  case Nil
  then show ?case by (simp add: parse_base128_loop_over)
next
  case (Cons b bs)
  let ?v' = "push_bit 7 v OR ucast (b AND 0x7f)"
  have d: "drop_bit (64 - 7) v = 0" and nz: "\<not> (v = 0 \<and> b = 0x80)"
    using Cons.prems by (auto simp: parse_base128_loop_over [of v] split: if_splits)
  have v': "unat ?v' = unat v * 128 + unat b mod 128" by (rule base128_step [OF d])
  show ?case
  proof (cases "128 \<le> unat b")
    case True
    have "parse_base128_loop ?v' (cbs_over bs r) = (Some w, c')"
      using Cons.prems by (simp only: parse_base128_round [OF d nz] Let_def True if_True)
    then obtain ys rest where ys: "bs = ys @ rest" "c' = cbs_over rest r"
      "b128 (unat w) = b128_hi (unat ?v') @ ys" using Cons.IH by blast
    have b: "unat b = unat b mod 128 + 128"
      using True by (rule u8_high_half)
    have "0 < unat ?v'"
    proof (rule ccontr)
      assume "\<not> 0 < unat ?v'"
      then have "unat v = 0" and u: "unat b = 128" using v' b by simp_all
      then have "v = 0" by (simp add: unat_eq_0)
      moreover have "b = 0x80" using u by (simp add: word_unat_eq_iff)
      ultimately show False using nz by blast
    qed
    then have "b128_hi (unat ?v') = b128_hi (unat v) @ [word_of_nat (unat b mod 128 + 128)]"
      by (simp add: b128_hi_pos v')
    then have "b128_hi (unat ?v') = b128_hi (unat v) @ [b]" using b by simp
    then show ?thesis using ys by (intro exI [of _ "b # ys"] exI [of _ rest]) simp
  next
    case False
    then have w: "w = ?v'" and "c' = cbs_over bs r"
      using Cons.prems unfolding parse_base128_round [OF d nz] Let_def by simp_all
    moreover have "b128 (unat ?v') = b128_hi (unat v) @ [b]"
      using False by (simp add: b128_def v')
    ultimately show ?thesis by (intro exI [of _ "[b]"] exI [of _ bs]) simp
  qed
qed

interpretation base128_codec: strict_codec parse_base128_integer id "\<lambda>w. b128 (unat w)" "\<lambda>_. True"
proof unfold_locales
  fix y :: u64 and bs r
  show "\<exists>x. parse_base128_integer (cbs_over (b128 (unat y) @ bs) r) = (Some x, cbs_over bs r) \<and> id x = y"
    using parse_base128_complete [of "unat y" bs r] unsigned_less [of y, where ?'a = nat] by simp
next
  fix bs r x c'
  assume "parse_base128_integer (cbs_over bs r) = (Some x, c')"
  then show "True \<and> (\<exists>rest. bs = b128 (unat (id x)) @ rest \<and> c' = cbs_over rest r)"
    using parse_base128_sound [of 0 bs r x c'] by (auto simp: parse_base128_integer_def)
qed

section \<open>Identifier octets\<close>

definition der_tag :: "u32 \<Rightarrow> bytes" where
  "der_tag tag =
     (let number = unat tag mod 2 ^ 29; class_bits = (unat tag div 2 ^ 29) * 32
      in if number < 31 then [word_of_nat (class_bits + number)]
         else word_of_nat (class_bits + 31) # b128 number)"

lemma der_tag_nonempty [simp]: "der_tag t \<noteq> []"
  by (simp add: der_tag_def Let_def)

text \<open>A tag byte is three class and constructed bits over five number bits.\<close>

lemma tag_byte_class: "unat (b AND 0xe0 :: u8) = unat b div 32 * 32"
  by (rule u8_by_enumeration) code_simp

lemma tag_byte_number: "unat (b AND 0x1f :: u8) = unat b mod 32"
  by (rule u8_by_enumeration) code_simp

lemma tag_number_mask: "CBS_ASN1_TAG_NUMBER_MASK = mask 29"
  by (simp add: CBS_ASN1_TAG_NUMBER_MASK_def mask_eq_exp_minus_1 push_bit_eq_mult)

lemma tag_word_value:
  assumes "unat (x :: u32) < 2 ^ 29"
  shows "unat (push_bit CBS_ASN1_TAG_SHIFT (ucast b AND 0xe0) OR x) =
         unat (b :: u8) div 32 * 2 ^ 29 + unat x"
proof -
  have "unat (ucast b AND 0xe0 :: u32) = unat (b AND 0xe0)"
    by (simp add: unsigned_and_eq)
  then have c: "unat (ucast b AND 0xe0 :: u32) = unat b div 32 * 32"
    using tag_byte_class [of b] by simp
  have q: "unat b div 32 < 8" by (rule less_mult_imp_div_less) simp
  have "push_bit CBS_ASN1_TAG_SHIFT (ucast b AND 0xe0) = push_bit 29 (word_of_nat (unat b div 32) :: u32)"
    using q by (simp only: word_unat_eq_iff unat_push_bit c) (simp add: unat_word_of_nat_small)
  then show ?thesis
    using unat_shift_or [of x 29 "word_of_nat (unat b div 32)"] assms q
    by (simp add: unat_word_of_nat_small)
qed

lemma tag_value_bound: "x < 2 ^ 29 \<Longrightarrow> unat (b :: u8) div 32 * 2 ^ 29 + x < 2 ^ 32"
proof -
  assume "x < 2 ^ 29"
  moreover have "unat b div 32 \<le> 7"
    using less_mult_imp_div_less [of "unat b" 8 32] by simp
  then have "unat b div 32 * 2 ^ 29 \<le> 7 * 2 ^ 29" by (rule mult_right_mono) simp
  ultimately show ?thesis by simp
qed

lemma tag_word_eq:
  assumes "unat (x :: u32) < 2 ^ 29"
  shows "push_bit CBS_ASN1_TAG_SHIFT (ucast b AND 0xe0) OR x =
         word_of_nat (unat (b :: u8) div 32 * 2 ^ 29 + unat x)"
  by (simp only: word_unat_eq_iff tag_word_value [OF assms])
    (rule unat_word_of_nat_small [symmetric], use tag_value_bound [OF assms, of b] in simp)

lemma parse_asn1_tag_over:
  "parse_asn1_tag (cbs_over bs r) =
     (case bs of [] \<Rightarrow> (None, cbs_over [] r)
      | b # bs' \<Rightarrow>
         if unat b mod 32 = 31 then
           (case parse_base128_integer (cbs_over bs' r) of
              (None, c2) \<Rightarrow> (None, c2)
            | (Some v, c2) \<Rightarrow>
                if 2 ^ 29 \<le> unat v \<or> unat v < 31 then (None, c2)
                else (Some (word_of_nat (unat b div 32 * 2 ^ 29 + unat v)), c2))
         else (Some (word_of_nat (unat b div 32 * 2 ^ 29 + unat b mod 32)), cbs_over bs' r))"
proof (cases bs)
  case (Cons b bs')
  have n: "unat (ucast (b AND 0x1f) :: u32) = unat b mod 32"
    by (simp add: tag_byte_number)
  then have is31: "(ucast (b AND 0x1f) :: u32) = 0x1f \<longleftrightarrow> unat b mod 32 = 31"
    by (simp add: word_unat_eq_iff)
  have short: "push_bit CBS_ASN1_TAG_SHIFT (ucast b AND 0xe0) OR ucast (b AND 0x1f) =
      (word_of_nat (unat b div 32 * 2 ^ 29 + unat b mod 32) :: u32)"
  proof -
    have "unat b mod 32 < 2 ^ 29" by (rule less_trans [of _ 32]) simp_all
    then show ?thesis using tag_word_eq [of "ucast (b AND 0x1f)" b] n by simp
  qed
  have range: "v > ucast CBS_ASN1_TAG_NUMBER_MASK \<or> v < 0x1f \<longleftrightarrow> 2 ^ 29 \<le> unat v \<or> unat v < 31"
    for v :: u64
    by (auto simp: tag_number_mask mask_numeral word_less_nat_alt)
  have long: "push_bit CBS_ASN1_TAG_SHIFT (ucast b AND 0xe0) OR ucast v =
      (word_of_nat (unat b div 32 * 2 ^ 29 + unat v) :: u32)" if "unat v < 2 ^ 29" for v :: u64
    using that tag_word_eq [of "ucast v" b] by (simp add: unat_ucast)
  obtain v c2 where p: "parse_base128_integer (cbs_over bs' r) = (v, c2)" by fastforce
  have "(if 2 ^ 29 \<le> unat w \<or> unat w < 31 then (None, c2)
      else (Some (push_bit CBS_ASN1_TAG_SHIFT (ucast b AND 0xe0) OR (ucast w :: u32)), c2)) =
    (if 2 ^ 29 \<le> unat w \<or> unat w < 31 then (None, c2)
      else (Some (word_of_nat (unat b div 32 * 2 ^ 29 + unat w)), c2))" for w :: u64
    using long [of w] by (cases "2 ^ 29 \<le> unat w") (simp_all only: not_le simp_thms if_True)
  then show ?thesis
    by (cases v) (simp_all only: Cons parse_asn1_tag_def CBS_get_u8_Cons Let_def prod.case
        option.case list.case is31 short range p)
qed (simp add: parse_asn1_tag_def)

lemma der_tag_of_parts:
  assumes "q < 8" and "x < 2 ^ 29"
  shows "der_tag (word_of_nat (q * 2 ^ 29 + x)) =
    (if x < 31 then [word_of_nat (q * 32 + x)] else word_of_nat (q * 32 + 31) # b128 x)"
proof -
  have "q * 2 ^ 29 \<le> 7 * 2 ^ 29" by (rule mult_right_mono) (use assms(1) in auto)
  then have "unat (word_of_nat (q * 2 ^ 29 + x) :: u32) = q * 2 ^ 29 + x"
    using assms(2) by (intro unat_word_of_nat_small) simp
  then show ?thesis using assms(2) by (simp add: der_tag_def Let_def)
qed

interpretation tag_codec: strict_codec parse_asn1_tag id der_tag "\<lambda>_. True"
proof unfold_locales
  fix y :: u32 and bs r
  define q where "q = unat y div 2 ^ 29"
  define x where "x = unat y mod 2 ^ 29"
  have q: "q < 8"
    using less_mult_imp_div_less [of "unat y" 8 "2 ^ 29"] unsigned_less [of y, where ?'a = nat]
    by (simp add: q_def)
  have x: "x < 2 ^ 29" by (simp add: x_def)
  have y: "y = word_of_nat (q * 2 ^ 29 + x)"
    by (simp only: q_def x_def div_mult_mod_eq) simp
  have by1: "unat (word_of_nat (q * 32 + z) :: u8) = q * 32 + z" if "z < 32" for z
    using that q by (intro unat_word_of_nat_small) simp
  have dy: "der_tag y =
      (if x < 31 then [word_of_nat (q * 32 + x)] else word_of_nat (q * 32 + 31) # b128 x)"
    using der_tag_of_parts [OF q x] by (simp only: y [symmetric])
  show "\<exists>z. parse_asn1_tag (cbs_over (der_tag y @ bs) r) = (Some z, cbs_over bs r) \<and> id z = y"
  proof (cases "x < 31")
    case True
    then show ?thesis
      using by1 [of x] unfolding dy by (simp add: parse_asn1_tag_over y del: of_nat_add of_nat_mult)
  next
    case False
    have "parse_base128_integer (cbs_over (b128 x @ bs) r) = (Some (word_of_nat x), cbs_over bs r)"
      using x by (intro parse_base128_complete) simp
    moreover have "unat (word_of_nat x :: u64) = x"
      using x by (intro unat_word_of_nat_small) simp
    ultimately show ?thesis
      using False by1 [of 31] x unfolding dy
      by (simp add: parse_asn1_tag_over y del: of_nat_add of_nat_mult)
  qed
next
  fix bs r z c'
  assume p: "parse_asn1_tag (cbs_over bs r) = (Some z, c')"
  then obtain b bs' where bs: "bs = b # bs'" by (cases bs) (auto simp: parse_asn1_tag_over)
  have q: "unat b div 32 < 8" by (rule less_mult_imp_div_less) simp
  have b: "word_of_nat (unat b div 32 * 32 + unat b mod 32) = b"
    by (simp only: div_mult_mod_eq) simp
  show "True \<and> (\<exists>rest. bs = der_tag (id z) @ rest \<and> c' = cbs_over rest r)"
  proof (cases "unat b mod 32 = 31")
    case False
    then have small: "unat b mod 32 < 31"
      using mod_less_divisor [of 32 "unat b"] by linarith
    have "z = word_of_nat (unat b div 32 * 2 ^ 29 + unat b mod 32)" "c' = cbs_over bs' r"
      using p False by (auto simp: bs parse_asn1_tag_over)
    moreover have "unat b mod 32 < 2 ^ 29" using small by simp
    ultimately show ?thesis
      using q small b by (simp only: der_tag_of_parts id_apply if_True bs) simp
  next
    case True
    then obtain v where v: "parse_base128_integer (cbs_over bs' r) = (Some v, c')"
      and vr: "\<not> (2 ^ 29 \<le> unat v \<or> unat v < 31)"
      and z: "z = word_of_nat (unat b div 32 * 2 ^ 29 + unat v)"
      using p by (auto simp: bs parse_asn1_tag_over split: prod.splits option.splits if_splits)
    obtain rest where "bs' = b128 (unat v) @ rest" "c' = cbs_over rest r"
      using base128_codec.canonical [OF v] by auto
    moreover have "der_tag z = b # b128 (unat v)"
      using vr b True der_tag_of_parts [OF q, of "unat v"] by (simp add: z del: of_nat_add of_nat_mult)
    ultimately show ?thesis by (simp add: bs)
  qed
qed

function be_min :: "nat \<Rightarrow> bytes" where
  "be_min n = (if n = 0 then [] else be_min (n div 256) @ [word_of_nat (n mod 256)])"
  by pat_completeness auto
termination
  by (relation "measure id") auto

declare be_min.simps [simp del]

lemma be_min_0 [simp]: "be_min 0 = []"
  by (simp add: be_min.simps)

lemma be_min_pos: "0 < n \<Longrightarrow> be_min n = be_min (n div 256) @ [word_of_nat (n mod 256)]"
  by (subst be_min.simps) simp

lemma be_nat_be_min: "be_nat (be_min n) = n"
proof (induction n rule: be_min.induct)
  case (1 n)
  have "unat (word_of_nat (n mod 256) :: u8) = n mod 256"
    by (rule unat_word_of_nat_small) simp
  then show ?case using 1 by (cases "n = 0") (simp_all add: be_min_pos be_nat_snoc)
qed

lemma be_min_be_nat: "bs = [] \<or> hd bs \<noteq> 0 \<Longrightarrow> be_min (be_nat bs) = bs"
proof (induction bs rule: rev_induct)
  case (snoc b bs)
  have lt: "unat b < 256" by simp
  have pos: "0 < be_nat (bs @ [b])"
  proof (cases bs)
    case Nil
    then show ?thesis using snoc.prems by (simp add: be_nat_Cons unat_gt_0)
  next
    case (Cons a as)
    then have "0 < unat a" using snoc.prems by (simp add: unat_gt_0)
    then show ?thesis using Cons by (simp add: be_nat_snoc be_nat_Cons)
  qed
  have "be_nat (bs @ [b]) div 256 = be_nat bs" "be_nat (bs @ [b]) mod 256 = unat b"
    using lt by (simp_all add: be_nat_snoc)
  moreover have "be_min (be_nat bs) = bs" using snoc by (cases bs) auto
  ultimately show ?case using pos by (simp add: be_min_pos)
qed simp

lemma be_min_nonzero: "0 < n \<Longrightarrow> be_min n \<noteq> [] \<and> hd (be_min n) \<noteq> 0"
proof (induction n rule: be_min.induct)
  case (1 n)
  show ?case
  proof (cases "n div 256 = 0")
    case True
    then have "n < 256" by (simp add: div_eq_0_iff)
    then have "unat (word_of_nat n :: u8) = n" by (intro unat_word_of_nat_small) simp
    with 1 True \<open>n < 256\<close> show ?thesis by (auto simp: be_min_pos)
  next
    case False
    with 1 show ?thesis by (simp add: be_min_pos [of n] hd_append)
  qed
qed

lemma hd_nonzero_iff_be_nat:
  "bs \<noteq> [] \<Longrightarrow> hd bs \<noteq> 0 \<longleftrightarrow> 256 ^ (length bs - 1) \<le> be_nat bs"
proof (cases bs)
  case (Cons b as)
  have "be_nat as < 256 ^ length as" by (rule be_nat_less)
  moreover have "hd bs \<noteq> 0 \<longleftrightarrow> 1 \<le> unat b"
    using Cons unat_gt_0 [of b] by auto
  moreover have "1 \<le> unat b \<longleftrightarrow> 1 * 256 ^ length as \<le> unat b * 256 ^ length as"
    by simp
  moreover have "unat b * 256 ^ length as = 0" if "unat b = 0" using that by simp
  ultimately show ?thesis
    using Cons by (cases "unat b = 0") (simp_all add: be_nat_Cons trans_le_add1)
qed simp

lemma length_be_min_le: "n < 256 ^ k \<Longrightarrow> length (be_min n) \<le> k"
proof (cases "n = 0")
  case False
  assume "n < 256 ^ k"
  moreover have "256 ^ (length (be_min n) - 1) \<le> n"
    using be_min_nonzero [of n] False hd_nonzero_iff_be_nat [of "be_min n"]
    by (simp add: be_nat_be_min)
  ultimately have "(256::nat) ^ (length (be_min n) - 1) < 256 ^ k" by linarith
  then have "length (be_min n) - 1 < k" by (rule power_less_imp_less_exp [rotated]) simp
  then show ?thesis by linarith
qed simp

section \<open>Length octets and elements\<close>

definition der_length :: "nat \<Rightarrow> bytes" where
  "der_length n =
     (if n < 128 then [word_of_nat n]
      else word_of_nat (128 + length (be_min n)) # be_min n)"

definition der_header :: "u32 \<Rightarrow> nat \<Rightarrow> bytes" where
  "der_header tag n = der_tag tag @ der_length n"

definition der_element :: "u32 \<Rightarrow> bytes \<Rightarrow> bytes" where
  "der_element tag body = der_header tag (length body) @ body"

lemma der_length_nonempty [simp]: "der_length n \<noteq> []"
  by (simp add: der_length_def)

lemma der_element_nonempty [simp]: "der_element t body \<noteq> []"
  by (simp add: der_element_def der_header_def)

lemma msb_zero_iff: "b AND 0x80 = 0 \<longleftrightarrow> unat (b :: u8) < 128"
  using msb_u8_iff [of b] by auto

text \<open>The element getter, over explicit bytes.\<close>

lemma any_element_over:
  "cbs_get_any_asn1_element ber_ok (cbs_over bs r) =
   (case parse_asn1_tag (cbs_over bs r) of
      (None, _) \<Rightarrow> (None, cbs_over bs r)
    | (Some tag, h1) \<Rightarrow>
     (case CBS_get_u8 h1 of
        (None, _) \<Rightarrow> (None, cbs_over bs r)
      | (Some lb, h2) \<Rightarrow>
        (let hl = length bs - cbs_len h2; k = unat lb mod 128 in
         if unat lb < 128 then
           map_get (\<lambda>out. (out, tag, hl)) (CBS_get_bytes (unat lb + hl)) (cbs_over bs r)
         else if ber_ok \<and> tag AND CBS_ASN1_CONSTRUCTED \<noteq> 0 \<and> k = 0 then
           map_get (\<lambda>out. (out, tag, hl)) (CBS_get_bytes hl) (cbs_over bs r)
         else if k = 0 \<or> k > 4 then (None, cbs_over bs r)
         else
          (case cbs_get_u k h2 of
             (None, _) \<Rightarrow> (None, cbs_over bs r)
           | (Some n, _) \<Rightarrow>
               if unat n < 128 \<or> unat n < 256 ^ (k - 1) \<or>
                  (unat n + hl + k) mod size_t_mod < unat n then (None, cbs_over bs r)
               else
                 map_get (\<lambda>out. (out, tag, hl + k)) (CBS_get_bytes (unat n + hl + k))
                   (cbs_over bs r)))))"
proof -
  have k: "unat (lb AND 0x7f) = unat lb mod 128" for lb :: u8
    by (simp add: mask_7 unat_and_mask)
  have d: "drop_bit (j * 8) n = 0 \<longleftrightarrow> unat n < 256 ^ j" for n :: u64 and j
  proof -
    have "drop_bit (j * 8) n = 0 \<longleftrightarrow> unat (drop_bit (j * 8) n) = 0" by (simp add: unat_eq_0)
    also have "\<dots> \<longleftrightarrow> unat n < 2 ^ (j * 8)" by (simp add: unat_drop_bit div_eq_0_iff)
    also have "(2::nat) ^ (j * 8) = 256 ^ j" by (simp add: power_mult mult.commute [of j])
    finally show ?thesis .
  qed
  have l: "n < 128 \<longleftrightarrow> unat n < 128" for n :: u64 by (simp add: word_less_nat_alt)
  show ?thesis
    unfolding cbs_get_any_asn1_element_def k d l msb_zero_iff CBS_len_over map_get_def
    by (auto simp: Let_def CBS_len_def split: prod.split option.split)
qed

lemma parse_asn1_tag_der [simp]:
  "parse_asn1_tag (cbs_over (der_tag t @ bs) r) = (Some t, cbs_over bs r)"
  using tag_codec.decodes [of t bs r] by simp

lemma length_b128_hi: "n < 128 ^ j \<Longrightarrow> length (b128_hi n) \<le> j"
proof (induction j arbitrary: n)
  case (Suc j)
  show ?case
  proof (cases "n = 0")
    case False
    have "n div 128 < 128 ^ j" using Suc.prems by (simp add: less_mult_imp_div_less mult.commute)
    then show ?thesis using Suc.IH False by (simp add: b128_hi_pos)
  qed simp
qed simp

lemma length_der_tag: "length (der_tag t) \<le> 6"
proof -
  let ?x = "unat t mod 2 ^ 29"
  have "?x div 128 < 128 ^ 4" by (rule less_mult_imp_div_less) (simp add: less_trans)
  then have "length (b128_hi (?x div 128)) \<le> 4" by (rule length_b128_hi)
  then show ?thesis by (simp add: der_tag_def Let_def b128_def)
qed

lemma any_element_decodes:
  assumes "length body < 2 ^ 32"
  shows "cbs_get_any_asn1_element ber_ok (cbs_over (der_element t body @ rest) r) =
    (Some (cbs_over (der_element t body) (rest @ r), t, length (der_header t (length body))),
     cbs_over rest r)"
proof -
  define n where "n = length body"
  define T where "T = length (der_tag t)"
  have whole: "der_element t body @ rest = der_tag t @ der_length n @ body @ rest"
    by (simp add: der_element_def der_header_def n_def)
  have out: "CBS_get_bytes (length (der_length n) + T + n) (cbs_over (der_element t body @ rest) r) =
      (Some (cbs_over (der_element t body) (rest @ r)), cbs_over rest r)"
    by (simp add: CBS_get_bytes_over der_element_def der_header_def n_def T_def)
  show ?thesis
  proof (cases "n < 128")
    case True
    then have u: "unat (word_of_nat n :: u8) = n" by (intro unat_word_of_nat_small) simp
    have l: "der_length n = [word_of_nat n]" using True by (simp add: der_length_def)
    show ?thesis
      using True u l out
      by (subst any_element_over)
        (simp add: whole map_get_def Let_def T_def der_header_def n_def [symmetric] add.commute)
  next
    case False
    define k where "k = length (be_min n)"
    have k4: "k \<le> 4" using length_be_min_le [of n 4] assms by (simp add: k_def n_def)
    have nz: "be_min n \<noteq> []" "hd (be_min n) \<noteq> 0" using be_min_nonzero [of n] False by auto
    then have k0: "0 < k" by (simp add: k_def)
    have lb: "unat (word_of_nat (128 + k) :: u8) = 128 + k"
      using k4 by (intro unat_word_of_nat_small) simp
    have l: "der_length n = word_of_nat (128 + k) # be_min n"
      using False by (simp add: der_length_def k_def)
    have v: "unat (be_word (be_min n) :: u64) = n"
    proof -
      have "(256::nat) ^ length (be_min n) \<le> 256 ^ 4"
        using k4 by (intro power_increasing) (simp_all add: k_def)
      then show ?thesis by (subst unat_be_word) (simp_all add: be_nat_be_min)
    qed
    have lo: "256 ^ (k - 1) \<le> n"
      using hd_nonzero_iff_be_nat [of "be_min n"] nz by (simp add: be_nat_be_min k_def)
    have so: "(n + Suc T + k) mod size_t_mod = n + Suc T + k"
      using length_der_tag [of t] k4 assms by (simp add: size_t_mod_def n_def T_def)
    have hl: "length (der_tag t @ der_length n @ body @ rest) - length (be_min n @ body @ rest) = Suc T"
      by (simp add: l T_def)
    have get: "CBS_get_bytes (n + Suc T + k) (cbs_over (der_tag t @ der_length n @ body @ rest) r) =
        (Some (cbs_over (der_element t body) (rest @ r)), cbs_over rest r)"
    proof -
      have "n + Suc T + k = length (der_length n) + T + n" by (simp add: l k_def)
      then show ?thesis using out by (simp only: whole [symmetric])
    qed
    have u: "cbs_get_u k (cbs_over (be_min n @ body @ rest) r) =
        (Some (be_word (be_min n)), cbs_over (body @ rest) r)"
      by (simp add: cbs_get_u_over k_def)
    have h: "length (der_header t n) = Suc T + k" by (simp add: der_header_def l T_def k_def)
    show ?thesis
      using False k0 k4 lo so get u v h lb hl
      by (subst any_element_over)
        (simp add: whole l map_get_def Let_def n_def [symmetric])
  qed
qed

lemma any_element_failure: "cbs_get_any_asn1_element ber_ok c = (None, c') \<Longrightarrow> c' = c"
  by (auto simp: cbs_get_any_asn1_element_def CBS_get_bytes_def cbs_get_def Let_def
      split: prod.splits option.splits if_splits)

lemma any_element_sound:
  assumes "cbs_get_any_asn1_element False (cbs_over bs r) = (Some (out, t, hl), c')"
  shows "\<exists>body rest. length body < 2 ^ 32 \<and> bs = der_element t body @ rest"
proof -
  obtain tag h1 where p: "parse_asn1_tag (cbs_over bs r) = (Some tag, h1)"
    using assms by (auto simp: any_element_over split: prod.splits option.splits)
  obtain bs1 where bs: "bs = der_tag tag @ bs1" and h1: "h1 = cbs_over bs1 r"
    using tag_codec.canonical [OF p] by auto
  obtain lb bs2 where bs1: "bs1 = lb # bs2"
    using assms p h1 by (cases bs1) (auto simp: any_element_over)
  have hl: "length bs - length bs2 = Suc (length (der_tag tag))" by (simp add: bs bs1)
  note unf = any_element_over p h1 bs1 CBS_get_u8_Cons prod.case option.case cbs_over_sel hl Let_def
  show ?thesis
  proof (cases "unat lb < 128")
    case True
    then have t: "t = tag" and len: "unat lb \<le> length bs2"
      using assms unfolding unf
      by (auto simp: map_get_def CBS_get_bytes_over bs bs1 split: if_splits)
    define body where "body = take (unat lb) bs2"
    have "der_length (length body) = [lb]" using True len by (simp add: body_def der_length_def)
    then have "bs = der_element t body @ drop (unat lb) bs2"
      by (simp add: der_element_def der_header_def bs bs1 t body_def)
    moreover have "length body < 2 ^ 32" using True len by (simp add: body_def)
    ultimately show ?thesis by blast
  next
    case False
    define k where "k = unat lb mod 128"
    have lbk: "unat lb = 128 + k" using u8_high_half [of lb] False by (simp add: k_def)
    define n where "n = be_nat (take k bs2)"
    have k: "0 < k" "k \<le> 4" and kl: "k \<le> length bs2" and t: "t = tag"
      using assms False unfolding unf
      by (auto simp: map_get_def cbs_get_u_over CBS_get_bytes_over k_def split: if_splits)
    have "(256::nat) ^ length (take k bs2) \<le> 256 ^ 4"
      using k(2) kl by (intro power_increasing) simp_all
    then have v: "unat (be_word (take k bs2) :: u64) = n"
      unfolding n_def by (intro unat_be_word) simp
    have n: "128 \<le> n" "256 ^ (k - 1) \<le> n" "n + Suc (length (der_tag tag)) + k \<le> length bs"
      using assms False k kl v unfolding unf
      by (auto simp: map_get_def cbs_get_u_over CBS_get_bytes_over k_def [symmetric] not_less
          split: if_splits)
    have ne: "take k bs2 \<noteq> []" using k kl by auto
    have "hd (take k bs2) \<noteq> 0"
      using hd_nonzero_iff_be_nat [OF ne] kl n(2) by (simp add: n_def min.absorb2)
    then have bm: "be_min n = take k bs2" unfolding n_def by (intro be_min_be_nat) simp
    have n32: "n < 2 ^ 32"
    proof -
      have "n < 256 ^ length (take k bs2)" unfolding n_def by (rule be_nat_less)
      also have "\<dots> \<le> 256 ^ 4" by fact
      finally show ?thesis by simp
    qed
    define body where "body = take n (drop k bs2)"
    have len: "length body = n" using n(3) kl by (simp add: body_def bs bs1)
    have "word_of_nat (128 + k) = lb" by (simp add: lbk [symmetric])
    then have "der_length n = lb # take k bs2"
      using n(1) kl by (simp add: der_length_def bm min.absorb2 del: of_nat_add)
    moreover have "take k bs2 @ body @ drop n (drop k bs2) = bs2"
      unfolding body_def by (simp only: append_take_drop_id)
    ultimately have "bs = der_element t body @ drop n (drop k bs2)"
      by (simp add: der_element_def der_header_def bs bs1 t len del: drop_drop)
    then show ?thesis using n32 len by blast
  qed
qed

text \<open>
  \<open>CBS_get_any_asn1_element\<close> and its variants accept exactly the canonical encodings,
  seen as a tag and a body.
\<close>

definition element_view :: "cbs \<times> u32 \<times> nat \<Rightarrow> u32 \<times> bytes" where
  "element_view x = (case x of (out, tag, header_len) \<Rightarrow> (tag, drop header_len (cbs_bytes out)))"

definition der_valid :: "u32 \<times> bytes \<Rightarrow> bool" where
  "der_valid x \<longleftrightarrow> length (snd x) < 2 ^ 32"

interpretation element_codec: strict_codec CBS_get_any_asn1_element element_view
    "\<lambda>(t, body). der_element t body" der_valid
proof unfold_locales
  fix y :: "u32 \<times> bytes" and bs r
  assume "der_valid y"
  then show "\<exists>x. CBS_get_any_asn1_element (cbs_over ((case y of (t, body) \<Rightarrow> der_element t body) @ bs) r) =
      (Some x, cbs_over bs r) \<and> element_view x = y"
    by (cases y) (simp add: CBS_get_any_asn1_element_def any_element_decodes der_valid_def
        element_view_def, simp add: der_element_def)
next
  fix bs r x c'
  assume g: "CBS_get_any_asn1_element (cbs_over bs r) = (Some x, c')"
  obtain out t hl where x: "x = (out, t, hl)" by (cases x)
  from g x obtain body rest where b: "length body < 2 ^ 32" "bs = der_element t body @ rest"
    unfolding CBS_get_any_asn1_element_def using any_element_sound by blast
  with g x have "x = (cbs_over (der_element t body) (rest @ r), t, length (der_header t (length body)))"
    and "c' = cbs_over rest r"
    by (simp_all add: CBS_get_any_asn1_element_def any_element_decodes)
  then show "der_valid (element_view x) \<and>
      (\<exists>rest. bs = (case element_view x of (t, body) \<Rightarrow> der_element t body) @ rest \<and>
              c' = cbs_over rest r)"
    using b by (auto simp: element_view_def der_valid_def der_element_def)
qed

lemma CBS_get_any_asn1_decodes:
  assumes "length body < 2 ^ 32"
  shows "CBS_get_any_asn1 (cbs_over (der_element t body @ rest) r) =
    (Some (cbs_over body (rest @ r), t), cbs_over rest r)"
  using any_element_decodes [OF assms, of False t rest r]
  by (simp add: CBS_get_any_asn1_def CBS_get_any_asn1_element_def CBS_skip_over der_element_def)

lemma cbs_get_asn1_decodes:
  assumes "length body < 2 ^ 32"
  shows "cbs_get_asn1 t skip_header (cbs_over (der_element t' body @ rest) r) =
    (if t' \<noteq> t then None
     else Some (if skip_header then cbs_over body (rest @ r)
                else cbs_over (der_element t body) (rest @ r)), cbs_over rest r)"
  using any_element_decodes [OF assms, of False t' rest r]
  by (simp add: cbs_get_asn1_def CBS_get_any_asn1_element_def CBS_skip_over)
    (simp add: der_element_def)

lemma cbs_get_asn1_sound:
  assumes "cbs_get_asn1 t skip_header (cbs_over bs r) = (Some out, c')"
  shows "\<exists>body rest. length body < 2 ^ 32 \<and> bs = der_element t body @ rest"
proof -
  obtain out' hl where "CBS_get_any_asn1_element (cbs_over bs r) = (Some (out', t, hl), c')"
    using assms by (auto simp: cbs_get_asn1_def split: prod.splits option.splits if_splits)
  then show ?thesis
    unfolding CBS_get_any_asn1_element_def using any_element_sound by blast
qed

interpretation asn1_codec: strict_codec "CBS_get_asn1 t" cbs_bytes "der_element t"
    "\<lambda>body. length body < 2 ^ 32" for t
proof unfold_locales
  fix y :: bytes and bs r
  assume "length y < 2 ^ 32"
  then show "\<exists>x. CBS_get_asn1 t (cbs_over (der_element t y @ bs) r) = (Some x, cbs_over bs r) \<and>
      cbs_bytes x = y"
    by (simp add: CBS_get_asn1_def cbs_get_asn1_decodes)
next
  fix bs r x c'
  assume g: "CBS_get_asn1 t (cbs_over bs r) = (Some x, c')"
  then obtain body rest where b: "length body < 2 ^ 32" "bs = der_element t body @ rest"
    unfolding CBS_get_asn1_def using cbs_get_asn1_sound by blast
  with g have "x = cbs_over body (rest @ r)" "c' = cbs_over rest r"
    by (simp_all add: CBS_get_asn1_def cbs_get_asn1_decodes)
  then show "length (cbs_bytes x) < 2 ^ 32 \<and>
      (\<exists>rest. bs = der_element t (cbs_bytes x) @ rest \<and> c' = cbs_over rest r)"
    using b by simp
qed

lemma CBS_get_asn1_der [simp]:
  "length body < 2 ^ 32 \<Longrightarrow>
   CBS_get_asn1 t (cbs_over (der_element t body @ rest) r) =
   (Some (cbs_over body (rest @ r)), cbs_over rest r)"
  by (simp add: CBS_get_asn1_def cbs_get_asn1_decodes)

text \<open>No reader looks past the end of its input, whatever the input is.\<close>

definition element_bytes :: "cbs \<times> u32 \<times> nat \<Rightarrow> bytes \<times> u32 \<times> nat" where
  "element_bytes x = (case x of (out, tag, header_len) \<Rightarrow> (cbs_bytes out, tag, header_len))"

lemma base128_in_bounds:
  "\<exists>n x. n \<le> length bs \<and> (\<forall>r. parse_base128_loop v (cbs_over bs r) = (x, cbs_over (drop n bs) r))"
proof (induction bs arbitrary: v)
  case Nil
  show ?case by (simp add: parse_base128_loop_over)
next
  case (Cons b bs)
  show ?case
  proof (cases "drop_bit (64 - 7) v = 0 \<and> \<not> (v = 0 \<and> b = 0x80)")
    case False
    then have "parse_base128_loop v (cbs_over (b # bs) r) = (None, cbs_over bs r)" for r
      by (auto simp: parse_base128_loop_over)
    then show ?thesis by (intro exI [of _ 1]) simp
  next
    case True
    let ?v' = "push_bit 7 v OR ucast (b AND 0x7f)"
    obtain n x where "n \<le> length bs"
      "\<And>r. parse_base128_loop ?v' (cbs_over bs r) = (x, cbs_over (drop n bs) r)"
      using Cons [of ?v'] by blast
    with True show ?thesis
      by (cases "128 \<le> unat b")
        (auto simp: parse_base128_round Let_def intro: exI [of _ "Suc n"] exI [of _ "Suc 0"])
  qed
qed

lemma tag_in_bounds:
  "\<exists>n x. n \<le> length bs \<and> (\<forall>r. parse_asn1_tag (cbs_over bs r) = (x, cbs_over (drop n bs) r))"
proof (cases bs)
  case (Cons b as)
  obtain n x where n: "n \<le> length as"
    and p: "\<And>r. parse_base128_integer (cbs_over as r) = (x, cbs_over (drop n as) r)"
    using base128_in_bounds [of as 0] unfolding parse_base128_integer_def by blast
  show ?thesis
  proof (cases "unat b mod 32 = 31")
    case True
    define y where "y = (case x of None \<Rightarrow> None
      | Some v \<Rightarrow> if 2 ^ 29 \<le> unat v \<or> unat v < 31 then None
                  else Some (word_of_nat (unat b div 32 * 2 ^ 29 + unat v) :: u32))"
    have "parse_asn1_tag (cbs_over bs r) = (y, cbs_over (drop (Suc n) bs) r)" for r
      using True by (cases x) (simp_all only: Cons parse_asn1_tag_over p y_def list.case prod.case
          option.case if_True simp_thms drop_Suc_Cons if_distrib [of "\<lambda>z. (z, _)"])
    then show ?thesis using n Cons by (intro exI [of _ "Suc n"]) auto
  qed (auto simp: Cons parse_asn1_tag_over intro: exI [of _ "Suc 0"])
qed (simp add: parse_asn1_tag_over)

lemma parse_base128_loop_len: "cbs_len (snd (parse_base128_loop v c)) \<le> cbs_len c"
proof (induction v c rule: parse_base128_loop.induct)
  case (1 v c)
  obtain x c1 where g: "CBS_get_u8 c = (x, c1)" by fastforce
  then have "cbs_len c1 \<le> cbs_len c" by (auto simp: CBS_get_u8_def cbs_get_def split: if_splits)
  with g 1 show ?case
    by (subst parse_base128_loop.simps)
      (auto simp: Let_def split: option.split if_splits intro: order_trans)
qed

lemma parse_asn1_tag_len:
  assumes "parse_asn1_tag c = (Some t, c')"
  shows "cbs_len c' < cbs_len c"
proof -
  obtain b c1 where g: "CBS_get_u8 c = (Some b, c1)"
    using assms by (auto simp: parse_asn1_tag_def split: prod.splits option.splits)
  then have lt: "cbs_len c1 < cbs_len c" by (rule u8_reader.progress)
  obtain v c2 where p: "parse_base128_integer c1 = (v, c2)" by fastforce
  then have le: "cbs_len c2 \<le> cbs_len c1"
    using parse_base128_loop_len [of 0 c1] by (simp add: parse_base128_integer_def)
  have "c' = c1 \<or> c' = c2"
    using assms g p by (auto simp: parse_asn1_tag_def Let_def split: option.splits if_splits)
  then show ?thesis using lt le by auto
qed

section \<open>No reader looks past its input\<close>

lemma any_element_shape:
  "\<exists>L. \<forall>r. cbs_get_any_asn1_element ber_ok (cbs_over bs r) =
     (case L of None \<Rightarrow> (None, cbs_over bs r)
      | Some (l, t, hl) \<Rightarrow> map_get (\<lambda>out. (out, t, hl)) (CBS_get_bytes l) (cbs_over bs r))"
proof -
  obtain n x where n: "n \<le> length bs"
    and p: "\<And>r. parse_asn1_tag (cbs_over bs r) = (x, cbs_over (drop n bs) r)"
    using tag_in_bounds by blast
  show ?thesis
  proof (cases "x = None \<or> drop n bs = []")
    case True
    then show ?thesis
      by (intro exI [of _ None]) (auto simp: any_element_over p split: option.split)
  next
    case False
    then obtain t lb bs' where x: "x = Some t" and d: "drop n bs = lb # bs'"
      by (cases "drop n bs") auto
    define hl where "hl = length bs - length bs'"
    define k where "k = unat lb mod 128"
    define v where "v = unat (be_word (take k bs') :: u64)"
    define L where "L =
      (if unat lb < 128 then Some (unat lb + hl, t, hl)
       else if ber_ok \<and> t AND CBS_ASN1_CONSTRUCTED \<noteq> 0 \<and> k = 0 then Some (hl, t, hl)
       else if k = 0 \<or> k > 4 \<or> length bs' < k \<or> v < 128 \<or> v < 256 ^ (k - 1) \<or>
               (v + hl + k) mod size_t_mod < v then None
       else Some (v + hl + k, t, hl + k))"
    show ?thesis
      by (intro exI [of _ L] allI, subst any_element_over)
        (simp add: p x d L_def hl_def [symmetric] k_def [symmetric] v_def [symmetric]
          cbs_get_u_over Let_def)
  qed
qed

lemma reader_any_element: "reader (cbs_get_any_asn1_element ber_ok) element_bytes"
proof (rule reader_of_over)
  fix bs
  obtain L where L: "\<And>r. cbs_get_any_asn1_element ber_ok (cbs_over bs r) =
     (case L of None \<Rightarrow> (None, cbs_over bs r)
      | Some (l, t, hl) \<Rightarrow> map_get (\<lambda>out. (out, t, hl)) (CBS_get_bytes l) (cbs_over bs r))"
    using any_element_shape by blast
  show "\<exists>n x. n \<le> length bs \<and>
    (\<forall>r. map_option element_bytes (fst (cbs_get_any_asn1_element ber_ok (cbs_over bs r))) = x \<and>
         snd (cbs_get_any_asn1_element ber_ok (cbs_over bs r)) = cbs_over (drop n bs) r)"
  proof (cases L)
    case None
    then show ?thesis by (intro exI [of _ 0] exI [of _ None]) (simp add: L)
  next
    case (Some y)
    obtain l t hl where "y = (l, t, hl)" by (cases y)
    with Some show ?thesis
      by (intro exI [of _ "if length bs < l then 0 else l"])
        (auto simp: L map_get_over CBS_get_bytes_over element_bytes_def)
  qed
qed

lemma any_element_progress:
  assumes "cbs_get_any_asn1_element ber_ok c = (Some x, c')"
  shows "cbs_len c' < cbs_len c"
proof -
  obtain t h1 where p: "parse_asn1_tag c = (Some t, h1)"
    using assms by (auto simp: cbs_get_any_asn1_element_def split: prod.splits option.splits)
  moreover from assms p obtain lb h2 where g: "CBS_get_u8 h1 = (Some lb, h2)"
    by (auto simp: cbs_get_any_asn1_element_def split: prod.splits option.splits)
  ultimately have lt: "cbs_len h2 < cbs_len c"
    using parse_asn1_tag_len [OF p] u8_reader.progress [OF g] by linarith
  have b: "CBS_get_bytes l c = (Some out, c') \<Longrightarrow> 0 < l \<Longrightarrow> cbs_len c' < cbs_len c" for l out
    by (auto simp: CBS_get_bytes_def cbs_get_def split: if_splits)
  show ?thesis
    using assms lt unfolding cbs_get_any_asn1_element_def p g prod.case option.case
    by (auto simp: Let_def CBS_len_def split: prod.splits option.splits if_splits intro!: b)
qed

interpretation der_element_reader: consuming_reader CBS_get_any_asn1_element element_bytes
  unfolding CBS_get_any_asn1_element_def consuming_reader_def consuming_reader_axioms_def
  using reader_any_element any_element_progress by blast

interpretation ber_element_reader: consuming_reader CBS_get_any_ber_asn1_element element_bytes
  unfolding CBS_get_any_ber_asn1_element_def consuming_reader_def consuming_reader_axioms_def
  using reader_any_element any_element_progress by blast

section \<open>The strict reader\<close>


end
