(* ===== verification/Cbb.thy ===== *)
theory Cbb
  imports Der
begin

text \<open>
  The byte-string builder \<open>CBB\<close> of crypto/bytestring/cbb.c.  A top-level \<open>CBB\<close> owns a
  growable buffer; \<open>CBB_add_asn1\<close> and its relatives open a child whose length prefix is
  written when the parent is flushed.  The model keeps one state for a top-level \<open>CBB\<close>:
  its buffer and the chain of open children, outermost first.  A \<open>CBB\<close> of the chain is
  named by its depth, 0 for the top level.  A depth beyond the chain is a \<open>CBB\<close> whose
  \<open>base\<close> was set to \<open>NULL\<close> when its parent was flushed: operations on it fail.
\<close>

section \<open>State\<close>

text \<open>
  \<open>buf\<close> is the whole allocation, so its length is \<open>cap\<close>; a \<open>NULL\<close> buffer, which only the
  capacity 0 has, is the empty list.
\<close>

record cbb_buffer =
  buf :: bytes
  blen :: nat
  cap :: nat
  can_resize :: bool
  error :: bool

record cbb_frame =
  offset :: nat
  pending_len_len :: nat
  pending_is_asn1 :: bool

record cbb =
  cbb_base :: "cbb_buffer option"
  cbb_children :: "cbb_frame list"

text \<open>Every operation returns its 0 or 1 and the new state.\<close>

type_synonym cbb_op = "cbb \<Rightarrow> bool \<times> cbb"

section \<open>The buffer\<close>

definition sizeof_cbb_buffer :: nat where
  "sizeof_cbb_buffer = 32"

definition cbb_init :: "(nat \<Rightarrow> bool) \<Rightarrow> bytes \<Rightarrow> nat \<Rightarrow> cbb option" where
  "cbb_init alloc b c =
     (case OPENSSL_malloc alloc sizeof_cbb_buffer of
        None \<Rightarrow> None
      | Some _ \<Rightarrow>
          Some \<lparr>cbb_base = Some \<lparr>buf = b, blen = 0, cap = c, can_resize = True, error = False\<rparr>,
                cbb_children = []\<rparr>)"

definition CBB_zero :: cbb where
  "CBB_zero = \<lparr>cbb_base = None, cbb_children = []\<rparr>"

definition CBB_init :: "(nat \<Rightarrow> bool) \<Rightarrow> nat \<Rightarrow> bool \<times> cbb" where
  "CBB_init alloc initial_capacity =
     (case OPENSSL_malloc alloc initial_capacity of
        None \<Rightarrow>
          if initial_capacity > 0 then (False, CBB_zero)
          else (case cbb_init alloc [] initial_capacity of
                  None \<Rightarrow> (False, CBB_zero) | Some s \<Rightarrow> (True, s))
      | Some b \<Rightarrow>
          (case cbb_init alloc b initial_capacity of
             None \<Rightarrow> (False, CBB_zero) | Some s \<Rightarrow> (True, s)))"

definition CBB_init_fixed :: "(nat \<Rightarrow> bool) \<Rightarrow> bytes \<Rightarrow> nat \<Rightarrow> bool \<times> cbb" where
  "CBB_init_fixed alloc b len =
     (case cbb_init alloc b len of
        None \<Rightarrow> (False, CBB_zero)
      | Some s \<Rightarrow> (True, s\<lparr>cbb_base := map_option (\<lambda>base. base\<lparr>can_resize := False\<rparr>) (cbb_base s)\<rparr>))"

text \<open>\<open>CBB_cleanup\<close> frees the buffer and leaves a \<open>CBB\<close> without one; a child ignores it.\<close>

definition CBB_cleanup :: "nat \<Rightarrow> cbb \<Rightarrow> cbb" where
  "CBB_cleanup d s = (if d \<noteq> 0 then s else s\<lparr>cbb_base := None\<rparr>)"

text \<open>The out pointer of \<open>cbb_buffer_reserve\<close> is the index it points to.\<close>

definition cbb_buffer_reserve :: "(nat \<Rightarrow> bool) \<Rightarrow> nat \<Rightarrow> cbb_buffer \<Rightarrow> nat option \<times> cbb_buffer" where
  "cbb_buffer_reserve alloc len base =
     (let newlen = (blen base + len) mod size_t_mod in
      if newlen < blen base then (None, base\<lparr>error := True\<rparr>)
      else if newlen > cap base then
        (let newcap0 = (cap base * 2) mod size_t_mod in
         if \<not> can_resize base then (None, base\<lparr>error := True\<rparr>)
         else
           (let newcap = if newcap0 < cap base \<or> newcap0 < newlen then newlen else newcap0 in
            case OPENSSL_realloc alloc (Some (buf base)) newcap of
              None \<Rightarrow> (None, base\<lparr>error := True\<rparr>)
            | Some newbuf \<Rightarrow> (Some (blen base), base\<lparr>buf := newbuf, cap := newcap\<rparr>)))
      else (Some (blen base), base))"

definition cbb_buffer_add :: "(nat \<Rightarrow> bool) \<Rightarrow> nat \<Rightarrow> cbb_buffer \<Rightarrow> nat option \<times> cbb_buffer" where
  "cbb_buffer_add alloc len base =
     (case cbb_buffer_reserve alloc len base of
        (None, base') \<Rightarrow> (None, base')
      | (Some out, base') \<Rightarrow> (Some out, base'\<lparr>blen := blen base' + len\<rparr>))"

text \<open>
  The loop that writes a big-endian integer downwards from its last byte; it is written out
  in \<open>cbb_buffer_add_u\<close> and in \<open>CBB_flush\<close>.  What is left of the value is returned too.
\<close>

fun poke_be :: "nat \<Rightarrow> nat \<Rightarrow> u64 \<Rightarrow> bytes \<Rightarrow> u64 \<times> bytes" where
  "poke_be out 0 v b = (v, b)"
| "poke_be out (Suc i) v b = poke_be out i (drop_bit 8 v) (b[out + i := ucast v])"

definition cbb_buffer_add_u :: "(nat \<Rightarrow> bool) \<Rightarrow> u64 \<Rightarrow> nat \<Rightarrow> cbb_buffer \<Rightarrow> bool \<times> cbb_buffer" where
  "cbb_buffer_add_u alloc v len_len base =
     (if len_len = 0 then (True, base)
      else
        (case cbb_buffer_add alloc len_len base of
           (None, base') \<Rightarrow> (False, base')
         | (Some out, base') \<Rightarrow>
             (case poke_be out len_len v (buf base') of
                (v', buf') \<Rightarrow>
                  (let base'' = base'\<lparr>buf := buf'\<rparr> in
                   if v' \<noteq> 0 then (False, base''\<lparr>error := True\<rparr>) else (True, base'')))))"

section \<open>Flushing\<close>

text \<open>The number of length bytes and the first one, for a body of \<open>len\<close> bytes.\<close>

definition asn1_len_len :: "nat \<Rightarrow> (nat \<times> u8) option" where
  "asn1_len_len len =
     (if len > 0xfffffffe then None
      else if len > 0xffffff then Some (5, 0x80 OR 4)
      else if len > 0xffff then Some (4, 0x80 OR 3)
      else if len > 0xff then Some (3, 0x80 OR 2)
      else if len > 0x7f then Some (2, 0x80 OR 1)
      else Some (1, word_of_nat len))"

definition memmove_within :: "nat \<Rightarrow> nat \<Rightarrow> nat \<Rightarrow> bytes \<Rightarrow> bytes" where
  "memmove_within dst src n b =
     take dst b @ take n (drop src b) @ drop (dst + n) b"

text \<open>The ASN.1 branch: make room for the length bytes, write the first one.\<close>

definition flush_asn1_length ::
    "(nat \<Rightarrow> bool) \<Rightarrow> nat \<Rightarrow> nat \<Rightarrow> cbb_frame \<Rightarrow> cbb_buffer \<Rightarrow> nat option \<times> cbb_frame \<times> cbb_buffer" where
  "flush_asn1_length alloc child_start len ch b =
     (case asn1_len_len len of
        None \<Rightarrow> (None, ch, b)
      | Some (len_len, initial_length_byte) \<Rightarrow>
          (let first = (\<lambda>b. b\<lparr>buf := (buf b)[offset ch := initial_length_byte]\<rparr>);
               ch' = ch\<lparr>offset := offset ch + 1, pending_len_len := len_len - 1\<rparr>
           in if len_len \<noteq> 1 then
                (let extra_bytes = len_len - 1 in
                 case cbb_buffer_add alloc extra_bytes b of
                   (None, b') \<Rightarrow> (None, ch, b')
                 | (Some _, b') \<Rightarrow>
                     (Some len, ch',
                      first (b'\<lparr>buf := memmove_within (child_start + extra_bytes) child_start len (buf b')\<rparr>)))
              else (Some 0, ch', first b)))"

text \<open>
  \<open>CBB_flush\<close> on the buffer and the children below the flushed \<open>CBB\<close>: the result, the
  children still open and the buffer.
\<close>

fun flush_frames ::
    "(nat \<Rightarrow> bool) \<Rightarrow> cbb_frame list \<Rightarrow> cbb_buffer \<Rightarrow> bool \<times> cbb_frame list \<times> cbb_buffer" where
  "flush_frames alloc [] b = (if error b then (False, [], b) else (True, [], b))"
| "flush_frames alloc (ch # chs) b =
     (if error b then (False, ch # chs, b)
      else if pending_len_len ch = 0 then (True, ch # chs, b)
      else
        (let child_start = (offset ch + pending_len_len ch) mod size_t_mod in
         case flush_frames alloc chs b of
           (ok, chs', b1) \<Rightarrow>
             if \<not> ok \<or> child_start < offset ch \<or> blen b1 < child_start
             then (False, ch # chs', b1\<lparr>error := True\<rparr>)
             else
               (let len = blen b1 - child_start in
                case (if pending_is_asn1 ch then flush_asn1_length alloc child_start len ch b1
                      else (Some len, ch, b1)) of
                  (None, ch', b2) \<Rightarrow> (False, ch' # chs', b2\<lparr>error := True\<rparr>)
                | (Some len', ch', b2) \<Rightarrow>
                    (case poke_be (offset ch') (pending_len_len ch') (word_of_nat len') (buf b2) of
                       (left, buf') \<Rightarrow>
                         if left \<noteq> 0
                         then (False, ch' # chs', b2\<lparr>buf := buf', error := True\<rparr>)
                         else (True, [], b2\<lparr>buf := buf'\<rparr>)))))"

definition CBB_flush :: "(nat \<Rightarrow> bool) \<Rightarrow> nat \<Rightarrow> cbb_op" where
  "CBB_flush alloc d s =
     (case cbb_base s of
        None \<Rightarrow> (False, s)
      | Some b \<Rightarrow>
          if length (cbb_children s) < d then (False, s)
          else
            (case flush_frames alloc (drop d (cbb_children s)) b of
               (ok, chs, b') \<Rightarrow>
                 (ok, s\<lparr>cbb_base := Some b', cbb_children := take d (cbb_children s) @ chs\<rparr>)))"

section \<open>Operations\<close>

text \<open>\<open>if (!f(...) || !g(...)) return 0;\<close>\<close>

definition cbb_then :: "cbb_op \<Rightarrow> cbb_op \<Rightarrow> cbb_op" where
  "cbb_then f g s = (case f s of (ok, s') \<Rightarrow> if ok then g s' else (False, s'))"

definition cbb_buf :: "cbb \<Rightarrow> cbb_buffer" where
  "cbb_buf s = (case cbb_base s of Some b \<Rightarrow> b | None \<Rightarrow> \<lparr>buf = [], blen = 0, cap = 0, can_resize = False, error = True\<rparr>)"

definition on_buffer :: "(cbb_buffer \<Rightarrow> bool \<times> cbb_buffer) \<Rightarrow> cbb_op" where
  "on_buffer f s = (case f (cbb_buf s) of (ok, b) \<Rightarrow> (ok, s\<lparr>cbb_base := Some b\<rparr>))"

definition CBB_finish :: "(nat \<Rightarrow> bool) \<Rightarrow> nat \<Rightarrow> bool \<Rightarrow> bool \<Rightarrow> cbb \<Rightarrow> (bytes \<times> nat) option \<times> cbb" where
  "CBB_finish alloc d has_out_data has_out_len s =
     (if d \<noteq> 0 then (None, s)
      else
        (case CBB_flush alloc d s of
           (ok, s') \<Rightarrow>
             if \<not> ok then (None, s')
             else if can_resize (cbb_buf s') \<and> (\<not> has_out_data \<or> \<not> has_out_len) then (None, s')
             else (Some (buf (cbb_buf s'), blen (cbb_buf s')), CBB_cleanup 0 s')))"

definition cbb_frame_of :: "nat \<Rightarrow> cbb \<Rightarrow> cbb_frame" where
  "cbb_frame_of d s =
     (if d = 0 then \<lparr>offset = 0, pending_len_len = 0, pending_is_asn1 = False\<rparr>
      else cbb_children s ! (d - 1))"

definition CBB_data :: "nat \<Rightarrow> cbb \<Rightarrow> bytes" where
  "CBB_data d s =
     (let f = cbb_frame_of d s in drop (offset f + pending_len_len f) (buf (cbb_buf s)))"

definition CBB_len :: "nat \<Rightarrow> cbb \<Rightarrow> nat" where
  "CBB_len d s = (let f = cbb_frame_of d s in blen (cbb_buf s) - offset f - pending_len_len f)"

text \<open>\<open>cbb->child = out_contents\<close>: the new child of the \<open>CBB\<close> at depth \<open>d\<close>.\<close>

definition open_child :: "nat \<Rightarrow> cbb_frame \<Rightarrow> cbb \<Rightarrow> cbb" where
  "open_child d f s = s\<lparr>cbb_children := take d (cbb_children s) @ [f]\<rparr>"

definition cbb_add_length_prefixed :: "(nat \<Rightarrow> bool) \<Rightarrow> nat \<Rightarrow> nat \<Rightarrow> cbb_op" where
  "cbb_add_length_prefixed alloc len_len d s =
     (case CBB_flush alloc d s of
        (ok, s1) \<Rightarrow>
          if \<not> ok then (False, s1)
          else
            (let off = blen (cbb_buf s1) in
             case cbb_buffer_add alloc len_len (cbb_buf s1) of
               (None, b) \<Rightarrow> (False, s1\<lparr>cbb_base := Some b\<rparr>)
             | (Some prefix_bytes, b) \<Rightarrow>
                 (let b' = b\<lparr>buf := take prefix_bytes (buf b) @ replicate len_len 0 @
                                    drop (prefix_bytes + len_len) (buf b)\<rparr>
                  in (True, open_child d \<lparr>offset = off, pending_len_len = len_len,
                                          pending_is_asn1 = False\<rparr> (s1\<lparr>cbb_base := Some b'\<rparr>)))))"

definition CBB_add_u8_length_prefixed :: "(nat \<Rightarrow> bool) \<Rightarrow> nat \<Rightarrow> cbb_op" where
  "CBB_add_u8_length_prefixed alloc = cbb_add_length_prefixed alloc 1"

definition CBB_add_u16_length_prefixed :: "(nat \<Rightarrow> bool) \<Rightarrow> nat \<Rightarrow> cbb_op" where
  "CBB_add_u16_length_prefixed alloc = cbb_add_length_prefixed alloc 2"

definition CBB_add_u24_length_prefixed :: "(nat \<Rightarrow> bool) \<Rightarrow> nat \<Rightarrow> cbb_op" where
  "CBB_add_u24_length_prefixed alloc = cbb_add_length_prefixed alloc 3"

text \<open>\<open>CBB_add_bytes\<close>; \<open>memcpy\<close> reads the first \<open>len\<close> bytes of \<open>data\<close>.\<close>

definition CBB_add_bytes :: "(nat \<Rightarrow> bool) \<Rightarrow> nat \<Rightarrow> bytes \<Rightarrow> nat \<Rightarrow> cbb_op" where
  "CBB_add_bytes alloc d data len =
     cbb_then (CBB_flush alloc d)
       (on_buffer (\<lambda>b.
          case cbb_buffer_add alloc len b of
            (None, b') \<Rightarrow> (False, b')
          | (Some dest, b') \<Rightarrow>
              (True, b'\<lparr>buf := take dest (buf b') @ take len data @ drop (dest + len) (buf b')\<rparr>)))"

definition CBB_add_space :: "(nat \<Rightarrow> bool) \<Rightarrow> nat \<Rightarrow> nat \<Rightarrow> cbb \<Rightarrow> nat option \<times> cbb" where
  "CBB_add_space alloc d len s =
     (case CBB_flush alloc d s of
        (ok, s1) \<Rightarrow>
          if \<not> ok then (None, s1)
          else (case cbb_buffer_add alloc len (cbb_buf s1) of
                  (out, b) \<Rightarrow> (out, s1\<lparr>cbb_base := Some b\<rparr>)))"

definition CBB_reserve :: "(nat \<Rightarrow> bool) \<Rightarrow> nat \<Rightarrow> nat \<Rightarrow> cbb \<Rightarrow> nat option \<times> cbb" where
  "CBB_reserve alloc d len s =
     (case CBB_flush alloc d s of
        (ok, s1) \<Rightarrow>
          if \<not> ok then (None, s1)
          else (case cbb_buffer_reserve alloc len (cbb_buf s1) of
                  (out, b) \<Rightarrow> (out, s1\<lparr>cbb_base := Some b\<rparr>)))"

definition CBB_did_write :: "nat \<Rightarrow> nat \<Rightarrow> cbb_op" where
  "CBB_did_write d len s =
     (let b = cbb_buf s; newlen = (blen b + len) mod size_t_mod in
      if d < length (cbb_children s) \<or> newlen < blen b \<or> newlen > cap b then (False, s)
      else (True, s\<lparr>cbb_base := Some (b\<lparr>blen := newlen\<rparr>)\<rparr>))"

definition CBB_add_u :: "(nat \<Rightarrow> bool) \<Rightarrow> nat \<Rightarrow> nat \<Rightarrow> u64 \<Rightarrow> cbb_op" where
  "CBB_add_u alloc d len_len v =
     cbb_then (CBB_flush alloc d) (on_buffer (cbb_buffer_add_u alloc v len_len))"

definition CBB_add_u8 :: "(nat \<Rightarrow> bool) \<Rightarrow> nat \<Rightarrow> u8 \<Rightarrow> cbb_op" where
  "CBB_add_u8 alloc d value = CBB_add_u alloc d 1 (ucast value)"

definition CBB_add_u16 :: "(nat \<Rightarrow> bool) \<Rightarrow> nat \<Rightarrow> u16 \<Rightarrow> cbb_op" where
  "CBB_add_u16 alloc d value = CBB_add_u alloc d 2 (ucast value)"

definition CBB_add_u24 :: "(nat \<Rightarrow> bool) \<Rightarrow> nat \<Rightarrow> u32 \<Rightarrow> cbb_op" where
  "CBB_add_u24 alloc d value = CBB_add_u alloc d 3 (ucast value)"

definition CBB_add_u32 :: "(nat \<Rightarrow> bool) \<Rightarrow> nat \<Rightarrow> u32 \<Rightarrow> cbb_op" where
  "CBB_add_u32 alloc d value = CBB_add_u alloc d 4 (ucast value)"

definition CBB_add_u64 :: "(nat \<Rightarrow> bool) \<Rightarrow> nat \<Rightarrow> u64 \<Rightarrow> cbb_op" where
  "CBB_add_u64 alloc d value = CBB_add_u alloc d 8 value"

text \<open>The little-endian writers swap and write big-endian.\<close>

definition CBB_add_u16le :: "(nat \<Rightarrow> bool) \<Rightarrow> nat \<Rightarrow> u16 \<Rightarrow> cbb_op" where
  "CBB_add_u16le alloc d value = CBB_add_u16 alloc d (CRYPTO_bswap2 value)"

definition CBB_add_u32le :: "(nat \<Rightarrow> bool) \<Rightarrow> nat \<Rightarrow> u32 \<Rightarrow> cbb_op" where
  "CBB_add_u32le alloc d value = CBB_add_u32 alloc d (CRYPTO_bswap4 value)"

definition CBB_add_u64le :: "(nat \<Rightarrow> bool) \<Rightarrow> nat \<Rightarrow> u64 \<Rightarrow> cbb_op" where
  "CBB_add_u64le alloc d value = CBB_add_u64 alloc d (CRYPTO_bswap8 value)"

definition CBB_discard_child :: "nat \<Rightarrow> cbb \<Rightarrow> cbb" where
  "CBB_discard_child d s =
     (if length (cbb_children s) \<le> d then s
      else s\<lparr>cbb_base := Some ((cbb_buf s)\<lparr>blen := offset (cbb_children s ! d)\<rparr>),
             cbb_children := take d (cbb_children s)\<rparr>)"

section \<open>ASN.1\<close>

text \<open>\<open>add_base128_integer\<close> counts the 7-bit groups, then writes them from the top.\<close>

function base128_len_len :: "u64 \<Rightarrow> nat \<Rightarrow> nat" where
  "base128_len_len copy len_len =
     (if copy > 0 then base128_len_len (drop_bit 7 copy) (len_len + 1) else len_len)"
  by pat_completeness auto
termination
proof (relation "measure (\<lambda>(copy, _). unat copy)")
  fix copy :: u64 and len_len :: nat
  assume "copy > 0"
  then have "0 < unat copy" by (simp add: unat_gt_0 word_gt_0)
  then show "((drop_bit 7 copy, len_len + 1), copy, len_len) \<in> measure (\<lambda>(copy, _). unat copy)"
    by (simp add: unat_drop_bit)
qed simp

declare base128_len_len.simps [simp del]

fun add_base128_loop :: "(nat \<Rightarrow> bool) \<Rightarrow> nat \<Rightarrow> u64 \<Rightarrow> nat \<Rightarrow> cbb_op" where
  "add_base128_loop alloc d v 0 s = (True, s)"
| "add_base128_loop alloc d v (Suc i) s =
     (let byte = ucast (drop_bit (7 * i) v) AND 0x7f :: u8;
          byte' = (if i \<noteq> 0 then byte OR 0x80 else byte)
      in cbb_then (CBB_add_u8 alloc d byte') (add_base128_loop alloc d v i) s)"

definition add_base128_integer :: "(nat \<Rightarrow> bool) \<Rightarrow> nat \<Rightarrow> u64 \<Rightarrow> cbb_op" where
  "add_base128_integer alloc d v =
     (let n = base128_len_len v 0; len_len = (if n = 0 then 1 else n)
      in add_base128_loop alloc d v len_len)"

definition CBB_add_asn1 :: "(nat \<Rightarrow> bool) \<Rightarrow> nat \<Rightarrow> u32 \<Rightarrow> cbb_op" where
  "CBB_add_asn1 alloc d tag =
     cbb_then (CBB_flush alloc d)
       (let tag_bits = ucast (drop_bit CBS_ASN1_TAG_SHIFT tag) AND 0xe0 :: u8;
            tag_number = tag AND CBS_ASN1_TAG_NUMBER_MASK
        in cbb_then
             (if tag_number \<ge> 0x1f
              then cbb_then (CBB_add_u8 alloc d (tag_bits OR 0x1f))
                     (add_base128_integer alloc d (ucast tag_number))
              else CBB_add_u8 alloc d (tag_bits OR ucast tag_number))
             (\<lambda>s. let off = blen (cbb_buf s) in
                case CBB_add_u8 alloc d 0 s of
                  (ok, s') \<Rightarrow>
                    if \<not> ok then (False, s')
                    else (True, open_child d \<lparr>offset = off, pending_len_len = 1,
                                              pending_is_asn1 = True\<rparr> s')))"

text \<open>The INTEGER writers.  \<open>started\<close> is set once a non-zero byte was seen.\<close>

fun asn1_uint64_write :: "(nat \<Rightarrow> bool) \<Rightarrow> nat \<Rightarrow> u64 \<Rightarrow> bool \<Rightarrow> nat \<Rightarrow> cbb \<Rightarrow> bool \<times> bool \<times> cbb" where
  "asn1_uint64_write alloc child value started 0 s = (True, started, s)"
| "asn1_uint64_write alloc child value started (Suc n) s =
     (let byte = ucast (drop_bit (8 * n) value) AND 0xff :: u8 in
      if \<not> started \<and> byte = 0 then asn1_uint64_write alloc child value started n s
      else
        (case cbb_then
                (if \<not> started \<and> byte AND 0x80 \<noteq> 0 then CBB_add_u8 alloc child 0 else Pair True)
                (CBB_add_u8 alloc child byte) s of
           (ok, s') \<Rightarrow>
             if \<not> ok then (False, True, s')
             else asn1_uint64_write alloc child value True n s'))"

definition CBB_add_asn1_uint64 :: "(nat \<Rightarrow> bool) \<Rightarrow> nat \<Rightarrow> u64 \<Rightarrow> cbb_op" where
  "CBB_add_asn1_uint64 alloc d value =
     cbb_then (CBB_add_asn1 alloc d CBS_ASN1_INTEGER)
       (\<lambda>s. case asn1_uint64_write alloc (Suc d) value False 8 s of
          (ok, started, s') \<Rightarrow>
            if \<not> ok then (False, s')
            else cbb_then (if \<not> started then CBB_add_u8 alloc (Suc d) 0 else Pair True)
                   (CBB_flush alloc d) s')"

fun int64_start :: "bytes \<Rightarrow> nat \<Rightarrow> nat" where
  "int64_start u 0 = 0"
| "int64_start u (Suc start) =
     (if u ! Suc start = 0xff \<and> u ! start AND 0x80 \<noteq> 0 then int64_start u start else Suc start)"

fun add_bytes_down :: "(nat \<Rightarrow> bool) \<Rightarrow> nat \<Rightarrow> bytes \<Rightarrow> nat \<Rightarrow> cbb_op" where
  "add_bytes_down alloc child u 0 s = (True, s)"
| "add_bytes_down alloc child u (Suc i) s =
     cbb_then (CBB_add_u8 alloc child (u ! i)) (add_bytes_down alloc child u i) s"

definition CBB_add_asn1_int64 :: "(nat \<Rightarrow> bool) \<Rightarrow> nat \<Rightarrow> u64 \<Rightarrow> cbb_op" where
  "CBB_add_asn1_int64 alloc d value =
     (if sint value \<ge> 0 then CBB_add_asn1_uint64 alloc d value
      else
        (let u = le_bytes 8 value; start = int64_start u 7
         in cbb_then (CBB_add_asn1 alloc d CBS_ASN1_INTEGER)
              (cbb_then (add_bytes_down alloc (Suc d) u (start + 1)) (CBB_flush alloc d))))"

definition CBB_add_asn1_octet_string :: "(nat \<Rightarrow> bool) \<Rightarrow> nat \<Rightarrow> bytes \<Rightarrow> nat \<Rightarrow> cbb_op" where
  "CBB_add_asn1_octet_string alloc d data data_len =
     cbb_then (CBB_add_asn1 alloc d CBS_ASN1_OCTETSTRING)
       (cbb_then (CBB_add_bytes alloc (Suc d) data data_len) (CBB_flush alloc d))"

definition CBB_add_asn1_bool :: "(nat \<Rightarrow> bool) \<Rightarrow> nat \<Rightarrow> int \<Rightarrow> cbb_op" where
  "CBB_add_asn1_bool alloc d value =
     cbb_then (CBB_add_asn1 alloc d CBS_ASN1_BOOLEAN)
       (cbb_then (CBB_add_u8 alloc (Suc d) (if value \<noteq> 0 then 0xff else 0)) (CBB_flush alloc d))"

text \<open>Object identifiers from text.\<close>

function parse_dotted_decimal_loop :: "u64 \<Rightarrow> bool \<Rightarrow> cbs \<Rightarrow> u64 option \<times> cbs" where
  "parse_dotted_decimal_loop out seen_digit c =
     (case CBS_get_u8 c of
        (None, c') \<Rightarrow> (if seen_digit then Some out else None, c')
      | (Some u, c') \<Rightarrow>
          if u = 0x2e \<and> CBS_len c' > 0 then (if seen_digit then Some out else None, c')
          else if u < 0x30 \<or> u > 0x39 \<or> (seen_digit \<and> out = 0) \<or>
                  out > 0xffffffffffffffff div 10 \<or>
                  out * 10 > 0xffffffffffffffff - (ucast u - 0x30)
          then (None, c')
          else parse_dotted_decimal_loop (out * 10 + (ucast u - 0x30)) True c')"
  by pat_completeness auto
termination
  by (relation "measure (\<lambda>(_, _, c). cbs_len c)")
    (auto simp: CBS_get_u8_def cbs_get_def split: if_splits)

declare parse_dotted_decimal_loop.simps [simp del]

definition parse_dotted_decimal :: "u64 getter" where
  "parse_dotted_decimal = parse_dotted_decimal_loop 0 False"

text \<open>The rest of the components; every round consumes at least one byte.\<close>

fun oid_components :: "nat \<Rightarrow> (nat \<Rightarrow> bool) \<Rightarrow> nat \<Rightarrow> cbs \<Rightarrow> cbb \<Rightarrow> (bool \<times> cbb) option" where
  "oid_components fuel alloc d c s =
     (if CBS_len c = 0 then Some (True, s)
      else
        (case fuel of
           0 \<Rightarrow> None
         | Suc fuel' \<Rightarrow>
             (case parse_dotted_decimal c of
                (None, _) \<Rightarrow> Some (False, s)
              | (Some a, c') \<Rightarrow>
                  (case add_base128_integer alloc d a s of
                     (ok, s') \<Rightarrow>
                       if \<not> ok then Some (False, s') else oid_components fuel' alloc d c' s'))))"

declare oid_components.simps [simp del]

definition CBB_add_asn1_oid_from_text ::
    "nat \<Rightarrow> (nat \<Rightarrow> bool) \<Rightarrow> nat \<Rightarrow> bytes \<Rightarrow> nat \<Rightarrow> cbb \<Rightarrow> (bool \<times> cbb) option" where
  "CBB_add_asn1_oid_from_text fuel alloc d txt len s =
     (case CBB_flush alloc d s of
        (ok, s1) \<Rightarrow>
          if \<not> ok then Some (False, s1)
          else
            (case parse_dotted_decimal (CBS_init txt len) of
               (None, _) \<Rightarrow> Some (False, s1)
             | (Some a, c1) \<Rightarrow>
                 (case parse_dotted_decimal c1 of
                    (None, _) \<Rightarrow> Some (False, s1)
                  | (Some b, c2) \<Rightarrow>
                      if a > 2 \<or> (a < 2 \<and> b > 39) \<or> b > 0xffffffffffffffff - 80
                      then Some (False, s1)
                      else
                        (case add_base128_integer alloc d (40 * a + b) s1 of
                           (ok, s2) \<Rightarrow>
                             if \<not> ok then Some (False, s2) else oid_components fuel alloc d c2 s2))))"

end
