(* ===== verification/Cbb_spec.thy ===== *)
theory Cbb_spec
  imports Cbb
begin

text \<open>
  What the builder of Cbb promises.  The bytes written so far, with the length prefixes
  that are still pending filled in, are \<open>sealed\<close>; a writer appends its encoding to them
  and nothing else happens to them.  Writers compose, and a child \<open>CBB\<close> turns a writer of
  a body into a writer of an element.
\<close>

section \<open>The buffer\<close>

definition buffer_ok :: "cbb_buffer \<Rightarrow> bool" where
  "buffer_ok b \<longleftrightarrow> blen b \<le> cap b \<and> length (buf b) = cap b \<and> cap b + 8 < 2 ^ 63"

definition buffer_bytes :: "cbb_buffer \<Rightarrow> bytes" where
  "buffer_bytes b = take (blen b) (buf b)"

lemma length_buffer_bytes [simp]: "buffer_ok b \<Longrightarrow> length (buffer_bytes b) = blen b"
  by (simp add: buffer_ok_def buffer_bytes_def)

text \<open>
  What every operation does to a buffer: it stays well-formed, a fixed one keeps its
  memory, and an error is never forgotten.
\<close>

definition buffer_step :: "cbb_buffer \<Rightarrow> cbb_buffer \<Rightarrow> bool" where
  "buffer_step b b' \<longleftrightarrow> buffer_ok b' \<and> can_resize b' = can_resize b \<and> cap b \<le> cap b' \<and>
     (\<not> can_resize b \<longrightarrow> cap b' = cap b) \<and> (error b \<longrightarrow> error b')"

lemma buffer_step_refl [intro]: "buffer_ok b \<Longrightarrow> buffer_step b b"
  by (simp add: buffer_step_def)

lemma buffer_step_trans [trans]: "buffer_step b b1 \<Longrightarrow> buffer_step b1 b2 \<Longrightarrow> buffer_step b b2"
  by (auto simp: buffer_step_def)

lemma cbb_buffer_reserve_step:
  assumes ok: "alloc_ok alloc" "buffer_ok b" and len: "len < 2 ^ 63"
    and r: "cbb_buffer_reserve alloc len b = (out, b')"
  shows "buffer_step b b' \<and> blen b' = blen b \<and> buffer_bytes b' = buffer_bytes b \<and>
    (case out of None \<Rightarrow> error b'
     | Some p \<Rightarrow> p = blen b \<and> error b' = error b \<and> blen b + len \<le> cap b')"
proof -
  have "blen b + len < 2 ^ 64 - 8" using ok(2) len by (simp add: buffer_ok_def)
  then have newlen: "(blen b + len) mod size_t_mod = blen b + len" by (simp add: size_t_mod_def)
  have cap2: "cap b * 2 mod size_t_mod = cap b * 2" using ok(2)
    by (simp add: buffer_ok_def size_t_mod_def)
  define newcap where "newcap = (if cap b * 2 < cap b \<or> cap b * 2 < blen b + len
    then blen b + len else cap b * 2)"
  have newcap: "newcap + 8 < size_t_mod" "cap b \<le> newcap" "blen b + len \<le> newcap"
      if "cap b < blen b + len"
    using ok(2) len that by (auto simp: newcap_def buffer_ok_def size_t_mod_def)
  show ?thesis
  proof (cases "cap b < blen b + len \<and> can_resize b")
    case False
    then show ?thesis
      using r ok(2) by (auto simp: cbb_buffer_reserve_def newlen cap2 Let_def buffer_step_def
          buffer_ok_def buffer_bytes_def split: if_splits)
  next
    case True
    have eq: "cbb_buffer_reserve alloc len b =
      (case OPENSSL_realloc alloc (Some (buf b)) newcap of
         None \<Rightarrow> (None, b\<lparr>error := True\<rparr>)
       | Some newbuf \<Rightarrow> (Some (blen b), b\<lparr>buf := newbuf, cap := newcap\<rparr>))"
      unfolding newcap_def cbb_buffer_reserve_def newlen cap2 Let_def using True by simp
    show ?thesis
    proof (cases "OPENSSL_realloc alloc (Some (buf b)) newcap")
      case None
      then show ?thesis
        using r ok(2) True eq by (auto simp: buffer_step_def buffer_ok_def buffer_bytes_def)
    next
      case (Some p)
      have p: "length p = newcap" "take (length (buf b)) p = buf b"
        using OPENSSL_realloc_grow [OF Some] newcap True ok(2) by (simp_all add: buffer_ok_def)
      have "alloc (newcap + 8)"
        using Some newcap True OPENSSL_malloc_None_iff [of newcap alloc]
        by (auto simp: OPENSSL_realloc_def split: option.splits)
      then have big: "newcap + 8 < 2 ^ 63" using ok(1) by (simp add: alloc_ok_def)
      have "take (blen b) p = take (blen b) (buf b)"
        using p(2) ok(2) unfolding buffer_ok_def by (metis min.absorb1 take_take)
      then show ?thesis
        using r ok(2) True Some p(1) big newcap eq
        by (auto simp: buffer_step_def buffer_ok_def buffer_bytes_def)
    qed
  qed
qed

text \<open>Reserving fails only when the buffer is fixed, too large, or memory runs out.\<close>

lemma cbb_buffer_reserve_total:
  assumes "buffer_ok b" and "blen b + len < 2 ^ 61"
    and "can_resize b \<or> blen b + len \<le> cap b"
  shows "fst (cbb_buffer_reserve alloc_total len b) \<noteq> None"
proof -
  have newlen: "(blen b + len) mod size_t_mod = blen b + len"
    and cap2: "cap b * 2 mod size_t_mod = cap b * 2"
    using assms by (simp_all add: size_t_mod_def buffer_ok_def)
  show ?thesis
  proof (cases "cap b < blen b + len")
    case True
    define newcap where "newcap = (if cap b * 2 < cap b \<or> cap b * 2 < blen b + len
      then blen b + len else cap b * 2)"
    have "newcap + 8 < 2 ^ 63" using assms True by (simp add: newcap_def)
    then have "OPENSSL_realloc alloc_total (Some (buf b)) newcap \<noteq> None"
      using OPENSSL_malloc_None_iff [of newcap alloc_total]
      by (auto simp: OPENSSL_realloc_def alloc_total_def size_t_mod_def split: option.splits)
    then show ?thesis
      using assms True unfolding cbb_buffer_reserve_def newlen cap2 Let_def newcap_def [symmetric]
      by (auto split: option.split)
  qed (simp add: cbb_buffer_reserve_def newlen)
qed

lemma cbb_buffer_add_step:
  assumes ok: "alloc_ok alloc" "buffer_ok b" and len: "len < 2 ^ 63"
    and r: "cbb_buffer_add alloc len b = (out, b')"
  shows "buffer_step b b' \<and>
    (case out of None \<Rightarrow> error b' \<and> blen b' = blen b \<and> buffer_bytes b' = buffer_bytes b
     | Some p \<Rightarrow> p = blen b \<and> error b' = error b \<and> blen b' = blen b + len \<and>
         take (blen b) (buf b') = buffer_bytes b)"
proof -
  obtain p b1 where r1: "cbb_buffer_reserve alloc len b = (p, b1)" by fastforce
  from cbb_buffer_reserve_step [OF ok len r1] show ?thesis
    using r r1 by (cases p) (auto simp: cbb_buffer_add_def buffer_step_def buffer_ok_def buffer_bytes_def)
qed

lemma cbb_buffer_add_total:
  assumes "buffer_ok b" and "blen b + len < 2 ^ 61"
    and "can_resize b \<or> blen b + len \<le> cap b"
  shows "fst (cbb_buffer_add alloc_total len b) \<noteq> None"
  using cbb_buffer_reserve_total [OF assms]
  by (auto simp: cbb_buffer_add_def split: prod.split option.split)

section \<open>Writing integers\<close>

lemma poke_be_eq:
  "out + k \<le> length b \<Longrightarrow>
   poke_be out k v b = (drop_bit (8 * k) v, take out b @ be_bytes k v @ drop (out + k) b)"
proof (induction k arbitrary: v b)
  case 0
  then show ?case by (simp add: be_bytes_def)
next
  case (Suc k)
  have split: "drop (out + k) (b[out + k := ucast v]) = ucast v # drop (out + Suc k) b"
    using Suc.prems by (subst Cons_nth_drop_Suc [symmetric]) simp_all
  have "be_bytes (Suc k) v = be_bytes k (drop_bit 8 v) @ [ucast v]" by (simp add: be_bytes_def)
  then show ?case
    using Suc.prems Suc.IH [of "b[out + k := ucast v]" "drop_bit 8 v"]
    by (simp add: split add.commute [of 8 "8 * k"])
qed

lemma drop_bit_eq_0_iff: "drop_bit (8 * k) v = 0 \<longleftrightarrow> unat v < 256 ^ k" for v :: "'a::len word"
proof -
  have "drop_bit (8 * k) v = 0 \<longleftrightarrow> unat (drop_bit (8 * k) v) = 0" by (simp add: unat_eq_0)
  also have "\<dots> \<longleftrightarrow> unat v < 2 ^ (8 * k)" by (simp add: unat_drop_bit div_eq_0_iff)
  finally show ?thesis by (simp add: power_mult)
qed

lemma cbb_buffer_add_u_step:
  assumes ok: "alloc_ok alloc" "buffer_ok b" and k: "k \<le> 8"
    and r: "cbb_buffer_add_u alloc v k b = (okay, b')"
  shows "buffer_step b b' \<and> blen b \<le> blen b' \<and> (\<not> okay \<longrightarrow> error b') \<and>
    (okay \<longrightarrow> error b' = error b \<and> (k = 0 \<or> unat v < 256 ^ k) \<and>
       buffer_bytes b' = buffer_bytes b @ be_bytes k v)"
proof (cases "k = 0")
  case False
  obtain out b1 where a: "cbb_buffer_add alloc k b = (out, b1)" by fastforce
  note s = cbb_buffer_add_step [OF ok _ a]
  show ?thesis
  proof (cases out)
    case None
    then show ?thesis using s r a False k by (auto simp: cbb_buffer_add_u_def)
  next
    case (Some p)
    with s k have p: "p = blen b" "error b1 = error b" "blen b1 = blen b + k" "buffer_step b b1"
      "take (blen b) (buf b1) = buffer_bytes b" by simp_all
    have room: "blen b + k \<le> length (buf b1)" using p by (simp add: buffer_step_def buffer_ok_def)
    define b2 where "b2 = b1\<lparr>buf := buffer_bytes b @ be_bytes k v @ drop (blen b + k) (buf b1)\<rparr>"
    have eq: "cbb_buffer_add_u alloc v k b =
        (if unat v < 256 ^ k then (True, b2) else (False, b2\<lparr>error := True\<rparr>))"
      using poke_be_eq [OF room, of v] a Some p(1,5) False
      by (simp add: cbb_buffer_add_u_def b2_def Let_def drop_bit_eq_0_iff)
    have "buffer_step b1 b2" and "buffer_bytes b2 = buffer_bytes b @ be_bytes k v"
      and b2: "blen b2 = blen b1" "error b2 = error b1"
      using p(3,4) room ok(2) by (simp_all add: b2_def buffer_step_def buffer_ok_def buffer_bytes_def)
    moreover have "buffer_step b b2" using p(4) calculation(1) by (rule buffer_step_trans)
    moreover have "buffer_step b2 (b2\<lparr>error := True\<rparr>)"
      using \<open>buffer_step b1 b2\<close> by (simp add: buffer_step_def buffer_ok_def)
    ultimately show ?thesis
      using r p eq by (auto split: if_splits intro: buffer_step_trans)
  qed
qed (use r ok in \<open>auto simp: cbb_buffer_add_u_def be_bytes_def\<close>)

lemma cbb_buffer_add_u_total:
  assumes "buffer_ok b" and "blen b + k < 2 ^ 61" and "can_resize b \<or> blen b + k \<le> cap b"
    and "k \<le> 8" and "unat v < 256 ^ k"
  shows "fst (cbb_buffer_add_u alloc_total v k b)"
proof -
  obtain out b1 where a: "cbb_buffer_add alloc_total k b = (out, b1)" by fastforce
  with cbb_buffer_add_total [OF assms(1-3)] obtain p where out: "out = Some p" by auto
  with cbb_buffer_add_step [OF alloc_total_ok assms(1) _ a] assms(4)
  have "p + k \<le> length (buf b1)" by (auto simp: buffer_step_def buffer_ok_def)
  then show ?thesis
    using a out assms(5) poke_be_eq [of p k "buf b1" v]
    by (simp add: cbb_buffer_add_u_def drop_bit_eq_0_iff)
qed

section \<open>Pending prefixes\<close>

text \<open>The chain of children: each prefix lies behind the one before, inside the buffer.\<close>

fun chain_ok :: "nat \<Rightarrow> cbb_frame list \<Rightarrow> nat \<Rightarrow> bool" where
  "chain_ok p [] n \<longleftrightarrow> p \<le> n"
| "chain_ok p (f # fs) n \<longleftrightarrow>
     p \<le> offset f \<and> 0 < pending_len_len f \<and> pending_len_len f \<le> 3 \<and>
     (pending_is_asn1 f \<longrightarrow> pending_len_len f = 1) \<and>
     chain_ok (offset f + pending_len_len f) fs n"

definition prefix_of :: "cbb_frame \<Rightarrow> nat \<Rightarrow> bytes" where
  "prefix_of f n =
     (if pending_is_asn1 f then der_length n else be_bytes (pending_len_len f) (word_of_nat n :: u64))"

definition prefix_fits :: "cbb_frame \<Rightarrow> nat \<Rightarrow> bool" where
  "prefix_fits f n \<longleftrightarrow> (if pending_is_asn1 f then n \<le> 0xfffffffe else n < 256 ^ pending_len_len f)"

text \<open>The bytes a flush leaves: every pending prefix is replaced by the length behind it.\<close>

fun seal :: "cbb_frame list \<Rightarrow> bytes \<Rightarrow> bytes" where
  "seal [] bs = bs"
| "seal (f # fs) bs =
     (let bs' = seal fs bs; body = drop (offset f + pending_len_len f) bs'
      in take (offset f) bs' @ prefix_of f (length body) @ body)"

fun sealable :: "cbb_frame list \<Rightarrow> bytes \<Rightarrow> bool" where
  "sealable [] bs \<longleftrightarrow> True"
| "sealable (f # fs) bs \<longleftrightarrow>
     sealable fs bs \<and> prefix_fits f (length (seal fs bs) - (offset f + pending_len_len f))"

lemma chain_ok_le: "chain_ok p fs n \<Longrightarrow> p \<le> n"
  by (induction fs arbitrary: p) (force intro: le_trans)+

lemma chain_ok_mono: "chain_ok p fs n \<Longrightarrow> n \<le> n' \<Longrightarrow> chain_ok p fs n'"
  by (induction fs arbitrary: p) auto

lemma chain_ok_weaken: "chain_ok p fs n \<Longrightarrow> p' \<le> p \<Longrightarrow> chain_ok p' fs n"
  by (cases fs) auto

lemma chain_ok_append:
  "chain_ok p (fs @ gs) n \<longleftrightarrow>
     (if fs = [] then chain_ok p gs n
      else chain_ok p fs (offset (last fs) + pending_len_len (last fs)) \<and>
           chain_ok (offset (last fs) + pending_len_len (last fs)) gs n)"
  by (induction fs arbitrary: p) auto

lemma prefix_of_length_ge:
  "pending_is_asn1 f \<longrightarrow> pending_len_len f = 1 \<Longrightarrow> pending_len_len f \<le> length (prefix_of f n)"
  by (simp add: prefix_of_def der_length_def)

text \<open>Sealing keeps what lies before the first pending prefix, and only ever adds bytes.\<close>

lemma seal_prefix:
  "chain_ok p fs (length bs) \<Longrightarrow>
   take p (seal fs bs) = take p bs \<and> p \<le> length (seal fs bs) \<and> length bs \<le> length (seal fs bs)"
proof (induction fs arbitrary: p)
  case (Cons f fs)
  let ?q = "offset f + pending_len_len f"
  have IH: "take ?q (seal fs bs) = take ?q bs" "?q \<le> length (seal fs bs)"
    "length bs \<le> length (seal fs bs)" using Cons by auto
  have p: "p \<le> offset f" using Cons.prems by simp
  have "take p (take ?q (seal fs bs)) = take p (take ?q bs)" using IH(1) by simp
  then have "take p (seal fs bs) = take p bs" using p by (simp add: min_def)
  moreover have "pending_len_len f \<le> length (prefix_of f n)" for n
    using Cons.prems by (intro prefix_of_length_ge) simp
  then have "length (seal fs bs) \<le> length (seal (f # fs) bs)"
    using IH(2) by (simp add: Let_def le_diff_conv2)
  ultimately show ?case using p IH by (simp add: Let_def)
qed simp

text \<open>Appending to the innermost \<open>CBB\<close> extends every pending body.\<close>

lemma length_be_min:
  assumes "256 ^ j \<le> n" and "n < 256 ^ Suc j"
  shows "length (be_min n) = Suc j"
proof -
  have "0 < n" using assms(1) by (metis gr_zeroI not_less zero_less_power zero_less_numeral)
  then have "be_min n \<noteq> []" using be_min_nonzero by blast
  have "be_nat (be_min n) < 256 ^ length (be_min n)" by (rule be_nat_less)
  with assms(1) have "256 ^ j < (256::nat) ^ length (be_min n)"
    unfolding be_nat_be_min by (rule le_less_trans)
  then have "j < length (be_min n)" by (rule power_less_imp_less_exp [rotated]) simp
  moreover have "length (be_min n) \<le> Suc j" by (rule length_be_min_le) (rule assms(2))
  ultimately show ?thesis by simp
qed

lemma be_bytes_be_min:
  assumes "256 ^ j \<le> n" and "n < 256 ^ Suc j" and "Suc j \<le> 8"
  shows "be_bytes (Suc j) (word_of_nat n :: u64) = be_min n"
proof (rule be_nat_inj)
  have "(256::nat) ^ Suc j \<le> 256 ^ 8" by (rule power_increasing) (use assms(3) in auto)
  then have "unat (word_of_nat n :: u64) = n"
    using assms(2) by (intro unat_word_of_nat_small) simp
  then show "be_nat (be_bytes (Suc j) (word_of_nat n :: u64)) = be_nat (be_min n)"
    using assms(2) by (simp only: be_nat_be_bytes be_nat_be_min mod_less)
qed (simp add: length_be_min [OF assms(1,2)])

lemma asn1_len_len_spec:
  assumes "asn1_len_len n = Some (k, first)"
  shows "0 < k \<and> k \<le> 5 \<and>
    der_length n = first # be_bytes (k - 1) (word_of_nat (if k = 1 then 0 else n) :: u64) \<and>
    (k \<noteq> 1 \<longrightarrow> n < 256 ^ (k - 1)) \<and> n \<le> 0xfffffffe"
proof -
  consider "n \<le> 127" | "127 < n" "n \<le> 0xff" | "0xff < n" "n \<le> 0xffff"
    | "0xffff < n" "n \<le> 0xffffff" | "0xffffff < n" "n \<le> 0xfffffffe"
    using assms by (auto simp: asn1_len_len_def split: if_splits)
  then show ?thesis
  proof cases
    case 1
    then show ?thesis using assms by (auto simp: asn1_len_len_def der_length_def be_bytes_def)
  next
    case 2
    then show ?thesis using assms be_bytes_be_min [of 0 n] length_be_min [of 0 n]
      by (auto simp: asn1_len_len_def der_length_def)
  next
    case 3
    then show ?thesis using assms be_bytes_be_min [of 1 n] length_be_min [of 1 n]
      by (auto simp: asn1_len_len_def der_length_def numeral_2_eq_2)
  next
    case 4
    then show ?thesis using assms be_bytes_be_min [of 2 n] length_be_min [of 2 n]
      by (auto simp: asn1_len_len_def der_length_def)
  next
    case 5
    then show ?thesis using assms be_bytes_be_min [of 3 n] length_be_min [of 3 n]
      by (auto simp: asn1_len_len_def der_length_def)
  qed
qed

section \<open>Flushing\<close>

lemma flush_asn1_length_step:
  assumes ok: "alloc_ok alloc" "buffer_ok b" and q: "offset ch + 1 \<le> blen b"
    and len: "len = blen b - (offset ch + 1)"
    and r: "flush_asn1_length alloc (offset ch + 1) len ch b = (res, ch', b2)"
  shows "buffer_step b b2 \<and>
    (case res of None \<Rightarrow> ch' = ch \<and> blen b \<le> blen b2
     | Some len' \<Rightarrow> error b2 = error b \<and> len \<le> 0xfffffffe \<and>
         (\<exists>buf'. poke_be (offset ch') (pending_len_len ch') (word_of_nat len') (buf b2) = (0, buf') \<and>
            length buf' = length (buf b2) \<and>
            take (blen b2) buf' =
              take (offset ch) (buffer_bytes b) @ der_length len @ drop (offset ch + 1) (buffer_bytes b)))"
proof (cases "asn1_len_len len")
  case None
  then show ?thesis using r ok by (auto simp: flush_asn1_length_def)
next
  case (Some kf)
  obtain k first where kf: "kf = (k, first)" by fastforce
  define B where "B = buffer_bytes b"
  define q where "q = offset ch"
  note S = asn1_len_len_spec [OF Some [unfolded kf]]
  have B: "length B = blen b" using ok(2) by (simp add: B_def)
  have qB: "q < length B" using q by (simp add: B q_def)
  show ?thesis
  proof (cases "k = 1")
    case True
    have b2: "b2 = b\<lparr>buf := (buf b)[q := first]\<rparr>" "res = Some 0" "pending_len_len ch' = 0"
      using r Some by (auto simp: flush_asn1_length_def kf True q_def)
    have d: "der_length len = [first]" using S True by (simp add: be_bytes_def)
    have "take (blen b) ((buf b)[q := first]) = B[q := first]"
      by (simp add: B_def buffer_bytes_def take_update_swap)
    also have "\<dots> = take q B @ first # drop (q + 1) B"
      using qB by (simp add: upd_conv_take_nth_drop)
    finally show ?thesis
      using b2 S ok(2) by (simp add: d B_def q_def buffer_step_def buffer_ok_def)
  next
    case False
    obtain out b1 where a: "cbb_buffer_add alloc (k - 1) b = (out, b1)" by fastforce
    have k: "1 < k" "k \<le> 5" using S False by auto
    have "buffer_step b b1 \<and> (case out of None \<Rightarrow> blen b1 = blen b
       | Some p \<Rightarrow> error b1 = error b \<and> blen b1 = blen b + (k - 1) \<and> take (blen b) (buf b1) = B)"
      using cbb_buffer_add_step [OF ok _ a] k by (auto simp: B_def split: option.splits)
    note A = this
    show ?thesis
    proof (cases out)
      case None
      then show ?thesis using r A a Some False by (auto simp: flush_asn1_length_def kf)
    next
      case out: (Some p)
      define buf2 where "buf2 = (memmove_within (q + 1 + (k - 1)) (q + 1) len (buf b1))[q := first]"
      have b2: "b2 = b1\<lparr>buf := buf2\<rparr>" "res = Some len" "offset ch' = q + 1"
        "pending_len_len ch' = k - 1"
        using r Some a out False by (auto simp: flush_asn1_length_def kf q_def buf2_def Let_def)
      from A out have step: "buffer_step b b1" and e: "error b1 = error b"
        and bl: "blen b1 = blen b + (k - 1)" and tk: "take (blen b) (buf b1) = B" by auto
      have room: "blen b + (k - 1) \<le> length (buf b1)"
        using step bl by (simp add: buffer_step_def buffer_ok_def)
      have cut: "take len (drop (q + 1) (buf b1)) = drop (q + 1) B"
        using tk qB len B by (metis (no_types, lifting) q_def drop_take)
      have len': "q + 1 + len = blen b" using q len by (simp add: q_def)
      have buf2: "buf2 = take q (buf b1) @ first # drop (Suc q) (take (q + k) (buf b1)) @
          drop (q + 1) B @ drop (blen b + (k - 1)) (buf b1)"
      proof -
        have "memmove_within (q + 1 + (k - 1)) (q + 1) len (buf b1) =
            take (q + k) (buf b1) @ drop (q + 1) B @ drop (blen b + (k - 1)) (buf b1)"
        proof -
          have "q + 1 + (k - 1) = q + k" "q + k + len = blen b + (k - 1)" using len' k by simp_all
          then show ?thesis by (simp only: memmove_within_def cut)
        qed
        moreover have "q < length (take (q + k) (buf b1))" using room k qB B by simp
        then have "(take (q + k) (buf b1))[q := first] =
            take q (buf b1) @ first # drop (Suc q) (take (q + k) (buf b1))"
          by (simp add: upd_conv_take_nth_drop min_def)
        ultimately show ?thesis
          using room k qB B by (simp add: buf2_def list_update_append)
      qed
      have lb2: "length buf2 = length (buf b1)" using room k qB B by (simp add: buf2)
      have poke: "poke_be (q + 1) (k - 1) (word_of_nat len) buf2 =
          (drop_bit (8 * (k - 1)) (word_of_nat len),
           take (q + 1) buf2 @ be_bytes (k - 1) (word_of_nat len :: u64) @ drop (q + 1 + (k - 1)) buf2)"
        by (rule poke_be_eq) (use room k qB B lb2 in simp)
      have "(256::nat) ^ (k - 1) \<le> 256 ^ 4" by (rule power_increasing) (use k in auto)
      then have "unat (word_of_nat len :: u64) = len"
        using S False by (intro unat_word_of_nat_small) simp
      then have left: "drop_bit (8 * (k - 1)) (word_of_nat len :: u64) = 0"
        using S False by (subst drop_bit_eq_0_iff) simp
      have d: "der_length len = first # be_bytes (k - 1) (word_of_nat len :: u64)"
        using S False by simp
      have t1: "take (q + 1) buf2 = take q B @ [first]"
      proof -
        have "take q (buf b1) = take q B" using tk qB B by (metis less_or_eq_imp_le min.absorb1 take_take)
        then show ?thesis using room qB B by (simp add: buf2 take_Cons')
      qed
      have d1: "drop (q + 1 + (k - 1)) buf2 = drop (q + 1) B @ drop (blen b + (k - 1)) (buf b1)"
        using room k qB B by (simp add: buf2 drop_Cons')
      define buf3 where "buf3 = take (q + 1) buf2 @ be_bytes (k - 1) (word_of_nat len :: u64) @
          drop (q + 1 + (k - 1)) buf2"
      have "take (blen b + (k - 1)) buf3 = take q B @ der_length len @ drop (q + 1) B"
      proof -
        let ?x = "take q B @ (first # be_bytes (k - 1) (word_of_nat len :: u64)) @ drop (q + 1) B"
        have "blen b + (k - 1) = length ?x" using qB B k by simp
        then have "take (blen b + (k - 1)) (?x @ drop (blen b + (k - 1)) (buf b1)) = ?x"
          by (metis append_eq_conv_conj)
        then show ?thesis unfolding buf3_def t1 d1 d by simp
      qed
      moreover have "buffer_step b b2"
        using step lb2 by (simp add: b2(1) buffer_step_def buffer_ok_def)
      moreover have "poke_be (offset ch') (pending_len_len ch') (word_of_nat len) (buf b2) = (0, buf3)"
        using poke left by (simp add: b2 buf3_def)
      moreover have "length buf3 = length (buf b2)"
        using room k qB B lb2 by (simp add: buf3_def b2(1))
      moreover have "len \<le> 0xfffffffe" "error b2 = error b" "blen b2 = blen b + (k - 1)"
        using S by (simp_all add: b2(1) e bl)
      ultimately show ?thesis by (simp add: b2(2) B_def q_def)
    qed
  qed
qed

lemma flush_asn1_length_total:
  assumes "buffer_ok b" and "can_resize b" and "blen b + 4 < 2 ^ 61" and "len \<le> 0xfffffffe"
  shows "fst (flush_asn1_length alloc_total cs len ch b) \<noteq> None"
proof -
  obtain k first where kf: "asn1_len_len len = Some (k, first)"
  proof -
    have "asn1_len_len len \<noteq> None" using assms(4) by (simp add: asn1_len_len_def)
    then show thesis using that by auto
  qed
  then have "k - 1 \<le> 4" using asn1_len_len_spec [OF kf] by auto
  then have "fst (cbb_buffer_add alloc_total (k - 1) b) \<noteq> None"
    using assms by (intro cbb_buffer_add_total) auto
  then show ?thesis by (auto simp: flush_asn1_length_def kf Let_def split: prod.split option.split)
qed

lemma flush_fixed_prefix:
  assumes ok: "buffer_ok b" and q: "offset ch + pending_len_len ch \<le> blen b"
    and len: "len = blen b - (offset ch + pending_len_len ch)"
  shows "\<exists>buf'. poke_be (offset ch) (pending_len_len ch) (word_of_nat len) (buf b) =
      (drop_bit (8 * pending_len_len ch) (word_of_nat len), buf') \<and> length buf' = length (buf b) \<and>
    take (blen b) buf' = take (offset ch) (buffer_bytes b) @
      be_bytes (pending_len_len ch) (word_of_nat len :: u64) @
      drop (offset ch + pending_len_len ch) (buffer_bytes b)"
proof -
  have "offset ch + pending_len_len ch \<le> length (buf b)" using ok q by (simp add: buffer_ok_def)
  from poke_be_eq [OF this, of "word_of_nat len"] show ?thesis
    using ok q by (auto simp: buffer_ok_def buffer_bytes_def drop_take min_def dest: le_antisym)
qed

lemma buffer_len_word: "buffer_ok b \<Longrightarrow> n \<le> blen b \<Longrightarrow> unat (word_of_nat n :: u64) = n"
  by (rule unat_word_of_nat_small) (simp add: buffer_ok_def)

lemma buffer_step_buf:
  "buffer_ok b \<Longrightarrow> length xs = length (buf b) \<Longrightarrow> buffer_step b (b\<lparr>buf := xs\<rparr>)"
  and buffer_step_error: "buffer_ok b \<Longrightarrow> buffer_step b (b\<lparr>error := True\<rparr>)"
  by (simp_all add: buffer_step_def buffer_ok_def)

lemma flush_frames_step:
  assumes "alloc_ok alloc" and "buffer_ok b" and "chain_ok p fs (blen b)"
    and "flush_frames alloc fs b = (ok, fs', b')"
  shows "buffer_step b b' \<and> blen b \<le> blen b' \<and> chain_ok p fs' (blen b') \<and> length fs' \<le> length fs \<and>
    (if ok then fs' = [] \<and> \<not> error b \<and> \<not> error b' \<and> sealable fs (buffer_bytes b) \<and>
        buffer_bytes b' = seal fs (buffer_bytes b)
     else error b')"
  using assms
proof (induction fs arbitrary: p ok fs' b')
  case Nil
  then show ?case by (auto split: if_splits)
next
  case (Cons ch chs)
  note al = Cons.prems(1) and bok = Cons.prems(2)
  let ?q = "offset ch + pending_len_len ch"
  have ch: "p \<le> offset ch" "0 < pending_len_len ch" "chain_ok ?q chs (blen b)"
    "pending_is_asn1 ch \<longrightarrow> pending_len_len ch = 1" "pending_len_len ch \<le> 3"
    using Cons.prems(3) by auto
  show ?case
  proof (cases "error b")
    case True
    then show ?thesis using Cons.prems by auto
  next
    case noerr: False
    obtain ok1 chs1 b1 where f: "flush_frames alloc chs b = (ok1, chs1, b1)" by (metis prod_cases3)
    note IH = Cons.IH [OF al bok ch(3) f]
    have b1: "buffer_ok b1" "buffer_step b b1" "blen b \<le> blen b1" using IH by (auto simp: buffer_step_def)
    have q: "?q \<le> blen b" using chain_ok_le [OF ch(3)] .
    then have q': "?q mod size_t_mod = ?q"
      using bok by (simp add: buffer_ok_def size_t_mod_def)
    show ?thesis
    proof (cases ok1)
      case False
      then have "b' = b1\<lparr>error := True\<rparr>" "fs' = ch # chs1" "\<not> ok"
        using Cons.prems(4) f noerr ch(2) by auto
      moreover have "buffer_step b (b1\<lparr>error := True\<rparr>)"
        using b1 buffer_step_trans buffer_step_error by blast
      ultimately show ?thesis using IH False ch by auto
    next
      case True
      then have I: "chs1 = []" "\<not> error b1" "sealable chs (buffer_bytes b)"
        "buffer_bytes b1 = seal chs (buffer_bytes b)" using IH by auto
      define len where "len = blen b1 - ?q"
      have lb: "length (seal chs (buffer_bytes b)) = blen b1" using I(4) b1(1) by (metis length_buffer_bytes)
      have q1: "?q \<le> blen b1" using q b1(3) by simp
      obtain res ch' b2 where p: "(if pending_is_asn1 ch then flush_asn1_length alloc ?q len ch b1
          else (Some len, ch, b1)) = (res, ch', b2)" by (metis prod_cases3)
      have eq: "(ok, fs', b') = (case res of None \<Rightarrow> (False, [ch'], b2\<lparr>error := True\<rparr>)
         | Some len' \<Rightarrow>
            (case poke_be (offset ch') (pending_len_len ch') (word_of_nat len') (buf b2) of
               (left, buf') \<Rightarrow> if left \<noteq> 0 then (False, [ch'], b2\<lparr>buf := buf', error := True\<rparr>)
                  else (True, [], b2\<lparr>buf := buf'\<rparr>)))"
        using Cons.prems(4) noerr ch(2) q1 True
        by (simp add: f q' I(1) Let_def len_def [symmetric] p split: option.splits)
      show ?thesis
      proof (cases "pending_is_asn1 ch")
        case asn1: True
        then have q_eq: "?q = offset ch + 1" using ch(4) by simp
        have fl: "flush_asn1_length alloc (offset ch + 1) len ch b1 = (res, ch', b2)"
          using p asn1 q_eq by simp
        note S = flush_asn1_length_step [OF al b1(1) _ _ fl]
        have S': "buffer_step b1 b2" "res = None \<Longrightarrow> ch' = ch \<and> blen b1 \<le> blen b2"
          using S q1 q_eq len_def by (auto split: option.splits)
        show ?thesis
        proof (cases res)
          case None
          then have "ok = False" "fs' = [ch]" "b' = b2\<lparr>error := True\<rparr>" using eq S' by auto
          moreover have "buffer_step b (b2\<lparr>error := True\<rparr>)"
            using b1(2) S'(1) buffer_step_trans buffer_step_error by (metis buffer_step_def)
          moreover have "blen b \<le> blen b2" using S'(2) None b1(3) by simp
          moreover have "?q \<le> blen b2" using S'(2) None q1 by simp
          ultimately show ?thesis using ch by auto
        next
          case (Some len')
          then obtain buf' where buf': "error b2 = error b1" "len \<le> 0xfffffffe"
            "poke_be (offset ch') (pending_len_len ch') (word_of_nat len') (buf b2) = (0, buf')"
            "length buf' = length (buf b2)"
            "take (blen b2) buf' = take (offset ch) (buffer_bytes b1) @ der_length len @
               drop (offset ch + 1) (buffer_bytes b1)"
            using S q1 q_eq len_def by auto
          then have r: "ok = True" "fs' = []" "b' = b2\<lparr>buf := buf'\<rparr>" using eq Some by auto
          have "buffer_step b b'"
            using b1(2) S'(1) buffer_step_trans buffer_step_buf buf'(4) r(3) by (metis buffer_step_def)
          moreover have "buffer_bytes b' = take (blen b2) buf'" by (simp add: r buffer_bytes_def)
          then have bytes: "buffer_bytes b' = seal (ch # chs) (buffer_bytes b)"
            using buf'(5) I(4) lb q_eq by (simp add: Let_def prefix_of_def asn1 len_def)
          moreover have "sealable (ch # chs) (buffer_bytes b)"
            using I(3) buf'(2) asn1 lb by (simp add: prefix_fits_def len_def)
          moreover have "blen b \<le> blen b'"
          proof -
            have "length (buffer_bytes b) \<le> length (seal (ch # chs) (buffer_bytes b))"
              using seal_prefix [of p "ch # chs" "buffer_bytes b"] Cons.prems(3) bok by simp
            moreover have "buffer_ok b'" using \<open>buffer_step b b'\<close> by (simp add: buffer_step_def)
            ultimately show ?thesis using bytes bok by (metis length_buffer_bytes)
          qed
          moreover have "p \<le> blen b'" using chain_ok_le [OF Cons.prems(3)] calculation(4) by simp
          ultimately show ?thesis using r noerr buf'(1) I(2) by auto
        qed
      next
        case asn1: False
        then have p': "res = Some len" "ch' = ch" "b2 = b1" using p by simp_all
        obtain buf' where buf': "poke_be (offset ch) (pending_len_len ch) (word_of_nat len) (buf b1) =
            (drop_bit (8 * pending_len_len ch) (word_of_nat len), buf')" "length buf' = length (buf b1)"
          "take (blen b1) buf' = take (offset ch) (buffer_bytes b1) @
            be_bytes (pending_len_len ch) (word_of_nat len :: u64) @ drop ?q (buffer_bytes b1)"
          using flush_fixed_prefix [OF b1(1) q1 len_def] by blast
        have fit: "drop_bit (8 * pending_len_len ch) (word_of_nat len :: u64) = 0 \<longleftrightarrow>
            len < 256 ^ pending_len_len ch"
          using buffer_len_word [OF b1(1), of len] by (simp add: drop_bit_eq_0_iff len_def)
        have step: "buffer_step b (b1\<lparr>buf := buf'\<rparr>)"
          using b1 buffer_step_buf buf'(2) buffer_step_trans by blast
        show ?thesis
        proof (cases "len < 256 ^ pending_len_len ch")
          case False
          then have r: "ok = False" "fs' = [ch]" "b' = b1\<lparr>buf := buf', error := True\<rparr>"
            using eq p' buf'(1) fit by simp_all
          have "buffer_step b (b1\<lparr>buf := buf', error := True\<rparr>)"
            using step buffer_step_error [of "b1\<lparr>buf := buf'\<rparr>"] buffer_step_trans
            by (simp add: buffer_step_def buffer_ok_def)
          then show ?thesis using r ch q1 b1(3) by auto
        next
          case True
          then have r: "ok = True" "fs' = []" "b' = b1\<lparr>buf := buf'\<rparr>"
            using eq p' buf'(1) fit by simp_all
          have "buffer_bytes b' = take (blen b1) buf'" by (simp add: r buffer_bytes_def)
          then have "buffer_bytes b' = seal (ch # chs) (buffer_bytes b)"
            using buf'(3) I(4) lb by (simp add: Let_def prefix_of_def asn1 len_def)
          moreover have "sealable (ch # chs) (buffer_bytes b)"
            using I(3) True asn1 lb by (simp add: prefix_fits_def len_def)
          ultimately show ?thesis using r step noerr I(2) b1(3) q1 ch(1) by simp
        qed
      qed
    qed
  qed
qed

lemma seal_grows:
  assumes "chain_ok p (f # fs) (length bs)"
  shows "length (seal fs bs) \<le> length (seal (f # fs) bs)"
proof -
  have "offset f + pending_len_len f \<le> length (seal fs bs)"
    using assms seal_prefix [of "offset f + pending_len_len f" fs bs] by simp
  moreover have "pending_len_len f \<le> length (prefix_of f n)" for n
    using assms by (intro prefix_of_length_ge) simp
  ultimately show ?thesis by (simp add: Let_def le_diff_conv2)
qed

lemma flush_frames_total:
  assumes "buffer_ok b" and "can_resize b" and "\<not> error b" and "chain_ok p fs (blen b)"
    and "sealable fs (buffer_bytes b)" and "length (seal fs (buffer_bytes b)) < 2 ^ 60"
  shows "fst (flush_frames alloc_total fs b)"
  using assms
proof (induction fs arbitrary: p)
  case (Cons ch chs)
  let ?q = "offset ch + pending_len_len ch"
  have ch: "0 < pending_len_len ch" "chain_ok ?q chs (blen b)"
    "pending_is_asn1 ch \<longrightarrow> pending_len_len ch = 1" using Cons.prems(4) by auto
  have sl: "length (seal chs (buffer_bytes b)) < 2 ^ 60"
    using seal_grows [of p ch chs "buffer_bytes b"] Cons.prems by simp
  obtain ok1 chs1 b1 where f: "flush_frames alloc_total chs b = (ok1, chs1, b1)"
    by (metis prod_cases3)
  have ok1: "ok1" using Cons.IH [of ?q] Cons.prems ch sl f by simp
  note S = flush_frames_step [OF alloc_total_ok Cons.prems(1) ch(2) f]
  have b1: "buffer_ok b1" "can_resize b1" "blen b \<le> blen b1" "chs1 = []"
    "buffer_bytes b1 = seal chs (buffer_bytes b)"
    using S ok1 Cons.prems(2) by (auto simp: buffer_step_def)
  have lb: "blen b1 = length (seal chs (buffer_bytes b))"
    using b1(1,5) by (metis length_buffer_bytes)
  have q: "?q \<le> blen b" using chain_ok_le [OF ch(2)] .
  then have q': "?q mod size_t_mod = ?q" using Cons.prems(1) by (simp add: buffer_ok_def size_t_mod_def)
  have q1: "?q \<le> blen b1" using q b1(3) by simp
  define len where "len = blen b1 - ?q"
  have fits: "prefix_fits ch len" using Cons.prems(5) by (simp add: len_def lb)
  show ?case
  proof (cases "pending_is_asn1 ch")
    case True
    obtain res ch' b2 where fl: "flush_asn1_length alloc_total ?q len ch b1 = (res, ch', b2)"
      by (metis prod_cases3)
    have "fst (flush_asn1_length alloc_total ?q len ch b1) \<noteq> None"
      using b1 lb sl fits True by (intro flush_asn1_length_total) (simp_all add: prefix_fits_def)
    then obtain len' where res: "res = Some len'" using fl by auto
    have "?q = offset ch + 1" using True ch(3) by simp
    with flush_asn1_length_step [of alloc_total b1 ch len res ch' b2] q1 b1(1) fl res
    obtain buf' where
      "poke_be (offset ch') (pending_len_len ch') (word_of_nat len') (buf b2) = (0, buf')"
      by (auto simp: len_def)
    then show ?thesis
      using f ok1 ch(1) Cons.prems(3) q1 res fl True
      by (simp add: q' Let_def len_def [symmetric])
  next
    case False
    obtain buf' where p: "poke_be (offset ch) (pending_len_len ch) (word_of_nat len) (buf b1) =
        (drop_bit (8 * pending_len_len ch) (word_of_nat len), buf')"
      using flush_fixed_prefix [OF b1(1) q1 len_def] by blast
    have "drop_bit (8 * pending_len_len ch) (word_of_nat len :: u64) = 0"
      using fits False buffer_len_word [OF b1(1), of len]
      by (simp add: drop_bit_eq_0_iff prefix_fits_def len_def)
    then show ?thesis
      using f ok1 ch(1) Cons.prems(3) q1 p False
      by (simp add: q' Let_def len_def [symmetric])
  qed
qed simp

section \<open>Writers\<close>

definition cbb_wf :: "cbb \<Rightarrow> bool" where
  "cbb_wf s \<longleftrightarrow>
     (case cbb_base s of
        None \<Rightarrow> True
      | Some b \<Rightarrow> buffer_ok b \<and> chain_ok 0 (cbb_children s) (blen b))"

text \<open>The \<open>CBB\<close> at depth \<open>d\<close> has a buffer and was not flushed away.\<close>

definition cbb_live :: "nat \<Rightarrow> cbb \<Rightarrow> bool" where
  "cbb_live d s \<longleftrightarrow> cbb_base s \<noteq> None \<and> d \<le> length (cbb_children s)"

definition cbb_written :: "cbb \<Rightarrow> bytes" where
  "cbb_written s = buffer_bytes (cbb_buf s)"

definition sealed :: "nat \<Rightarrow> cbb \<Rightarrow> bytes" where
  "sealed d s = seal (drop d (cbb_children s)) (cbb_written s)"

definition cbb_step :: "cbb \<Rightarrow> cbb \<Rightarrow> bool" where
  "cbb_step s s' \<longleftrightarrow> cbb_wf s' \<and> cbb_base s' \<noteq> None \<and> buffer_step (cbb_buf s) (cbb_buf s')"

text \<open>There is room for \<open>n\<close> more bytes: nothing but a value that does not fit can fail.\<close>

definition cbb_room :: "nat \<Rightarrow> nat \<Rightarrow> cbb \<Rightarrow> bool" where
  "cbb_room d n s \<longleftrightarrow>
     cbb_wf s \<and> cbb_live d s \<and> can_resize (cbb_buf s) \<and> \<not> error (cbb_buf s) \<and>
     sealable (drop d (cbb_children s)) (cbb_written s) \<and> length (sealed d s) + n < 2 ^ 60"

text \<open>
  The contract of a writer on the \<open>CBB\<close> at depth \<open>d\<close>: the state stays well-formed, a
  success appends \<open>bs\<close> to what was sealed and leaves no child open, and with room it
  succeeds.
\<close>

definition wrote :: "nat \<Rightarrow> bytes \<Rightarrow> cbb \<Rightarrow> bool \<times> cbb \<Rightarrow> bool" where
  "wrote d bs s r \<longleftrightarrow>
     (case r of (ok, s') \<Rightarrow>
        cbb_step s s' \<and>
        (ok \<longrightarrow> \<not> error (cbb_buf s') \<and> cbb_children s' = take d (cbb_children s) \<and>
               cbb_written s' = sealed d s @ bs))"

definition writes :: "nat \<Rightarrow> ((nat \<Rightarrow> bool) \<Rightarrow> cbb_op) \<Rightarrow> bytes \<Rightarrow> bool" where
  "writes d f bs \<longleftrightarrow>
     (\<forall>alloc s. alloc_ok alloc \<and> cbb_wf s \<and> cbb_live d s \<longrightarrow> wrote d bs s (f alloc s)) \<and>
     (\<forall>s. cbb_room d (length bs) s \<longrightarrow> fst (f alloc_total s))"

lemma cbb_buf_Some [simp]: "cbb_base s = Some b \<Longrightarrow> cbb_buf s = b"
  by (simp add: cbb_buf_def)

lemma cbb_buf_update [simp]: "cbb_buf (s\<lparr>cbb_base := Some b\<rparr>) = b"
  "cbb_buf (s\<lparr>cbb_children := cs\<rparr>) = cbb_buf s"
  by (simp_all add: cbb_buf_def)

lemma cbb_step_refl: "cbb_wf s \<Longrightarrow> cbb_base s \<noteq> None \<Longrightarrow> cbb_step s s"
  by (auto simp: cbb_step_def cbb_wf_def)

lemma cbb_step_trans: "cbb_step s s1 \<Longrightarrow> cbb_step s1 s2 \<Longrightarrow> cbb_step s s2"
  by (auto simp: cbb_step_def intro: buffer_step_trans)

lemma sealed_flat: "length (cbb_children s) \<le> d \<Longrightarrow> sealed d s = cbb_written s"
  by (simp add: sealed_def)

text \<open>After a writer succeeded the next one finds its \<open>CBB\<close> live, flushed and roomy.\<close>

lemma wrote_next:
  assumes "wrote d bs s (True, s')" and "cbb_live d s"
  shows "cbb_wf s'" "cbb_live d s'" "sealed d s' = sealed d s @ bs"
    "take d (cbb_children s') = take d (cbb_children s)"
    "cbb_room d (length bs + n) s \<Longrightarrow> cbb_room d n s'"
  using assms by (auto simp: wrote_def cbb_step_def cbb_live_def sealed_flat cbb_room_def min_def
      buffer_step_def sealed_def)

lemma wrote_then:
  assumes "wrote d xs s (f s)" and "cbb_live d s"
    and "\<And>s'. f s = (True, s') \<Longrightarrow> wrote d ys s' (g s')"
  shows "wrote d (xs @ ys) s (cbb_then f g s)"
proof -
  obtain ok s' where f: "f s = (ok, s')" by fastforce
  show ?thesis
  proof (cases ok)
    case True
    obtain ok2 s2 where g: "g s' = (ok2, s2)" by fastforce
    have w: "wrote d xs s (True, s')" using assms(1) f True by simp
    note n = wrote_next [OF w assms(2)]
    have "wrote d ys s' (ok2, s2)" using assms(3) f g True by metis
    moreover have "cbb_step s s'" using w by (simp add: wrote_def)
    ultimately show ?thesis
      using f g True n(3,4) by (auto simp: cbb_then_def wrote_def intro: cbb_step_trans)
  qed (use assms(1) f in \<open>simp add: cbb_then_def wrote_def\<close>)
qed

lemma writes_then:
  assumes f: "writes d f xs" and g: "writes d g ys"
  shows "writes d (\<lambda>alloc. cbb_then (f alloc) (g alloc)) (xs @ ys)"
  unfolding writes_def
proof (intro conjI allI impI)
  fix alloc s
  assume a: "alloc_ok alloc \<and> cbb_wf s \<and> cbb_live d s"
  then have w: "wrote d xs s (f alloc s)" using f by (simp add: writes_def)
  show "wrote d (xs @ ys) s (cbb_then (f alloc) (g alloc) s)"
  proof (rule wrote_then [where f = "f alloc" and g = "g alloc"])
    fix s'
    assume "f alloc s = (True, s')"
    then have "wrote d xs s (True, s')" using w by simp
    then show "wrote d ys s' (g alloc s')"
      using wrote_next(1,2) a g by (simp add: writes_def)
  qed (use a w in simp_all)
next
  fix s
  assume r: "cbb_room d (length (xs @ ys)) s"
  then have l: "cbb_wf s" "cbb_live d s" "cbb_room d (length xs) s" by (auto simp: cbb_room_def)
  obtain s' where s': "f alloc_total s = (True, s')" using f l(3) by (metis writes_def prod.collapse)
  then have "wrote d xs s (True, s')" using f l by (metis writes_def alloc_total_ok)
  then have "cbb_room d (length ys) s'" using wrote_next(5) l(2) r by simp
  then have "fst (g alloc_total s')" using g by (simp add: writes_def)
  then show "fst (cbb_then (f alloc_total) (g alloc_total) s)" by (simp add: cbb_then_def s')
qed

lemma writes_nothing: "writes d (\<lambda>alloc. CBB_flush alloc d) []"
  unfolding writes_def
proof (intro conjI allI impI)
  fix alloc s
  assume a: "alloc_ok alloc \<and> cbb_wf s \<and> cbb_live d s"
  then obtain b where b: "cbb_base s = Some b" and bok: "buffer_ok b"
    and c: "chain_ok 0 (cbb_children s) (blen b)" and d: "d \<le> length (cbb_children s)"
    by (auto simp: cbb_wf_def cbb_live_def)
  let ?top = "take d (cbb_children s)" and ?fs = "drop d (cbb_children s)"
  define p where "p = (if ?top = [] then 0 else offset (last ?top) + pending_len_len (last ?top))"
  have split: "chain_ok 0 (?top @ gs) n \<longleftrightarrow> chain_ok 0 ?top p \<and> chain_ok p gs n" for gs n
    by (subst chain_ok_append) (simp add: p_def)
  have fs: "chain_ok p ?fs (blen b)" "chain_ok 0 ?top p" using c split [of ?fs] by simp_all
  obtain ok fs' b' where f: "flush_frames alloc ?fs b = (ok, fs', b')" by (metis prod_cases3)
  note S = flush_frames_step [OF _ bok fs(1) f]
  have S': "buffer_step b b'" "chain_ok p fs' (blen b')" "ok \<longrightarrow> fs' = [] \<and> \<not> error b' \<and>
      buffer_bytes b' = seal ?fs (buffer_bytes b)"
    using S a by (auto split: if_splits)
  have "chain_ok 0 (?top @ fs') (blen b')" using split S'(2) fs(2) by simp
  then show "wrote d [] s (CBB_flush alloc d s)"
    using b d f S' by (auto simp: CBB_flush_def wrote_def cbb_step_def cbb_wf_def sealed_def
        cbb_written_def buffer_step_def)
next
  fix s
  assume r: "cbb_room d (length []) s"
  then obtain b where b: "cbb_base s = Some b" "buffer_ok b"
    and c: "chain_ok 0 (cbb_children s) (blen b)" and d: "d \<le> length (cbb_children s)"
    by (auto simp: cbb_wf_def cbb_live_def cbb_room_def)
  obtain p where "chain_ok p (drop d (cbb_children s)) (blen b)"
    using c chain_ok_append [of 0 "take d (cbb_children s)" "drop d (cbb_children s)" "blen b"]
    by (auto split: if_splits)
  then have "fst (flush_frames alloc_total (drop d (cbb_children s)) b)"
    using r b by (intro flush_frames_total) (auto simp: cbb_room_def sealed_def cbb_written_def)
  then show "fst (CBB_flush alloc_total d s)"
    using b d by (auto simp: CBB_flush_def split: prod.split)
qed

text \<open>Operations that flush and then append to the buffer.\<close>

definition appends :: "nat \<Rightarrow> ((nat \<Rightarrow> bool) \<Rightarrow> cbb_op) \<Rightarrow> bytes \<Rightarrow> bool" where
  "appends d f bs \<longleftrightarrow>
     (\<forall>alloc s. alloc_ok alloc \<and> cbb_wf s \<and> cbb_live d s \<and> length (cbb_children s) \<le> d \<and>
        \<not> error (cbb_buf s) \<longrightarrow> wrote d bs s (f alloc s)) \<and>
     (\<forall>s. cbb_room d (length bs) s \<and> length (cbb_children s) \<le> d \<longrightarrow> fst (f alloc_total s))"

lemma writes_appends: "writes d f bs \<Longrightarrow> appends d f bs"
  by (simp add: writes_def appends_def)

lemma appends_nothing: "appends d (\<lambda>alloc. Pair True) []"
  by (auto simp: appends_def wrote_def sealed_flat cbb_live_def intro: cbb_step_refl)

lemma appends_then:
  assumes f: "appends d f xs" and g: "appends d g ys"
  shows "appends d (\<lambda>alloc. cbb_then (f alloc) (g alloc)) (xs @ ys)"
  unfolding appends_def
proof (intro conjI allI impI)
  fix alloc s
  assume a: "alloc_ok alloc \<and> cbb_wf s \<and> cbb_live d s \<and> length (cbb_children s) \<le> d \<and>
    \<not> error (cbb_buf s)"
  then have w: "wrote d xs s (f alloc s)" using f by (simp add: appends_def)
  show "wrote d (xs @ ys) s (cbb_then (f alloc) (g alloc) s)"
  proof (rule wrote_then [where f = "f alloc" and g = "g alloc"])
    fix s'
    assume "f alloc s = (True, s')"
    then have e: "wrote d xs s (True, s')" using w by simp
    have "length (cbb_children s') \<le> d" "\<not> error (cbb_buf s')" using e by (simp_all add: wrote_def)
    then show "wrote d ys s' (g alloc s')"
      using wrote_next(1,2) [OF e] a g by (simp add: appends_def)
  qed (use a w in simp_all)
next
  fix s
  assume r: "cbb_room d (length (xs @ ys)) s \<and> length (cbb_children s) \<le> d"
  then have l: "cbb_wf s" "cbb_live d s" "cbb_room d (length xs) s" "\<not> error (cbb_buf s)"
    by (auto simp: cbb_room_def)
  have "fst (f alloc_total s)" using f l(3) r by (simp add: appends_def)
  then obtain s' where s': "f alloc_total s = (True, s')" by (cases "f alloc_total s") auto
  have "wrote d xs s (f alloc_total s)" using f l r by (simp add: appends_def)
  then have e: "wrote d xs s (True, s')" using s' by simp
  have "cbb_room d (length ys) s'" using wrote_next(5) [OF e l(2)] r by simp
  moreover have "length (cbb_children s') \<le> d" using e by (simp add: wrote_def)
  ultimately have "fst (g alloc_total s')" using g by (simp add: appends_def)
  then show "fst (cbb_then (f alloc_total) (g alloc_total) s)" by (simp add: cbb_then_def s')
qed

lemma writes_flush_then:
  assumes "appends d f bs"
  shows "writes d (\<lambda>alloc. cbb_then (CBB_flush alloc d) (f alloc)) bs"
  unfolding writes_def
proof (intro conjI allI impI)
  fix alloc s
  assume a: "alloc_ok alloc \<and> cbb_wf s \<and> cbb_live d s"
  then have w: "wrote d [] s (CBB_flush alloc d s)" using writes_nothing by (simp add: writes_def)
  have "wrote d ([] @ bs) s (cbb_then (CBB_flush alloc d) (f alloc) s)"
  proof (rule wrote_then [where f = "CBB_flush alloc d" and g = "f alloc"])
    fix s'
    assume s': "CBB_flush alloc d s = (True, s')"
    then have e: "wrote d [] s (True, s')" using w by simp
    have "length (cbb_children s') \<le> d" "\<not> error (cbb_buf s')" using e by (simp_all add: wrote_def)
    with wrote_next(1,2) [OF e] show "wrote d bs s' (f alloc s')"
      using assms a by (simp add: appends_def)
  qed (use a w in simp_all)
  then show "wrote d bs s (cbb_then (CBB_flush alloc d) (f alloc) s)" by simp
next
  fix s
  assume r: "cbb_room d (length bs) s"
  then have l: "cbb_wf s" "cbb_live d s" "cbb_room d 0 s" by (auto simp: cbb_room_def)
  obtain s' where s': "CBB_flush alloc_total d s = (True, s')"
  proof -
    have "fst (CBB_flush alloc_total d s)" using writes_nothing [of d] l(3) by (simp add: writes_def)
    then show thesis using that by (cases "CBB_flush alloc_total d s") auto
  qed
  have "wrote d [] s (CBB_flush alloc_total d s)"
    using writes_nothing [of d] l by (simp add: writes_def)
  then have e: "wrote d [] s (True, s')" using s' by simp
  then have "cbb_room d (length bs) s'" using wrote_next(5) [of d "[]" s s' "length bs"] l r by simp
  moreover have "length (cbb_children s') \<le> d" using e by (simp add: wrote_def)
  ultimately show "fst (cbb_then (CBB_flush alloc_total d) (f alloc_total) s)"
    using assms by (simp add: cbb_then_def s' appends_def)
qed

lemma appends_on_buffer:
  assumes step: "\<And>alloc b ok b'. alloc_ok alloc \<Longrightarrow> buffer_ok b \<Longrightarrow> f alloc b = (ok, b') \<Longrightarrow>
      buffer_step b b' \<and> blen b \<le> blen b' \<and>
      (ok \<longrightarrow> error b' = error b \<and> buffer_bytes b' = buffer_bytes b @ bs)"
    and total: "\<And>b. buffer_ok b \<Longrightarrow> can_resize b \<Longrightarrow> blen b + length bs < 2 ^ 60 \<Longrightarrow>
      fst (f alloc_total b)"
  shows "appends d (\<lambda>alloc. on_buffer (f alloc)) bs"
  unfolding appends_def
proof (intro conjI allI impI)
  fix alloc s
  assume a: "alloc_ok alloc \<and> cbb_wf s \<and> cbb_live d s \<and> length (cbb_children s) \<le> d \<and>
    \<not> error (cbb_buf s)"
  then obtain b where b: "cbb_base s = Some b" "buffer_ok b"
    and c: "chain_ok 0 (cbb_children s) (blen b)" and len: "length (cbb_children s) \<le> d"
    by (auto simp: cbb_live_def cbb_wf_def)
  obtain ok b' where f: "f alloc b = (ok, b')" by fastforce
  have "alloc_ok alloc" using a by simp
  from step [OF this b(2) f] b len c a
  show "wrote d bs s (on_buffer (f alloc) s)"
    by (auto simp: on_buffer_def f wrote_def cbb_step_def cbb_wf_def sealed_flat cbb_written_def
        buffer_step_def intro: chain_ok_mono)
next
  fix s
  assume r: "cbb_room d (length bs) s \<and> length (cbb_children s) \<le> d"
  then obtain b where b: "cbb_base s = Some b" "buffer_ok b"
    by (auto simp: cbb_room_def cbb_wf_def cbb_live_def)
  then have "length (sealed d s) = blen b" using r by (simp add: sealed_flat cbb_written_def)
  then have "fst (f alloc_total b)" using r b by (intro total) (simp_all add: cbb_room_def)
  then show "fst (on_buffer (f alloc_total) s)"
    using b by (auto simp: on_buffer_def split: prod.split)
qed

lemmas writes_on_buffer = writes_flush_then [OF appends_on_buffer]

lemma writes_u:
  assumes "k \<le> 8" and "0 < k" and "unat v < 256 ^ k"
  shows "writes d (\<lambda>alloc. CBB_add_u alloc d k v) (be_bytes k v)"
  unfolding CBB_add_u_def
proof (rule writes_on_buffer)
  fix alloc b ok b'
  assume "alloc_ok alloc" and "buffer_ok b" and "cbb_buffer_add_u alloc v k b = (ok, b')"
  from cbb_buffer_add_u_step [OF this(1,2) assms(1) this(3)]
  show "buffer_step b b' \<and> blen b \<le> blen b' \<and>
      (ok \<longrightarrow> error b' = error b \<and> buffer_bytes b' = buffer_bytes b @ be_bytes k v)" by simp
next
  fix b
  assume "buffer_ok b" and "can_resize b" and "blen b + length (be_bytes k v) < 2 ^ 60"
  then show "fst (cbb_buffer_add_u alloc_total v k b)"
    using assms by (intro cbb_buffer_add_u_total) auto
qed

lemma CBB_add_bytes_step:
  assumes ok: "alloc_ok alloc" "buffer_ok b" and len: "len \<le> length data" "len < 2 ^ 63"
    and r: "(case cbb_buffer_add alloc len b of
        (None, b') \<Rightarrow> (False, b')
      | (Some dest, b') \<Rightarrow>
          (True, b'\<lparr>buf := take dest (buf b') @ take len data @ drop (dest + len) (buf b')\<rparr>)) = (okay, b')"
  shows "buffer_step b b' \<and> blen b \<le> blen b' \<and>
    (okay \<longrightarrow> error b' = error b \<and> buffer_bytes b' = buffer_bytes b @ take len data)"
proof -
  obtain out b1 where a: "cbb_buffer_add alloc len b = (out, b1)" by fastforce
  note S = cbb_buffer_add_step [OF ok len(2) a]
  show ?thesis
  proof (cases out)
    case (Some p)
    define bf where "bf = buffer_bytes b @ take len data @ drop (blen b + len) (buf b1)"
    from S Some have S': "buffer_step b b1" "p = blen b" "error b1 = error b"
      "blen b1 = blen b + len" "take (blen b) (buf b1) = buffer_bytes b" by simp_all
    then have b': "b' = b1\<lparr>buf := bf\<rparr>" "okay" using r a Some by (simp_all add: bf_def)
    have room: "blen b + len \<le> length (buf b1)" "buffer_ok b1"
      using S' by (auto simp: buffer_step_def buffer_ok_def)
    then have "length bf = length (buf b1)" using ok(2) len(1) by (simp add: bf_def)
    then have "buffer_step b b'"
      using S'(1) b'(1) buffer_step_buf [OF room(2)] buffer_step_trans by metis
    moreover have "blen b' = length (buffer_bytes b @ take len data)"
      using ok(2) len(1) by (simp add: b'(1) S'(4))
    then have "buffer_bytes b' = buffer_bytes b @ take len data"
      unfolding buffer_bytes_def [of b'] using len(1) by (simp add: b'(1) bf_def)
    ultimately show ?thesis using b' S' by simp
  qed (use r a S in auto)
qed

lemma writes_bytes:
  assumes "len \<le> length data" and "len < 2 ^ 63"
  shows "writes d (\<lambda>alloc. CBB_add_bytes alloc d data len) (take len data)"
  unfolding CBB_add_bytes_def
proof (rule writes_on_buffer)
  fix b
  assume "buffer_ok b" and "can_resize b" and "blen b + length (take len data) < 2 ^ 60"
  then have "fst (cbb_buffer_add alloc_total len b) \<noteq> None"
    using assms by (intro cbb_buffer_add_total) auto
  then show "fst (case cbb_buffer_add alloc_total len b of (None, b') \<Rightarrow> (False, b')
      | (Some dest, b') \<Rightarrow> (True, b'\<lparr>buf := take dest (buf b') @ take len data @ drop (dest + len) (buf b')\<rparr>))"
    by (auto split: prod.split option.split)
qed (rule CBB_add_bytes_step [OF _ _ assms])

lemma chain_ok_last: "chain_ok p fs n \<Longrightarrow> fs \<noteq> [] \<Longrightarrow> offset (last fs) + pending_len_len (last fs) \<le> n"
  by (induction fs arbitrary: p) auto

lemma chain_ok_shrink:
  "chain_ok p fs n \<Longrightarrow> fs \<noteq> [] \<Longrightarrow> chain_ok p fs (offset (last fs) + pending_len_len (last fs))"
  by (induction fs arbitrary: p) auto

text \<open>
  Opening a child: \<open>hdr\<close> is written, then the placeholder of the length prefix, which
  becomes the child's pending prefix.
\<close>

definition opens :: "nat \<Rightarrow> ((nat \<Rightarrow> bool) \<Rightarrow> cbb_op) \<Rightarrow> bytes \<Rightarrow> nat \<Rightarrow> bool \<Rightarrow> bool" where
  "opens d f hdr k asn1 \<longleftrightarrow>
     (\<forall>alloc s ok s'. alloc_ok alloc \<and> cbb_wf s \<and> cbb_live d s \<and> f alloc s = (ok, s') \<longrightarrow>
        cbb_step s s' \<and>
        (ok \<longrightarrow> \<not> error (cbb_buf s') \<and> cbb_children s' = take d (cbb_children s) @
             [\<lparr>offset = length (sealed d s) + length hdr, pending_len_len = k, pending_is_asn1 = asn1\<rparr>] \<and>
           cbb_written s' = sealed d s @ hdr @ replicate k 0)) \<and>
     (\<forall>s. cbb_room d (length hdr + k) s \<longrightarrow> fst (f alloc_total s))"

text \<open>A child whose body a writer fills, flushed away by its parent.\<close>

lemma writes_child:
  assumes opn: "opens d f hdr k asn1" and k: "0 < k" "k \<le> 3" "asn1 \<longrightarrow> k = 1"
    and g: "appends (Suc d) g body"
    and fits: "if asn1 then length body \<le> 0xfffffffe else length body < 256 ^ k"
  shows "writes d (\<lambda>alloc. cbb_then (f alloc) (cbb_then (g alloc) (CBB_flush alloc d)))
    (hdr @ (if asn1 then der_length (length body)
            else be_bytes k (word_of_nat (length body) :: u64)) @ body)"
    (is "writes d ?op ?out")
proof -
  have klen: "k \<le> length (if asn1 then der_length n else be_bytes k (word_of_nat n :: u64))" for n
    using k by (simp add: der_length_def)
  have step: "wrote d ?out s (?op alloc s)" and
    tot: "alloc = alloc_total \<Longrightarrow> cbb_room d (length ?out) s \<Longrightarrow> fst (?op alloc s)"
    if a: "alloc_ok alloc" "cbb_wf s" "cbb_live d s" for alloc s
  proof -
    obtain ok1 s1 where f: "f alloc s = (ok1, s1)" by fastforce
    let ?fr = "\<lparr>offset = length (sealed d s) + length hdr, pending_len_len = k, pending_is_asn1 = asn1\<rparr>"
    have s1: "cbb_step s s1" "ok1 \<Longrightarrow> cbb_children s1 = take d (cbb_children s) @ [?fr]"
      "ok1 \<Longrightarrow> cbb_written s1 = sealed d s @ hdr @ replicate k 0" "ok1 \<Longrightarrow> \<not> error (cbb_buf s1)"
      using opn a f by (auto simp: opens_def)
    have d: "d \<le> length (cbb_children s)" using a(3) by (simp add: cbb_live_def)
    have s1': "cbb_wf s1" "ok1 \<Longrightarrow> cbb_live (Suc d) s1" "ok1 \<Longrightarrow> sealed (Suc d) s1 = cbb_written s1"
      using s1 d by (simp_all add: cbb_step_def cbb_live_def sealed_flat)
    obtain ok2 s2 where g2: "g alloc s1 = (ok2, s2)" by fastforce
    have flat: "ok1 \<Longrightarrow> length (cbb_children s1) \<le> Suc d" using s1(2) by simp
    have w2: "ok1 \<Longrightarrow> wrote (Suc d) body s1 (ok2, s2)"
      using g a(1) s1(4) s1' flat g2 by (metis appends_def)
    have s2: "ok1 \<Longrightarrow> cbb_step s1 s2" "ok1 \<Longrightarrow> ok2 \<Longrightarrow> cbb_children s2 = take d (cbb_children s) @ [?fr]"
      "ok1 \<Longrightarrow> ok2 \<Longrightarrow> cbb_written s2 = sealed d s @ hdr @ replicate k 0 @ body"
      "ok1 \<Longrightarrow> ok2 \<Longrightarrow> \<not> error (cbb_buf s2)"
      using w2 s1 s1' d by (auto simp: wrote_def)
    obtain ok3 s3 where f3: "CBB_flush alloc d s2 = (ok3, s3)" by fastforce
    have live2: "ok1 \<Longrightarrow> ok2 \<Longrightarrow> cbb_live d s2" "ok1 \<Longrightarrow> cbb_wf s2"
      using s2 d by (simp_all add: cbb_step_def cbb_live_def)
    have w3: "ok1 \<Longrightarrow> ok2 \<Longrightarrow> wrote d [] s2 (ok3, s3)"
      using writes_nothing [of d] a(1) live2 f3 by (metis writes_def)
    have seal2: "sealed d s2 = sealed d s @ ?out" if "ok1" "ok2"
      using s2 that d k(1) by (simp add: sealed_def [of d s2] prefix_of_def Let_def)
    have op: "?op alloc s = (if \<not> ok1 then (False, s1) else if \<not> ok2 then (False, s2) else (ok3, s3))"
      by (simp add: cbb_then_def f g2 f3)
    show "wrote d ?out s (?op alloc s)"
    proof (cases "ok1 \<and> ok2")
      case True
      then have "cbb_step s s3"
        using s1(1) s2(1) w3 cbb_step_trans by (metis (no_types, lifting) wrote_def case_prodD)
      then show ?thesis
        using True w3 seal2 s2(2) d by (simp add: op wrote_def min_def)
    next
      case False
      then show ?thesis
        using s1(1) s2(1) by (auto simp: op wrote_def intro: cbb_step_trans)
    qed
    show "fst (?op alloc s)" if al: "alloc = alloc_total" and r: "cbb_room d (length ?out) s"
    proof -
      have "length hdr + k \<le> length ?out" using klen [of "length body"] by simp
      then have "cbb_room d (length hdr + k) s" using r by (simp add: cbb_room_def)
      then have 1: "ok1" using opn f al by (auto simp: opens_def)
      have "length (sealed d s @ hdr @ replicate k 0 @ body) \<le> length (sealed d s @ ?out)"
        using klen [of "length body"] by simp
      then have len2: "length (sealed d s) + (length hdr + (k + length body)) < 2 ^ 60"
        using r by (simp add: cbb_room_def)
      have res: "can_resize (cbb_buf s1)" using s1(1) r by (simp add: cbb_step_def buffer_step_def cbb_room_def)
      have "cbb_room (Suc d) (length body) s1"
        using s1 s1' 1 res len2 by (simp add: cbb_room_def d)
      then have 2: "ok2" using g g2 al flat 1 by (metis appends_def fst_conv)
      have "can_resize (cbb_buf s2)" using s2(1) 1 res by (simp add: cbb_step_def buffer_step_def)
      moreover have "sealable (drop d (cbb_children s2)) (cbb_written s2)"
        using s2 1 2 d fits by (simp add: prefix_fits_def split: if_splits)
      moreover have "length (sealed d s2) < 2 ^ 60" using seal2 1 2 r by (simp add: cbb_room_def)
      ultimately have "cbb_room d 0 s2" using live2 1 2 s2(4) by (simp add: cbb_room_def)
      then have "ok3" using writes_nothing [of d] f3 al by (metis writes_def list.size(3) fst_conv)
      then show ?thesis using 1 2 by (simp add: op)
    qed
  qed
  show ?thesis
    unfolding writes_def using step tot by (auto simp: cbb_room_def)
qed

text \<open>
  The two ways a child is opened share their end: the header is written, then zero bytes
  where the prefix will go, at the offset the new child remembers.
\<close>

lemma opens_intro:
  assumes h: "writes d h hdr" and p: "appends d p (replicate k 0)" and k: "0 < k" "k \<le> 3" "asn1 \<longrightarrow> k = 1"
    and f: "\<And>alloc s. f alloc s =
      (case h alloc s of (ok, s1) \<Rightarrow> if \<not> ok then (False, s1)
       else case p alloc s1 of (ok2, s2) \<Rightarrow> if \<not> ok2 then (False, s2)
       else (True, open_child d \<lparr>offset = blen (cbb_buf s1), pending_len_len = k,
                                 pending_is_asn1 = asn1\<rparr> s2))"
  shows "opens d f hdr k asn1"
  unfolding opens_def
proof (rule conjI; intro allI impI)
  fix alloc s ok s'
  assume a: "alloc_ok alloc \<and> cbb_wf s \<and> cbb_live d s \<and> f alloc s = (ok, s')"
  obtain ok1 s1 where h1: "h alloc s = (ok1, s1)" by fastforce
  have w1: "wrote d hdr s (ok1, s1)" using h a h1 by (metis writes_def)
  let ?fr = "\<lparr>offset = length (sealed d s) + length hdr, pending_len_len = k, pending_is_asn1 = asn1\<rparr>"
  show "cbb_step s s' \<and> (ok \<longrightarrow> \<not> error (cbb_buf s') \<and>
      cbb_children s' = take d (cbb_children s) @ [?fr] \<and>
      cbb_written s' = sealed d s @ hdr @ replicate k 0)"
  proof (cases ok1)
    case False
    then show ?thesis using a w1 by (auto simp: f h1 wrote_def)
  next
    case True
    then have w1': "wrote d hdr s (True, s1)" using w1 by simp
    have d: "cbb_live d s" using a by simp
    note n = wrote_next [OF w1' d]
    obtain ok2 s2 where p1: "p alloc s1 = (ok2, s2)" by fastforce
    have flat: "length (cbb_children s1) \<le> d" using w1' by (simp add: wrote_def)
    have "\<not> error (cbb_buf s1)" using w1' by (simp add: wrote_def)
    then have "wrote d (replicate k 0) s1 (p alloc s1)"
      using p a n(1,2) flat by (simp add: appends_def)
    then have w2: "wrote d (replicate k 0) s1 (ok2, s2)" using p1 by simp
    have off: "blen (cbb_buf s1) = length (sealed d s) + length hdr"
    proof -
      have "buffer_ok (cbb_buf s1)" using w1' by (simp add: wrote_def cbb_step_def buffer_step_def)
      then have "length (cbb_written s1) = blen (cbb_buf s1)" by (simp add: cbb_written_def)
      then show ?thesis using w1' by (simp add: wrote_def)
    qed
    have s': "(ok, s') = (if ok2 then (True, open_child d ?fr s2) else (False, s2))"
      using a True by (auto simp: f h1 p1 off split: if_splits)
    have st: "cbb_step s s2" using w1' w2 cbb_step_trans by (auto simp: wrote_def)
    show ?thesis
    proof (cases ok2)
      case True
      have c1: "chain_ok 0 (cbb_children s1) (length (sealed d s) + length hdr)"
        using n(1,2) off by (auto simp: cbb_wf_def cbb_live_def)
      have cs: "cbb_children s1 = take d (cbb_children s)" "cbb_children s2 = cbb_children s1"
        "cbb_written s2 = sealed d s @ hdr @ replicate k 0" "\<not> error (cbb_buf s2)"
        using w1' w2 True flat n(3) by (simp_all add: wrote_def)
      obtain b where b: "cbb_base s2 = Some b" "buffer_ok b"
        using st by (auto simp: cbb_step_def cbb_wf_def)
      have lb: "blen b = length (sealed d s) + length hdr + k"
        using arg_cong [OF cs(3), of length] b by (simp add: cbb_written_def)
      have "chain_ok 0 (take d (cbb_children s) @ [?fr]) (blen b)"
        using c1 k chain_ok_last [OF c1] chain_ok_shrink [OF c1] unfolding cs(1) chain_ok_append lb
        by auto
      then have "cbb_step s (open_child d ?fr s2)"
        using st b cs by (simp add: cbb_step_def cbb_wf_def open_child_def)
      then show ?thesis
        using s' True cs by (simp add: open_child_def cbb_written_def)
    qed (use s' st in simp)
  qed
next
  fix s
  assume r: "cbb_room d (length hdr + k) s"
  then have l: "cbb_wf s" "cbb_live d s" by (auto simp: cbb_room_def)
  have "fst (h alloc_total s)" using h r by (simp add: writes_def cbb_room_def)
  moreover obtain ok1 s1 where h1: "h alloc_total s = (ok1, s1)" by fastforce
  ultimately have ok1: "ok1" by simp
  have "wrote d hdr s (h alloc_total s)" using h l by (simp add: writes_def)
  then have w1: "wrote d hdr s (True, s1)" using h1 ok1 by simp
  have "cbb_room d k s1" using wrote_next(5) [OF w1 l(2) r] .
  moreover have "length (cbb_children s1) \<le> d" using w1 by (simp add: wrote_def)
  ultimately have "fst (p alloc_total s1)" using p by (simp add: appends_def)
  then show "fst (f alloc_total s)" using ok1 by (auto simp: f h1 split: prod.split)
qed

end
