(* ===== verification/Asn1_prim.thy ===== *)
theory Asn1_prim
  imports Der
begin

text \<open>
  The ASN.1 primitive types read by crypto/bytestring/cbs.c, against the contents octets
  X.690 prescribes: INTEGER as the shortest two's complement form, BOOLEAN as 0x00 or
  0xff, BIT STRING with its unused bits zero.
\<close>

section \<open>Unsigned INTEGER\<close>

definition der_uint_body :: "nat \<Rightarrow> bytes" where
  "der_uint_body n =
     (if n = 0 then [0] else if 128 \<le> unat (hd (be_min n)) then 0 # be_min n else be_min n)"

text \<open>The bytes that are the shortest two's complement form of a non-negative number.\<close>

definition uint_minimal :: "bytes \<Rightarrow> bool" where
  "uint_minimal bs \<longleftrightarrow> bs \<noteq> [] \<and> unat (bs ! 0) < 128 \<and>
     \<not> (bs ! 0 = 0 \<and> 1 < length bs \<and> unat (bs ! 1) < 128)"

lemma uint_minimal_iff: "uint_minimal bs \<longleftrightarrow> bs = der_uint_body (be_nat bs)"
proof
  assume m: "uint_minimal bs"
  then obtain b cs where bs: "bs = b # cs" by (cases bs) (auto simp: uint_minimal_def)
  show "bs = der_uint_body (be_nat bs)"
  proof (cases "b = 0")
    case False
    then have e: "be_min (be_nat bs) = bs" by (intro be_min_be_nat) (simp add: bs)
    have "be_nat bs \<noteq> 0" using e bs by (metis be_min_0 list.distinct(1))
    then show ?thesis using m e by (simp add: der_uint_body_def uint_minimal_def bs)
  next
    case True
    then have n: "be_nat bs = be_nat cs" by (simp add: bs be_nat_Cons)
    show ?thesis
    proof (cases cs)
      case Nil
      then show ?thesis using True by (simp add: bs der_uint_body_def be_nat_Cons)
    next
      case (Cons c ds)
      then have c: "128 \<le> unat c" using m True by (simp add: uint_minimal_def bs)
      then have "be_min (be_nat cs) = cs" by (intro be_min_be_nat) (auto simp: Cons)
      moreover have "be_nat cs \<noteq> 0" using calculation Cons by (metis be_min_0 list.distinct(1))
      ultimately show ?thesis using c True n by (simp add: der_uint_body_def bs Cons)
    qed
  qed
next
  assume e: "bs = der_uint_body (be_nat bs)"
  have "uint_minimal (der_uint_body n)" for n
  proof (cases "n = 0")
    case False
    then obtain c ds where c: "be_min n = c # ds" "c \<noteq> 0"
      using be_min_nonzero [of n] by (cases "be_min n") auto
    then show ?thesis using False by (auto simp: der_uint_body_def uint_minimal_def)
  qed (simp add: der_uint_body_def uint_minimal_def)
  then show "uint_minimal bs" by (subst e)
qed

lemma be_nat_der_uint_body: "be_nat (der_uint_body n) = n"
  by (simp add: der_uint_body_def be_nat_Cons be_nat_be_min)

lemma asn1_uint64_loop_eq:
  assumes "i + n \<le> length data"
  shows "asn1_uint64_loop out data i n =
    (let v = unat out * 256 ^ n + be_nat (take n (drop i data))
     in if v < 2 ^ 64 then Some (word_of_nat v) else None)"
  using assms
proof (induction n arbitrary: out i)
  case 0
  show ?case using unsigned_less [of out, where ?'a = nat] by (simp add: Let_def)
next
  case (Suc n)
  let ?rest = "take n (drop (Suc i) data)"
  have split: "take (Suc n) (drop i data) = data ! i # ?rest" and len: "length ?rest = n"
    using Suc.prems by (simp_all add: Cons_nth_drop_Suc [symmetric])
  have sum: "unat out * 256 ^ Suc n + be_nat (take (Suc n) (drop i data)) =
      (unat out * 256 + unat (data ! i)) * 256 ^ n + be_nat ?rest"
    unfolding split be_nat_Cons len by (simp add: algebra_simps)
  have d: "drop_bit 56 out \<noteq> 0 \<longleftrightarrow> 2 ^ 56 \<le> unat out"
  proof -
    have "drop_bit 56 out = 0 \<longleftrightarrow> unat (drop_bit 56 out) = 0" by (simp add: unat_eq_0)
    also have "\<dots> \<longleftrightarrow> unat out < 2 ^ 56" by (simp add: unat_drop_bit div_eq_0_iff)
    finally show ?thesis by (simp add: not_less)
  qed
  show ?case
  proof (cases "2 ^ 56 \<le> unat out")
    case True
    then have "2 ^ 64 \<le> unat out * 256" by simp
    also have "\<dots> \<le> (unat out * 256 + unat (data ! i)) * 256 ^ n + be_nat ?rest"
      by (rule trans_le_add1, rule order_trans [of _ "unat out * 256 + unat (data ! i)"]) simp_all
    finally show ?thesis using True d by (simp add: sum Let_def del: take_Suc power_Suc)
  next
    case False
    have u: "unat (push_bit 8 out OR ucast (data ! i)) = unat out * 256 + unat (data ! i)"
    proof -
      have "unat out < 72057594037927936" using False by simp
      then have "unat out * 256 + unat (data ! i) < 18446744073709551616"
        using unat_u8_lt [of "data ! i"] by linarith
      then show ?thesis using unat_shift_or [of "ucast (data ! i)" 8 out] by simp
    qed
    show ?thesis
      using False d Suc.IH [of "Suc i" "push_bit 8 out OR ucast (data ! i)"] Suc.prems
      by (simp add: u sum [unfolded power_Suc] del: take_Suc)
  qed
qed

lemma CBS_get_asn1_uint64_decodes:
  assumes "length body < 2 ^ 32"
  shows "CBS_get_asn1_uint64 (cbs_over (der_element CBS_ASN1_INTEGER body @ rest) r) =
    (if uint_minimal body \<and> be_nat body < 2 ^ 64 then Some (word_of_nat (be_nat body)) else None,
     cbs_over rest r)"
  using assms asn1_uint64_loop_eq [of 0 "length body" "body @ rest @ r" 0]
  by (auto simp: CBS_get_asn1_uint64_def Let_def uint_minimal_def msb_zero_iff msb_u8_iff nth_append
      not_less)

lemma uint_minimal_der_uint_body [simp]: "uint_minimal (der_uint_body n)"
  by (simp add: uint_minimal_iff be_nat_der_uint_body)

lemma uint_minimal_length:
  assumes m: "uint_minimal bs"
  shows "2 * be_nat bs < 256 ^ length bs"
    and "be_nat bs < 256 ^ k \<Longrightarrow> length bs \<le> Suc k"
    and "2 * be_nat bs < 256 ^ k \<Longrightarrow> 0 < k \<Longrightarrow> length bs \<le> k"
proof -
  obtain b cs where bs: "bs = b # cs" and b: "unat b < 128"
    using m by (cases bs) (auto simp: uint_minimal_def)
  have n: "be_nat bs = unat b * 256 ^ length cs + be_nat cs" by (simp add: bs be_nat_Cons)
  have "unat b * 256 ^ length cs \<le> 127 * 256 ^ length cs" using b by (intro mult_right_mono) auto
  moreover have "(256::nat) ^ length bs = 256 * 256 ^ length cs" by (simp add: bs)
  ultimately show "2 * be_nat bs < 256 ^ length bs" using n be_nat_less [of cs] by linarith
  have low': "128 * 256 ^ (length cs - 1) \<le> be_nat bs"
    if "cs \<noteq> []"
  proof -
    obtain c ds where cs: "cs = c # ds" using \<open>cs \<noteq> []\<close> by (cases cs) auto
    have "128 * 256 ^ length ds \<le> be_nat bs"
    proof (cases "b = 0")
      case True
      then have "128 \<le> unat c" using m by (auto simp: uint_minimal_def bs cs)
      then have "128 * 256 ^ length ds \<le> unat c * 256 ^ length ds" by (intro mult_right_mono) auto
      moreover have "be_nat bs = unat c * 256 ^ length ds + be_nat ds"
        using n True by (simp add: cs be_nat_Cons)
      ultimately show ?thesis by linarith
    next
      case False
      then have "1 \<le> unat b" using unat_gt_0 [of b] by linarith
      then have "1 * 256 ^ length cs \<le> unat b * 256 ^ length cs" by (intro mult_right_mono) auto
      moreover have "(256::nat) ^ length cs = 256 * 256 ^ length ds" by (simp add: cs)
      ultimately show ?thesis using n by linarith
    qed
    then show ?thesis by (simp add: cs)
  qed
  show "length bs \<le> Suc k" if "be_nat bs < 256 ^ k"
  proof (rule ccontr)
    assume "\<not> length bs \<le> Suc k"
    then have len: "k \<le> length cs - 1" "cs \<noteq> []" by (auto simp: bs)
    have "256 ^ k \<le> (256::nat) ^ (length cs - 1)" using len by (intro power_increasing) auto
    also have "\<dots> \<le> be_nat bs" using low' len by force
    finally show False using that by simp
  qed
  show "length bs \<le> k" if "2 * be_nat bs < 256 ^ k" "0 < k"
  proof (rule ccontr)
    assume "\<not> length bs \<le> k"
    then have len: "k - 1 \<le> length cs - 1" "cs \<noteq> []" using that by (auto simp: bs)
    have "256 ^ k = 256 * (256::nat) ^ (k - 1)" using that(2) by (cases k) simp_all
    also have "\<dots> \<le> 256 * 256 ^ (length cs - 1)"
      using len by (intro mult_left_mono power_increasing) auto
    also have "\<dots> \<le> 2 * be_nat bs" using low' len by force
    finally show False using that by simp
  qed
qed

lemma length_der_uint_body: "n < 256 ^ k \<Longrightarrow> length (der_uint_body n) \<le> Suc k"
  using uint_minimal_length(2) [of "der_uint_body n" k] by (simp add: be_nat_der_uint_body)

lemma length_der_uint_body_half:
  "2 * n < 256 ^ k \<Longrightarrow> 0 < k \<Longrightarrow> length (der_uint_body n) \<le> k"
  using uint_minimal_length(3) [of "der_uint_body n" k] by (simp add: be_nat_der_uint_body)

interpretation uint64_codec: strict_codec CBS_get_asn1_uint64 unat
    "\<lambda>n. der_element CBS_ASN1_INTEGER (der_uint_body n)" "\<lambda>n. n < 2 ^ 64"
proof unfold_locales
  fix n :: nat and bs r
  assume n: "n < 2 ^ 64"
  then have "length (der_uint_body n) \<le> 9" using length_der_uint_body [of n 8] by simp
  then show "\<exists>x. CBS_get_asn1_uint64 (cbs_over (der_element CBS_ASN1_INTEGER (der_uint_body n) @ bs) r) =
      (Some x, cbs_over bs r) \<and> unat x = n"
    using n CBS_get_asn1_uint64_decodes [of "der_uint_body n" bs r]
      unat_word_of_nat_small [of n, where ?'a = 64]
    by (simp add: be_nat_der_uint_body)
next
  fix bs r x c'
  assume g: "CBS_get_asn1_uint64 (cbs_over bs r) = (Some x, c')"
  then obtain out c'' where "CBS_get_asn1 CBS_ASN1_INTEGER (cbs_over bs r) = (Some out, c'')"
    by (auto simp: CBS_get_asn1_uint64_def split: prod.splits option.splits)
  then obtain body rest where body: "length body < 2 ^ 32"
    and bs: "bs = der_element CBS_ASN1_INTEGER body @ rest"
    using cbs_get_asn1_sound unfolding CBS_get_asn1_def by blast
  from g have c': "c' = cbs_over rest r" and m: "uint_minimal body" "be_nat body < 2 ^ 64"
    and x: "x = word_of_nat (be_nat body)"
    using CBS_get_asn1_uint64_decodes [OF body, of rest r] by (simp_all add: bs split: if_splits)
  then have "unat x = be_nat body"
    using unat_word_of_nat_small [of "be_nat body", where ?'a = 64] by simp
  moreover have "body = der_uint_body (be_nat body)" using m(1) uint_minimal_iff by blast
  ultimately show "unat x < 2 ^ 64 \<and> (\<exists>rest. bs =
      der_element CBS_ASN1_INTEGER (der_uint_body (unat x)) @ rest \<and> c' = cbs_over rest r)"
    using bs c' m(2) by auto
qed

section \<open>Signed INTEGER\<close>

definition be_int :: "bytes \<Rightarrow> int" where
  "be_int bs = (if bs \<noteq> [] \<and> 128 \<le> unat (hd bs) then int (be_nat bs) - 256 ^ length bs
                else int (be_nat bs))"

definition der_int_body :: "int \<Rightarrow> bytes" where
  "der_int_body v =
     (if 0 \<le> v then der_uint_body (nat v) else map NOT (der_uint_body (nat (- v - 1))))"

definition int_minimal :: "bytes \<Rightarrow> bool" where
  "int_minimal bs \<longleftrightarrow> bs \<noteq> [] \<and>
     \<not> (1 < length bs \<and> bs ! 0 = 0 \<and> unat (bs ! 1) < 128) \<and>
     \<not> (1 < length bs \<and> bs ! 0 = 0xff \<and> 128 \<le> unat (bs ! 1))"

lemma unat_NOT_u8: "unat (NOT b :: u8) = 255 - unat b"
  by (rule u8_by_enumeration) code_simp

lemma le_nat_map_NOT: "le_nat (map NOT bs) + le_nat bs + 1 = 256 ^ length bs"
proof (induction bs)
  case (Cons b bs)
  have "unat (NOT b) + unat b = 255" using unat_u8_le [of b] unat_NOT_u8 [of b] by linarith
  moreover have "(256::nat) ^ length (b # bs) = 256 * 256 ^ length bs" by simp
  ultimately show ?case using Cons unfolding list.map le_nat.simps by linarith
qed simp

lemma be_nat_map_NOT: "be_nat (map NOT bs) + be_nat bs + 1 = 256 ^ length bs"
  using le_nat_map_NOT [of "rev bs"] by (simp add: be_nat_def rev_map)

lemma map_NOT_NOT [simp]: "map NOT (map NOT (bs :: bytes)) = bs"
  by (simp add: map_idI)

lemma uint_minimal_iff_int: "uint_minimal bs \<longleftrightarrow> int_minimal bs \<and> unat (hd bs) < 128"
  by (cases bs) (auto simp: uint_minimal_def int_minimal_def)

lemma int_minimal_map_NOT: "int_minimal (map NOT bs) \<longleftrightarrow> int_minimal bs"
proof (cases bs)
  case (Cons b cs)
  have z: "NOT b = 0 \<longleftrightarrow> b = 0xff" "NOT b = 0xff \<longleftrightarrow> b = 0"
    unfolding word_unat_eq_iff [where ?'a = 8] unat_NOT_u8
    using unat_u8_le [of b] by (auto simp del: unat_u8_le)
  have c: "unat (NOT c) < 128 \<longleftrightarrow> 128 \<le> unat c" "128 \<le> unat (NOT c) \<longleftrightarrow> unat c < 128" for c :: u8
    using unat_u8_le [of c] by (auto simp: unat_NOT_u8)
  show ?thesis by (cases cs) (auto simp: int_minimal_def Cons z c)
qed (simp add: int_minimal_def)

lemma int_minimal_iff: "int_minimal bs \<longleftrightarrow> bs = der_int_body (be_int bs)"
proof (cases "bs \<noteq> [] \<and> 128 \<le> unat (hd bs)")
  case False
  show ?thesis
  proof (cases "bs = []")
    case True
    then show ?thesis by (simp add: int_minimal_def be_int_def der_int_body_def der_uint_body_def)
  next
    case ne: False
    then have "be_int bs = int (be_nat bs)" using False by (simp add: be_int_def)
    then show ?thesis using False ne uint_minimal_iff [of bs]
      by (simp add: uint_minimal_iff_int der_int_body_def not_le)
  qed
next
  case True
  have sum: "int (be_nat (map NOT bs)) + int (be_nat bs) + 1 = 256 ^ length bs"
    using arg_cong [OF be_nat_map_NOT [of bs], of int] by simp
  then have v: "be_int bs = - int (be_nat (map NOT bs)) - 1" using True by (simp add: be_int_def)
  have hd: "unat (hd (map NOT bs)) < 128"
    using True unat_NOT_u8 [of "hd bs"] by (simp add: hd_map less_diff_conv2)
  have "int_minimal bs \<longleftrightarrow> uint_minimal (map NOT bs)"
    using hd by (simp add: uint_minimal_iff_int int_minimal_map_NOT)
  also have "\<dots> \<longleftrightarrow> map NOT bs = der_uint_body (be_nat (map NOT bs))" by (rule uint_minimal_iff)
  also have "\<dots> \<longleftrightarrow> bs = map NOT (der_uint_body (be_nat (map NOT bs)))"
    by (metis map_NOT_NOT)
  also have "\<dots> \<longleftrightarrow> bs = der_int_body (be_int bs)" by (simp add: v der_int_body_def)
  finally show ?thesis .
qed

lemma be_int_der_int_body: "be_int (der_int_body v) = v"
proof (cases "0 \<le> v")
  case True
  have "unat (hd (der_uint_body (nat v))) < 128"
    using uint_minimal_iff_int uint_minimal_der_uint_body by blast
  then show ?thesis using True by (simp add: der_int_body_def be_int_def be_nat_der_uint_body)
next
  case False
  let ?b = "der_uint_body (nat (- v - 1))"
  have ne: "?b \<noteq> []" using uint_minimal_der_uint_body uint_minimal_def by blast
  have "unat (hd ?b) < 128" using uint_minimal_iff_int uint_minimal_der_uint_body by blast
  then have "128 \<le> unat (hd (map NOT ?b))" using ne by (simp add: hd_map unat_NOT_u8)
  moreover have "int (be_nat (map NOT ?b)) + int (be_nat ?b) + 1 = 256 ^ length ?b"
    using arg_cong [OF be_nat_map_NOT [of ?b], of int] by simp
  ultimately show ?thesis
    using False ne by (simp add: der_int_body_def be_int_def be_nat_der_uint_body)
qed

lemma be_int_bounds:
  "bs \<noteq> [] \<Longrightarrow> - (128 * 256 ^ (length bs - 1)) \<le> be_int bs \<and> be_int bs < 128 * 256 ^ (length bs - 1)"
proof -
  assume "bs \<noteq> []"
  then obtain b cs where bs: "bs = b # cs" by (cases bs) auto
  define P :: nat where "P = 256 ^ length cs"
  have n: "be_nat bs = unat b * P + be_nat cs" and c: "be_nat cs < P"
    by (simp_all add: bs be_nat_Cons P_def be_nat_less)
  show ?thesis
  proof (cases "128 \<le> unat b")
    case True
    then have "128 * P \<le> unat b * P" by (rule mult_right_mono) simp
    then have "128 * P \<le> be_nat bs" using n by linarith
    then have "128 * int P \<le> int (be_nat bs)" by linarith
    moreover have "int (be_nat bs) < 256 * int P"
      using be_nat_less [of bs] unfolding bs P_def by (metis length_Cons of_nat_less_iff of_nat_mult
          of_nat_numeral power_Suc)
    ultimately show ?thesis using True by (simp add: be_int_def bs P_def)
  next
    case False
    then have "unat b * P \<le> 127 * P" by (intro mult_right_mono) auto
    then have "be_nat bs < 128 * P" using n c by linarith
    then have "int (be_nat bs) < 128 * int P" by linarith
    then show ?thesis using False by (simp add: be_int_def bs P_def)
  qed
qed

lemma le_nat_replicate_0 [simp]: "le_nat (replicate k 0) = 0"
  by (induction k) simp_all

lemma le_nat_replicate_255: "le_nat (replicate k 0xff) + 1 = 256 ^ k"
proof (induction k)
  case (Suc k)
  have "unat (0xff :: u8) = 255" by simp
  with Suc show ?case unfolding replicate_Suc le_nat.simps power_Suc by linarith
qed simp

lemma foldl_fill:
  "k \<le> length u \<Longrightarrow> foldl (\<lambda>u i. u[i := f i]) u [0..<k] = map f [0..<k] @ drop k u"
proof (induction k)
  case (Suc k)
  then have "foldl (\<lambda>u i. u[i := f i]) u [0..<Suc k] = (map f [0..<k] @ drop k u)[k := f k]"
    by simp
  also have "\<dots> = map f [0..<Suc k] @ drop (Suc k) u"
    using Suc.prems by (simp add: list_update_append Cons_nth_drop_Suc [symmetric])
  finally show ?case .
qed simp

lemma map_rev_nth: "k \<le> length bs \<Longrightarrow> map (\<lambda>i. bs ! (k - i - 1)) [0..<k] = rev (take k bs)"
  by (intro nth_equalityI) (simp_all add: rev_nth min_def)

lemma sint_u64: "sint (w :: u64) = (if uint w < 2 ^ 63 then uint w else uint w - 2 ^ 64)"
proof -
  have b: "uint w < 2 ^ 64" using unsigned_less [of w, where ?'a = int] by simp
  have "sint w = (uint w + 2 ^ 63) mod 2 ^ 64 - 2 ^ 63"
    by (simp add: sint_uint signed_take_bit_eq_take_bit_shift take_bit_eq_mod)
  also have "\<dots> = (if uint w < 2 ^ 63 then uint w else uint w - 2 ^ 64)"
  proof (cases "uint w < 2 ^ 63")
    case True
    then show ?thesis by (simp add: mod_pos_pos_trivial)
  next
    case False
    then have "(uint w + 2 ^ 63 - 2 ^ 64) mod 2 ^ 64 = uint w + 2 ^ 63 - 2 ^ 64"
      using b by (intro mod_pos_pos_trivial) simp_all
    moreover have "(uint w + 2 ^ 63) mod 2 ^ 64 = (uint w + 2 ^ 63 - 2 ^ 64) mod 2 ^ 64"
      by (metis minus_mod_self2)
    ultimately show ?thesis using False by simp
  qed
  finally show ?thesis .
qed

lemma sint_le_word_filled:
  assumes "body \<noteq> []" and len: "length body \<le> 8"
  shows "sint (le_word (rev body @ replicate (8 - length body)
           (if 128 \<le> unat (hd body) then 0xff else 0)) :: u64) = be_int body"
proof -
  let ?n = "length body"
  let ?u = "rev body @ replicate (8 - ?n) (if 128 \<le> unat (hd body) then 0xff else 0 :: u8)"
  have pow: "(256::nat) ^ ?n * 256 ^ (8 - ?n) = 2 ^ 64"
    using len by (simp flip: power_add)
  have "unat (le_word ?u :: u64) = le_nat ?u" using len by (intro unat_le_word) simp
  also have "\<dots> = be_nat body + 256 ^ ?n * le_nat (replicate (8 - ?n)
      (if 128 \<le> unat (hd body) then 0xff else 0))"
    by (simp add: le_nat_append be_nat_def)
  finally have u: "unat (le_word ?u :: u64) = \<dots>" .
  have bound: "be_int body < 128 * 256 ^ (?n - 1)" "- (128 * 256 ^ (?n - 1)) \<le> be_int body"
    using be_int_bounds [OF assms(1)] by simp_all
  have "(256::int) ^ (?n - 1) \<le> 256 ^ 7" using len by (intro power_increasing) auto
  then have bound': "be_int body < 2 ^ 63" "- (2 ^ 63) \<le> be_int body" using bound by simp_all
  show ?thesis
  proof (cases "128 \<le> unat (hd body)")
    case True
    have "256 ^ ?n * le_nat (replicate (8 - ?n) 0xff) + 256 ^ ?n = 2 ^ 64"
      using le_nat_replicate_255 [of "8 - ?n"] pow
      by (metis add_mult_distrib2 mult.right_neutral)
    then have s: "unat (le_word ?u :: u64) + 256 ^ ?n = be_nat body + 2 ^ 64"
      using u True by (simp only: if_True)
    have i: "be_int body = int (be_nat body) - int (256 ^ ?n)"
      using True assms by (simp add: be_int_def)
    have "uint (le_word ?u :: u64) = be_int body + 2 ^ 64"
      unfolding i using arg_cong [OF s, of int] unfolding of_nat_add by simp
    then show ?thesis using bound' unfolding sint_u64 by (simp only: if_False) simp
  next
    case False
    then have "unat (le_word ?u :: u64) = be_nat body" and "be_int body = int (be_nat body)"
      using u by (simp_all add: be_int_def)
    then have "uint (le_word ?u :: u64) = be_int body" by (simp only: uint_nat)
    then show ?thesis using bound' unfolding sint_u64 by (simp only: if_True)
  qed
qed

lemma CBS_get_asn1_int64_decodes:
  assumes "length body < 2 ^ 32"
  shows "map_option sint (fst (CBS_get_asn1_int64
      (cbs_over (der_element CBS_ASN1_INTEGER body @ rest) r))) =
      (if int_minimal body \<and> length body \<le> 8 then Some (be_int body) else None)"
    and "snd (CBS_get_asn1_int64 (cbs_over (der_element CBS_ASN1_INTEGER body @ rest) r)) =
      cbs_over rest r"
proof -
  have fill: "foldl (\<lambda>u i. u[i := (body @ rest @ r) ! (length body - i - 1)]) (replicate 8 x) [0..<length body]
      = rev body @ replicate (8 - length body) x" if "length body \<le> 8" for x :: u8
    using that foldl_fill [of "length body" "replicate 8 x"]
      map_rev_nth [of "length body" "body @ rest @ r"] by simp
  have nz: "(body @ x) ! 0 = hd body" if "body \<noteq> []" for x
    using that by (simp add: nth_append hd_conv_nth)
  show "map_option sint (fst (CBS_get_asn1_int64
      (cbs_over (der_element CBS_ASN1_INTEGER body @ rest) r))) =
      (if int_minimal body \<and> length body \<le> 8 then Some (be_int body) else None)"
  proof (cases "int_minimal body \<and> length body \<le> 8")
    case True
    then have ne: "body \<noteq> []" by (simp add: int_minimal_def)
    have c: "\<not> (1 < length body \<and> (body @ rest @ r) ! 0 = 0 \<and> (body @ rest @ r) ! 1 AND 0x80 = 0)"
      "\<not> (1 < length body \<and> (body @ rest @ r) ! 0 = 0xff \<and> (body @ rest @ r) ! 1 AND 0x80 \<noteq> 0)"
      using True by (auto simp: int_minimal_def nth_append msb_u8_iff msb_zero_iff)
    show ?thesis
      using True ne c fill sint_le_word_filled [OF ne] nz
      by (simp add: CBS_get_asn1_int64_def assms Let_def msb_u8_iff)
  next
    case False
    then show ?thesis
      using assms by (auto simp: CBS_get_asn1_int64_def Let_def int_minimal_def nth_append
          msb_u8_iff msb_zero_iff)
  qed
  show "snd (CBS_get_asn1_int64 (cbs_over (der_element CBS_ASN1_INTEGER body @ rest) r)) =
      cbs_over rest r"
    using assms by (simp add: CBS_get_asn1_int64_def Let_def)
qed

lemma int_minimal_der_int_body [simp]: "int_minimal (der_int_body v)"
  by (simp add: int_minimal_iff be_int_der_int_body)

lemma length_der_int_body_64:
  assumes "- (2 ^ 63) \<le> v" and "v < 2 ^ 63"
  shows "length (der_int_body v) \<le> 8"
proof (cases "0 \<le> v")
  case True
  then show ?thesis
    using assms length_der_uint_body_half [of "nat v" 8] by (simp add: der_int_body_def)
next
  case False
  then show ?thesis
    using assms length_der_uint_body_half [of "nat (- v - 1)" 8] by (simp add: der_int_body_def)
qed

lemma be_int_bounds_64:
  assumes "bs \<noteq> []" and "length bs \<le> 8"
  shows "- (2 ^ 63) \<le> be_int bs \<and> be_int bs < 2 ^ 63"
proof -
  have "(256::int) ^ (length bs - 1) \<le> 256 ^ 7" using assms by (intro power_increasing) auto
  then show ?thesis using be_int_bounds [OF assms(1)] by simp
qed

interpretation int64_codec: strict_codec CBS_get_asn1_int64 sint
    "\<lambda>v. der_element CBS_ASN1_INTEGER (der_int_body v)" "\<lambda>v. - (2 ^ 63) \<le> v \<and> v < 2 ^ 63"
proof unfold_locales
  fix v :: int and bs r
  assume v: "- (2 ^ 63) \<le> v \<and> v < 2 ^ 63"
  let ?g = "CBS_get_asn1_int64 (cbs_over (der_element CBS_ASN1_INTEGER (der_int_body v) @ bs) r)"
  have "length (der_int_body v) \<le> 8" using length_der_int_body_64 v by blast
  then have "map_option sint (fst ?g) = Some v" "snd ?g = cbs_over bs r"
    using CBS_get_asn1_int64_decodes [of "der_int_body v" bs r] by (simp_all add: be_int_der_int_body)
  then show "\<exists>x. ?g = (Some x, cbs_over bs r) \<and> sint x = v"
    by (cases ?g) auto
next
  fix bs r x c'
  assume g: "CBS_get_asn1_int64 (cbs_over bs r) = (Some x, c')"
  then obtain out c'' where "CBS_get_asn1 CBS_ASN1_INTEGER (cbs_over bs r) = (Some out, c'')"
    by (auto simp: CBS_get_asn1_int64_def split: prod.splits option.splits)
  then obtain body rest where body: "length body < 2 ^ 32"
    and bs: "bs = der_element CBS_ASN1_INTEGER body @ rest"
    using cbs_get_asn1_sound unfolding CBS_get_asn1_def by blast
  have c': "c' = cbs_over rest r" and m: "int_minimal body" "length body \<le> 8"
    and x: "sint x = be_int body"
    using CBS_get_asn1_int64_decodes [OF body, of rest r] g by (simp_all add: bs split: if_splits)
  have "body \<noteq> []" using m(1) by (simp add: int_minimal_def)
  then have "- (2 ^ 63) \<le> sint x \<and> sint x < 2 ^ 63" using be_int_bounds_64 m(2) x by metis
  moreover have "body = der_int_body (sint x)" using m(1) int_minimal_iff x by metis
  ultimately show "(- (2 ^ 63) \<le> sint x \<and> sint x < 2 ^ 63) \<and> (\<exists>rest. bs =
      der_element CBS_ASN1_INTEGER (der_int_body (sint x)) @ rest \<and> c' = cbs_over rest r)"
    using bs c' by blast
qed

section \<open>BOOLEAN\<close>

definition der_bool_body :: "bool \<Rightarrow> bytes" where
  "der_bool_body b = [if b then 0xff else 0]"

lemma CBS_get_asn1_bool_decodes:
  assumes "length body < 2 ^ 32"
  shows "CBS_get_asn1_bool (cbs_over (der_element CBS_ASN1_BOOLEAN body @ rest) r) =
    (if body = [0xff] then Some True else if body = [0] then Some False else None,
     cbs_over rest r)"
proof (cases "length body = 1")
  case True
  then obtain b where "body = [b]" by (cases body) auto
  then show ?thesis by (simp add: CBS_get_asn1_bool_def Let_def)
next
  case False
  then have "body \<noteq> [0xff]" "body \<noteq> [0]" by auto
  then show ?thesis using False assms by (simp add: CBS_get_asn1_bool_def)
qed

interpretation bool_codec: strict_codec CBS_get_asn1_bool id
    "\<lambda>b. der_element CBS_ASN1_BOOLEAN (der_bool_body b)" "\<lambda>_. True"
proof unfold_locales
  fix b bs r
  show "\<exists>x. CBS_get_asn1_bool (cbs_over (der_element CBS_ASN1_BOOLEAN (der_bool_body b) @ bs) r) =
      (Some x, cbs_over bs r) \<and> id x = b"
    using CBS_get_asn1_bool_decodes [of "der_bool_body b" bs r] by (simp add: der_bool_body_def)
next
  fix bs r x c'
  assume g: "CBS_get_asn1_bool (cbs_over bs r) = (Some x, c')"
  then obtain out c'' where "CBS_get_asn1 CBS_ASN1_BOOLEAN (cbs_over bs r) = (Some out, c'')"
    by (auto simp: CBS_get_asn1_bool_def split: prod.splits option.splits)
  then obtain body rest where body: "length body < 2 ^ 32"
    and bs: "bs = der_element CBS_ASN1_BOOLEAN body @ rest"
    using cbs_get_asn1_sound unfolding CBS_get_asn1_def by blast
  then have "c' = cbs_over rest r" "body = der_bool_body x"
    using g CBS_get_asn1_bool_decodes [OF body, of rest r]
    by (auto simp: der_bool_body_def split: if_splits)
  then show "True \<and> (\<exists>rest. bs = der_element CBS_ASN1_BOOLEAN (der_bool_body (id x)) @ rest \<and>
      c' = cbs_over rest r)"
    using bs by auto
qed

section \<open>Optional elements\<close>

lemma CBS_peek_asn1_tag_der [simp]:
  "CBS_peek_asn1_tag (cbs_over (der_element t body @ rest) r) t' \<longleftrightarrow> t' = t"
proof -
  have "der_element t body \<noteq> []" by simp
  then have "\<not> length (der_element t body @ rest) < 1" by (cases "der_element t body") auto
  then show ?thesis
    by (simp add: CBS_peek_asn1_tag_def der_element_def der_header_def)
qed

text \<open>
  A present element is unwrapped; an element of another tag, or none, is left in place and
  is no error.
\<close>

lemma CBS_get_optional_asn1_decodes:
  assumes "length body < 2 ^ 32"
  shows "CBS_get_optional_asn1 t (cbs_over (der_element t' body @ rest) r) =
    (if t = t' then (Some (Some (cbs_over body (rest @ r))), cbs_over rest r)
     else (Some None, cbs_over (der_element t' body @ rest) r))"
  using assms by (simp add: CBS_get_optional_asn1_def)

lemma CBS_get_optional_asn1_empty [simp]:
  "CBS_get_optional_asn1 t (cbs_over [] r) = (Some None, cbs_over [] r)"
  by (simp add: CBS_get_optional_asn1_def CBS_peek_asn1_tag_def)

lemma CBS_get_optional_asn1_uint64_present:
  assumes "length (inner @ junk) < 2 ^ 32"
  assumes "inner = der_element CBS_ASN1_INTEGER (der_uint_body (unat (v :: u64)))"
  shows "CBS_get_optional_asn1_uint64 t default_value
      (cbs_over (der_element t (inner @ junk) @ rest) r) =
    (if junk = [] then Some v else None, cbs_over rest r)"
proof -
  have "unat v < 2 ^ 64" using unsigned_less [of v, where ?'a = nat] by simp
  then obtain x where "CBS_get_asn1_uint64 (cbs_over (inner @ junk) (rest @ r)) =
      (Some x, cbs_over junk (rest @ r))" and "unat x = unat v"
    unfolding assms(2) using uint64_codec.decodes by blast
  moreover from this have "x = v" by (simp add: word_unat_eq_iff)
  ultimately show ?thesis
    using CBS_get_optional_asn1_decodes [OF assms(1), of t t rest r]
    by (simp add: CBS_get_optional_asn1_uint64_def)
qed

lemma CBS_get_optional_asn1_bool_decodes:
  assumes "length (der_element CBS_ASN1_BOOLEAN body @ junk) < 2 ^ 32"
  shows "CBS_get_optional_asn1_bool t default_value
      (cbs_over (der_element t (der_element CBS_ASN1_BOOLEAN body @ junk) @ rest) r) =
    (if junk \<noteq> [] then None else if body = [0xff] then Some 1 else if body = [0] then Some 0
     else None, cbs_over rest r)"
proof -
  have b: "length body < 2 ^ 32" using assms by (simp add: der_element_def)
  show ?thesis
  proof (cases "length body = 1")
    case True
    then obtain v where "body = [v]" by (cases body) auto
    then show ?thesis using b CBS_get_optional_asn1_decodes [OF assms, of t t rest r]
      by (simp add: CBS_get_optional_asn1_bool_def Let_def)
  next
    case False
    then have "body \<noteq> [0xff]" "body \<noteq> [0]" by auto
    then show ?thesis using False b CBS_get_optional_asn1_decodes [OF assms, of t t rest r]
      by (simp add: CBS_get_optional_asn1_bool_def)
  qed
qed

lemma CBS_get_optional_asn1_octet_string_decodes:
  assumes "length (der_element CBS_ASN1_OCTETSTRING body @ junk) < 2 ^ 32"
  shows "CBS_get_optional_asn1_octet_string t
      (cbs_over (der_element t (der_element CBS_ASN1_OCTETSTRING body @ junk) @ rest) r) =
    (if junk = [] then Some (cbs_over body (rest @ r), True) else None, cbs_over rest r)"
proof -
  have b: "length body < 2 ^ 32" using assms by (simp add: der_element_def)
  show ?thesis using b CBS_get_optional_asn1_decodes [OF assms, of t t rest r]
    by (simp add: CBS_get_optional_asn1_octet_string_def)
qed

section \<open>BIT STRING\<close>

text \<open>The unused bits of the last octet are the low ones; they must exist and be zero.\<close>

lemma low_bits_zero_iff:
  assumes "unat (u :: u8) \<le> 7"
  shows "(ucast (b :: u8) :: u32) AND (push_bit (unat u) 1 - 1) = 0 \<longleftrightarrow>
         2 ^ unat u dvd unat b"
proof -
  have "push_bit (unat u) 1 - 1 = (mask (unat u) :: u32)"
    by (simp add: mask_eq_exp_minus_1 push_bit_eq_mult)
  then have "unat ((ucast b :: u32) AND (push_bit (unat u) 1 - 1)) = unat b mod 2 ^ unat u"
    by (simp add: unat_and_mask)
  then show ?thesis by (metis unat_eq_0 unsigned_0 dvd_eq_mod_eq_0)
qed

lemma CBS_is_valid_asn1_bitstring_iff:
  "CBS_is_valid_asn1_bitstring (cbs_over bs r) \<longleftrightarrow>
     (\<exists>u body. bs = u # body \<and> unat u \<le> 7 \<and>
        (u = 0 \<or> (body \<noteq> [] \<and> 2 ^ unat u dvd unat (last body))))"
proof (cases bs)
  case (Cons u body)
  have 7: "u > 7 \<longleftrightarrow> \<not> unat u \<le> 7" by (simp add: word_less_nat_alt not_le)
  show ?thesis
    by (cases "unat u \<le> 7"; cases body rule: rev_cases)
      (auto simp: CBS_is_valid_asn1_bitstring_def Cons 7 CBS_get_last_u8_over
          low_bits_zero_iff [unfolded push_bit_of_1])
qed (simp add: CBS_is_valid_asn1_bitstring_def)

text \<open>Bit \<open>k\<close> of a valid bit string, counted from the most significant bit of its first octet.\<close>

lemma CBS_asn1_bitstring_has_bit_iff:
  assumes "CBS_is_valid_asn1_bitstring (cbs_over (u # body) r)"
  shows "CBS_asn1_bitstring_has_bit (cbs_over (u # body) r) k \<longleftrightarrow>
    unat k div 8 < length body \<and> bit (body ! (unat k div 8)) (7 - unat k mod 8)"
proof -
  have k8: "unat k div 8 < 2 ^ 32 - 1"
    using unsigned_less [of k, where ?'a = nat] by (simp add: less_mult_imp_div_less)
  have n: "unat (drop_bit 3 k + 1) = unat k div 8 + 1"
    using k8 unat_add_lem [of "drop_bit 3 k" 1] by (simp add: unat_drop_bit)
  have 7: "k AND 7 = k AND mask 3" by (simp add: mask_numeral)
  then have "unat (k AND 7) = unat k mod 8" by (simp add: unat_and_mask)
  then have b: "unat (7 - (k AND 7)) = 7 - unat k mod 8"
    by (subst unat_sub) (simp_all add: word_le_nat_alt)
  have "(ucast x :: u32) AND push_bit j 1 \<noteq> 0 \<longleftrightarrow> bit x j" if "j < 32" for x :: u8 and j
    using that by (simp only: bit_iff_and_push_bit_not_eq_0 [symmetric]) (simp add: bit_simps)
  then have "(ucast x :: u32) AND push_bit (7 - unat k mod 8) 1 \<noteq> 0 \<longleftrightarrow>
      bit x (7 - unat k mod 8)" for x :: u8 by simp
  then show ?thesis
    using assms by (simp add: CBS_asn1_bitstring_has_bit_def Let_def n b nth_append del: push_bit_of_1)
qed

end
