(* ===== verification/Asn1_write.thy ===== *)
theory Asn1_write
  imports Cbb_spec Asn1_prim
begin

text \<open>
  The writers of crypto/bytestring/cbb.c against the encodings of the readers: every
  writer appends the encoding that the getter of the same type reads back, and with room
  in the buffer it succeeds.
\<close>

section \<open>Fixed-width integers and length prefixes\<close>

lemma be_bytes_ucast:
  "k * 8 \<le> LENGTH('a) \<Longrightarrow> LENGTH('a) \<le> LENGTH('b) \<Longrightarrow>
   be_bytes k (ucast (v :: 'a::len word) :: 'b::len word) = be_bytes k v"
  by (rule be_nat_inj) (simp_all add: be_nat_be_bytes)

lemma writes_u8: "writes d (\<lambda>alloc. CBB_add_u8 alloc d v) [v]"
proof -
  have "writes d (\<lambda>alloc. CBB_add_u alloc d 1 (ucast v)) (be_bytes 1 (ucast v :: u64))"
    by (rule writes_u) (simp_all add: unat_ucast_up)
  moreover have "be_bytes 1 (ucast v :: u64) = be_bytes 1 v" by (rule be_bytes_ucast) simp_all
  then have "be_bytes 1 (ucast v :: u64) = [v]" by (simp add: be_bytes_def)
  ultimately show ?thesis by (simp add: CBB_add_u8_def)
qed

lemma writes_u16: "writes d (\<lambda>alloc. CBB_add_u16 alloc d v) (be_bytes 2 v)"
  using writes_u [of 2 "ucast v" d] unsigned_less [of v, where ?'a = nat]
  by (simp add: CBB_add_u16_def be_bytes_ucast)

lemma writes_u24:
  "unat v < 2 ^ 24 \<Longrightarrow> writes d (\<lambda>alloc. CBB_add_u24 alloc d v) (be_bytes 3 v)"
  using writes_u [of 3 "ucast v" d] by (simp add: CBB_add_u24_def be_bytes_ucast)

lemma writes_u32: "writes d (\<lambda>alloc. CBB_add_u32 alloc d v) (be_bytes 4 v)"
  using writes_u [of 4 "ucast v" d] unsigned_less [of v, where ?'a = nat]
  by (simp add: CBB_add_u32_def be_bytes_ucast)

lemma writes_u64: "writes d (\<lambda>alloc. CBB_add_u64 alloc d v) (be_bytes 8 v)"
  using writes_u [of 8 v d] unsigned_less [of v, where ?'a = nat]
  by (simp add: CBB_add_u64_def)

lemma opens_length_prefixed:
  assumes "0 < k" and "k \<le> 3"
  shows "opens d (\<lambda>alloc. cbb_add_length_prefixed alloc k d) [] k False"
proof (rule opens_intro [OF writes_nothing, of d "\<lambda>alloc. on_buffer (\<lambda>b.
      case cbb_buffer_add alloc k b of
        (None, b') \<Rightarrow> (False, b')
      | (Some dest, b') \<Rightarrow> (True, b'\<lparr>buf := take dest (buf b') @ take k (replicate k 0) @
          drop (dest + k) (buf b')\<rparr>))"])
  let ?f = "\<lambda>alloc b. case cbb_buffer_add alloc k b of
        (None, b') \<Rightarrow> (False, b')
      | (Some dest, b') \<Rightarrow> (True, b'\<lparr>buf := take dest (buf b') @ take k (replicate k (0 :: u8)) @
          drop (dest + k) (buf b')\<rparr>)"
  show "appends d (\<lambda>alloc. on_buffer (?f alloc)) (replicate k 0)"
  proof (rule appends_on_buffer)
    fix alloc b ok b'
    assume "alloc_ok alloc" and "buffer_ok b" and "?f alloc b = (ok, b')"
    from CBB_add_bytes_step [OF this(1,2) _ _ this(3)] assms
    show "buffer_step b b' \<and> blen b \<le> blen b' \<and>
      (ok \<longrightarrow> error b' = error b \<and> buffer_bytes b' = buffer_bytes b @ replicate k 0)" by simp
  next
    fix b
    assume "buffer_ok b" and "can_resize b" and "blen b + length (replicate k (0 :: u8)) < 2 ^ 60"
    then have "fst (cbb_buffer_add alloc_total k b) \<noteq> None"
      by (intro cbb_buffer_add_total) auto
    then show "fst (?f alloc_total b)" by (auto split: prod.split option.split)
  qed
  show "cbb_add_length_prefixed alloc k d s =
      (case CBB_flush alloc d s of (ok, s1) \<Rightarrow> if \<not> ok then (False, s1)
       else case on_buffer (?f alloc) s1 of (ok2, s2) \<Rightarrow> if \<not> ok2 then (False, s2)
       else (True, open_child d \<lparr>offset = blen (cbb_buf s1), pending_len_len = k,
                                 pending_is_asn1 = False\<rparr> s2))" for alloc s
    by (auto simp: cbb_add_length_prefixed_def on_buffer_def open_child_def
        split: prod.split option.split)
qed (use assms in simp_all)

text \<open>A length-prefixed child, written and flushed.\<close>

lemma writes_length_prefixed:
  assumes "writes (Suc d) g body" and "0 < k" and "k \<le> 3" and "length body < 256 ^ k"
  shows "writes d (\<lambda>alloc. cbb_then (cbb_add_length_prefixed alloc k d)
      (cbb_then (g alloc) (CBB_flush alloc d))) (length_prefixed k body)"
  using writes_child [OF opens_length_prefixed [OF assms(2,3)], of d g body] writes_appends [OF assms(1)] assms
  by (simp add: length_prefixed_def)

section \<open>Base-128 integers and tags\<close>

lemma cbb_then_True [simp]: "cbb_then f (Pair True) = f"
  by (simp add: cbb_then_def fun_eq_iff split: prod.split)

lemma cbb_then_assoc: "cbb_then (cbb_then f g) h = cbb_then f (cbb_then g h)"
  by (simp add: cbb_then_def fun_eq_iff split: prod.split)

function b128_len :: "nat \<Rightarrow> nat" where
  "b128_len n = (if n = 0 then 0 else Suc (b128_len (n div 128)))"
  by pat_completeness auto
termination by (relation "measure id") auto

declare b128_len.simps [simp del]

lemma base128_len_len_eq: "base128_len_len v a = a + b128_len (unat v)"
proof (induction v a rule: base128_len_len.induct)
  case (1 v a)
  show ?case
  proof (cases "v > 0")
    case True
    then have "0 < unat v" by (simp add: unat_gt_0 word_gt_0)
    then show ?thesis
      using 1 [OF True] True by (subst base128_len_len.simps, subst b128_len.simps) (simp add: unat_drop_bit)
  next
    case False
    then have "v = 0" by (simp add: word_gt_0)
    then show ?thesis by (simp add: base128_len_len.simps [of 0] b128_len.simps [of 0])
  qed
qed

definition b128_group :: "nat \<Rightarrow> nat \<Rightarrow> nat" where
  "b128_group n i = n div 128 ^ i mod 128"

lemma b128_hi_groups:
  "b128_hi n = map (\<lambda>i. word_of_nat (b128_group n i + 128)) (rev [0..<b128_len n])"
proof (induction n rule: b128_len.induct)
  case (1 n)
  show ?case
  proof (cases "n = 0")
    case False
    have "rev [0..<Suc m] = map Suc (rev [0..<m]) @ [0]" for m
      by (simp only: upt_conv_Cons zero_less_Suc rev.simps map_Suc_upt [symmetric] rev_map)
    then have r: "rev [0..<b128_len n] = map Suc (rev [0..<b128_len (n div 128)]) @ [0]"
      using False by (simp add: b128_len.simps [of n] del: upt_Suc)
    have g: "b128_group n (Suc i) = b128_group (n div 128) i" for i
      by (simp add: b128_group_def div_mult2_eq)
    show ?thesis
      using 1 [OF False] False by (simp add: b128_hi_pos r g) (simp add: b128_group_def)
  qed (simp add: b128_len.simps)
qed

lemma group_byte:
  fixes v :: u64
  shows "ucast (drop_bit (7 * i) v) AND 0x7f = (word_of_nat (b128_group (unat v) i) :: u8)"
    and "(ucast (drop_bit (7 * i) v) AND 0x7f) OR 0x80 = (word_of_nat (b128_group (unat v) i + 128) :: u8)"
proof -
  define b :: u8 where "b = ucast (drop_bit (7 * i) v)"
  have "unat b mod 128 = b128_group (unat v) i"
    by (simp add: b_def b128_group_def unat_ucast unat_drop_bit power_mult mod_mod_cancel)
  moreover have "b AND 0x7f = word_of_nat (unat b mod 128)"
    by (simp add: mask_7 word_unat_eq_iff unat_and_mask unat_of_nat)
  moreover have "(b AND 0x7f) OR 0x80 = word_of_nat (unat b mod 128 + 128)"
    by (rule u8_by_enumeration) code_simp
  ultimately show "ucast (drop_bit (7 * i) v) AND 0x7f = (word_of_nat (b128_group (unat v) i) :: u8)"
    and "(ucast (drop_bit (7 * i) v) AND 0x7f) OR 0x80 = (word_of_nat (b128_group (unat v) i + 128) :: u8)"
    by (simp_all only: b_def)
qed

lemma writes_base128_loop:
  "writes d (\<lambda>alloc. add_base128_loop alloc d v (Suc i))
     (map (\<lambda>j. word_of_nat (b128_group (unat v) j + 128)) (rev [1..<Suc i]) @
      [word_of_nat (b128_group (unat v) 0)])"
proof (induction i)
  case 0
  have "add_base128_loop alloc d v (Suc 0) =
      CBB_add_u8 alloc d (word_of_nat (b128_group (unat v) 0))" for alloc
  proof (rule ext)
    fix s
    have "cbb_then (CBB_add_u8 alloc d x) (add_base128_loop alloc d v 0) s = CBB_add_u8 alloc d x s" for x
      by (simp add: cbb_then_def split: prod.split)
    then show "add_base128_loop alloc d v (Suc 0) s =
      CBB_add_u8 alloc d (word_of_nat (b128_group (unat v) 0)) s"
      using group_byte(1) [of 0 v] by (simp add: Let_def)
  qed
  then show ?case using writes_u8 [of d "word_of_nat (b128_group (unat v) 0)"] by simp
next
  case (Suc i)
  have u: "rev [1..<Suc (Suc i)] = Suc i # rev [1..<Suc i]" by simp
  have "add_base128_loop alloc d v (Suc (Suc i)) =
      cbb_then (CBB_add_u8 alloc d (word_of_nat (b128_group (unat v) (Suc i) + 128)))
        (add_base128_loop alloc d v (Suc i))" for alloc
    by (rule ext, subst add_base128_loop.simps(2))
      (simp only: Let_def group_byte(2) if_True simp_thms nat.distinct)
  then show ?case
    using writes_then [OF writes_u8 Suc, of "word_of_nat (b128_group (unat v) (Suc i) + 128)"]
    by (simp only: u list.map append.simps)
qed

lemma writes_base128: "writes d (\<lambda>alloc. add_base128_integer alloc d v) (b128 (unat v))"
proof -
  define m where "m = unat v div 128"
  have len: "(let n = base128_len_len v 0 in if n = 0 then 1 else n) = Suc (b128_len m)"
    using b128_len.simps [of "unat v"]
    by (cases "unat v = 0") (simp_all add: base128_len_len_eq m_def b128_len.simps [of 0])
  have "rev [1..<Suc n] = map Suc (rev [0..<n])" for n
    by (simp only: rev_map [symmetric] map_Suc_upt One_nat_def)
  moreover have "b128_group (unat v) (Suc i) = b128_group m i" for i
    by (simp add: b128_group_def div_mult2_eq m_def)
  ultimately have "b128 (unat v) =
      map (\<lambda>j. word_of_nat (b128_group (unat v) j + 128)) (rev [1..<Suc (b128_len m)]) @
      [word_of_nat (b128_group (unat v) 0)]"
    by (simp add: b128_def b128_hi_groups m_def [symmetric] b128_group_def [of _ 0] del: upt_Suc)
  then show ?thesis
    using writes_base128_loop [of d v "b128_len m"] len
    by (simp only: add_base128_integer_def Let_def)
qed

lemma tag_bits_value:
  "unat (ucast (drop_bit CBS_ASN1_TAG_SHIFT t) AND 0xe0 :: u8) = unat (t :: u32) div 2 ^ 29 * 32"
proof -
  have "unat t div 2 ^ 24 < 256"
    using unsigned_less [of t, where ?'a = nat] by (simp add: less_mult_imp_div_less)
  then have "unat (ucast (drop_bit CBS_ASN1_TAG_SHIFT t) :: u8) = unat t div 2 ^ 24"
    by (simp add: unat_ucast unat_drop_bit)
  then show ?thesis
    by (simp only: tag_byte_class) (simp add: div_mult2_eq [symmetric])
qed

lemma or_low_bits: "unat x < 32 \<Longrightarrow> unat ((b AND 0xe0) OR x :: u8) = unat (b AND 0xe0) + unat x"
proof -
  assume "unat x < 32"
  then have "unat x mod 2 ^ 5 = unat x" by simp
  then have x: "x AND 0x1f = x" using unat_and_mask [of x 5]
    by (simp add: word_unat_eq_iff mask_numeral)
  have "(b AND 0xe0) AND (x AND 0x1f) = (b AND x) AND (0xe0 AND 0x1f)"
    by (simp only: and.assoc and.left_commute and.commute)
  then have disj: "(b AND 0xe0) AND x = 0" by (simp add: x)
  then have "(b AND 0xe0) OR x = (b AND 0xe0) + x" by (rule disjunctive_add_eq_or [symmetric])
  moreover have "unat b div 32 \<le> 7" using div_le_mono [OF unat_u8_le, of b 32] by simp
  then have "unat (b AND 0xe0) \<le> 224" by (simp add: tag_byte_class)
  then have "unat ((b AND 0xe0) + x) = unat (b AND 0xe0) + unat x"
    using \<open>unat x < 32\<close> by (intro unat_add_lem [THEN iffD1]) simp
  ultimately show ?thesis by simp
qed

text \<open>The tag, whichever of its two forms it takes.\<close>

lemma writes_tag:
  defines "bits t \<equiv> ucast (drop_bit CBS_ASN1_TAG_SHIFT t) AND 0xe0 :: u8"
    and "num t \<equiv> t AND CBS_ASN1_TAG_NUMBER_MASK"
  shows "writes d (\<lambda>alloc. if num t \<ge> 0x1f
      then cbb_then (CBB_add_u8 alloc d (bits t OR 0x1f)) (add_base128_integer alloc d (ucast (num t)))
      else CBB_add_u8 alloc d (bits t OR ucast (num t))) (der_tag t)"
proof -
  have n: "unat (num t) = unat t mod 2 ^ 29" by (simp add: num_def tag_number_mask unat_and_mask)
  have b: "unat (bits t) = unat t div 2 ^ 29 * 32" unfolding bits_def by (rule tag_bits_value)
  have w: "word_of_nat (unat x) = x" for x :: u8 by simp
  show ?thesis
  proof (cases "unat t mod 2 ^ 29 < 31")
    case True
    then have "unat (ucast (num t) :: u8) = unat t mod 2 ^ 29" by (simp add: unat_ucast n)
    then have "unat (bits t OR ucast (num t)) = unat t div 2 ^ 29 * 32 + unat t mod 2 ^ 29"
      using True or_low_bits [of "ucast (num t)"] b by (simp add: bits_def)
    then have "bits t OR ucast (num t) = word_of_nat (unat t div 2 ^ 29 * 32 + unat t mod 2 ^ 29)"
      by (metis w)
    then have "der_tag t = [bits t OR ucast (num t)]" using True by (simp add: der_tag_def Let_def)
    moreover have "\<not> num t \<ge> 0x1f" using True n by (simp add: word_le_nat_alt)
    ultimately show ?thesis using writes_u8 [of d "bits t OR ucast (num t)"] by simp
  next
    case False
    have "unat (bits t OR 0x1f) = unat t div 2 ^ 29 * 32 + 31"
      using or_low_bits [of "0x1f"] b by (simp add: bits_def)
    then have "bits t OR 0x1f = word_of_nat (unat t div 2 ^ 29 * 32 + 31)"
      by (metis w)
    then have "der_tag t = [bits t OR 0x1f] @ b128 (unat (ucast (num t) :: u64))"
      using False n by (simp add: der_tag_def Let_def)
    moreover have "num t \<ge> 0x1f" using False n by (simp add: word_le_nat_alt)
    ultimately show ?thesis
      using writes_then [OF writes_u8 writes_base128, of d "bits t OR 0x1f" "ucast (num t)"] by simp
  qed
qed

lemma opens_asn1: "opens d (\<lambda>alloc. CBB_add_asn1 alloc d t) (der_tag t) 1 True"
proof (rule opens_intro)
  let ?h = "\<lambda>alloc. cbb_then (CBB_flush alloc d)
    (if t AND CBS_ASN1_TAG_NUMBER_MASK \<ge> 0x1f
     then cbb_then (CBB_add_u8 alloc d ((ucast (drop_bit CBS_ASN1_TAG_SHIFT t) AND 0xe0) OR 0x1f))
            (add_base128_integer alloc d (ucast (t AND CBS_ASN1_TAG_NUMBER_MASK)))
     else CBB_add_u8 alloc d ((ucast (drop_bit CBS_ASN1_TAG_SHIFT t) AND 0xe0) OR
            ucast (t AND CBS_ASN1_TAG_NUMBER_MASK)))"
  show "writes d ?h (der_tag t)"
    using writes_then [OF writes_nothing writes_tag] by simp
  show "appends d (\<lambda>alloc. CBB_add_u8 alloc d 0) (replicate 1 0)"
    using writes_appends [OF writes_u8] by simp
  show "CBB_add_asn1 alloc d t s =
      (case ?h alloc s of (ok, s1) \<Rightarrow> if \<not> ok then (False, s1)
       else case CBB_add_u8 alloc d 0 s1 of (ok2, s2) \<Rightarrow> if \<not> ok2 then (False, s2)
       else (True, open_child d \<lparr>offset = blen (cbb_buf s1), pending_len_len = 1,
                                 pending_is_asn1 = True\<rparr> s2))" for alloc s
    unfolding CBB_add_asn1_def Let_def cbb_then_assoc [symmetric]
    by (subst cbb_then_def) (auto split: prod.split)
qed simp_all

text \<open>A writer of a body becomes a writer of the element.\<close>

lemma writes_element_appends:
  assumes "appends (Suc d) g body" and "length body \<le> 0xfffffffe"
  shows "writes d (\<lambda>alloc. cbb_then (CBB_add_asn1 alloc d t) (cbb_then (g alloc) (CBB_flush alloc d)))
    (der_element t body)"
  using writes_child [OF opens_asn1 _ _ _ assms(1), of t] assms(2)
  by (simp add: der_element_def der_header_def)

lemma writes_element:
  assumes "writes (Suc d) g body" and "length body \<le> 0xfffffffe"
  shows "writes d (\<lambda>alloc. cbb_then (CBB_add_asn1 alloc d t) (cbb_then (g alloc) (CBB_flush alloc d)))
    (der_element t body)"
  using writes_element_appends [OF writes_appends [OF assms(1)] assms(2)] .

lemma writes_octet_string:
  assumes "n \<le> length data" and "n \<le> 0xfffffffe"
  shows "writes d (\<lambda>alloc. CBB_add_asn1_octet_string alloc d data n)
    (der_element CBS_ASN1_OCTETSTRING (take n data))"
  unfolding CBB_add_asn1_octet_string_def
  by (rule writes_element [OF writes_bytes]) (use assms in auto)

lemma writes_bool:
  "writes d (\<lambda>alloc. CBB_add_asn1_bool alloc d v) (der_element CBS_ASN1_BOOLEAN (der_bool_body (v \<noteq> 0)))"
  unfolding CBB_add_asn1_bool_def der_bool_body_def
  by (rule writes_element [OF writes_u8]) simp

section \<open>INTEGER\<close>

lemma ucast_group: "ucast (drop_bit (8 * n) v) AND 0xff = (ucast (drop_bit (8 * n) v) :: u8)"
proof -
  have "b AND 0xff = b" for b :: u8
    by (rule u8_by_enumeration) code_simp
  then show ?thesis .
qed

lemma be_bytes_Suc: "be_bytes (Suc n) v = ucast (drop_bit (8 * n) v) # be_bytes n v"
proof -
  have "be_nat (be_bytes (Suc n) v) = be_nat (ucast (drop_bit (8 * n) v) # be_bytes n v)"
  proof -
    have "unat v mod (256 ^ n * 256) = 256 ^ n * (unat v div 256 ^ n mod 256) + unat v mod 256 ^ n"
      by (rule mod_mult2_eq)
    moreover have "(2::nat) ^ (8 * n) = 256 ^ n" by (simp add: power_mult)
    ultimately show ?thesis
      by (simp add: be_nat_be_bytes be_nat_Cons unat_ucast unat_drop_bit mult.commute)
  qed
  then show ?thesis by (intro be_nat_inj) simp_all
qed

definition drop_started :: "bool \<times> bool \<times> cbb \<Rightarrow> bool \<times> cbb" where
  "drop_started r = (case r of (ok, started, s) \<Rightarrow> (ok, s))"

lemma asn1_uint64_write_started:
  "writes c (\<lambda>alloc. cbb_then (CBB_add_u8 alloc c b)
      (\<lambda>s. drop_started (asn1_uint64_write alloc c v True n s))) (b # be_bytes n v)"
proof (induction n arbitrary: b)
  case 0
  have "(\<lambda>s. drop_started (asn1_uint64_write alloc c v True 0 s)) = Pair True" for alloc
    by (simp add: fun_eq_iff drop_started_def)
  then show ?case using writes_u8 [of c b] by (simp add: be_bytes_def)
next
  case (Suc n)
  let ?x = "ucast (drop_bit (8 * n) v) :: u8"
  have "(\<lambda>s. drop_started (asn1_uint64_write alloc c v True (Suc n) s)) =
      cbb_then (CBB_add_u8 alloc c ?x) (\<lambda>s. drop_started (asn1_uint64_write alloc c v True n s))" for alloc
    by (simp add: fun_eq_iff ucast_group cbb_then_def drop_started_def split: prod.split)
  then show ?case
    using writes_then [OF writes_u8 Suc.IH [of ?x], of b] by (simp add: be_bytes_Suc)
qed

lemma started_stays: "asn1_uint64_write alloc c v True n s = (ok, st, s') \<Longrightarrow> st"
  by (induction n arbitrary: s) (auto simp: Let_def split: prod.splits if_splits)

definition uint64_body_op :: "u64 \<Rightarrow> nat \<Rightarrow> nat \<Rightarrow> (nat \<Rightarrow> bool) \<Rightarrow> cbb_op" where
  "uint64_body_op v c n alloc s =
     (case asn1_uint64_write alloc c v False n s of
        (ok, started, s') \<Rightarrow>
          if \<not> ok then (False, s')
          else (if \<not> started then CBB_add_u8 alloc c 0 else Pair True) s')"

lemma writes_uint64_body: "writes c (uint64_body_op v c n) (der_uint_body (unat v mod 256 ^ n))"
proof (induction n)
  case 0
  have "uint64_body_op v c 0 = (\<lambda>alloc. CBB_add_u8 alloc c 0)"
    by (simp add: uint64_body_op_def fun_eq_iff)
  then show ?case using writes_u8 [of c 0] by (simp add: der_uint_body_def)
next
  case (Suc n)
  define x :: u8 where "x = ucast (drop_bit (8 * n) v)"
  have x: "unat x = unat v div 256 ^ n mod 256"
    by (simp add: x_def unat_ucast unat_drop_bit power_mult)
  have split: "unat v mod 256 ^ Suc n = be_nat (x # be_bytes n v)"
    by (simp add: x_def be_bytes_Suc [symmetric] be_nat_be_bytes)
  show ?case
  proof (cases "x = 0")
    case True
    then have "uint64_body_op v c (Suc n) = uint64_body_op v c n"
      by (simp add: uint64_body_op_def fun_eq_iff ucast_group x_def)
    moreover have "unat v mod 256 ^ Suc n = unat v mod 256 ^ n"
      using split True by (simp add: be_nat_Cons be_nat_be_bytes)
    ultimately show ?thesis using Suc by simp
  next
    case False
    then have m: "be_min (unat v mod 256 ^ Suc n) = x # be_bytes n v"
      unfolding split by (intro be_min_be_nat) simp
    then have "unat v mod 256 ^ Suc n \<noteq> 0" by (metis be_min_0 list.distinct(1))
    then have body: "der_uint_body (unat v mod 256 ^ Suc n) =
        (if x AND 0x80 \<noteq> 0 then [0] else []) @ x # be_bytes n v"
      by (simp only: der_uint_body_def m msb_u8_iff) simp
    have op: "uint64_body_op v c (Suc n) = (\<lambda>alloc. cbb_then
        (if x AND 0x80 \<noteq> 0 then CBB_add_u8 alloc c 0 else Pair True)
        (cbb_then (CBB_add_u8 alloc c x) (\<lambda>s. drop_started (asn1_uint64_write alloc c v True n s))))"
    proof (intro ext)
      fix alloc s
      have xb: "ucast (drop_bit (8 * n) v) AND 0xff = x" by (simp only: ucast_group x_def)
      let ?f = "if x AND 0x80 \<noteq> 0 then CBB_add_u8 alloc c 0 else Pair True"
      obtain ok s1 where 1: "cbb_then ?f (CBB_add_u8 alloc c x) s = (ok, s1)" by fastforce
      obtain ok2 st s2 where 2: "asn1_uint64_write alloc c v True n s1 = (ok2, st, s2)"
        by (metis prod_cases3)
      have "asn1_uint64_write alloc c v False (Suc n) s =
          (case cbb_then ?f (CBB_add_u8 alloc c x) s of (ok, s') \<Rightarrow>
             if \<not> ok then (False, True, s') else asn1_uint64_write alloc c v True n s')"
        using False unfolding asn1_uint64_write.simps xb Let_def by simp
      then have "uint64_body_op v c (Suc n) alloc s = (if ok then (ok2, s2) else (False, s1))"
        using 1 2 started_stays [OF 2] by (simp add: uint64_body_op_def)
      also have "\<dots> = cbb_then (cbb_then ?f (CBB_add_u8 alloc c x))
          (\<lambda>s. drop_started (asn1_uint64_write alloc c v True n s)) s"
        by (subst cbb_then_def) (simp add: 1 2 drop_started_def)
      finally show "uint64_body_op v c (Suc n) alloc s = cbb_then ?f
          (cbb_then (CBB_add_u8 alloc c x) (\<lambda>s. drop_started (asn1_uint64_write alloc c v True n s))) s"
        by (simp only: cbb_then_assoc)
    qed
    show ?thesis
    proof (cases "x AND 0x80 = 0")
      case True
      have "cbb_then (Pair True) f = f" for f by (simp add: cbb_then_def fun_eq_iff)
      then show ?thesis
        using True asn1_uint64_write_started [of c x v n] unfolding op body by simp
    next
      case False
      then show ?thesis
        using writes_then [OF writes_u8 asn1_uint64_write_started, of c 0 x v n] unfolding op body by simp
    qed
  qed
qed

lemma writes_uint64:
  "writes d (\<lambda>alloc. CBB_add_asn1_uint64 alloc d v) (der_element CBS_ASN1_INTEGER (der_uint_body (unat v)))"
proof -
  have v: "unat v < 256 ^ 8" using unsigned_less [of v, where ?'a = nat] by simp
  have "CBB_add_asn1_uint64 alloc d v = cbb_then (CBB_add_asn1 alloc d CBS_ASN1_INTEGER)
      (cbb_then (uint64_body_op v (Suc d) 8 alloc) (CBB_flush alloc d))" for alloc
    by (simp add: CBB_add_asn1_uint64_def fun_eq_iff cbb_then_def uint64_body_op_def split: prod.splits)
  moreover have "length (der_uint_body (unat v)) \<le> 9" using length_der_uint_body [OF v] by simp
  ultimately show ?thesis
    using writes_element [OF writes_uint64_body [of "Suc d" v 8], of CBS_ASN1_INTEGER] v by simp
qed

text \<open>Negative values: the sign bytes that say nothing are skipped.\<close>

lemma be_int_drop_sign:
  assumes "128 \<le> unat c"
  shows "be_int (0xff # c # bs) = be_int (c # bs)"
proof -
  have "unat (0xff :: u8) = 255" by simp
  then show ?thesis using assms by (simp add: be_int_def be_nat_Cons algebra_simps)
qed

lemma int64_start_spec:
  assumes "n < length u" and "128 \<le> unat (u ! n)" and "k = int64_start u n"
  shows "k \<le> n \<and> 128 \<le> unat (u ! k) \<and>
    be_int (rev (take (Suc k) u)) = be_int (rev (take (Suc n) u)) \<and> int_minimal (rev (take (Suc k) u))"
  using assms
proof (induction n)
  case 0
  then show ?case by (cases u) (auto simp: int_minimal_def)
next
  case (Suc n)
  have rev2: "rev (take (Suc (Suc n)) u) = u ! Suc n # u ! n # rev (take n u)"
    using Suc.prems(1) by (simp add: take_Suc_conv_app_nth)
  have rev1: "rev (take (Suc n) u) = u ! n # rev (take n u)"
    using Suc.prems(1) by (simp add: take_Suc_conv_app_nth)
  show ?case
  proof (cases "u ! Suc n = 0xff \<and> 128 \<le> unat (u ! n)")
    case True
    then have "k = int64_start u n" using Suc.prems(3) by (simp add: msb_u8_iff)
    with Suc.IH Suc.prems(1) True have "k \<le> n" "128 \<le> unat (u ! k)"
      "be_int (rev (take (Suc k) u)) = be_int (rev (take (Suc n) u))"
      "int_minimal (rev (take (Suc k) u))" by auto
    moreover have "be_int (rev (take (Suc n) u)) = be_int (rev (take (Suc (Suc n)) u))"
      unfolding rev1 rev2 using True be_int_drop_sign by simp
    ultimately show ?thesis by simp
  next
    case False
    then have k: "k = Suc n" using Suc.prems(3) by (auto simp: msb_u8_iff)
    have "u ! Suc n \<noteq> 0" using Suc.prems(2) by auto
    then have "int_minimal (rev (take (Suc (Suc n)) u))"
      unfolding rev2 using False by (auto simp: int_minimal_def)
    then show ?thesis using Suc.prems(2) k by simp
  qed
qed

lemma writes_bytes_down:
  "writes c (\<lambda>alloc. add_bytes_down alloc c u (Suc n)) (map ((!) u) (rev [0..<Suc n]))"
proof (induction n)
  case 0
  have "add_bytes_down alloc c u (Suc 0) = CBB_add_u8 alloc c (u ! 0)" for alloc
    by (simp add: fun_eq_iff cbb_then_def split: prod.split)
  then show ?case using writes_u8 by simp
next
  case (Suc n)
  have "add_bytes_down alloc c u (Suc (Suc n)) =
      cbb_then (CBB_add_u8 alloc c (u ! Suc n)) (add_bytes_down alloc c u (Suc n))" for alloc
    by (rule ext) (simp only: add_bytes_down.simps)
  moreover have "map ((!) u) (rev [0..<Suc (Suc n)]) = [u ! Suc n] @ map ((!) u) (rev [0..<Suc n])" by simp
  ultimately show ?case using writes_then [OF writes_u8 Suc] by presburger
qed

lemma writes_int64:
  "writes d (\<lambda>alloc. CBB_add_asn1_int64 alloc d v) (der_element CBS_ASN1_INTEGER (der_int_body (sint v)))"
proof (cases "sint v \<ge> 0")
  case True
  have b: "uint v < 2 ^ 64" using unsigned_less [of v, where ?'a = int] by simp
  have "sint v = uint v"
    using True sint_u64 [of v] b by (cases "uint v < 2 ^ 63") simp_all
  then have "nat (sint v) = unat v" by simp
  then show ?thesis
    using writes_uint64 [of d v] True by (simp add: CBB_add_asn1_int64_def der_int_body_def)
next
  case False
  define u where "u = le_bytes 8 v"
  define k where "k = int64_start u 7"
  have u: "length u = 8" "le_word u = v"
    using le_word_le_bytes [of v 8] unsigned_less [of v, where ?'a = nat] by (simp_all add: u_def)
  then have "u \<noteq> []" by auto
  then have hd: "hd (rev u) = u ! 7" "rev u \<noteq> []" using u(1) by (simp_all add: hd_rev last_conv_nth)
  have "sint (le_word (rev (rev u) @ replicate (8 - length (rev u))
      (if 128 \<le> unat (hd (rev u)) then 0xff else 0)) :: u64) = be_int (rev u)"
    by (rule sint_le_word_filled) (use u hd in auto)
  then have v: "be_int (rev u) = sint v" using u by simp
  have "128 \<le> unat (u ! 7)"
    using False v hd by (simp add: be_int_def split: if_splits)
  then have k: "k \<le> 7" "be_int (rev (take (Suc k) u)) = be_int (rev (take (Suc 7) u))"
    "int_minimal (rev (take (Suc k) u))"
    using int64_start_spec [of 7 u k] u(1) k_def by simp_all
  have "take (Suc 7) u = u" using u(1) by simp
  then have "rev (take (Suc k) u) = der_int_body (sint v)"
    using k(2,3) v int_minimal_iff by metis
  moreover have "map ((!) u) (rev [0..<Suc k]) = rev (take (Suc k) u)"
  proof -
    have "map ((!) u) [0..<Suc k] = take (Suc k) u"
      using k(1) u(1) by (intro nth_equalityI) (simp_all del: upt_Suc)
    then show ?thesis by (simp only: rev_map [symmetric])
  qed
  ultimately have "writes (Suc d) (\<lambda>alloc. add_bytes_down alloc (Suc d) u (Suc k)) (der_int_body (sint v))"
    using writes_bytes_down [of "Suc d" u k] by simp
  moreover have "length (der_int_body (sint v)) \<le> 0xfffffffe"
    using \<open>rev (take (Suc k) u) = der_int_body (sint v)\<close> [symmetric] u(1) by simp
  ultimately show ?thesis
    using writes_element [of d "\<lambda>alloc. add_bytes_down alloc (Suc d) u (Suc k)" "der_int_body (sint v)"
        CBS_ASN1_INTEGER] False
    by (simp add: CBB_add_asn1_int64_def Let_def u_def [symmetric] k_def [symmetric])
qed

section \<open>From an empty builder to its bytes\<close>

lemma CBB_init_step:
  assumes "alloc_ok alloc" and "CBB_init alloc c = (True, s)" and "c + 8 < size_t_mod"
  shows "cbb_wf s \<and> cbb_live d s = (d = 0) \<and> sealed 0 s = [] \<and> cbb_children s = [] \<and>
    can_resize (cbb_buf s) \<and> \<not> error (cbb_buf s)"
proof -
  have "length b = c \<and> c + 8 < 2 ^ 63" if "OPENSSL_malloc alloc c = Some b" for b
    using that assms OPENSSL_malloc_length [OF that] OPENSSL_malloc_None_iff [of c alloc]
    by (auto simp: alloc_ok_def)
  then have "\<exists>b. s = \<lparr>cbb_base = Some \<lparr>buf = b, blen = 0, cap = c, can_resize = True, error = False\<rparr>,
      cbb_children = []\<rparr> \<and> length b = c \<and> c + 8 < 2 ^ 63"
    using assms(2) by (auto simp: CBB_init_def cbb_init_def split: option.splits if_splits)
  then show ?thesis
    by (auto simp: cbb_wf_def cbb_live_def buffer_ok_def sealed_def cbb_written_def buffer_bytes_def)
qed

lemma CBB_init_total: "c + 8 < 2 ^ 63 \<Longrightarrow> fst (CBB_init alloc_total c)"
  by (auto simp: CBB_init_def cbb_init_def OPENSSL_malloc_def alloc_total_def OPENSSL_MALLOC_PREFIX_def
      sizeof_cbb_buffer_def size_t_mod_def Let_def)

lemma CBB_finish_step:
  assumes "alloc_ok alloc" and "cbb_wf s" and "cbb_live 0 s"
    and "CBB_finish alloc 0 want_data want_len s = (Some (b, n), s')"
  shows "take n b = sealed 0 s \<and> n = length (sealed 0 s) \<and> cbb_base s' = None"
proof -
  obtain ok s1 where f: "CBB_flush alloc 0 s = (ok, s1)" by fastforce
  have "wrote 0 [] s (CBB_flush alloc 0 s)"
    using writes_nothing [of 0] assms by (simp add: writes_def)
  then have w: "wrote 0 [] s (ok, s1)" using f by simp
  have "ok" and r: "b = buf (cbb_buf s1)" "n = blen (cbb_buf s1)" "s' = CBB_cleanup 0 s1"
    using assms(4) f by (auto simp: CBB_finish_def split: if_splits)
  then have "buffer_bytes (cbb_buf s1) = sealed 0 s" and "buffer_ok (cbb_buf s1)"
    using w by (auto simp: wrote_def cbb_written_def cbb_step_def buffer_step_def)
  then show ?thesis
    using r length_buffer_bytes [of "cbb_buf s1"] by (simp add: buffer_bytes_def CBB_cleanup_def)
qed

text \<open>
  What a writer leaves in a fresh builder is its encoding; with room the whole sequence
  succeeds.
\<close>

definition cbb_build :: "nat \<Rightarrow> ((nat \<Rightarrow> bool) \<Rightarrow> cbb_op) \<Rightarrow> (nat \<Rightarrow> bool) \<Rightarrow> bytes option" where
  "cbb_build capacity f alloc =
     (case CBB_init alloc capacity of
        (ok, s) \<Rightarrow>
          if \<not> ok then None
          else
            (case f alloc s of
               (ok, s') \<Rightarrow>
                 if \<not> ok then None
                 else (case CBB_finish alloc 0 True True s' of
                         (None, _) \<Rightarrow> None | (Some (b, n), _) \<Rightarrow> Some (take n b))))"

lemma cbb_build_writes:
  assumes w: "writes 0 f bs" and c: "c + 8 < 2 ^ 63"
  shows "alloc_ok alloc \<Longrightarrow> cbb_build c f alloc = Some out \<Longrightarrow> out = bs"
    and "length bs < 2 ^ 60 \<Longrightarrow> cbb_build c f alloc_total = Some bs"
proof -
  have c': "c + 8 < size_t_mod" using c by (simp add: size_t_mod_def)
  have part: "out = bs" if ok: "alloc_ok alloc" and b: "cbb_build c f alloc = Some out" for alloc out
  proof -
    obtain s where i: "CBB_init alloc c = (True, s)"
      using b by (auto simp: cbb_build_def split: prod.splits if_splits)
    note I = CBB_init_step [OF ok i c', of 0]
    obtain s1 where f: "f alloc s = (True, s1)"
      using b i by (auto simp: cbb_build_def split: prod.splits if_splits)
    have "wrote 0 bs s (f alloc s)" using w ok I by (simp add: writes_def)
    then have w1: "wrote 0 bs s (True, s1)" using f by simp
    note n = wrote_next [OF w1]
    obtain bf n s2 where fin: "CBB_finish alloc 0 True True s1 = (Some (bf, n), s2)" and "out = take n bf"
      using b i f by (auto simp: cbb_build_def split: prod.splits option.splits if_splits)
    then show ?thesis using CBB_finish_step [OF ok _ _ fin] n I by auto
  qed
  show "out = bs" if "alloc_ok alloc" and "cbb_build c f alloc = Some out" using part that .
  show "cbb_build c f alloc_total = Some bs" if len: "length bs < 2 ^ 60"
  proof -
    obtain s where i: "CBB_init alloc_total c = (True, s)"
      using CBB_init_total [OF c] by (metis prod.collapse)
    note I = CBB_init_step [OF alloc_total_ok i c', of 0]
    have room: "cbb_room 0 (length bs) s" using I len by (simp add: cbb_room_def)
    then have "fst (f alloc_total s)" using w by (simp add: writes_def)
    then obtain s1 where f: "f alloc_total s = (True, s1)" by (metis prod.collapse)
    have "wrote 0 bs s (f alloc_total s)" using w I by (simp add: writes_def)
    then have w1: "wrote 0 bs s (True, s1)" using f by simp
    have live: "cbb_live 0 s" using I by simp
    have "cbb_room 0 0 s1" using wrote_next(5) [OF w1 live, of 0] room by simp
    then have "fst (CBB_flush alloc_total 0 s1)" using writes_nothing [of 0] by (simp add: writes_def)
    then have "fst (CBB_finish alloc_total 0 True True s1) \<noteq> None"
      by (auto simp: CBB_finish_def split: prod.split)
    then obtain bf n s2 where fin: "CBB_finish alloc_total 0 True True s1 = (Some (bf, n), s2)"
      by (cases "CBB_finish alloc_total 0 True True s1") auto
    then have "cbb_build c f alloc_total = Some (take n bf)"
      using i f by (simp add: cbb_build_def)
    then obtain out where "cbb_build c f alloc_total = Some out" ..
    then show ?thesis using part [OF alloc_total_ok] by simp
  qed
qed

section \<open>The interface between builder and reader\<close>

locale cbb_writer =
  fixes put :: "(nat \<Rightarrow> bool) \<Rightarrow> nat \<Rightarrow> 'b \<Rightarrow> cbb_op" and enc :: "'b \<Rightarrow> bytes" and valid :: "'b \<Rightarrow> bool"
  assumes put_writes: "valid y \<Longrightarrow> writes d (\<lambda>alloc. put alloc d y) (enc y)"

text \<open>Several values, one after the other.\<close>

primrec put_all :: "((nat \<Rightarrow> bool) \<Rightarrow> nat \<Rightarrow> 'b \<Rightarrow> cbb_op) \<Rightarrow> nat \<Rightarrow> 'b list \<Rightarrow> (nat \<Rightarrow> bool) \<Rightarrow> cbb_op" where
  "put_all put d [] alloc = CBB_flush alloc d"
| "put_all put d (y # ys) alloc = cbb_then (put alloc d y) (put_all put d ys alloc)"

context cbb_writer begin

lemma put_all_writes:
  "\<forall>y \<in> set ys. valid y \<Longrightarrow> writes d (put_all put d ys) (concat (map enc ys))"
proof (induction ys)
  case Nil
  then show ?case using writes_nothing [of d] by (simp add: writes_def)
next
  case (Cons y ys)
  then have "writes d (\<lambda>alloc. cbb_then (put alloc d y) (put_all put d ys alloc))
      (enc y @ concat (map enc ys))"
    by (intro writes_then put_writes) simp_all
  then show ?case by (simp add: writes_def)
qed

text \<open>The same inside an ASN.1 element, such as a SEQUENCE.\<close>

lemma put_sequence_writes:
  assumes "\<forall>y \<in> set ys. valid y" and "length (concat (map enc ys)) \<le> 0xfffffffe"
  shows "writes d (\<lambda>alloc. cbb_then (CBB_add_asn1 alloc d t)
      (cbb_then (put_all put (Suc d) ys alloc) (CBB_flush alloc d)))
    (der_element t (concat (map enc ys)))"
  using writes_element [OF put_all_writes [OF assms(1)] assms(2)] .

end

text \<open>A writer and a getter of the same encoding.\<close>

locale round_trip = cbb_writer put enc valid + codec getter view enc valid
  for put :: "(nat \<Rightarrow> bool) \<Rightarrow> nat \<Rightarrow> 'b \<Rightarrow> cbb_op" and getter :: "'a getter" and view :: "'a \<Rightarrow> 'b"
    and enc :: "'b \<Rightarrow> bytes" and valid :: "'b \<Rightarrow> bool"
begin

lemma build_then_get_all:
  assumes "\<forall>y \<in> set ys. valid y" and "\<forall>y \<in> set ys. enc y \<noteq> []" and "c + 8 < 2 ^ 63" and "alloc_ok alloc"
    and "cbb_build c (put_all put 0 ys) alloc = Some out" and "length ys \<le> fuel"
  shows "\<exists>xs. get_all fuel getter (cbs_over out r) = Some (Some xs) \<and> map view xs = ys"
  using cbb_build_writes(1) [OF put_all_writes [OF assms(1)] assms(3-5)]
    get_all_concat [OF assms(1,2,6), of r] by simp

lemma build_total:
  assumes "\<forall>y \<in> set ys. valid y" and "c + 8 < 2 ^ 63" and "length (concat (map enc ys)) < 2 ^ 60"
  shows "cbb_build c (put_all put 0 ys) alloc_total = Some (concat (map enc ys))"
  using cbb_build_writes(2) [OF put_all_writes [OF assms(1)] assms(2,3)] .

end

interpretation uint64_trip: round_trip "\<lambda>alloc d n. CBB_add_asn1_uint64 alloc d (word_of_nat n)"
    CBS_get_asn1_uint64 unat "\<lambda>n. der_element CBS_ASN1_INTEGER (der_uint_body n)" "\<lambda>n. n < 2 ^ 64"
proof unfold_locales
  fix n d
  assume "n < (2::nat) ^ 64"
  then have "unat (word_of_nat n :: u64) = n" by (intro unat_word_of_nat_small) simp
  then show "writes d (\<lambda>alloc. CBB_add_asn1_uint64 alloc d (word_of_nat n))
      (der_element CBS_ASN1_INTEGER (der_uint_body n))"
    using writes_uint64 [of d "word_of_nat n"] by simp
qed

interpretation int64_trip: round_trip "\<lambda>alloc d v. CBB_add_asn1_int64 alloc d (word_of_int v)"
    CBS_get_asn1_int64 sint "\<lambda>v. der_element CBS_ASN1_INTEGER (der_int_body v)"
    "\<lambda>v. - (2 ^ 63) \<le> v \<and> v < 2 ^ 63"
proof unfold_locales
  fix v :: int and d
  assume v: "- (2 ^ 63) \<le> v \<and> v < 2 ^ 63"
  have "sint (word_of_int v :: u64) = v"
    using v by (simp add: signed_take_bit_int_eq_self sint_sbintrunc')
  then show "writes d (\<lambda>alloc. CBB_add_asn1_int64 alloc d (word_of_int v))
      (der_element CBS_ASN1_INTEGER (der_int_body v))"
    using writes_int64 [of d "word_of_int v"] by simp
qed

interpretation bool_trip: round_trip "\<lambda>alloc d b. CBB_add_asn1_bool alloc d (if b then 1 else 0)"
    CBS_get_asn1_bool id "\<lambda>b. der_element CBS_ASN1_BOOLEAN (der_bool_body b)" "\<lambda>_. True"
proof unfold_locales
  fix b d
  show "writes d (\<lambda>alloc. CBB_add_asn1_bool alloc d (if b then 1 else 0))
      (der_element CBS_ASN1_BOOLEAN (der_bool_body b))"
    using writes_bool [of d "if b then 1 else 0"] by (cases b) simp_all
qed

interpretation octet_string_trip: round_trip
    "\<lambda>alloc d bs. CBB_add_asn1_octet_string alloc d bs (length bs)"
    "CBS_get_asn1 CBS_ASN1_OCTETSTRING" cbs_bytes "der_element CBS_ASN1_OCTETSTRING"
    "\<lambda>bs. length bs \<le> 0xfffffffe"
proof unfold_locales
  fix bs :: bytes and d
  assume "length bs \<le> 0xfffffffe"
  then show "writes d (\<lambda>alloc. CBB_add_asn1_octet_string alloc d bs (length bs))
      (der_element CBS_ASN1_OCTETSTRING bs)"
    using writes_octet_string [of "length bs" bs d] by simp
next
  fix y :: bytes and bs r
  assume "length y \<le> 0xfffffffe"
  then show "\<exists>x. CBS_get_asn1 CBS_ASN1_OCTETSTRING (cbs_over (der_element CBS_ASN1_OCTETSTRING y @ bs) r) =
      (Some x, cbs_over bs r) \<and> cbs_bytes x = y"
    using asn1_codec.decodes [of y CBS_ASN1_OCTETSTRING bs r] by simp
qed

interpretation u16_trip: round_trip CBB_add_u16 CBS_get_u16 id "be_bytes 2"
    "\<lambda>w. unat w < 256 ^ 2"
  by unfold_locales (rule writes_u16)

interpretation u24_trip: round_trip CBB_add_u24 CBS_get_u24 id "be_bytes 3" "\<lambda>w. unat w < 256 ^ 3"
  by unfold_locales (rule writes_u24, simp)

interpretation u32_trip: round_trip CBB_add_u32 CBS_get_u32 id "be_bytes 4"
    "\<lambda>w. unat w < 256 ^ 4"
  by unfold_locales (rule writes_u32)

interpretation u64_trip: round_trip CBB_add_u64 CBS_get_u64 id "be_bytes 8"
    "\<lambda>w. unat w < 256 ^ 8"
  by unfold_locales (rule writes_u64)

text \<open>A length-prefixed byte string, as the callers write it: open, fill, flush.\<close>

definition put_prefixed :: "nat \<Rightarrow> (nat \<Rightarrow> bool) \<Rightarrow> nat \<Rightarrow> bytes \<Rightarrow> cbb_op" where
  "put_prefixed k alloc d bs =
     cbb_then (cbb_add_length_prefixed alloc k d)
       (cbb_then (CBB_add_bytes alloc (Suc d) bs (length bs)) (CBB_flush alloc d))"

lemma writes_put_prefixed:
  assumes "0 < k" and "k \<le> 3" and "length bs < 256 ^ k"
  shows "writes d (\<lambda>alloc. put_prefixed k alloc d bs) (length_prefixed k bs)"
proof -
  have "(256::nat) ^ k \<le> 256 ^ 3" by (rule power_increasing) (use assms in auto)
  then have "length bs < 2 ^ 63" using assms(3) by simp
  then show ?thesis
    using writes_length_prefixed [OF writes_bytes [of "length bs" bs] assms(1,2)] assms(3)
    by (simp add: put_prefixed_def)
qed

interpretation u8_prefixed_trip: round_trip "put_prefixed 1" CBS_get_u8_length_prefixed cbs_bytes
    "length_prefixed 1" "\<lambda>bs. length bs < 256 ^ 1"
  by unfold_locales (rule writes_put_prefixed, simp_all)

interpretation u16_prefixed_trip: round_trip "put_prefixed 2" CBS_get_u16_length_prefixed cbs_bytes
    "length_prefixed 2" "\<lambda>bs. length bs < 256 ^ 2"
  by unfold_locales (rule writes_put_prefixed, simp_all)

interpretation u24_prefixed_trip: round_trip "put_prefixed 3" CBS_get_u24_length_prefixed cbs_bytes
    "length_prefixed 3" "\<lambda>bs. length bs < 256 ^ 3"
  by unfold_locales (rule writes_put_prefixed, simp_all)

text \<open>The little-endian forms.\<close>

lemma writes_u16le: "writes d (\<lambda>alloc. CBB_add_u16le alloc d v) (le_bytes 2 v)"
  using writes_u16 [of d "CRYPTO_bswap2 v"] by (simp add: CBB_add_u16le_def be_bytes_bswap2)

lemma writes_u32le: "writes d (\<lambda>alloc. CBB_add_u32le alloc d v) (le_bytes 4 v)"
  using writes_u32 [of d "CRYPTO_bswap4 v"] by (simp add: CBB_add_u32le_def be_bytes_bswap4)

lemma writes_u64le: "writes d (\<lambda>alloc. CBB_add_u64le alloc d v) (le_bytes 8 v)"
  using writes_u64 [of d "CRYPTO_bswap8 v"] by (simp add: CBB_add_u64le_def be_bytes_bswap8)

interpretation u16le_trip: round_trip CBB_add_u16le CBS_get_u16le id "le_bytes 2"
    "\<lambda>w. unat (CRYPTO_bswap2 w) < 256 ^ 2"
  by unfold_locales (rule writes_u16le)

interpretation u32le_trip: round_trip CBB_add_u32le CBS_get_u32le id "le_bytes 4"
    "\<lambda>w. unat (CRYPTO_bswap4 w) < 256 ^ 4"
  by unfold_locales (rule writes_u32le)

interpretation u64le_trip: round_trip CBB_add_u64le CBS_get_u64le id "le_bytes 8"
    "\<lambda>w. unat (CRYPTO_bswap8 w) < 256 ^ 8"
  by unfold_locales (rule writes_u64le)

end
