(* ===== verification/Qsort.thy ===== *)
theory Qsort
  imports Main "HOL-Library.Multiset"
begin

text \<open>
  \<open>qsort\<close> of the C library, which the stacks of crypto/stack/stack.c and the SET OF of
  crypto/bytestring/cbb.c call, with what they rely on: the result is a permutation of the
  array in ascending order of the comparison.
\<close>

section \<open>The function\<close>

text \<open>
  \<open>qsort\<close> of the C library, for a comparison that is an order: it sorts the array.  The C
  standard leaves the order of equal elements open; in the model they keep theirs.
\<close>

fun qsort_insert :: "('a \<Rightarrow> 'a \<Rightarrow> int) \<Rightarrow> 'a \<Rightarrow> 'a list \<Rightarrow> 'a list" where
  "qsort_insert cmp x [] = [x]"
| "qsort_insert cmp x (y # ys) = (if cmp x y \<le> 0 then x # y # ys else y # qsort_insert cmp x ys)"

definition qsort :: "('a \<Rightarrow> 'a \<Rightarrow> int) \<Rightarrow> 'a list \<Rightarrow> 'a list" where
  "qsort cmp xs = foldr (qsort_insert cmp) xs []"

text \<open>A comparison is an order: the two directions agree in sign, and it is transitive.\<close>

definition comparison :: "('a \<Rightarrow> 'a \<Rightarrow> int) \<Rightarrow> bool" where
  "comparison r \<longleftrightarrow> (\<forall>x y. 0 < r x y \<longleftrightarrow> r y x < 0) \<and> (\<forall>x y z. r x y \<le> 0 \<longrightarrow> r y z \<le> 0 \<longrightarrow> r x z \<le> 0)"

definition ascending :: "('a \<Rightarrow> 'a \<Rightarrow> int) \<Rightarrow> 'a list \<Rightarrow> bool" where
  "ascending r xs \<longleftrightarrow> sorted_wrt (\<lambda>x y. r x y \<le> 0) xs"

lemma comparison_sign: "comparison r \<Longrightarrow> r x y \<le> 0 \<longleftrightarrow> 0 \<le> r y x"
  by (metis comparison_def not_less)

section \<open>Sorting\<close>

lemma qsort_insert_mset: "mset (qsort_insert c x xs) = add_mset x (mset xs)"
  by (induction xs) auto

lemma qsort_mset: "mset (qsort c xs) = mset xs"
  unfolding qsort_def by (induction xs) (simp_all add: qsort_insert_mset)

lemma qsort_length [simp]: "length (qsort c xs) = length xs"
  by (metis qsort_mset size_mset)

lemma qsort_insert_ascending: "comparison c \<Longrightarrow> ascending c xs \<Longrightarrow> ascending c (qsort_insert c x xs)"
proof (induction xs)
  case (Cons y ys)
  show ?case
  proof (cases "c x y \<le> 0")
    case True
    then show ?thesis using Cons.prems unfolding comparison_def by (auto simp: ascending_def)
  next
    case False
    then have "c y x \<le> 0" using comparison_sign [OF Cons.prems(1), of y x] by simp
    moreover have "set (qsort_insert c x ys) = insert x (set ys)"
      using qsort_insert_mset [of c x ys] by (metis set_mset_add_mset_insert set_mset_mset)
    ultimately show ?thesis using Cons False by (auto simp: ascending_def)
  qed
qed (simp add: ascending_def)

lemma qsort_ascending: "comparison c \<Longrightarrow> ascending c (qsort c xs)"
  unfolding qsort_def by (induction xs) (simp_all add: qsort_insert_ascending, simp add: ascending_def)

lemma qsort_set: "set (qsort c xs) = set xs"
  by (metis qsort_mset set_mset_mset)

text \<open>Where the comparison is that of a key, sorting the elements sorts their keys.\<close>

lemma qsort_key:
  assumes "\<And>x y. x \<in> set xs \<Longrightarrow> y \<in> set xs \<Longrightarrow> c x y \<le> 0 \<longleftrightarrow> key x \<le> (key y :: 'k::linorder)"
  shows "map key (qsort c xs) = sort (map key xs)"
  using assms
proof (induction xs)
  case (Cons x xs)
  have ins: "map key (qsort_insert c x ys) = insort (key x) (map key ys)"
    if "\<And>y. y \<in> set ys \<Longrightarrow> c x y \<le> 0 \<longleftrightarrow> key x \<le> key y" for ys
    using that by (induction ys) auto
  have "qsort c (x # xs) = qsort_insert c x (qsort c xs)" by (simp add: qsort_def)
  moreover have "map key (qsort_insert c x (qsort c xs)) = insort (key x) (map key (qsort c xs))"
    using Cons.prems by (intro ins) (simp add: qsort_set)
  moreover have "map key (qsort c xs) = sort (map key xs)" using Cons by simp
  ultimately show ?case by simp
qed (simp add: qsort_def)

end
