(* ===== verification/Set_of.thy ===== *)
theory Set_of
  imports Asn1_write Qsort "HOL-Library.List_Lexorder"
begin

text \<open>
  \<open>CBB_flush_asn1_set_of\<close> of crypto/bytestring/cbb.c: flushing a SET OF, whose elements DER
  wants in ascending order of their encodings.  The contents are parsed twice, copied, the
  elements sorted with \<open>qsort\<close>, and written back over the contents.
\<close>

section \<open>Operations\<close>

text \<open>
  \<open>memcmp\<close> of the C library compares bytes as \<open>unsigned char\<close>; the standard fixes the sign
  of its result.
\<close>

fun memcmp :: "bytes \<Rightarrow> bytes \<Rightarrow> nat \<Rightarrow> int" where
  "memcmp s1 s2 0 = 0"
| "memcmp s1 s2 (Suc n) =
     (if s1 ! 0 \<noteq> s2 ! 0 then uint (s1 ! 0) - uint (s2 ! 0) else memcmp (drop 1 s1) (drop 1 s2) n)"

definition OPENSSL_memcmp :: "bytes \<Rightarrow> bytes \<Rightarrow> nat \<Rightarrow> int" where
  "OPENSSL_memcmp s1 s2 n = (if n = 0 then 0 else memcmp s1 s2 n)"

definition sizeof_CBS :: nat where
  "sizeof_CBS = 16"

definition compare_set_of_element :: "cbs \<Rightarrow> cbs \<Rightarrow> int" where
  "compare_set_of_element a b =
     (let a_len = CBS_len a; b_len = CBS_len b;
          min_len = (if a_len < b_len then a_len else b_len);
          ret = OPENSSL_memcmp (CBS_data a) (CBS_data b) min_len
      in if ret \<noteq> 0 then ret else if a_len = b_len then 0 else if a_len < b_len then -1 else 1)"

text \<open>The loop that counts the elements; \<open>None\<close> where one does not parse.\<close>

function count_children :: "nat \<Rightarrow> cbs \<Rightarrow> nat option" where
  "count_children num_children c =
     (if CBS_len c \<noteq> 0
      then (case CBS_get_any_asn1_element c of
              (None, _) \<Rightarrow> None
            | (Some _, c') \<Rightarrow> count_children (num_children + 1) c')
      else Some num_children)"
  by pat_completeness auto
termination
  by (relation "measure (\<lambda>(_, c). cbs_len c)")
    (auto simp: CBS_get_any_asn1_element_def dest: any_element_progress [OF sym])

declare count_children.simps [simp del]

fun parse_children :: "nat \<Rightarrow> cbs \<Rightarrow> cbs list option" where
  "parse_children 0 c = Some []"
| "parse_children (Suc n) c =
     (case CBS_get_any_asn1_element c of
        (None, _) \<Rightarrow> None
      | (Some (child, _, _), c') \<Rightarrow> map_option ((#) child) (parse_children n c'))"

fun add_children :: "(nat \<Rightarrow> bool) \<Rightarrow> nat \<Rightarrow> cbs list \<Rightarrow> cbb_op" where
  "add_children alloc d [] s = (True, s)"
| "add_children alloc d (c # cs) s =
     cbb_then (CBB_add_bytes alloc d (CBS_data c) (CBS_len c)) (add_children alloc d cs) s"

definition CBB_flush_asn1_set_of :: "(nat \<Rightarrow> bool) \<Rightarrow> nat \<Rightarrow> cbb_op" where
  "CBB_flush_asn1_set_of alloc d s =
     (case CBB_flush alloc d s of
        (ok, s1) \<Rightarrow>
          if \<not> ok then (False, s1)
          else
            (case count_children 0 (CBS_init (CBB_data d s1) (CBB_len d s1)) of
               None \<Rightarrow> (False, s1)
             | Some num_children \<Rightarrow>
                 if num_children < 2 then (True, s1)
                 else if num_children > (size_t_mod - 1) div sizeof_CBS then (False, s1)
                 else
                   (let buf_len = CBB_len d s1 in
                    case (OPENSSL_memdup alloc (CBB_data d s1) buf_len,
                          OPENSSL_malloc alloc (num_children * sizeof_CBS)) of
                      (Some copy, Some _) \<Rightarrow>
                        (case parse_children num_children (CBS_init copy buf_len) of
                           None \<Rightarrow> (False, s1)
                         | Some children \<Rightarrow>
                             (let f = cbb_frame_of d s1;
                                  rewound = s1\<lparr>cbb_base := Some ((cbb_buf s1)
                                    \<lparr>blen := (offset f + pending_len_len f) mod size_t_mod\<rparr>)\<rparr>
                              in add_children alloc d (qsort compare_set_of_element children) rewound))
                    | _ \<Rightarrow> (False, s1))))"

section \<open>The order of a SET OF\<close>

lemma memcmp_sign:
  assumes "length xs = length ys" and "n = length xs"
  shows "memcmp (xs @ r) (ys @ r') n < 0 \<longleftrightarrow> xs < ys" "memcmp (xs @ r) (ys @ r') n = 0 \<longleftrightarrow> xs = ys"
proof -
  have "(memcmp (xs @ r) (ys @ r') n < 0 \<longleftrightarrow> xs < ys) \<and> (memcmp (xs @ r) (ys @ r') n = 0 \<longleftrightarrow> xs = ys)"
    using assms
  proof (induction xs ys arbitrary: n rule: list_induct2)
    case (Cons x xs y ys)
    then show ?case by (simp add: word_less_def word_uint_eq_iff)
  qed simp
  then show "memcmp (xs @ r) (ys @ r') n < 0 \<longleftrightarrow> xs < ys" "memcmp (xs @ r) (ys @ r') n = 0 \<longleftrightarrow> xs = ys"
    by simp_all
qed

lemma compare_append:
  assumes "length (xs :: 'a::linorder list) = length ys" 
  shows "xs @ us < ys @ vs \<longleftrightarrow> xs < ys \<or> (xs = ys \<and> us < vs)"
  using assms by (induction xs ys rule: list_induct2) auto

text \<open>The comparison is the lexicographic order of the elements' bytes.\<close>

lemma compare_set_of_element_le:
  "compare_set_of_element (cbs_over xs r) (cbs_over ys r') \<le> 0 \<longleftrightarrow> xs \<le> ys"
proof -
  define m where "m = min (length xs) (length ys)"
  let ?c = "memcmp (xs @ r) (ys @ r') m"
  have eq: "memcmp (take m xs @ drop m xs @ r) (take m ys @ drop m ys @ r') m = ?c"
    by (metis append.assoc append_take_drop_id)
  have lt: "?c < 0 \<longleftrightarrow> take m xs < take m ys" and z: "?c = 0 \<longleftrightarrow> take m xs = take m ys"
    using memcmp_sign [of "take m xs" "take m ys" m "drop m xs @ r" "drop m ys @ r'"]
    unfolding eq by (simp_all add: m_def)
  have ret: "OPENSSL_memcmp (CBS_data (cbs_over xs r)) (CBS_data (cbs_over ys r')) m = ?c"
    by (simp add: OPENSSL_memcmp_def CBS_data_def)
  have min_len: "(if length xs < length ys then length xs else length ys) = m" by (simp add: m_def)
  have "take m xs @ drop m xs < take m ys @ drop m ys \<longleftrightarrow>
      take m xs < take m ys \<or> (take m xs = take m ys \<and> drop m xs < drop m ys)"
    by (rule compare_append) (simp add: m_def)
  then have less: "xs < ys \<longleftrightarrow> ?c < 0 \<or> (?c = 0 \<and> drop m xs < drop m ys)" by (simp add: lt z)
  have eqs: "xs = ys \<longleftrightarrow> ?c = 0 \<and> drop m xs = drop m ys" using z by (metis append_take_drop_id)
  have tails: "(drop m xs < drop m ys \<longleftrightarrow> length xs < length ys) \<and> (drop m xs = drop m ys \<longleftrightarrow> length xs = length ys)"
  proof (cases "length xs \<le> length ys")
    case True
    then have "drop m xs = []" by (simp add: m_def)
    moreover have "[] < drop m ys \<longleftrightarrow> drop m ys \<noteq> []" by (cases "drop m ys") simp_all
    moreover have "drop m ys = [] \<longleftrightarrow> \<not> length xs < length ys" using True by (simp add: m_def not_less)
    ultimately show ?thesis using True by (simp add: le_less eq_commute [of "[]"]) linarith
  next
    case False
    then have "drop m ys = []" "drop m xs \<noteq> []" by (simp_all add: m_def)
    then show ?thesis using False by simp
  qed
  show ?thesis
  proof (cases "?c = 0")
    case True
    then have "xs \<le> ys \<longleftrightarrow> length xs \<le> length ys" using less eqs tails by (simp only: le_less) simp
    then show ?thesis unfolding compare_set_of_element_def CBS_len_over Let_def min_len ret using True by simp
  next
    case False
    then have "xs \<le> ys \<longleftrightarrow> ?c < 0" using less eqs by (simp only: le_less) simp
    then show ?thesis
      unfolding compare_set_of_element_def CBS_len_over Let_def min_len ret using False
      by (simp add: le_less)
  qed
qed

section \<open>Parsing the children\<close>

text \<open>The elements of a SET OF: canonical DER elements.\<close>

definition der_elements :: "bytes list \<Rightarrow> bool" where
  "der_elements es \<longleftrightarrow> (\<forall>e \<in> set es. \<exists>t body. length body < 2 ^ 32 \<and> e = der_element t body)"

lemma element_decodes:
  assumes "length body < 2 ^ 32"
  shows "\<exists>t' n. CBS_get_any_asn1_element (cbs_over (der_element t body @ bs) r) =
    (Some (cbs_over (der_element t body) (bs @ r), t', n), cbs_over bs r)"
  using any_element_decodes [OF assms, of False t bs r] by (simp add: CBS_get_any_asn1_element_def)

lemma count_children_elements:
  "der_elements es \<Longrightarrow> count_children k (cbs_over (concat es) r) = Some (k + length es)"
proof (induction es arbitrary: k)
  case (Cons e es)
  then obtain t body where e: "length body < 2 ^ 32" "e = der_element t body" by (auto simp: der_elements_def)
  then have "concat (e # es) \<noteq> []" by simp
  then show ?case
    using Cons element_decodes [OF e(1), of t "concat es" r] e(2)
    by (subst count_children.simps) (auto simp: der_elements_def)
qed (simp add: count_children.simps)

lemma count_children_sound:
  "count_children k (cbs_over bs r) = Some n \<Longrightarrow>
   \<exists>es. der_elements es \<and> bs = concat es \<and> n = k + length es"
proof (induction "length bs" arbitrary: bs k rule: less_induct)
  case less
  show ?case
  proof (cases "bs = []")
    case True
    then show ?thesis using less.prems
      by (intro exI [of _ "[]"]) (simp add: count_children.simps der_elements_def)
  next
    case False
    with less.prems obtain x c' where g: "CBS_get_any_asn1_element (cbs_over bs r) = (Some x, c')"
      and c: "count_children (k + 1) c' = Some n"
      by (subst (asm) count_children.simps) (auto split: prod.splits option.splits)
    obtain out t hl where x: "x = (out, t, hl)" by (cases x)
    then obtain body rest where b: "length body < 2 ^ 32" "bs = der_element t body @ rest"
      using g any_element_sound unfolding CBS_get_any_asn1_element_def by blast
    with g have "c' = cbs_over rest r" by (simp add: x CBS_get_any_asn1_element_def any_element_decodes)
    note b = b this
    have "length rest < length bs" using b(2) by (cases "der_element t body") auto
    from less.hyps [OF this, of "k + 1"] obtain es
      where "der_elements es" "rest = concat es" "n = k + 1 + length es" using c b(3) by blast
    then show ?thesis
      using b by (intro exI [of _ "der_element t body # es"]) (auto simp: der_elements_def)
  qed
qed

lemma parse_children_elements:
  "der_elements es \<Longrightarrow>
   \<exists>cs. parse_children (length es) (cbs_over (concat es) r) = Some cs \<and> map cbs_bytes cs = es \<and>
     (\<forall>c \<in> set cs. cbs_ok c)"
proof (induction es)
  case (Cons e es)
  then obtain t body where e: "length body < 2 ^ 32" "e = der_element t body" by (auto simp: der_elements_def)
  obtain cs where "parse_children (length es) (cbs_over (concat es) r) = Some cs" "map cbs_bytes cs = es"
    "\<forall>c \<in> set cs. cbs_ok c"
    using Cons by (auto simp: der_elements_def)
  then show ?case
    using element_decodes [OF e(1), of t "concat es" r] e(2)
    by (intro exI [of _ "cbs_over e (concat es @ r) # cs"]) auto
qed simp

text \<open>The sorted children hold the elements in lexicographic order.\<close>

lemma qsort_children:
  assumes "map cbs_bytes cs = es" and over: "\<forall>c \<in> set cs. cbs_ok c"
  shows "map cbs_bytes (qsort compare_set_of_element cs) = sort es"
proof -
  have "compare_set_of_element a b \<le> 0 \<longleftrightarrow> cbs_bytes a \<le> cbs_bytes b" if ab: "a \<in> set cs" "b \<in> set cs" for a b
  proof -
    obtain r r' where "a = cbs_over (cbs_bytes a) r" "b = cbs_over (cbs_bytes b) r'" using over ab cbs_ok_iff by blast
    then show ?thesis using compare_set_of_element_le by metis
  qed
  then show ?thesis using qsort_key [of cs compare_set_of_element cbs_bytes] assms(1) by simp
qed

lemma writes_add_children:
  assumes "\<forall>c \<in> set cs. cbs_ok c \<and> length (cbs_bytes c) < 2 ^ 63"
  shows "appends d (\<lambda>alloc. add_children alloc d cs) (concat (map cbs_bytes cs))"
  using assms
proof (induction cs)
  case Nil
  have "add_children alloc d [] = Pair True" for alloc by (rule ext) simp
  then show ?case by (simp add: appends_nothing)
next
  case (Cons c cs)
  have eq: "add_children alloc d (c # cs) =
      cbb_then (CBB_add_bytes alloc d (CBS_data c) (CBS_len c)) (add_children alloc d cs)" for alloc
    by (rule ext) simp
  have "CBS_len c \<le> length (CBS_data c)" using Cons.prems by (simp add: cbs_ok_def CBS_len_def CBS_data_def)
  moreover have "CBS_len c < 2 ^ 63" using Cons.prems by (auto simp: cbs_ok_def CBS_len_def cbs_bytes_def min_def split: if_splits)
  ultimately have "appends d (\<lambda>alloc. CBB_add_bytes alloc d (CBS_data c) (CBS_len c)) (cbs_bytes c)"
    using writes_appends [OF writes_bytes] by (simp add: CBS_len_def CBS_data_def cbs_bytes_def)
  from appends_then [OF this] show ?case using Cons by (simp add: eq)
qed

section \<open>Rewinding\<close>

text \<open>Where the contents of the \<open>CBB\<close> at depth \<open>d\<close> start in the buffer.\<close>

definition contents_start :: "nat \<Rightarrow> cbb \<Rightarrow> nat" where
  "contents_start d s = offset (cbb_frame_of d s) + pending_len_len (cbb_frame_of d s)"

lemma contents_start_last:
  assumes "length (cbb_children s) = d"
  shows "contents_start d s = (if cbb_children s = [] then 0
    else offset (last (cbb_children s)) + pending_len_len (last (cbb_children s)))"
  using assms by (auto simp: contents_start_def cbb_frame_of_def last_conv_nth)

lemma contents_view:
  assumes "cbb_base s = Some b" and "buffer_ok b" and "contents_start d s \<le> blen b"
  shows "\<exists>r. CBB_data d s = drop (contents_start d s) (cbb_written s) @ r \<and>
    CBB_len d s = length (drop (contents_start d s) (cbb_written s))"
proof -
  have "buf b = buffer_bytes b @ drop (blen b) (buf b)" by (simp add: buffer_bytes_def)
  then have "drop (contents_start d s) (buf b) =
      drop (contents_start d s) (buffer_bytes b) @ drop (blen b) (buf b)"
    using assms by (metis drop_append drop0 diff_is_0_eq length_buffer_bytes)
  then show ?thesis
    using assms by (intro exI [of _ "drop (blen b) (buf b)"])
      (simp add: CBB_data_def CBB_len_def Let_def contents_start_def cbb_written_def)
qed

definition rewound :: "nat \<Rightarrow> cbb \<Rightarrow> cbb" where
  "rewound d s = s\<lparr>cbb_base := Some ((cbb_buf s)\<lparr>blen := contents_start d s mod size_t_mod\<rparr>)\<rparr>"

lemma rewound_ok:
  assumes wf: "cbb_wf s" and base: "cbb_base s = Some b" and d: "length (cbb_children s) = d"
  shows "contents_start d s \<le> blen b" "cbb_wf (rewound d s)" "cbb_live d (rewound d s)"
    "cbb_written (rewound d s) = take (contents_start d s) (cbb_written s)"
    "cbb_children (rewound d s) = cbb_children s" "error (cbb_buf (rewound d s)) = error b"
    "buffer_step b (cbb_buf (rewound d s))"
    "cbb_base (rewound d s) = Some (b\<lparr>blen := contents_start d s\<rparr>)"
proof -
  have ok: "buffer_ok b" and c: "chain_ok 0 (cbb_children s) (blen b)" using wf base by (simp_all add: cbb_wf_def)
  show le: "contents_start d s \<le> blen b"
    using chain_ok_last [OF c] by (simp add: contents_start_last [OF d])
  then have m: "contents_start d s mod size_t_mod = contents_start d s"
    using ok by (intro mod_less) (simp add: buffer_ok_def size_t_mod_def)
  show base': "cbb_base (rewound d s) = Some (b\<lparr>blen := contents_start d s\<rparr>)"
    by (simp add: rewound_def base m)
  have ok': "buffer_ok (b\<lparr>blen := contents_start d s\<rparr>)" using ok le by (simp add: buffer_ok_def)
  have "chain_ok 0 (cbb_children s) (contents_start d s)"
    using chain_ok_shrink [OF c] by (cases "cbb_children s = []") (simp_all add: contents_start_last [OF d])
  then show "cbb_wf (rewound d s)" using ok' base' by (simp add: cbb_wf_def rewound_def)
  show "cbb_live d (rewound d s)" using d base' by (simp add: cbb_live_def) (simp add: rewound_def)
  show "cbb_written (rewound d s) = take (contents_start d s) (cbb_written s)"
    using base' base le by (simp add: cbb_written_def buffer_bytes_def min_absorb1)
  show "cbb_children (rewound d s) = cbb_children s" by (simp add: rewound_def)
  show "error (cbb_buf (rewound d s)) = error b" using base' by simp
  show "buffer_step b (cbb_buf (rewound d s))" using base' ok' by (simp add: buffer_step_def)
qed

text \<open>Writing the children back into the room they had cannot fail.\<close>

lemma flush_flat:
  assumes "cbb_base s = Some b" and "length (cbb_children s) = d" and "\<not> error b"
  shows "CBB_flush alloc d s = (True, s)"
  using assms by (simp add: CBB_flush_def)

lemma add_children_fits:
  assumes "cbb_base s = Some b" and "buffer_ok b" and "length (cbb_children s) = d" and "\<not> error b"
    and "\<forall>c \<in> set cs. cbs_ok c" and "blen b + length (concat (map cbs_bytes cs)) \<le> cap b"
  shows "fst (add_children alloc d cs s)"
  using assms
proof (induction cs arbitrary: s b)
  case (Cons c cs)
  let ?n = "CBS_len c"
  have n: "?n = length (cbs_bytes c)" using Cons.prems(5) by (simp add: cbs_ok_def CBS_len_def cbs_bytes_def)
  have fit: "blen b + ?n \<le> cap b" using Cons.prems(6) n by simp
  have small: "blen b + ?n < size_t_mod" using fit Cons.prems(2) by (simp add: buffer_ok_def size_t_mod_def)
  define b' where "b' = b\<lparr>blen := blen b + ?n, buf := take (blen b) (buf b) @ take ?n (CBS_data c) @ drop (blen b + ?n) (buf b)\<rparr>"
  have "CBB_add_bytes alloc d (CBS_data c) ?n s = (True, s\<lparr>cbb_base := Some b'\<rparr>)"
    using fit small Cons.prems(1,3,4)
    by (simp add: CBB_add_bytes_def cbb_then_def flush_flat on_buffer_def cbb_buffer_add_def
        cbb_buffer_reserve_def Let_def b'_def)
  moreover have "fst (add_children alloc d cs (s\<lparr>cbb_base := Some b'\<rparr>))"
  proof (rule Cons.IH [of _ b'])
    have "length (take ?n (CBS_data c)) = ?n"
      using Cons.prems(5) by (simp add: cbs_ok_def CBS_len_def CBS_data_def)
    then have "length (buf b') = length (buf b)" using fit Cons.prems(2) by (simp add: b'_def buffer_ok_def)
    then show "buffer_ok b'" using fit Cons.prems(2) by (simp add: b'_def buffer_ok_def)
  qed (use Cons.prems n in \<open>simp_all add: b'_def\<close>)
  ultimately show ?case by (simp add: cbb_then_def)
qed simp

section \<open>Flushing a SET OF\<close>

lemma flushed:
  assumes "alloc_ok alloc" and "cbb_wf s" and "cbb_live d s" and "CBB_flush alloc d s = (True, s1)"
  shows "cbb_step s s1" "cbb_wf s1" "\<not> error (cbb_buf s1)" "length (cbb_children s1) = d"
    "cbb_children s1 = take d (cbb_children s)" "cbb_written s1 = sealed d s"
    "\<exists>b. cbb_base s1 = Some b \<and> buffer_ok b"
proof -
  have "wrote d [] s (True, s1)" using writes_nothing [of d] assms by (metis writes_def)
  then show "cbb_step s s1" "cbb_wf s1" "\<not> error (cbb_buf s1)" "length (cbb_children s1) = d"
    "cbb_children s1 = take d (cbb_children s)" "cbb_written s1 = sealed d s"
    "\<exists>b. cbb_base s1 = Some b \<and> buffer_ok b"
    using assms(3) by (auto simp: wrote_def cbb_step_def cbb_live_def cbb_wf_def)
qed

definition set_of_allocs :: "(nat \<Rightarrow> bool) \<Rightarrow> bytes list \<Rightarrow> bool" where
  "set_of_allocs alloc es \<longleftrightarrow>
     2 \<le> length es \<longrightarrow> alloc (length (concat es) + 8) \<and> alloc (16 * length es + 8)"

lemma memdup_over:
  assumes "xs \<noteq> []" and "length xs + 8 < size_t_mod"
  shows "OPENSSL_memdup alloc (xs @ r) (length xs) = (if alloc (length xs + 8) then Some xs else None)"
proof (cases "OPENSSL_memdup alloc (xs @ r) (length xs)")
  case None
  then show ?thesis using assms OPENSSL_malloc_None_iff [OF assms(2), of alloc]
    by (auto simp: OPENSSL_memdup_def split: option.splits)
next
  case (Some p)
  then have "p = xs" using OPENSSL_memdup_bytes [OF Some] assms(2) by simp
  moreover have "alloc (length xs + 8)"
    using Some assms OPENSSL_malloc_None_iff [OF assms(2), of alloc]
    by (auto simp: OPENSSL_memdup_def split: option.splits if_splits)
  ultimately show ?thesis using Some by simp
qed

lemma elements_long: "der_elements es \<Longrightarrow> length es \<le> length (concat es)"
proof (induction es)
  case (Cons e es)
  then have "e \<noteq> []" by (auto simp: der_elements_def)
  then have "1 \<le> length e" by (cases e) simp_all
  then show ?case using Cons by (simp add: der_elements_def)
qed simp

lemma concat_sort_length: "length (concat (sort es)) = length (concat (es :: bytes list))"
proof -
  have "sum_list (map length (sort es)) = sum_list (map length es)"
    by (metis mset_map mset_sort sum_mset_sum_list)
  then show ?thesis by (simp add: length_concat)
qed

text \<open>
  Past the first flush, where the contents are the elements \<open>es\<close>: what is left of the
  operation once its parsing and allocating are evaluated.
\<close>

lemma set_of_evaluates:
  assumes alloc: "alloc_ok alloc" and wf: "cbb_wf s" and base: "cbb_base s = Some b"
    and d: "length (cbb_children s) = d" and ne: "\<not> error b"
    and es: "der_elements es" "drop (contents_start d s) (cbb_written s) = concat es"
  shows "\<exists>cs. map cbs_bytes cs = es \<and> (\<forall>c \<in> set cs. cbs_ok c) \<and>
    CBB_flush_asn1_set_of alloc d s =
      (if length es < 2 then (True, s)
       else if set_of_allocs alloc es then add_children alloc d (qsort compare_set_of_element cs) (rewound d s)
       else (False, s))"
proof -
  have ok: "buffer_ok b" using wf base by (simp add: cbb_wf_def)
  obtain r where view: "CBB_data d s = concat es @ r" "CBB_len d s = length (concat es)"
    using contents_view [OF base ok rewound_ok(1) [OF wf base d]] es(2) by auto
  have init: "CBS_init (CBB_data d s) (CBB_len d s) = cbs_over (concat es) r"
    by (simp add: view CBS_init_def cbs_over_def)
  have n: "count_children 0 (cbs_over (concat es) r) = Some (length es)"
    by (simp add: count_children_elements es(1))
  obtain cs where cs: "parse_children (length es) (cbs_over (concat es) []) = Some cs" "map cbs_bytes cs = es"
    "\<forall>c \<in> set cs. cbs_ok c"
    using parse_children_elements [OF es(1)] by blast
  have copy: "CBS_init (concat es) (CBB_len d s) = cbs_over (concat es) []"
    by (simp add: view CBS_init_def cbs_over_def)
  have "length (drop (contents_start d s) (cbb_written s)) \<le> blen b"
    using ok base by (simp add: cbb_written_def)
  then have len: "length (concat es) + 8 < 2 ^ 63" using ok es(2) by (simp add: buffer_ok_def)
  have dup: "OPENSSL_memdup alloc (CBB_data d s) (CBB_len d s) =
      (if alloc (length (concat es) + 8) then Some (concat es) else None)" if "2 \<le> length es"
  proof -
    have "concat es \<noteq> []" using elements_long [OF es(1)] that by (metis le_zero_eq list.size(3) not_numeral_le_zero order_trans)
    moreover have "length (concat es) + 8 < size_t_mod" using len by (simp add: size_t_mod_def)
    ultimately show ?thesis unfolding view by (rule memdup_over)
  qed
  have "CBB_flush_asn1_set_of alloc d s =
      (if length es < 2 then (True, s)
       else if set_of_allocs alloc es then add_children alloc d (qsort compare_set_of_element cs) (rewound d s)
       else (False, s))"
  proof (cases "length es < 2")
    case True
    then show ?thesis
      by (simp add: CBB_flush_asn1_set_of_def flush_flat [OF base d ne] init n)
  next
    case False
    show ?thesis
    proof (cases "length es > (size_t_mod - 1) div sizeof_CBS")
      case True
      then have "\<not> alloc (16 * length es + 8)"
        using alloc by (auto simp: alloc_ok_def size_t_mod_def sizeof_CBS_def)
      then show ?thesis
        using False True by (simp add: CBB_flush_asn1_set_of_def flush_flat [OF base d ne] init n set_of_allocs_def)
    next
      case small: False
      have "OPENSSL_malloc alloc (length es * sizeof_CBS) = None \<longleftrightarrow> \<not> alloc (16 * length es + 8)"
        using small OPENSSL_malloc_None_iff [of "length es * sizeof_CBS" alloc]
        by (simp add: size_t_mod_def sizeof_CBS_def mult.commute)
      then show ?thesis
        using False small dup cs(1)
        by (auto simp: CBB_flush_asn1_set_of_def flush_flat [OF base d ne] init n set_of_allocs_def copy
            rewound_def contents_start_def Let_def split: option.split)
    qed
  qed
  then show ?thesis using cs(2,3) by blast
qed

lemma set_of_flushed:
  assumes alloc: "alloc_ok alloc" and wf: "cbb_wf s" and base: "cbb_base s = Some b"
    and d: "length (cbb_children s) = d" and ne: "\<not> error b"
    and es: "der_elements es" "drop (contents_start d s) (cbb_written s) = concat es"
  shows "if set_of_allocs alloc es
    then \<exists>s'. CBB_flush_asn1_set_of alloc d s = (True, s') \<and> cbb_step s s' \<and> \<not> error (cbb_buf s') \<and>
      cbb_children s' = cbb_children s \<and>
      cbb_written s' = take (contents_start d s) (cbb_written s) @ concat (sort es)
    else CBB_flush_asn1_set_of alloc d s = (False, s)"
proof -
  note R = rewound_ok [OF wf base d]
  have ok: "buffer_ok b" using wf base by (simp add: cbb_wf_def)
  obtain cs where cs: "map cbs_bytes cs = es" "\<forall>c \<in> set cs. cbs_ok c" and ev: "CBB_flush_asn1_set_of alloc d s =
      (if length es < 2 then (True, s)
       else if set_of_allocs alloc es then add_children alloc d (qsort compare_set_of_element cs) (rewound d s)
       else (False, s))"
    using set_of_evaluates [OF assms] by blast
  let ?cs = "qsort compare_set_of_element cs"
  have sorted: "map cbs_bytes ?cs = sort es" by (rule qsort_children [OF cs])
  have oks: "\<forall>c \<in> set ?cs. cbs_ok c" using cs(2) by (simp add: qsort_set)
  show ?thesis
  proof (cases "length es < 2 \<or> \<not> set_of_allocs alloc es")
    case True
    have "sort es = es" if "length es < 2" using that by (cases es) (simp_all add: less_Suc_eq)
    moreover have "take (contents_start d s) (cbb_written s) @ concat es = cbb_written s"
      by (metis es(2) append_take_drop_id)
    ultimately show ?thesis
      using True ev cbb_step_refl [OF wf] base ne by (auto simp: set_of_allocs_def)
  next
    case False
    obtain okay s' where a: "add_children alloc d ?cs (rewound d s) = (okay, s')" by fastforce
    have lens: "length (concat (sort es)) = blen b - contents_start d s"
      using es(2) concat_sort_length [of es] base ok by (simp add: cbb_written_def flip: es(2))
    have "fst (add_children alloc d ?cs (rewound d s))"
    proof (rule add_children_fits [OF R(8)])
      show "blen (b\<lparr>blen := contents_start d s\<rparr>) + length (concat (map cbs_bytes ?cs)) \<le> cap (b\<lparr>blen := contents_start d s\<rparr>)"
        using lens R(1) ok by (simp add: sorted buffer_ok_def)
    qed (use R d ne oks in \<open>simp_all add: buffer_step_def\<close>)
    then have okay: okay using a by simp
    have "appends d (\<lambda>alloc. add_children alloc d ?cs) (concat (sort es))"
      unfolding sorted [symmetric]
    proof (rule writes_add_children)
      have "length (cbs_bytes c) < 2 ^ 63" if "c \<in> set ?cs" for c
      proof -
        have "cbs_bytes c \<in> set (sort es)" using that unfolding sorted [symmetric] by simp
        then have "length (cbs_bytes c) \<le> length (concat (sort es))"
          by (simp add: length_concat member_le_sum_list)
        moreover have "blen b < 2 ^ 63" using ok by (simp add: buffer_ok_def)
        ultimately show ?thesis using lens by linarith
      qed
      then show "\<forall>c \<in> set ?cs. cbs_ok c \<and> length (cbs_bytes c) < 2 ^ 63" using oks by blast
    qed
    then have "wrote d (concat (sort es)) (rewound d s) (True, s')"
      using a okay R d ne alloc unfolding appends_def by (metis order_refl)
    then show ?thesis
      using False ev a okay R d base by (auto simp: wrote_def cbb_step_def sealed_flat intro: buffer_step_trans)
  qed
qed

lemma set_of_after_flush:
  assumes "CBB_flush alloc d s = (True, s1)" and "cbb_base s1 = Some b" and "length (cbb_children s1) = d"
    and "\<not> error b"
  shows "CBB_flush_asn1_set_of alloc d s = CBB_flush_asn1_set_of alloc d s1"
  by (simp add: CBB_flush_asn1_set_of_def assms(1) flush_flat [OF assms(2-4)])

lemma set_of_rejects:
  assumes wf: "cbb_wf s" and base: "cbb_base s = Some b" and d: "length (cbb_children s) = d" and ne: "\<not> error b"
    and "\<nexists>es. der_elements es \<and> drop (contents_start d s) (cbb_written s) = concat es"
  shows "CBB_flush_asn1_set_of alloc d s = (False, s)"
proof -
  have ok: "buffer_ok b" using wf base by (simp add: cbb_wf_def)
  obtain r where view: "CBB_data d s = drop (contents_start d s) (cbb_written s) @ r"
    "CBB_len d s = length (drop (contents_start d s) (cbb_written s))"
    using contents_view [OF base ok rewound_ok(1) [OF wf base d]] by auto
  have init: "CBS_init (CBB_data d s) (CBB_len d s) = cbs_over (drop (contents_start d s) (cbb_written s)) r"
    unfolding view by (simp add: CBS_init_def cbs_over_def)
  have "count_children 0 (CBS_init (CBB_data d s) (CBB_len d s)) = None"
    unfolding init using assms(5) count_children_sound by (metis not_Some_eq)
  then show ?thesis by (simp add: CBB_flush_asn1_set_of_def flush_flat [OF base d ne])
qed

text \<open>
  C39: On a well-formed builder whose flush succeeds, \<open>CBB_flush_asn1_set_of\<close> succeeds exactly
  if the contents are a sequence of DER elements and the two copies can be allocated (none is
  needed for fewer than two elements); it then leaves the same elements in ascending
  lexicographic order of their encodings, everything in front of them unchanged and no child
  open, and otherwise it leaves what the flush left.
\<close>

theorem set_of_sorted:
  assumes "alloc_ok alloc" and "cbb_wf s" and "cbb_live d s" and "CBB_flush alloc d s = (True, s1)"
  shows "case CBB_flush_asn1_set_of alloc d s of (ok, s') \<Rightarrow>
    (ok \<longleftrightarrow> (\<exists>es. der_elements es \<and> drop (contents_start d s1) (sealed d s) = concat es \<and> set_of_allocs alloc es)) \<and>
    (if ok then cbb_wf s' \<and> cbb_children s' = take d (cbb_children s) \<and>
        (\<exists>es. der_elements es \<and> sealed d s = take (contents_start d s1) (sealed d s) @ concat es \<and>
           cbb_written s' = take (contents_start d s1) (sealed d s) @ concat (sort es))
     else s' = s1)"
proof -
  note F = flushed [OF assms]
  obtain b where b: "cbb_base s1 = Some b" "buffer_ok b" using F(7) by blast
  then have ne: "\<not> error b" using F(3) by simp
  have eq: "CBB_flush_asn1_set_of alloc d s = CBB_flush_asn1_set_of alloc d s1"
    by (rule set_of_after_flush [OF assms(4) b(1) F(4) ne])
  show ?thesis
  proof (cases "\<exists>es. der_elements es \<and> drop (contents_start d s1) (sealed d s) = concat es")
    case True
    then obtain es where es: "der_elements es" "drop (contents_start d s1) (cbb_written s1) = concat es"
      using F(6) by auto
    have whole: "sealed d s = take (contents_start d s1) (sealed d s) @ concat es"
      using es(2) F(6) by (metis append_take_drop_id)
    show ?thesis
    proof (cases "set_of_allocs alloc es")
      case True
      obtain s' where "CBB_flush_asn1_set_of alloc d s = (True, s')" "cbb_step s1 s'"
        "cbb_children s' = cbb_children s1"
        "cbb_written s' = take (contents_start d s1) (cbb_written s1) @ concat (sort es)"
        using set_of_flushed [OF assms(1) F(2) b(1) F(4) ne es] True eq by auto
      then show ?thesis
        using True es whole F(5,6) by (auto simp: cbb_step_def)
    next
      case False
      have "set_of_allocs alloc es' \<longleftrightarrow> set_of_allocs alloc es"
        if "der_elements es'" "drop (contents_start d s1) (sealed d s) = concat es'" for es'
        using set_of_flushed [OF assms(1) F(2) b(1) F(4) ne es]
          set_of_flushed [OF assms(1) F(2) b(1) F(4) ne that(1)] that(2) F(6) False by auto
      then show ?thesis
        using set_of_flushed [OF assms(1) F(2) b(1) F(4) ne es] False eq by auto
    qed
  next
    case False
    then show ?thesis using set_of_rejects [OF F(2) b(1) F(4) ne] F(6) eq by auto
  qed
qed

definition two_octet_strings :: cbb where
  "two_octet_strings =
     \<lparr>cbb_base = Some \<lparr>buf = [4, 1, 2, 4, 1, 1, 0], blen = 6, cap = 7, can_resize = True, error = False\<rparr>,
      cbb_children = []\<rparr>"

lemma set_of_sorted_witness:
  "\<exists>s'. CBB_flush_asn1_set_of alloc_total 0 two_octet_strings = (True, s') \<and> cbb_written s' = [4, 1, 1, 4, 1, 2]"
proof -
  have pre: "cbb_wf two_octet_strings" "cbb_live 0 two_octet_strings"
    "CBB_flush alloc_total 0 two_octet_strings = (True, two_octet_strings)"
    by (simp_all add: two_octet_strings_def cbb_wf_def buffer_ok_def cbb_live_def CBB_flush_def)
  have all: "sealed 0 two_octet_strings = [4, 1, 2, 4, 1, 1]" "contents_start 0 two_octet_strings = 0"
    "cbb_written two_octet_strings = [4, 1, 2, 4, 1, 1]" "length (cbb_children two_octet_strings) = 0"
    "\<not> error (cbb_buf two_octet_strings)" "cbb_base two_octet_strings = Some (cbb_buf two_octet_strings)"
    by (simp_all add: two_octet_strings_def sealed_def cbb_written_def buffer_bytes_def contents_start_def
        cbb_frame_of_def)
  have es: "der_elements [[4, 1, 2], [4, 1, 1]]"
  proof -
    have one: "[4, 1, b] = der_element CBS_ASN1_OCTETSTRING [b]" for b
      by (simp add: der_element_def der_header_def der_tag_def der_length_def)
    have "\<exists>t body. length body < 2 ^ 32 \<and> [4, 1, b] = der_element t body" for b
      by (intro exI [of _ CBS_ASN1_OCTETSTRING] exI [of _ "[b]"]) (simp only: one, simp)
    then show ?thesis by (simp add: der_elements_def)
  qed
  have "fst (CBB_flush_asn1_set_of alloc_total 0 two_octet_strings)"
    using set_of_sorted [OF alloc_total_ok pre] es
    by (auto simp: all set_of_allocs_def alloc_total_def intro!: exI [of _ "[[4, 1, 2], [4, 1, 1 :: u8]]"])
  then show ?thesis
    using set_of_flushed [OF alloc_total_ok pre(1) all(6,4,5) es]
    by (auto simp: all(2,3) split: if_splits)
qed

end
