(* ===== verification/Cbb_reach.thy ===== *)
theory Cbb_reach
  imports Set_of
begin

text \<open>
  The states of a builder \<open>CBB\<close> that its operations lead to, in any order and with any outcome
  of the allocator, and the invariant that holds in all of them.
\<close>

section \<open>Operations keep a builder well-formed\<close>

text \<open>
  Whatever the result of an operation and whichever \<open>CBB\<close> it is called on, a dead one
  included: the builder stays well-formed, its buffer does not shrink, a fixed buffer keeps its
  memory, and an error stays.
\<close>

definition cbb_keeps :: "cbb_op \<Rightarrow> bool" where
  "cbb_keeps f \<longleftrightarrow>
     (\<forall>s. cbb_wf s \<longrightarrow> cbb_base s = None \<longrightarrow> snd (f s) = s) \<and>
     (\<forall>s. cbb_wf s \<longrightarrow> cbb_base s \<noteq> None \<longrightarrow> cbb_step s (snd (f s)))"

named_theorems keeps

lemma cbb_keeps_step: "cbb_keeps f \<Longrightarrow> cbb_wf s \<Longrightarrow> cbb_base s \<noteq> None \<Longrightarrow> cbb_step s (snd (f s))"
  by (simp add: cbb_keeps_def)

lemma cbb_keeps_none: "cbb_keeps f \<Longrightarrow> cbb_wf s \<Longrightarrow> cbb_base s = None \<Longrightarrow> snd (f s) = s"
  by (simp add: cbb_keeps_def)

lemma cbb_keeps_then [keeps]:
  assumes f: "cbb_keeps f" and g: "cbb_keeps g"
  shows "cbb_keeps (cbb_then f g)"
  unfolding cbb_keeps_def
proof (intro conjI allI impI)
  fix s
  assume s: "cbb_wf s" "cbb_base s = None"
  then show "snd (cbb_then f g s) = s"
    using cbb_keeps_none [OF f s] cbb_keeps_none [OF g s] by (cases "f s") (simp add: cbb_then_def)
next
  fix s
  assume s: "cbb_wf s" "cbb_base s \<noteq> None"
  obtain ok s1 where f1: "f s = (ok, s1)" by fastforce
  have st: "cbb_step s s1" using cbb_keeps_step [OF f s] f1 by simp
  then have "cbb_wf s1" "cbb_base s1 \<noteq> None" by (simp_all add: cbb_step_def)
  from cbb_keeps_step [OF g this] show "cbb_step s (snd (cbb_then f g s))"
    using st f1 cbb_step_trans [OF st] by (simp add: cbb_then_def)
qed

lemma cbb_keeps_True [keeps]: "cbb_keeps (Pair True)"
  by (auto simp: cbb_keeps_def intro: cbb_step_refl)

lemma cbb_keeps_if [keeps]: "cbb_keeps f \<Longrightarrow> cbb_keeps g \<Longrightarrow> cbb_keeps (if P then f else g)"
  by simp

text \<open>On a dead \<open>CBB\<close> the operations that flush do nothing, on a live one they keep their contract.\<close>

lemma cbb_keeps_live:
  assumes "\<And>s. cbb_wf s \<Longrightarrow> cbb_live d s \<Longrightarrow> cbb_step s (snd (f s))"
    and "\<And>s. \<not> cbb_live d s \<Longrightarrow> snd (f s) = s"
  shows "cbb_keeps f"
  unfolding cbb_keeps_def
proof (intro conjI allI impI)
  fix s
  assume "cbb_wf s" "cbb_base s = None"
  then show "snd (f s) = s" using assms(2) by (simp add: cbb_live_def)
next
  fix s
  assume s: "cbb_wf s" "cbb_base s \<noteq> None"
  show "cbb_step s (snd (f s))"
    using assms(1) [OF s(1)] assms(2) [of s] cbb_step_refl [OF s] by (cases "cbb_live d s") simp_all
qed

lemma flush_dead: "\<not> cbb_live d s \<Longrightarrow> CBB_flush alloc d s = (False, s)"
  by (auto simp: CBB_flush_def cbb_live_def split: option.split)

lemma then_dead: "\<not> cbb_live d s \<Longrightarrow> cbb_then (CBB_flush alloc d) g s = (False, s)"
  by (simp add: cbb_then_def flush_dead)

lemma keeps_flush [keeps]: "alloc_ok alloc \<Longrightarrow> cbb_keeps (CBB_flush alloc d)"
proof (rule cbb_keeps_live)
  fix s
  assume "alloc_ok alloc" "cbb_wf s" "cbb_live d s"
  then have "wrote d [] s (CBB_flush alloc d s)" using writes_nothing [of d] by (simp add: writes_def)
  then show "cbb_step s (snd (CBB_flush alloc d s))" by (auto simp: wrote_def split: prod.splits)
qed (simp add: flush_dead)

text \<open>Work on the buffer that keeps what is written so far.\<close>

definition buffer_keeps :: "(cbb_buffer \<Rightarrow> 'a \<times> cbb_buffer) \<Rightarrow> bool" where
  "buffer_keeps f \<longleftrightarrow> (\<forall>b. buffer_ok b \<longrightarrow> buffer_step b (snd (f b)) \<and> blen b \<le> blen (snd (f b)))"

lemma buffer_keeps_step:
  assumes "buffer_keeps f" and "cbb_wf s" and "cbb_base s \<noteq> None" and "f (cbb_buf s) = (r, b)"
  shows "cbb_step s (s\<lparr>cbb_base := Some b\<rparr>)"
proof -
  obtain b0 where b0: "cbb_base s = Some b0" using assms(3) by blast
  then have ok: "buffer_ok b0" and c: "chain_ok 0 (cbb_children s) (blen b0)" using assms(2) by (simp_all add: cbb_wf_def)
  have "buffer_step b0 b \<and> blen b0 \<le> blen b" using assms(1,4) ok b0 by (auto simp: buffer_keeps_def)
  then show ?thesis using b0 c by (auto simp: cbb_step_def cbb_wf_def buffer_step_def intro: chain_ok_mono)
qed

lemma keeps_flush_buffer [keeps]:
  assumes "alloc_ok alloc" and "buffer_keeps f"
  shows "cbb_keeps (cbb_then (CBB_flush alloc d) (on_buffer f))"
proof (rule cbb_keeps_live)
  fix s
  assume s: "cbb_wf s" "cbb_live d s"
  obtain ok s1 where f: "CBB_flush alloc d s = (ok, s1)" by fastforce
  have st: "cbb_step s s1" using keeps_flush [OF assms(1), of d] s f by (auto simp: cbb_keeps_def cbb_live_def)
  obtain ok' b where b: "f (cbb_buf s1) = (ok', b)" by fastforce
  have "cbb_step s1 (s1\<lparr>cbb_base := Some b\<rparr>)"
    using buffer_keeps_step [OF assms(2) _ _ b] st by (simp add: cbb_step_def)
  then show "cbb_step s (snd (cbb_then (CBB_flush alloc d) (on_buffer f) s))"
    using st by (auto simp: cbb_then_def f on_buffer_def b intro: cbb_step_trans)
qed (simp add: then_dead)

lemma buffer_keeps_add_u: "alloc_ok alloc \<Longrightarrow> k \<le> 8 \<Longrightarrow> buffer_keeps (cbb_buffer_add_u alloc v k)"
  unfolding buffer_keeps_def using cbb_buffer_add_u_step [OF _ _ _ prod.collapse [symmetric]] by blast

lemma keeps_add_u: "alloc_ok alloc \<Longrightarrow> k \<le> 8 \<Longrightarrow> cbb_keeps (CBB_add_u alloc d k v)"
  unfolding CBB_add_u_def by (intro keeps_flush_buffer buffer_keeps_add_u)

lemma keeps_numbers [keeps]:
  assumes "alloc_ok alloc"
  shows "cbb_keeps (CBB_add_u8 alloc d v8)" "cbb_keeps (CBB_add_u16 alloc d v16)"
    "cbb_keeps (CBB_add_u24 alloc d v24)" "cbb_keeps (CBB_add_u32 alloc d v32)"
    "cbb_keeps (CBB_add_u64 alloc d v64)" "cbb_keeps (CBB_add_u16le alloc d v16)"
    "cbb_keeps (CBB_add_u32le alloc d v32)" "cbb_keeps (CBB_add_u64le alloc d v64)"
  unfolding CBB_add_u8_def CBB_add_u16_def CBB_add_u24_def CBB_add_u32_def CBB_add_u64_def
    CBB_add_u16le_def CBB_add_u32le_def CBB_add_u64le_def
  by (simp_all add: keeps_add_u assms)

lemma keeps_bytes [keeps]:
  assumes "alloc_ok alloc" and "len \<le> length data" and "len < 2 ^ 63"
  shows "cbb_keeps (CBB_add_bytes alloc d data len)"
  unfolding CBB_add_bytes_def
proof (rule keeps_flush_buffer [OF assms(1)])
  show "buffer_keeps (\<lambda>b. case cbb_buffer_add alloc len b of (None, b') \<Rightarrow> (False, b')
      | (Some dest, b') \<Rightarrow> (True, b'\<lparr>buf := take dest (buf b') @ take len data @ drop (dest + len) (buf b')\<rparr>))"
    unfolding buffer_keeps_def using CBB_add_bytes_step [OF assms(1) _ assms(2,3) prod.collapse [symmetric]] by blast
qed

text \<open>Opening a child.\<close>

lemma keeps_opens:
  assumes "alloc_ok alloc" and "opens d f hdr k asn1" and "\<And>s. \<not> cbb_live d s \<Longrightarrow> f alloc s = (False, s)"
  shows "cbb_keeps (f alloc)"
proof (rule cbb_keeps_live)
  fix s
  assume "cbb_wf s" "cbb_live d s"
  then show "cbb_step s (snd (f alloc s))"
    using assms(1,2) prod.collapse [of "f alloc s", symmetric] unfolding opens_def by blast
qed (simp add: assms(3))

lemma keeps_children [keeps]:
  assumes "alloc_ok alloc"
  shows "cbb_keeps (CBB_add_u8_length_prefixed alloc d)" "cbb_keeps (CBB_add_u16_length_prefixed alloc d)"
    "cbb_keeps (CBB_add_u24_length_prefixed alloc d)" "cbb_keeps (CBB_add_asn1 alloc d t)"
proof -
  have "cbb_keeps (cbb_add_length_prefixed alloc k d)" if "0 < k" "k \<le> 3" for k
    by (rule keeps_opens [OF assms opens_length_prefixed [OF that]])
      (simp add: cbb_add_length_prefixed_def flush_dead)
  then show "cbb_keeps (CBB_add_u8_length_prefixed alloc d)" "cbb_keeps (CBB_add_u16_length_prefixed alloc d)"
    "cbb_keeps (CBB_add_u24_length_prefixed alloc d)"
    by (simp_all add: CBB_add_u8_length_prefixed_def CBB_add_u16_length_prefixed_def CBB_add_u24_length_prefixed_def)
  show "cbb_keeps (CBB_add_asn1 alloc d t)"
    by (rule keeps_opens [OF assms opens_asn1]) (simp add: CBB_add_asn1_def then_dead)
qed

lemma keeps_base128 [keeps]:
  assumes "alloc_ok alloc"
  shows "cbb_keeps (add_base128_integer alloc d v)"
proof -
  have "cbb_keeps (add_base128_loop alloc d v i)" for i
  proof (induction i)
    case 0
    have "add_base128_loop alloc d v 0 = Pair True" by (rule ext) simp
    then show ?case by (simp add: keeps)
  next
    case (Suc i)
    have "add_base128_loop alloc d v (Suc i) =
        cbb_then (CBB_add_u8 alloc d (if i \<noteq> 0 then (ucast (drop_bit (7 * i) v) AND 0x7f) OR 0x80
          else ucast (drop_bit (7 * i) v) AND 0x7f)) (add_base128_loop alloc d v i)"
      by (rule ext) (simp add: Let_def)
    then show ?case using Suc by (simp only: keeps assms)
  qed
  then show ?thesis by (simp add: add_base128_integer_def Let_def)
qed

text \<open>The ASN.1 writers.\<close>

lemma keeps_integers [keeps]:
  assumes "alloc_ok alloc"
  shows "cbb_keeps (CBB_add_asn1_uint64 alloc d v)" "cbb_keeps (CBB_add_asn1_int64 alloc d w)"
proof -
  have dead: "\<not> cbb_live d s \<Longrightarrow> CBB_add_asn1 alloc d t s = (False, s)" for s t
    by (simp add: CBB_add_asn1_def then_dead)
  have of_writes: "cbb_keeps (f alloc)" if "writes d f bs" "\<And>s. \<not> cbb_live d s \<Longrightarrow> snd (f alloc s) = s" for f bs
  proof (rule cbb_keeps_live)
    fix s
    assume "cbb_wf s" "cbb_live d s"
    then have "wrote d bs s (f alloc s)" using that(1) assms by (simp add: writes_def)
    then show "cbb_step s (snd (f alloc s))" by (auto simp: wrote_def split: prod.splits)
  qed (use that(2) in auto)
  have dead_uint: "\<not> cbb_live d s \<Longrightarrow> snd (CBB_add_asn1_uint64 alloc d x s) = s" for x s
    by (simp add: CBB_add_asn1_uint64_def cbb_then_def dead)
  show "cbb_keeps (CBB_add_asn1_uint64 alloc d v)"
    by (rule of_writes [OF writes_uint64]) (rule dead_uint)
  show "cbb_keeps (CBB_add_asn1_int64 alloc d w)"
    by (rule of_writes [OF writes_int64])
      (simp add: CBB_add_asn1_int64_def dead_uint, simp add: cbb_then_def dead Let_def)
qed

lemma keeps_strings [keeps]:
  assumes "alloc_ok alloc"
  shows "len \<le> length data \<Longrightarrow> len < 2 ^ 63 \<Longrightarrow> cbb_keeps (CBB_add_asn1_octet_string alloc d data len)"
    "cbb_keeps (CBB_add_asn1_bool alloc d v)"
  unfolding CBB_add_asn1_octet_string_def CBB_add_asn1_bool_def by (simp_all add: keeps assms)

lemma oid_components_step:
  "oid_components fuel alloc d c s = Some (ok, s') \<Longrightarrow> alloc_ok alloc \<Longrightarrow> cbb_wf s \<Longrightarrow> cbb_base s \<noteq> None \<Longrightarrow>
   cbb_step s s'"
proof (induction fuel arbitrary: c s)
  case 0
  then show ?case by (simp add: oid_components.simps cbb_step_refl split: if_splits)
next
  case (Suc fuel)
  show ?case
  proof (cases "CBS_len c = 0")
    case False
    obtain a c' where p: "parse_dotted_decimal c = (a, c')" by fastforce
    show ?thesis
    proof (cases a)
      case None
      then show ?thesis
        using Suc.prems False p by (simp add: oid_components.simps [of "Suc fuel"] cbb_step_refl)
    next
      case (Some v)
      obtain okv s1 where w: "add_base128_integer alloc d v s = (okv, s1)" by fastforce
      have st: "cbb_step s s1"
        using cbb_keeps_step [OF keeps_base128 [OF Suc.prems(2)] Suc.prems(3,4), of d v] w by simp
      then have "cbb_wf s1" "cbb_base s1 \<noteq> None" by (simp_all add: cbb_step_def)
      moreover have "if okv then oid_components fuel alloc d c' s1 = Some (ok, s') else s' = s1"
        using Suc.prems(1) False p Some w by (subst (asm) oid_components.simps) (auto split: if_splits)
      ultimately show ?thesis
        using st Suc.IH [OF _ Suc.prems(2)] cbb_step_trans [OF st] by (auto split: if_splits)
    qed
  qed (use Suc.prems in \<open>simp add: oid_components.simps [of "Suc fuel"] cbb_step_refl\<close>)
qed

lemma oid_from_text_step:
  assumes r: "CBB_add_asn1_oid_from_text fuel alloc d txt len s = Some (ok, s')"
    and "alloc_ok alloc" and s: "cbb_wf s" "cbb_base s \<noteq> None"
  shows "cbb_step s s'"
proof -
  obtain ok1 s1 where f: "CBB_flush alloc d s = (ok1, s1)" by fastforce
  have st: "cbb_step s s1" using cbb_keeps_step [OF keeps_flush [OF assms(2)] s, of d] f by simp
  then have s1: "cbb_wf s1" "cbb_base s1 \<noteq> None" by (simp_all add: cbb_step_def)
  obtain a c1 where p1: "parse_dotted_decimal (CBS_init txt len) = (a, c1)" by fastforce
  obtain b c2 where p2: "parse_dotted_decimal c1 = (b, c2)" by fastforce
  show ?thesis
  proof (cases "s' = s1")
    case False
    then obtain va vb where v: "a = Some va" "b = Some vb"
      using r f p1 p2 by (auto simp: CBB_add_asn1_oid_from_text_def split: if_splits option.splits)
    obtain ok2 s2 where w: "add_base128_integer alloc d (40 * va + vb) s1 = (ok2, s2)" by fastforce
    have st2: "cbb_step s1 s2"
      using cbb_keeps_step [OF keeps_base128 [OF assms(2)] s1, of d "40 * va + vb"] w by simp
    then have "cbb_wf s2" "cbb_base s2 \<noteq> None" by (simp_all add: cbb_step_def)
    moreover have "s' = s2 \<or> oid_components fuel alloc d c2 s2 = Some (ok, s')"
      using r f p1 p2 v w False by (auto simp: CBB_add_asn1_oid_from_text_def split: if_splits)
    ultimately show ?thesis
      using cbb_step_trans [OF st st2] cbb_step_trans [OF cbb_step_trans [OF st st2]]
        oid_components_step [OF _ assms(2)] by blast
  qed (use st in simp)
qed

lemma keeps_set_of [keeps]:
  assumes "alloc_ok alloc"
  shows "cbb_keeps (CBB_flush_asn1_set_of alloc d)"
proof (rule cbb_keeps_live)
  fix s
  assume s: "cbb_wf s" "cbb_live d s"
  obtain ok s1 where f: "CBB_flush alloc d s = (ok, s1)" by fastforce
  have st: "cbb_step s s1" using keeps_flush [OF assms, of d] s f by (auto simp: cbb_keeps_def cbb_live_def)
  show "cbb_step s (snd (CBB_flush_asn1_set_of alloc d s))"
  proof (cases ok)
    case True
    have fT: "CBB_flush alloc d s = (True, s1)" using f True by simp
    note F = flushed [OF assms s fT]
    obtain b where b: "cbb_base s1 = Some b" using F(7) by blast
    then have ne: "\<not> error b" using F(3) by simp
    note eq = set_of_after_flush [OF fT b F(4) ne]
    show ?thesis
    proof (cases "\<exists>es. der_elements es \<and> drop (contents_start d s1) (cbb_written s1) = concat es")
      case True
      then obtain es where "der_elements es" "drop (contents_start d s1) (cbb_written s1) = concat es" by blast
      from set_of_flushed [OF assms F(2) b F(4) ne this] show ?thesis
        using st eq by (auto split: if_splits intro: cbb_step_trans)
    qed (use set_of_rejects [OF F(2) b F(4) ne] st eq in simp)
  qed (use st f in \<open>simp add: CBB_flush_asn1_set_of_def\<close>)
qed (simp add: CBB_flush_asn1_set_of_def flush_dead)

text \<open>Space that the caller fills, and giving a child up.\<close>

lemma buffer_keeps_space:
  assumes "alloc_ok alloc" and "len < 2 ^ 63"
  shows "buffer_keeps (cbb_buffer_reserve alloc len)" "buffer_keeps (cbb_buffer_add alloc len)"
  unfolding buffer_keeps_def
  using cbb_buffer_reserve_step [OF assms(1) _ assms(2) prod.collapse [symmetric]]
    cbb_buffer_add_step [OF assms(1) _ assms(2) prod.collapse [symmetric]]
  by (fastforce split: option.splits)+

lemma space_step:
  assumes "alloc_ok alloc" and "len < 2 ^ 63" and s: "cbb_wf s" "cbb_base s \<noteq> None"
  shows "cbb_step s (snd (CBB_add_space alloc d len s))" "cbb_step s (snd (CBB_reserve alloc d len s))"
proof -
  obtain ok s1 where f: "CBB_flush alloc d s = (ok, s1)" by fastforce
  have st: "cbb_step s s1" using cbb_keeps_step [OF keeps_flush [OF assms(1)] s, of d] f by simp
  then have s1: "cbb_wf s1" "cbb_base s1 \<noteq> None" by (simp_all add: cbb_step_def)
  have "cbb_step s (s1\<lparr>cbb_base := Some (snd (g (cbb_buf s1)))\<rparr>)" if "buffer_keeps g" for g :: "cbb_buffer \<Rightarrow> nat option \<times> cbb_buffer"
    using cbb_step_trans [OF st buffer_keeps_step [OF that s1 prod.collapse [symmetric]]] .
  note this [OF buffer_keeps_space(1) [OF assms(1,2)]] this [OF buffer_keeps_space(2) [OF assms(1,2)]]
  then show "cbb_step s (snd (CBB_add_space alloc d len s))" "cbb_step s (snd (CBB_reserve alloc d len s))"
    using st by (auto simp: CBB_add_space_def CBB_reserve_def f split: prod.split)
qed

lemma did_write_step:
  assumes "cbb_wf s" and "cbb_live d s"
  shows "cbb_step s (snd (CBB_did_write d len s))"
proof -
  obtain b where b: "cbb_base s = Some b" using assms(2) by (auto simp: cbb_live_def)
  let ?n = "(blen b + len) mod size_t_mod"
  have "buffer_keeps (\<lambda>b. ((), if (blen b + len) mod size_t_mod < blen b \<or> (blen b + len) mod size_t_mod > cap b then b
      else b\<lparr>blen := (blen b + len) mod size_t_mod\<rparr>))"
    by (auto simp: buffer_keeps_def buffer_step_def buffer_ok_def)
  from buffer_keeps_step [OF this assms(1) _ refl] b
  show ?thesis using cbb_step_refl [OF assms(1)] by (auto simp: CBB_did_write_def Let_def split: if_splits)
qed

lemma discard_step:
  assumes wf: "cbb_wf s" and "cbb_base s \<noteq> None"
  shows "cbb_step s (CBB_discard_child d s)"
proof (cases "length (cbb_children s) \<le> d")
  case False
  obtain b where b: "cbb_base s = Some b" using assms(2) by blast
  then have ok: "buffer_ok b" and c: "chain_ok 0 (cbb_children s) (blen b)" using wf by (simp_all add: cbb_wf_def)
  let ?f = "cbb_children s ! d" and ?cs = "take d (cbb_children s)"
  have split: "cbb_children s = ?cs @ ?f # drop (Suc d) (cbb_children s)"
    using False by (simp add: id_take_nth_drop [symmetric])
  have "chain_ok 0 ?cs (offset ?f) \<and> offset ?f \<le> blen b"
    using c chain_ok_le chain_ok_mono
    by (subst (asm) split, subst (asm) chain_ok_append) (fastforce split: if_splits)
  then show ?thesis
    using False b ok by (simp add: CBB_discard_child_def cbb_step_def cbb_wf_def buffer_step_def buffer_ok_def)
qed (simp add: CBB_discard_child_def cbb_step_refl assms)

lemma chain_frames:
  "chain_ok p fs n \<Longrightarrow> \<forall>f \<in> set fs. pending_len_len f \<in> {1, 2, 3} \<and> p \<le> offset f \<and> offset f + pending_len_len f \<le> n"
proof (induction fs arbitrary: p)
  case (Cons f fs)
  then have "offset f + pending_len_len f \<le> n" using chain_ok_le [of "offset f + pending_len_len f" fs n] by simp
  then show ?case using Cons.prems Cons.IH [of "offset f + pending_len_len f"] by fastforce
qed simp

lemma chain_sorted: "chain_ok p fs n \<Longrightarrow> sorted_wrt (\<lambda>f g. offset f + pending_len_len f \<le> offset g) fs"
  by (induction fs arbitrary: p) (use chain_frames in fastforce)+

section \<open>The builders a program can have\<close>

text \<open>
  A call of an operation on a builder that has a buffer, on any of its \<open>CBB\<close>s and with any
  result of the allocator.  Lengths are below \<open>PTRDIFF_MAX\<close>, which bounds every object;
  \<open>CBB_did_write\<close> follows a pointer that a dead \<open>CBB\<close> does not have.
\<close>

inductive cbb_call :: "cbb \<Rightarrow> cbb \<Rightarrow> bool" where
  call_flush: "alloc_ok alloc \<Longrightarrow> cbb_call s (snd (CBB_flush alloc d s))"
| call_bytes: "alloc_ok alloc \<Longrightarrow> len \<le> length data \<Longrightarrow> len < 2 ^ 63 \<Longrightarrow> cbb_call s (snd (CBB_add_bytes alloc d data len s))"
| call_u8: "alloc_ok alloc \<Longrightarrow> cbb_call s (snd (CBB_add_u8 alloc d v8 s))"
| call_u16: "alloc_ok alloc \<Longrightarrow> cbb_call s (snd (CBB_add_u16 alloc d v16 s))"
| call_u24: "alloc_ok alloc \<Longrightarrow> cbb_call s (snd (CBB_add_u24 alloc d v32 s))"
| call_u32: "alloc_ok alloc \<Longrightarrow> cbb_call s (snd (CBB_add_u32 alloc d v32 s))"
| call_u64: "alloc_ok alloc \<Longrightarrow> cbb_call s (snd (CBB_add_u64 alloc d v64 s))"
| call_u16le: "alloc_ok alloc \<Longrightarrow> cbb_call s (snd (CBB_add_u16le alloc d v16 s))"
| call_u32le: "alloc_ok alloc \<Longrightarrow> cbb_call s (snd (CBB_add_u32le alloc d v32 s))"
| call_u64le: "alloc_ok alloc \<Longrightarrow> cbb_call s (snd (CBB_add_u64le alloc d v64 s))"
| call_u8_prefixed: "alloc_ok alloc \<Longrightarrow> cbb_call s (snd (CBB_add_u8_length_prefixed alloc d s))"
| call_u16_prefixed: "alloc_ok alloc \<Longrightarrow> cbb_call s (snd (CBB_add_u16_length_prefixed alloc d s))"
| call_u24_prefixed: "alloc_ok alloc \<Longrightarrow> cbb_call s (snd (CBB_add_u24_length_prefixed alloc d s))"
| call_asn1: "alloc_ok alloc \<Longrightarrow> cbb_call s (snd (CBB_add_asn1 alloc d t s))"
| call_uint64: "alloc_ok alloc \<Longrightarrow> cbb_call s (snd (CBB_add_asn1_uint64 alloc d v64 s))"
| call_int64: "alloc_ok alloc \<Longrightarrow> cbb_call s (snd (CBB_add_asn1_int64 alloc d v64 s))"
| call_octet_string: "alloc_ok alloc \<Longrightarrow> len \<le> length data \<Longrightarrow> len < 2 ^ 63 \<Longrightarrow>
    cbb_call s (snd (CBB_add_asn1_octet_string alloc d data len s))"
| call_bool: "alloc_ok alloc \<Longrightarrow> cbb_call s (snd (CBB_add_asn1_bool alloc d v s))"
| call_oid: "alloc_ok alloc \<Longrightarrow> CBB_add_asn1_oid_from_text fuel alloc d txt len s = Some (ok, s') \<Longrightarrow> cbb_call s s'"
| call_set_of: "alloc_ok alloc \<Longrightarrow> cbb_call s (snd (CBB_flush_asn1_set_of alloc d s))"
| call_space: "alloc_ok alloc \<Longrightarrow> len < 2 ^ 63 \<Longrightarrow> cbb_call s (snd (CBB_add_space alloc d len s))"
| call_reserve: "alloc_ok alloc \<Longrightarrow> len < 2 ^ 63 \<Longrightarrow> cbb_call s (snd (CBB_reserve alloc d len s))"
| call_did_write: "cbb_live d s \<Longrightarrow> cbb_call s (snd (CBB_did_write d len s))"
| call_discard: "cbb_call s (CBB_discard_child d s)"

inductive cbb_reachable :: "cbb \<Rightarrow> bool" where
  reach_init: "alloc_ok alloc \<Longrightarrow> c < 2 ^ 63 \<Longrightarrow> CBB_init alloc c = (True, s) \<Longrightarrow> cbb_reachable s"
| reach_fixed: "length b + 8 < 2 ^ 63 \<Longrightarrow> CBB_init_fixed alloc b (length b) = (True, s) \<Longrightarrow> cbb_reachable s"
| reach_call: "cbb_reachable s \<Longrightarrow> cbb_call s s' \<Longrightarrow> cbb_reachable s'"

lemma cbb_call_step:
  assumes "cbb_call s s'" and s: "cbb_wf s" "cbb_base s \<noteq> None"
  shows "cbb_step s s'"
  using assms
  by (induction rule: cbb_call.induct)
    (simp_all add: cbb_keeps_step keeps space_step did_write_step discard_step,
      auto intro: oid_from_text_step)

lemma cbb_reachable_wf: "cbb_reachable s \<Longrightarrow> cbb_wf s \<and> cbb_base s \<noteq> None"
proof (induction rule: cbb_reachable.induct)
  case (reach_init alloc c s)
  then show ?case
    using CBB_init_step [of alloc c s 0] by (auto simp: cbb_live_def size_t_mod_def)
next
  case (reach_fixed b alloc s)
  then show ?case
    by (auto simp: CBB_init_fixed_def cbb_init_def cbb_wf_def buffer_ok_def split: option.splits)
next
  case (reach_call s s')
  then show ?case using cbb_call_step [of s s'] by (simp add: cbb_step_def)
qed

text \<open>
  C40: In every state that the operations of a builder lead to, with any lengths, tags and
  values, on children that are open or were flushed away, and whatever the allocator refuses,
  the buffer is as large as its capacity and holds what is written, the length prefixes that
  are still pending lie inside the written part, one behind the other, and each is one of 1, 2
  or 3 bytes; a further call keeps a fixed buffer's capacity, and after an error every further
  call leaves the error set.
\<close>

theorem cbb_type:
  assumes "cbb_reachable s"
  shows "(\<exists>b. cbb_base s = Some b \<and> blen b \<le> cap b \<and> length (buf b) = cap b \<and>
      (\<forall>f \<in> set (cbb_children s). pending_len_len f \<in> {1, 2, 3} \<and> offset f + pending_len_len f \<le> blen b) \<and>
      sorted_wrt (\<lambda>f g. offset f + pending_len_len f \<le> offset g) (cbb_children s)) \<and>
    (\<forall>s'. cbb_call s s' \<longrightarrow> (error (cbb_buf s) \<longrightarrow> error (cbb_buf s')) \<and>
      (\<not> can_resize (cbb_buf s) \<longrightarrow> cap (cbb_buf s') = cap (cbb_buf s)))"
proof -
  obtain b where b: "cbb_base s = Some b" "buffer_ok b" and c: "chain_ok 0 (cbb_children s) (blen b)"
    using cbb_reachable_wf [OF assms] by (auto simp: cbb_wf_def)
  have call: "\<And>s'. cbb_call s s' \<Longrightarrow> cbb_step s s'"
    using cbb_call_step cbb_reachable_wf [OF assms] by blast
  show ?thesis
    using b chain_frames [OF c] chain_sorted [OF c] call by (auto simp: buffer_ok_def cbb_step_def buffer_step_def)
qed

definition one_child :: cbb where
  "one_child = snd (CBB_add_u8_length_prefixed alloc_total 0 (snd (CBB_init alloc_total 8)))"

lemma one_child_reachable: "cbb_reachable one_child"
proof -
  have "CBB_init alloc_total 8 = (True, snd (CBB_init alloc_total 8))"
    using CBB_init_total [of 8] by (simp add: prod_eq_iff)
  then have "cbb_reachable (snd (CBB_init alloc_total 8))" by (intro reach_init [OF alloc_total_ok]) simp_all
  then show ?thesis unfolding one_child_def by (rule reach_call) (rule call_u8_prefixed [OF alloc_total_ok])
qed

lemma one_child_frame: "cbb_children one_child = [\<lparr>offset = 0, pending_len_len = 1, pending_is_asn1 = False\<rparr>]"
  by (simp add: one_child_def CBB_init_def cbb_init_def OPENSSL_malloc_def OPENSSL_MALLOC_PREFIX_def alloc_total_def
      size_t_mod_def sizeof_cbb_buffer_def CBB_add_u8_length_prefixed_def cbb_add_length_prefixed_def CBB_flush_def
      cbb_buffer_add_def cbb_buffer_reserve_def open_child_def cbb_buf_def Let_def)

lemma cbb_type_witness:
  "\<exists>b. cbb_base one_child = Some b \<and> 1 \<le> blen b \<and> blen b \<le> length (buf b)"
  using cbb_type [OF one_child_reachable] by (auto simp: one_child_frame)

end
