(* ===== verification/Oid.thy ===== *)
theory Oid
  imports Asn1_write
begin

text \<open>
  Object identifiers between their dotted text and their DER contents:
  \<open>CBB_add_asn1_oid_from_text\<close> of cbb.c and \<open>CBS_asn1_oid_to_text\<close> of cbs.c.
\<close>

section \<open>Decimal numbers\<close>

text \<open>What \<open>printf\<close> prints for \<open>PRIu64\<close>: the shortest decimal numeral.\<close>

function dec_digits :: "nat \<Rightarrow> bytes" where
  "dec_digits n = (if n = 0 then [] else dec_digits (n div 10) @ [word_of_nat (0x30 + n mod 10)])"
  by pat_completeness auto
termination by (relation "measure id") auto

declare dec_digits.simps [simp del]

definition decimal :: "nat \<Rightarrow> bytes" where
  "decimal n = (if n = 0 then [0x30] else dec_digits n)"

definition add_decimal :: "(nat \<Rightarrow> bool) \<Rightarrow> nat \<Rightarrow> u64 \<Rightarrow> cbb_op" where
  "add_decimal alloc d v =
     (let s = decimal (unat v) in CBB_add_bytes alloc d s (length s))"

text \<open>
  \<open>CBS_asn1_oid_to_text\<close>.  The result is the text with its terminating 0, or \<open>None\<close> for
  \<open>NULL\<close>; the outer \<open>None\<close> is running out of fuel.
\<close>

fun oid_text_loop :: "nat \<Rightarrow> (nat \<Rightarrow> bool) \<Rightarrow> cbs \<Rightarrow> cbb \<Rightarrow> (bool \<times> cbb) option" where
  "oid_text_loop fuel alloc copy s =
     (if CBS_len copy = 0 then Some (True, s)
      else
        (case fuel of
           0 \<Rightarrow> None
         | Suc fuel' \<Rightarrow>
             (case parse_base128_integer copy of
                (None, _) \<Rightarrow> Some (False, s)
              | (Some v, copy') \<Rightarrow>
                  (case cbb_then (CBB_add_u8 alloc 0 0x2e) (add_decimal alloc 0 v) s of
                     (ok, s') \<Rightarrow>
                       if \<not> ok then Some (False, s') else oid_text_loop fuel' alloc copy' s'))))"

declare oid_text_loop.simps [simp del]

definition CBS_asn1_oid_to_text :: "nat \<Rightarrow> (nat \<Rightarrow> bool) \<Rightarrow> cbs \<Rightarrow> bytes option option" where
  "CBS_asn1_oid_to_text fuel alloc c =
     (case CBB_init alloc 32 of
        (ok, s0) \<Rightarrow>
          if \<not> ok then Some None
          else
            (case parse_base128_integer c of
               (None, _) \<Rightarrow> Some None
             | (Some v, copy) \<Rightarrow>
                 (case (if v \<ge> 80
                        then cbb_then (CBB_add_bytes alloc 0 [0x32, 0x2e] 2) (add_decimal alloc 0 (v - 80))
                        else cbb_then (add_decimal alloc 0 (v div 40))
                               (cbb_then (CBB_add_u8 alloc 0 0x2e) (add_decimal alloc 0 (v mod 40)))) s0 of
                    (ok, s1) \<Rightarrow>
                      if \<not> ok then Some None
                      else
                        map_option
                          (\<lambda>(ok, s2). if \<not> ok then None
                             else
                               (case CBB_add_u8 alloc 0 0 s2 of
                                  (ok, s3) \<Rightarrow>
                                    if \<not> ok then None
                                    else
                                      (case CBB_finish alloc 0 True True s3 of
                                         (None, _) \<Rightarrow> None
                                       | (Some (txt, txt_len), _) \<Rightarrow> Some (take txt_len txt))))
                          (oid_text_loop fuel alloc copy s1))))"

section \<open>Reading a component\<close>

definition is_digit :: "u8 \<Rightarrow> bool" where
  "is_digit u \<longleftrightarrow> 48 \<le> unat u \<and> unat u \<le> 57"

lemma dec_digits_pos: "0 < n \<Longrightarrow> dec_digits n = dec_digits (n div 10) @ [word_of_nat (0x30 + n mod 10)]"
  by (subst dec_digits.simps) simp

lemma dec_digits_0 [simp]: "dec_digits 0 = []"
  by (simp add: dec_digits.simps)

lemma dec_digits_nonempty: "0 < n \<Longrightarrow> dec_digits n \<noteq> []"
  by (subst dec_digits_pos) simp_all

lemma decimal_nonempty [simp]: "decimal n \<noteq> []"
  by (simp add: decimal_def dec_digits_nonempty)

lemma unat_digit: "m < 10 \<Longrightarrow> unat (word_of_nat (0x30 + m) :: u8) = 48 + m"
  by (rule unat_word_of_nat_small) simp

lemma digit_of: "is_digit u \<Longrightarrow> word_of_nat (0x30 + (unat u - 48)) = u"
  by (simp add: is_digit_def)

text \<open>One digit: the guards reject exactly what does not fit 64 bits.\<close>

lemma dec_guards:
  assumes "is_digit u"
  shows "(out > 0xffffffffffffffff div 10 \<or> out * 10 > 0xffffffffffffffff - (ucast u - 0x30)) \<longleftrightarrow>
      \<not> unat (out :: u64) * 10 + (unat u - 48) < 2 ^ 64"
    and "unat out * 10 + (unat u - 48) < 2 ^ 64 \<Longrightarrow>
      out * 10 + (ucast u - 0x30) = word_of_nat (unat out * 10 + (unat u - 48))"
proof -
  have u: "48 \<le> unat u" "unat u \<le> 57" using assms by (simp_all add: is_digit_def)
  have le: "(0x30 :: u64) \<le> ucast u" using u by (simp add: word_le_nat_alt)
  have d: "unat (ucast u - 0x30 :: u64) = unat u - 48" using le by (simp add: unat_sub)
  have m: "unat (0xffffffffffffffff - (ucast u - 0x30) :: u64) = 18446744073709551615 - (unat u - 48)"
    using u by (subst unat_sub) (simp_all add: word_le_nat_alt d)
  have div: "out > 0xffffffffffffffff div 10 \<longleftrightarrow> 1844674407370955161 < unat out"
    by (simp add: word_less_nat_alt unat_div)
  show "(out > 0xffffffffffffffff div 10 \<or> out * 10 > 0xffffffffffffffff - (ucast u - 0x30)) \<longleftrightarrow>
      \<not> unat out * 10 + (unat u - 48) < 2 ^ 64"
  proof (cases "1844674407370955161 < unat out")
    case False
    then have "unat (out * 10) = unat out * 10"
      by (subst unat_mult_lem [THEN iffD1]) simp_all
    then have "out * 10 > 0xffffffffffffffff - (ucast u - 0x30) \<longleftrightarrow>
        18446744073709551615 - (unat u - 48) < unat out * 10"
      by (simp only: word_less_nat_alt m)
    then show ?thesis using False div u by auto
  next
    case True
    then show ?thesis using div by auto
  qed
  show "out * 10 + (ucast u - 0x30) = word_of_nat (unat out * 10 + (unat u - 48))"
    by (simp add: d [symmetric] del: unat_sub)
qed

lemma dec_loop_over:
  "parse_dotted_decimal_loop out seen (cbs_over bs r) =
     (case bs of
        [] \<Rightarrow> (if seen then Some out else None, cbs_over [] r)
      | u # bs' \<Rightarrow>
          if u = 0x2e \<and> bs' \<noteq> [] then (if seen then Some out else None, cbs_over bs' r)
          else if \<not> is_digit u \<or> (seen \<and> out = 0) \<or> \<not> unat out * 10 + (unat u - 48) < 2 ^ 64
          then (None, cbs_over bs' r)
          else parse_dotted_decimal_loop (word_of_nat (unat out * 10 + (unat u - 48))) True (cbs_over bs' r))"
proof (cases bs)
  case (Cons u bs')
  have dg: "u < 0x30 \<or> u > 0x39 \<longleftrightarrow> \<not> is_digit u"
    by (auto simp: is_digit_def word_less_nat_alt not_le)
  define x where "x = (ucast u - 0x30 :: u64)"
  define m where "m = 0xffffffffffffffff - x"
  define q where "q = (0xffffffffffffffff div 10 :: u64)"
  have eq: "parse_dotted_decimal_loop out seen (cbs_over (u # bs') r) =
      (if u = 0x2e \<and> bs' \<noteq> [] then (if seen then Some out else None, cbs_over bs' r)
       else if (u < 0x30 \<or> u > 0x39) \<or> (seen \<and> out = 0) \<or> out > q \<or> out * 10 > m
       then (None, cbs_over bs' r)
       else parse_dotted_decimal_loop (out * 10 + x) True (cbs_over bs' r))"
    unfolding m_def q_def x_def by (subst parse_dotted_decimal_loop.simps) simp
  note g = dec_guards [of u out, folded x_def, folded m_def, folded q_def]
  show ?thesis
    unfolding Cons list.case eq dg by (cases "is_digit u") (auto simp: g del: word_less_nat_alt)
qed (subst parse_dotted_decimal_loop.simps, simp)

text \<open>Reading back a numeral, up to its end.\<close>

lemma dec_loop_digits:
  "n < 2 ^ 64 \<Longrightarrow> 0 < n \<Longrightarrow>
   parse_dotted_decimal_loop 0 False (cbs_over (dec_digits n @ ys) r) =
   parse_dotted_decimal_loop (word_of_nat n) True (cbs_over ys r)"
proof (induction n arbitrary: ys rule: dec_digits.induct)
  case (1 n)
  define u :: u8 where "u = word_of_nat (0x30 + n mod 10)"
  have u: "unat u = 48 + n mod 10" unfolding u_def by (rule unat_digit) simp
  then have dig: "is_digit u" "u \<noteq> 0x2e" by (auto simp: is_digit_def)
  have split: "dec_digits n @ ys = dec_digits (n div 10) @ u # ys"
    using 1(3) by (simp add: dec_digits_pos u_def)
  show ?case
  proof (cases "n div 10 = 0")
    case True
    then have "n mod 10 = n" by (simp add: div_eq_0_iff)
    then show ?thesis using True 1(2) dig u unfolding split by (simp add: dec_loop_over)
  next
    case False
    then have "n div 10 < 2 ^ 64" using 1(2) by simp
    then have IH: "parse_dotted_decimal_loop 0 False (cbs_over (dec_digits (n div 10) @ u # ys) r) =
        parse_dotted_decimal_loop (word_of_nat (n div 10)) True (cbs_over (u # ys) r)"
      using 1(1) [of "u # ys"] 1(3) False by simp
    have o: "unat (word_of_nat (n div 10) :: u64) = n div 10"
      by (rule unat_word_of_nat_small) (use \<open>n div 10 < 2 ^ 64\<close> in simp)
    then have "word_of_nat (n div 10) \<noteq> (0 :: u64)" using False by (metis unat_0)
    moreover have "n div 10 * 10 + n mod 10 = n" by simp
    ultimately show ?thesis
      using dig u o 1(2) unfolding split IH
      by (subst dec_loop_over) (simp del: of_nat_add of_nat_mult)
  qed
qed

definition component_end :: "bytes \<Rightarrow> bytes \<Rightarrow> bool" where
  "component_end tail rest \<longleftrightarrow> (tail = [] \<and> rest = []) \<or> (tail = 0x2e # rest \<and> rest \<noteq> [])"

lemma parse_dotted_decimal_decimal:
  assumes "n < 2 ^ 64" and "component_end tail rest"
  shows "parse_dotted_decimal (cbs_over (decimal n @ tail) r) = (Some (word_of_nat n), cbs_over rest r)"
proof -
  have zero: "parse_dotted_decimal_loop v True (cbs_over tail r) = (Some v, cbs_over rest r)" for v
    using assms(2) by (auto simp: component_end_def dec_loop_over)
  show ?thesis
  proof (cases "n = 0")
    case True
    have "is_digit 0x30" by (simp add: is_digit_def)
    then show ?thesis
      using True zero [of 0] by (simp add: parse_dotted_decimal_def decimal_def dec_loop_over)
  next
    case False
    then show ?thesis
      using dec_loop_digits [OF assms(1), of tail r] zero
      by (simp add: parse_dotted_decimal_def decimal_def)
  qed
qed

text \<open>Nothing else is accepted.\<close>

lemma dec_loop_sound:
  "parse_dotted_decimal_loop out seen (cbs_over bs r) = (Some v, c') \<Longrightarrow>
   (seen \<or> out = 0) \<Longrightarrow>
   \<exists>ds tail rest. bs = ds @ tail \<and> component_end tail rest \<and> c' = cbs_over rest r \<and>
     (if seen then decimal (unat out) @ ds = decimal (unat v) else ds = decimal (unat v))"
proof (induction bs arbitrary: out seen)
  case Nil
  then show ?case by (auto simp: dec_loop_over component_end_def split: if_splits)
next
  case (Cons u bs)
  show ?case
  proof (cases "u = 0x2e \<and> bs \<noteq> []")
    case True
    then show ?thesis using Cons.prems
      by (intro exI [of _ "[]"] exI [of _ "u # bs"] exI [of _ bs])
        (auto simp: dec_loop_over component_end_def split: if_splits)
  next
    case False
    let ?n = "unat out * 10 + (unat u - 48)"
    from False Cons.prems(1) have g: "is_digit u" "\<not> (seen \<and> out = 0)" "?n < 2 ^ 64"
      and rec: "parse_dotted_decimal_loop (word_of_nat ?n) True (cbs_over bs r) = (Some v, c')"
      by (auto simp: dec_loop_over [of _ _ "u # bs"] simp del: of_nat_add of_nat_mult split: if_splits)
    have w: "unat (word_of_nat ?n :: u64) = ?n" by (rule unat_word_of_nat_small) (use g(3) in simp)
    from Cons.IH [OF rec] obtain ds tail rest where ds: "bs = ds @ tail" "component_end tail rest"
      "c' = cbs_over rest r" "decimal ?n @ ds = decimal (unat v)" using w by auto
    have u: "word_of_nat (48 + (unat u - 48)) = u" using digit_of [OF g(1)] by simp
    have d9: "unat u - 48 < 10" using g(1) by (auto simp: is_digit_def)
    have "decimal ?n = (if seen then decimal (unat out) else []) @ [u]"
    proof (cases "unat out = 0")
      case True
      then have "\<not> seen" using g(2) by (simp add: unat_eq_0)
      then show ?thesis using True d9 u
        by (cases "unat u - 48 = 0") (simp_all add: decimal_def dec_digits_pos)
    next
      case out: False
      then have "seen" using Cons.prems(2) by (auto simp: unat_eq_0)
      moreover have "?n div 10 = unat out" "?n mod 10 = unat u - 48" using d9 by simp_all
      ultimately show ?thesis using out u
        by (simp add: decimal_def dec_digits_pos [of ?n] del: of_nat_add)
    qed
    then show ?thesis using ds by (intro exI [of _ "u # ds"] exI [of _ tail] exI [of _ rest]) auto
  qed
qed

section \<open>Whole identifiers\<close>

fun oid_text :: "nat list \<Rightarrow> bytes" where
  "oid_text [] = []"
| "oid_text [n] = decimal n"
| "oid_text (n # m # ns) = decimal n @ 0x2e # oid_text (m # ns)"

text \<open>The components X.660 allows, as far as 64 bits hold them.\<close>

fun oid_valid :: "nat list \<Rightarrow> bool" where
  "oid_valid (a # b # ns) \<longleftrightarrow>
     a \<le> 2 \<and> (a < 2 \<longrightarrow> b < 40) \<and> b \<le> 2 ^ 64 - 1 - 80 \<and> (\<forall>n \<in> set ns. n < 2 ^ 64)"
| "oid_valid _ \<longleftrightarrow> False"

fun oid_body :: "nat list \<Rightarrow> bytes" where
  "oid_body (a # b # ns) = b128 (40 * a + b) @ concat (map b128 ns)"
| "oid_body _ = []"

definition oid_tail :: "nat list \<Rightarrow> bytes" where
  "oid_tail ns = (if ns = [] then [] else 0x2e # oid_text ns)"

lemma oid_text_Cons: "oid_text (n # ns) = decimal n @ oid_tail ns"
  by (cases ns) (simp_all add: oid_tail_def)

lemma oid_text_nonempty: "ns \<noteq> [] \<Longrightarrow> oid_text ns \<noteq> []"
  by (cases ns) (simp_all add: oid_text_Cons)

lemma component_end_tail: "component_end (oid_tail ns) (oid_text ns)"
  using oid_text_nonempty [of ns] by (simp add: component_end_def oid_tail_def)

lemma parse_dotted_decimal_text:
  "n < 2 ^ 64 \<Longrightarrow> parse_dotted_decimal (cbs_over (oid_text (n # ns)) r) =
     (Some (word_of_nat n), cbs_over (oid_text ns) r)"
  unfolding oid_text_Cons by (rule parse_dotted_decimal_decimal [OF _ component_end_tail])

lemma parse_dotted_decimal_sound:
  assumes "parse_dotted_decimal (cbs_over bs r) = (Some v, c')"
  shows "\<exists>rest. c' = cbs_over rest r \<and>
    (\<forall>ns. rest = oid_text ns \<longrightarrow> bs = oid_text (unat v # ns)) \<and> length rest < length bs"
proof -
  obtain ds tail rest where e: "bs = ds @ tail" "component_end tail rest" "c' = cbs_over rest r"
    "ds = decimal (unat v)"
    using dec_loop_sound [of 0 False bs r v c'] assms by (auto simp: parse_dotted_decimal_def)
  have "bs = oid_text (unat v # ns)" if "rest = oid_text ns" for ns
  proof -
    have "ns = [] \<longleftrightarrow> rest = []" using that oid_text_nonempty [of ns] by auto
    then have "tail = oid_tail ns" using e(2) that by (auto simp: component_end_def oid_tail_def)
    then show ?thesis using e by (simp add: oid_text_Cons)
  qed
  moreover have "length rest < length bs"
    using e(2,4) decimal_nonempty [of "unat v"] unfolding e(1) by (auto simp: component_end_def)
  ultimately show ?thesis using e(3) by blast
qed

text \<open>
  The loop over the remaining components, behind the component written before it: fuel for
  one round per component is enough, and the result is a writer of the encoding.
\<close>

lemma oid_components_writes:
  assumes "\<forall>n \<in> set ns. n < 2 ^ 64" and "length ns \<le> fuel"
  shows "\<exists>f. writes d f (b128 (unat v) @ concat (map b128 ns)) \<and>
    (\<forall>alloc s. (case add_base128_integer alloc d v s of
        (ok, s') \<Rightarrow> if \<not> ok then Some (False, s')
                   else oid_components fuel alloc d (cbs_over (oid_text ns) r) s') = Some (f alloc s))"
  using assms
proof (induction ns arbitrary: v fuel)
  case Nil
  show ?case
    by (intro exI [of _ "\<lambda>alloc. add_base128_integer alloc d v"])
      (simp add: writes_base128 oid_components.simps split: prod.split)
next
  case (Cons n ns)
  then obtain fuel' where fuel: "fuel = Suc fuel'" by (cases fuel) auto
  have n: "n < 2 ^ 64" using Cons.prems(1) by simp
  then have u: "unat (word_of_nat n :: u64) = n" by (intro unat_word_of_nat_small) simp
  obtain f where f: "writes d f (b128 n @ concat (map b128 ns))"
    and fs: "\<And>alloc s. (case add_base128_integer alloc d (word_of_nat n) s of
        (ok, s') \<Rightarrow> if \<not> ok then Some (False, s')
                   else oid_components fuel' alloc d (cbs_over (oid_text ns) r) s') = Some (f alloc s)"
    using Cons.IH [of fuel' "word_of_nat n"] Cons.prems fuel u by auto
  have ne: "oid_text (n # ns) \<noteq> []" by (rule oid_text_nonempty) simp
  have "oid_components fuel alloc d (cbs_over (oid_text (n # ns)) r) s = Some (f alloc s)" for alloc s
    using fs [of alloc s] ne
    by (subst oid_components.simps) (simp add: fuel parse_dotted_decimal_text [OF n] del: oid_text.simps)
  then show ?case
    by (intro exI [of _ "\<lambda>alloc. cbb_then (add_base128_integer alloc d v) (f alloc)"])
      (auto simp: cbb_then_def split: prod.split
        intro: writes_then [OF writes_base128 f, unfolded cbb_then_def])
qed

lemma oid_first_guard:
  assumes "a \<le> 2" and "a < 2 \<longrightarrow> b < 40" and "b \<le> 2 ^ 64 - 1 - 80"
  defines "wa \<equiv> word_of_nat a :: u64" and "wb \<equiv> word_of_nat b :: u64"
  shows "\<not> (wa > 2 \<or> (wa < 2 \<and> wb > 39) \<or> wb > 0xffffffffffffffff - 80)"
    and "unat (40 * wa + wb) = 40 * a + b"
proof -
  have b: "b < 2 ^ 64" using assms(3) by simp
  have u: "unat wa = a" "unat wb = b"
    unfolding wa_def wb_def by (rule unat_word_of_nat_small; use assms(1) b in simp)+
  show "\<not> (wa > 2 \<or> (wa < 2 \<and> wb > 39) \<or> wb > 0xffffffffffffffff - 80)"
    using assms(1-3) by (auto simp: word_less_nat_alt u)
  have m: "unat (40 * wa) = 40 * a"
    using assms(1) by (subst unat_mult_lem [THEN iffD1]) (simp_all add: u)
  then show "unat (40 * wa + wb) = 40 * a + b"
    using assms(1,3) by (subst unat_add_lem [THEN iffD1]) (simp_all add: u m)
qed

text \<open>A valid text is accepted and its encoding is written.\<close>

lemma oid_from_text_writes:
  assumes "oid_valid cs" and "length cs \<le> fuel"
  shows "\<exists>f. writes d f (oid_body cs) \<and>
    (\<forall>alloc s. CBB_add_asn1_oid_from_text fuel alloc d (oid_text cs @ r) (length (oid_text cs)) s =
       Some (f alloc s))"
proof -
  obtain a b ns where cs: "cs = a # b # ns" and v: "a \<le> 2" "a < 2 \<longrightarrow> b < 40" "b \<le> 2 ^ 64 - 1 - 80"
    and ns: "\<forall>n \<in> set ns. n < 2 ^ 64"
    using assms(1) by (cases cs rule: oid_valid.cases) auto
  define wa wb where "wa = (word_of_nat a :: u64)" and "wb = (word_of_nat b :: u64)"
  note G = oid_first_guard [OF v, folded wa_def wb_def]
  obtain f where f: "writes d f (b128 (40 * a + b) @ concat (map b128 ns))"
    and fs: "\<And>alloc s. (case add_base128_integer alloc d (40 * wa + wb) s of
        (ok, s') \<Rightarrow> if \<not> ok then Some (False, s')
                   else oid_components fuel alloc d (cbs_over (oid_text ns) r) s') = Some (f alloc s)"
    using oid_components_writes [OF ns, of fuel d "40 * wa + wb" r] assms(2) G(2) by (auto simp: cs)
  let ?g = "\<lambda>alloc. cbb_then (CBB_flush alloc d) (f alloc)"
  have "writes d ?g (oid_body cs)" using writes_then [OF writes_nothing f] by (simp add: cs)
  moreover have "CBB_add_asn1_oid_from_text fuel alloc d (oid_text cs @ r) (length (oid_text cs)) s =
      Some (?g alloc s)" for alloc s
  proof -
    obtain ok s1 where fl: "CBB_flush alloc d s = (ok, s1)" by fastforce
    have ab: "a < 2 ^ 64" "b < 2 ^ 64" using v by simp_all
    have i: "CBS_init (oid_text cs @ r) (length (oid_text cs)) = cbs_over (oid_text (a # b # ns)) r"
      using CBS_init_over [of "length (oid_text cs)" "oid_text cs" r] by (simp add: cs)
    show ?thesis
      using fs [of alloc s1] G(1)
      unfolding CBB_add_asn1_oid_from_text_def fl i parse_dotted_decimal_text [OF ab(1)]
        parse_dotted_decimal_text [OF ab(2)] prod.case option.case
        wa_def [symmetric] wb_def [symmetric]
      by (cases ok) (auto simp: cbb_then_def fl)
  qed
  ultimately show ?thesis by blast
qed

text \<open>Nothing but a valid text is accepted.\<close>

lemma oid_components_sound:
  "oid_components fuel alloc d (cbs_over bs r) s = Some (True, s') \<Longrightarrow>
   \<exists>ns. bs = oid_text ns \<and> (\<forall>n \<in> set ns. n < 2 ^ 64)"
proof (induction fuel arbitrary: bs s)
  case 0
  then have "bs = []" by (simp add: oid_components.simps split: if_splits)
  then show ?case by (intro exI [of _ "[]"]) simp
next
  case (Suc fuel)
  show ?case
  proof (cases "bs = []")
    case True
    then show ?thesis by (intro exI [of _ "[]"]) simp
  next
    case False
    then obtain v c' s1 where p: "parse_dotted_decimal (cbs_over bs r) = (Some v, c')"
      and rec: "oid_components fuel alloc d c' s1 = Some (True, s')"
      using Suc.prems by (subst (asm) oid_components.simps) (auto split: prod.splits option.splits if_splits)
    obtain rest where rest: "c' = cbs_over rest r"
        "\<And>ns. rest = oid_text ns \<Longrightarrow> bs = oid_text (unat v # ns)"
      using parse_dotted_decimal_sound [OF p] by blast
    have rec': "oid_components fuel alloc d (cbs_over rest r) s1 = Some (True, s')"
      using rec rest(1) by simp
    obtain ns where ns: "rest = oid_text ns" "\<forall>n \<in> set ns. n < 2 ^ 64"
      using Suc.IH [OF rec'] by blast
    have "unat v < 2 ^ 64" using unsigned_less [of v, where ?'a = nat] by simp
    then show ?thesis using rest(2) [OF ns(1)] ns(2) by (intro exI [of _ "unat v # ns"]) simp
  qed
qed

lemma oid_from_text_sound:
  assumes "CBB_add_asn1_oid_from_text fuel alloc d (txt @ r) (length txt) s = Some (True, s')"
  shows "\<exists>cs. oid_valid cs \<and> txt = oid_text cs"
proof -
  have i: "CBS_init (txt @ r) (length txt) = cbs_over txt r"
    using CBS_init_over [of "length txt" "txt" r] by simp
  obtain a c1 b c2 s2 where p1: "parse_dotted_decimal (cbs_over txt r) = (Some a, c1)"
    and p2: "parse_dotted_decimal c1 = (Some b, c2)"
    and g: "\<not> (a > 2 \<or> (a < 2 \<and> b > 39) \<or> b > 0xffffffffffffffff - 80)"
    and rec: "oid_components fuel alloc d c2 s2 = Some (True, s')"
    using assms unfolding CBB_add_asn1_oid_from_text_def i
    by (auto split: prod.splits option.splits if_splits)
  obtain r1 where r1: "c1 = cbs_over r1 r" "\<And>ns. r1 = oid_text ns \<Longrightarrow> txt = oid_text (unat a # ns)"
    using parse_dotted_decimal_sound [OF p1] by blast
  obtain r2 where r2: "c2 = cbs_over r2 r" "\<And>ns. r2 = oid_text ns \<Longrightarrow> r1 = oid_text (unat b # ns)"
    using parse_dotted_decimal_sound [OF p2 [unfolded r1(1)]] by blast
  obtain ns where ns: "r2 = oid_text ns" "\<forall>n \<in> set ns. n < 2 ^ 64"
    using oid_components_sound [OF rec [unfolded r2(1)]] by blast
  have "txt = oid_text (unat a # unat b # ns)" using r1(2) r2(2) ns(1) by blast
  moreover have "oid_valid (unat a # unat b # ns)"
    using g ns(2) by (auto simp: word_less_nat_alt not_less)
  ultimately show ?thesis by blast
qed

section \<open>Back to text\<close>

lemma parse_base128_b128:
  "n < 2 ^ 64 \<Longrightarrow> parse_base128_integer (cbs_over (b128 n @ bs) r) = (Some (word_of_nat n), cbs_over bs r)"
  using parse_base128_complete [of n bs r] by simp

lemma length_dec_digits: "n < 10 ^ k \<Longrightarrow> length (dec_digits n) \<le> k"
proof (induction k arbitrary: n)
  case (Suc k)
  show ?case
  proof (cases "n = 0")
    case False
    have "n div 10 < 10 ^ k" using Suc.prems by (simp add: less_mult_imp_div_less mult.commute)
    then show ?thesis using Suc.IH False by (simp add: dec_digits_pos)
  qed simp
qed simp

lemma length_decimal: "n < 2 ^ 64 \<Longrightarrow> length (decimal n) \<le> 20"
  using length_dec_digits [of n 20] by (simp add: decimal_def)

lemma writes_decimal: "writes d (\<lambda>alloc. add_decimal alloc d v) (decimal (unat v))"
proof -
  have "unat v < 2 ^ 64" using unsigned_less [of v, where ?'a = nat] by simp
  then have "length (decimal (unat v)) < 2 ^ 63" using length_decimal [of "unat v"] by simp
  then show ?thesis
    using writes_bytes [of "length (decimal (unat v))" "decimal (unat v)" d]
    by (simp add: add_decimal_def Let_def)
qed

lemma oid_text_loop_writes:
  assumes "\<forall>n \<in> set ns. n < 2 ^ 64" and "length ns \<le> fuel" and "writes 0 g bs"
  shows "\<exists>f. writes 0 f (bs @ oid_tail ns) \<and>
    (\<forall>alloc s. (case g alloc s of
        (ok, s') \<Rightarrow> if \<not> ok then Some (False, s')
                   else oid_text_loop fuel alloc (cbs_over (concat (map b128 ns)) r) s') = Some (f alloc s))"
  using assms
proof (induction ns arbitrary: g bs fuel)
  case Nil
  then show ?case
    by (intro exI [of _ g]) (simp add: oid_tail_def oid_text_loop.simps split: prod.split)
next
  case (Cons n ns)
  then obtain fuel' where fuel: "fuel = Suc fuel'" by (cases fuel) auto
  have n: "n < 2 ^ 64" using Cons.prems(1) by simp
  then have u: "unat (word_of_nat n :: u64) = n" by (intro unat_word_of_nat_small) simp
  let ?g = "\<lambda>alloc. cbb_then (g alloc)
      (cbb_then (CBB_add_u8 alloc 0 0x2e) (add_decimal alloc 0 (word_of_nat n)))"
  have g: "writes 0 ?g (bs @ [0x2e] @ decimal n)"
    using writes_then [OF Cons.prems(3) writes_then [OF writes_u8 writes_decimal], of "0x2e" "word_of_nat n"]
    by (simp add: u)
  obtain f where f: "writes 0 f ((bs @ [0x2e] @ decimal n) @ oid_tail ns)"
    and fs: "\<And>alloc s. (case ?g alloc s of
        (ok, s') \<Rightarrow> if \<not> ok then Some (False, s')
                   else oid_text_loop fuel' alloc (cbs_over (concat (map b128 ns)) r) s') = Some (f alloc s)"
    using Cons.IH [OF _ _ g, of fuel'] Cons.prems fuel by auto
  have loop: "oid_text_loop fuel alloc (cbs_over (concat (map b128 (n # ns))) r) s =
      (case cbb_then (CBB_add_u8 alloc 0 0x2e) (add_decimal alloc 0 (word_of_nat n)) s of
         (ok, s') \<Rightarrow> if \<not> ok then Some (False, s')
                    else oid_text_loop fuel' alloc (cbs_over (concat (map b128 ns)) r) s')" for alloc s
    by (subst oid_text_loop.simps) (simp add: fuel parse_base128_b128 [OF n])
  have "(case g alloc s of (ok, s') \<Rightarrow> if \<not> ok then Some (False, s')
           else oid_text_loop fuel alloc (cbs_over (concat (map b128 (n # ns))) r) s') = Some (f alloc s)"
    for alloc s
  proof -
    obtain ok1 s1 where 1: "g alloc s = (ok1, s1)" by fastforce
    obtain ok2 s2 where 2:
      "cbb_then (CBB_add_u8 alloc 0 0x2e) (add_decimal alloc 0 (word_of_nat n)) s1 = (ok2, s2)"
      by fastforce
    have "?g alloc s = (if ok1 then (ok2, s2) else (False, s1))"
      by (subst cbb_then_def) (simp add: 1 2)
    then show ?thesis using fs [of alloc s] unfolding loop 1 by (simp add: 2 split: if_splits)
  qed
  moreover have "writes 0 f (bs @ oid_tail (n # ns))"
    using f by (simp add: oid_tail_def oid_text_Cons split: if_splits)
  ultimately show ?case by blast
qed

lemma oid_first_text:
  assumes "a \<le> 2" and "a < 2 \<longrightarrow> b < 40" and "b \<le> 2 ^ 64 - 1 - 80"
  defines "v \<equiv> word_of_nat (40 * a + b) :: u64"
  shows "writes 0 (\<lambda>alloc. if v \<ge> 80
      then cbb_then (CBB_add_bytes alloc 0 [0x32, 0x2e] 2) (add_decimal alloc 0 (v - 80))
      else cbb_then (add_decimal alloc 0 (v div 40))
             (cbb_then (CBB_add_u8 alloc 0 0x2e) (add_decimal alloc 0 (v mod 40))))
    (decimal a @ 0x2e # decimal b)"
proof -
  have u: "unat v = 40 * a + b"
    unfolding v_def by (rule unat_word_of_nat_small) (use assms(1,3) in simp)
  have two: "decimal 2 = [0x32]" by (simp add: decimal_def dec_digits_pos)
  show ?thesis
  proof (cases "a = 2")
    case True
    then have ge: "v \<ge> 80" using u by (simp add: word_le_nat_alt)
    then have "unat (v - 80) = b" using u True by (simp add: unat_sub)
    then show ?thesis
      using writes_then [OF writes_bytes [of 2 "[0x32, 0x2e]"] writes_decimal, of 0 "v - 80"] ge True two
      by simp
  next
    case False
    then have ab: "a < 2" "b < 40" using assms(1,2) by auto
    then have lt: "\<not> v \<ge> 80" using u by (simp add: word_le_nat_alt)
    have "unat (v div 40) = a" "unat (v mod 40) = b" using u ab by (simp_all add: unat_div unat_mod)
    then show ?thesis
      using writes_then [OF writes_decimal writes_then [OF writes_u8 writes_decimal],
          of 0 "v div 40" "0x2e" "v mod 40"] lt by simp
  qed
qed

text \<open>
  The two directions fit: the text of an encoding that came from a valid text is that text,
  with a terminating 0.
\<close>

lemma oid_to_text:
  assumes "oid_valid cs" and "length cs \<le> fuel"
  shows "\<exists>f. writes 0 f (oid_text cs @ [0]) \<and>
    (\<forall>alloc. CBS_asn1_oid_to_text fuel alloc (cbs_over (oid_body cs) r) = Some (cbb_build 32 f alloc))"
proof -
  obtain a b ns where cs: "cs = a # b # ns" and v: "a \<le> 2" "a < 2 \<longrightarrow> b < 40" "b \<le> 2 ^ 64 - 1 - 80"
    and ns: "\<forall>n \<in> set ns. n < 2 ^ 64"
    using assms(1) by (cases cs rule: oid_valid.cases) auto
  define w where "w = (word_of_nat (40 * a + b) :: u64)"
  define first where "first = (\<lambda>alloc. if w \<ge> 80
      then cbb_then (CBB_add_bytes alloc 0 [0x32, 0x2e] 2) (add_decimal alloc 0 (w - 80))
      else cbb_then (add_decimal alloc 0 (w div 40))
             (cbb_then (CBB_add_u8 alloc 0 0x2e) (add_decimal alloc 0 (w mod 40))))"
  have wf: "writes 0 first (decimal a @ 0x2e # decimal b)"
    unfolding first_def w_def by (rule oid_first_text [OF v])
  obtain f where f: "writes 0 f ((decimal a @ 0x2e # decimal b) @ oid_tail ns)"
    and fs: "\<And>alloc s. (case first alloc s of
        (ok, s') \<Rightarrow> if \<not> ok then Some (False, s')
                   else oid_text_loop fuel alloc (cbs_over (concat (map b128 ns)) r) s') = Some (f alloc s)"
    using oid_text_loop_writes [OF ns _ wf, of fuel r] assms(2) by (auto simp: cs)
  let ?g = "\<lambda>alloc. cbb_then (f alloc) (CBB_add_u8 alloc 0 0)"
  have "writes 0 ?g (oid_text cs @ [0])"
    using writes_then [OF f writes_u8, of 0] by (simp add: cs oid_text_Cons oid_tail_def)
  moreover have "CBS_asn1_oid_to_text fuel alloc (cbs_over (oid_body cs) r) = Some (cbb_build 32 ?g alloc)" for alloc
  proof -
    obtain ok s0 where i: "CBB_init alloc 32 = (ok, s0)" by fastforce
    obtain ok1 s1 where 1: "first alloc s0 = (ok1, s1)" by fastforce
    have lt: "40 * a + b < 2 ^ 64" using v by simp
    have p: "parse_base128_integer (cbs_over (oid_body cs) r) = (Some w, cbs_over (concat (map b128 ns)) r)"
      using parse_base128_b128 [OF lt] by (simp add: cs w_def)
    have fs0: "(if \<not> ok1 then Some (False, s1)
        else oid_text_loop fuel alloc (cbs_over (concat (map b128 ns)) r) s1) = Some (f alloc s0)"
      using fs [of alloc s0] by (simp add: 1)
    have body: "CBS_asn1_oid_to_text fuel alloc (cbs_over (oid_body cs) r) =
      (if \<not> ok then Some None
       else if \<not> ok1 then Some None
       else map_option (\<lambda>(ok, s2). if \<not> ok then None
              else case CBB_add_u8 alloc 0 0 s2 of (ok, s3) \<Rightarrow> if \<not> ok then None
                else case CBB_finish alloc 0 True True s3 of (None, _) \<Rightarrow> None
                  | (Some (t, n), _) \<Rightarrow> Some (take n t))
          (oid_text_loop fuel alloc (cbs_over (concat (map b128 ns)) r) s1))"
      unfolding CBS_asn1_oid_to_text_def i p using 1
      by (simp add: first_def split: prod.split)
    show ?thesis
      unfolding body using fs0
      by (cases "f alloc s0"; cases ok; cases ok1)
        (auto simp: cbb_build_def i cbb_then_def split: prod.split option.split)
  qed
  ultimately show ?thesis by blast
qed

end
