(* ===== verification/Ber.thy ===== *)
theory Ber
  imports Asn1_write
begin

text \<open>
  The BER to DER conversion of crypto/bytestring/ber.c: a walk that looks for indefinite
  lengths and constructed strings, and the rewriting into a builder.
\<close>

section \<open>Operations\<close>

definition kMaxDepth :: nat where
  "kMaxDepth = 2048"

definition is_string_type :: "u32 \<Rightarrow> bool" where
  "is_string_type tag \<longleftrightarrow>
     tag AND NOT CBS_ASN1_CONSTRUCTED \<in>
       {0x3, 0x4, 0xc, 0x12, 0x13, 0x14, 0x15, 0x16, 0x19, 0x1a, 0x1b, 0x1c, 0x1e}"

text \<open>The test for an indefinite length, on an element and its header length.\<close>

definition indefinite_length :: "cbs \<Rightarrow> nat \<Rightarrow> bool" where
  "indefinite_length contents header_len \<longleftrightarrow>
     CBS_len contents = header_len \<and> header_len > 0 \<and> CBS_data contents ! (header_len - 1) = 0x80"

lemma any_element_lens:
  assumes "cbs_get_any_asn1_element ber_ok c = (Some (out, t, hl), c')"
  shows "cbs_len out + cbs_len c' = cbs_len c \<and> 0 < hl \<and> hl \<le> cbs_len out"
proof -
  obtain t1 h1 where p: "parse_asn1_tag c = (Some t1, h1)"
    using assms by (auto simp: cbs_get_any_asn1_element_def split: prod.splits option.splits)
  then obtain lb h2 where g: "CBS_get_u8 h1 = (Some lb, h2)"
    using assms by (auto simp: cbs_get_any_asn1_element_def split: prod.splits option.splits)
  have "cbs_len h1 < cbs_len c" using p by (rule parse_asn1_tag_len)
  moreover have "cbs_len h2 < cbs_len h1" using g by (rule u8_reader.progress)
  ultimately have "0 < CBS_len c - CBS_len h2" by (simp add: CBS_len_def)
  then show ?thesis
    using assms p g
    by (auto simp: cbs_get_any_asn1_element_def CBS_get_bytes_def cbs_get_def CBS_init_def Let_def
        split: if_splits prod.splits option.splits)
qed

text \<open>
  The loop of \<open>cbs_find_ber\<close>: the result and \<open>*ber_found\<close>.  A nested call starts by
  clearing \<open>*ber_found\<close>, and its caller goes on with what it left there.
\<close>

function find_ber_loop :: "nat \<Rightarrow> bool \<Rightarrow> cbs \<Rightarrow> bool \<times> bool" where
  "find_ber_loop depth ber_found c =
     (if CBS_len c = 0 then (True, ber_found)
      else
        (case CBS_get_any_ber_asn1_element c of
           (None, _) \<Rightarrow> (False, ber_found)
         | (Some (contents, tag, header_len), c') \<Rightarrow>
             if indefinite_length contents header_len then (True, True)
             else if tag AND CBS_ASN1_CONSTRUCTED \<noteq> 0 then
               (if is_string_type tag then (True, True)
                else
                  (case CBS_skip header_len contents of
                     (None, _) \<Rightarrow> (False, ber_found)
                   | (Some _, body) \<Rightarrow>
                       if depth + 1 > kMaxDepth then (False, ber_found)
                       else
                         (case find_ber_loop (depth + 1) False body of
                            (ok, ber_found') \<Rightarrow>
                              if \<not> ok then (False, ber_found')
                              else find_ber_loop depth ber_found' c')))
             else find_ber_loop depth ber_found c'))"
  by pat_completeness auto
termination
  by (relation "measure (\<lambda>(_, _, c). cbs_len c)")
    (auto simp: CBS_get_any_ber_asn1_element_def CBS_skip_def cbs_get_def CBS_len_def
      dest!: any_element_lens [OF sym] split: if_splits)

declare find_ber_loop.simps [simp del]

definition cbs_find_ber :: "nat \<Rightarrow> cbs \<Rightarrow> bool \<times> bool" where
  "cbs_find_ber depth orig_in =
     (if depth > kMaxDepth then (False, False)
      else find_ber_loop depth False (CBS_init (CBS_data orig_in) (CBS_len orig_in)))"

definition is_eoc :: "nat \<Rightarrow> cbs \<Rightarrow> bool" where
  "is_eoc header_len contents \<longleftrightarrow>
     header_len = 2 \<and> CBS_len contents = 2 \<and> take 2 (CBS_data contents) = [0, 0]"

text \<open>
  The loop of \<open>cbs_convert_ber\<close>.  Nested calls work on the same input when the length is
  indefinite, so the input left over is part of the result: \<open>Some (ok, in, out)\<close>, or
  \<open>None\<close> out of fuel.  Every round consumes input, so the input length is fuel enough.
\<close>

fun convert_ber_loop ::
    "nat \<Rightarrow> (nat \<Rightarrow> bool) \<Rightarrow> u32 \<Rightarrow> bool \<Rightarrow> nat \<Rightarrow> nat \<Rightarrow> cbs \<Rightarrow> cbb \<Rightarrow> (bool \<times> cbs \<times> cbb) option" where
  "convert_ber_loop fuel alloc string_tag looking_for_eoc depth d c s =
     (if CBS_len c = 0 then Some (\<not> looking_for_eoc, c, s)
      else
        (case fuel of
           0 \<Rightarrow> None
         | Suc fuel' \<Rightarrow>
        (case CBS_get_any_ber_asn1_element c of
           (None, c') \<Rightarrow> Some (False, c', s)
         | (Some (contents, tag, header_len), c') \<Rightarrow>
             if is_eoc header_len contents then Some (looking_for_eoc, c', s)
             else if string_tag \<noteq> 0 \<and> tag AND NOT CBS_ASN1_CONSTRUCTED \<noteq> string_tag
             then Some (False, c', s)
             else
               (let constructed_string = tag AND CBS_ASN1_CONSTRUCTED \<noteq> 0 \<and> is_string_type tag;
                    out_tag = (if constructed_string then tag AND NOT CBS_ASN1_CONSTRUCTED else tag);
                    child_string_tag =
                      (if string_tag \<noteq> 0 then string_tag
                       else if constructed_string then out_tag else string_tag);
                    out_contents = (if string_tag \<noteq> 0 then d else Suc d)
                in
                case (if string_tag \<noteq> 0 then (True, s) else CBB_add_asn1 alloc d out_tag s) of
                  (ok, s1) \<Rightarrow>
                if \<not> ok then Some (False, c', s1)
                else if indefinite_length contents header_len then
                  (if depth + 1 > kMaxDepth then Some (False, c', s1)
                   else
                     (case convert_ber_loop fuel' alloc child_string_tag True (depth + 1) out_contents c' s1 of
                        None \<Rightarrow> None
                      | Some (ok, c2, s2) \<Rightarrow>
                          if \<not> ok then Some (False, c2, s2)
                          else
                            (case CBB_flush alloc d s2 of
                               (ok, s3) \<Rightarrow>
                                 if \<not> ok then Some (False, c2, s3)
                                 else convert_ber_loop fuel' alloc string_tag looking_for_eoc depth d c2 s3)))
                else
                  (case CBS_skip header_len contents of
                     (None, _) \<Rightarrow> Some (False, c', s1)
                   | (Some _, body) \<Rightarrow>
                       (case (if tag AND CBS_ASN1_CONSTRUCTED \<noteq> 0 then
                                (if depth + 1 > kMaxDepth then Some (False, s1)
                                 else map_option (\<lambda>(ok, _, s2). (ok, s2))
                                        (convert_ber_loop fuel' alloc child_string_tag False (depth + 1)
                                           out_contents body s1))
                              else Some (CBB_add_bytes alloc out_contents (CBS_data body) (CBS_len body) s1)) of
                          None \<Rightarrow> None
                        | Some (ok, s2) \<Rightarrow>
                            if \<not> ok then Some (False, c', s2)
                            else
                              (case CBB_flush alloc d s2 of
                                 (ok, s3) \<Rightarrow>
                                   if \<not> ok then Some (False, c', s3)
                                   else convert_ber_loop fuel' alloc string_tag looking_for_eoc depth d c' s3)))))))"

declare convert_ber_loop.simps [simp del]

definition cbs_convert_ber ::
    "nat \<Rightarrow> (nat \<Rightarrow> bool) \<Rightarrow> u32 \<Rightarrow> bool \<Rightarrow> nat \<Rightarrow> nat \<Rightarrow> cbs \<Rightarrow> cbb \<Rightarrow> (bool \<times> cbs \<times> cbb) option" where
  "cbs_convert_ber fuel alloc string_tag looking_for_eoc depth d c s =
     (if depth > kMaxDepth then Some (False, c, s)
      else convert_ber_loop fuel alloc string_tag looking_for_eoc depth d c s)"

text \<open>
  \<open>CBS_asn1_ber_to_der\<close>: the return value, the output \<open>CBS\<close>, \<open>*out_storage\<close> and the
  input left.  \<open>None\<close> is running out of fuel.
\<close>

definition CBS_asn1_ber_to_der ::
    "nat \<Rightarrow> (nat \<Rightarrow> bool) \<Rightarrow> cbs \<Rightarrow> ((cbs \<times> bytes option) option \<times> cbs) option" where
  "CBS_asn1_ber_to_der fuel alloc c =
     (case cbs_find_ber 0 c of
        (ok, conversion_needed) \<Rightarrow>
          if \<not> ok then Some (None, c)
          else if \<not> conversion_needed then
            (case CBS_get_any_asn1_element c of
               (None, c') \<Rightarrow> Some (None, c')
             | (Some (out, _, _), c') \<Rightarrow> Some (Some (out, None), c'))
          else
            (case CBB_init alloc (CBS_len c) of
               (ok, s) \<Rightarrow>
                 if \<not> ok then Some (None, c)
                 else
                   (case cbs_convert_ber fuel alloc 0 False 0 0 c s of
                      None \<Rightarrow> None
                    | Some (ok, c', s') \<Rightarrow>
                        if \<not> ok then Some (None, c')
                        else
                          (case CBB_finish alloc 0 True True s' of
                             (None, _) \<Rightarrow> Some (None, c')
                           | (Some (out_storage, len), _) \<Rightarrow>
                               Some (Some (CBS_init out_storage len, Some out_storage), c')))))"

text \<open>\<open>CBS_get_asn1_implicit_string\<close>, with its loop over the fragments.\<close>

fun implicit_string_loop :: "nat \<Rightarrow> (nat \<Rightarrow> bool) \<Rightarrow> u32 \<Rightarrow> cbs \<Rightarrow> cbb \<Rightarrow> (bool \<times> cbb) option" where
  "implicit_string_loop fuel alloc inner_tag child result =
     (if CBS_len child = 0 then Some (True, result)
      else
        (case fuel of
           0 \<Rightarrow> None
         | Suc fuel' \<Rightarrow>
             (case CBS_get_asn1 inner_tag child of
                (None, _) \<Rightarrow> Some (False, result)
              | (Some chunk, child') \<Rightarrow>
                  (case CBB_add_bytes alloc 0 (CBS_data chunk) (CBS_len chunk) result of
                     (ok, result') \<Rightarrow>
                       if \<not> ok then Some (False, result')
                       else implicit_string_loop fuel' alloc inner_tag child' result'))))"

declare implicit_string_loop.simps [simp del]

definition CBS_get_asn1_implicit_string ::
    "nat \<Rightarrow> (nat \<Rightarrow> bool) \<Rightarrow> u32 \<Rightarrow> u32 \<Rightarrow> cbs \<Rightarrow> ((cbs \<times> bytes option) option \<times> cbs) option" where
  "CBS_get_asn1_implicit_string fuel alloc outer_tag inner_tag c =
     (if CBS_peek_asn1_tag c outer_tag then
        (case CBS_get_asn1 outer_tag c of
           (out, c') \<Rightarrow> Some (map_option (\<lambda>out. (out, None)) out, c'))
      else
        (case CBB_init alloc (CBS_len c) of
           (ok, result) \<Rightarrow>
             if \<not> ok then Some (None, c)
             else
               (case CBS_get_asn1 (outer_tag OR CBS_ASN1_CONSTRUCTED) c of
                  (None, c') \<Rightarrow> Some (None, c')
                | (Some child, c') \<Rightarrow>
                    map_option
                      (\<lambda>(ok, result').
                         if \<not> ok then (None, c')
                         else
                           (case CBB_finish alloc 0 True True result' of
                              (None, _) \<Rightarrow> (None, c')
                            | (Some (data, len), _) \<Rightarrow> (Some (CBS_init data len, Some data), c')))
                      (implicit_string_loop fuel alloc inner_tag child result))))"

section \<open>The conversion ends\<close>

lemma ber_element_lens:
  "CBS_get_any_ber_asn1_element c = (Some (out, t, hl), c') \<Longrightarrow>
   cbs_len out + cbs_len c' = cbs_len c \<and> 0 < hl \<and> hl \<le> cbs_len out"
  unfolding CBS_get_any_ber_asn1_element_def by (rule any_element_lens)

lemma CBS_skip_len: "CBS_skip n c = (Some x, c') \<Longrightarrow> cbs_len c' = cbs_len c - n \<and> n \<le> cbs_len c"
  by (auto simp: CBS_skip_def cbs_get_def split: if_splits)

text \<open>Input only gets shorter, and fuel for its length is enough at every depth.\<close>

lemma ber_element_failure_len:
  "CBS_get_any_ber_asn1_element c = (x, c') \<Longrightarrow> cbs_len c' \<le> cbs_len c"
  using ber_element_lens [of c] any_element_failure [of True c c']
  by (cases x) (auto simp: CBS_get_any_ber_asn1_element_def)

lemma convert_ber_loop_ends:
  "cbs_len c \<le> fuel \<Longrightarrow>
   \<exists>ok c' s'. convert_ber_loop fuel alloc st look depth d c s = Some (ok, c', s') \<and>
     cbs_len c' \<le> cbs_len c"
proof (induction fuel arbitrary: st look depth d c s)
  case 0
  then show ?case by (subst convert_ber_loop.simps) (simp add: CBS_len_def)
next
  case (Suc fuel)
  show ?case
  proof (cases "CBS_len c = 0")
    case True
    then show ?thesis by (subst convert_ber_loop.simps) simp
  next
    case False
    obtain x c1 where e: "CBS_get_any_ber_asn1_element c = (x, c1)" by fastforce
    have le: "cbs_len c1 \<le> cbs_len c" using e by (rule ber_element_failure_len)
    show ?thesis
    proof (cases x)
      case None
      then show ?thesis using False e le by (subst convert_ber_loop.simps) auto
    next
      case (Some y)
      obtain contents t hl where y: "y = (contents, t, hl)" by (cases y) auto
      have L: "cbs_len contents + cbs_len c1 = cbs_len c" "0 < hl" "hl \<le> cbs_len contents"
        using ber_element_lens [of c contents t hl c1] e Some y by auto
      then have c1: "cbs_len c1 \<le> fuel" and ctl: "cbs_len contents - hl \<le> fuel" using Suc.prems by auto
      define cs where "cs = (t AND CBS_ASN1_CONSTRUCTED \<noteq> 0 \<and> is_string_type t)"
      define ot where "ot = (if cs then t AND NOT CBS_ASN1_CONSTRUCTED else t)"
      define ct where "ct = (if st \<noteq> 0 then st else if cs then ot else st)"
      define oc where "oc = (if st \<noteq> 0 then d else Suc d)"
      obtain ok s1 where o: "(if st \<noteq> 0 then (True, s) else CBB_add_asn1 alloc d ot s) = (ok, s1)"
        by fastforce
      note eq = convert_ber_loop.simps [of "Suc fuel" alloc st look depth d c s, unfolded e Some y
          prod.case option.case nat.case if_not_P [OF False] Let_def, folded cs_def, folded ot_def,
          folded ct_def, folded oc_def, unfolded o prod.case]
      consider "is_eoc hl contents \<or> (st \<noteq> 0 \<and> t AND NOT CBS_ASN1_CONSTRUCTED \<noteq> st) \<or> \<not> ok"
        | "\<not> is_eoc hl contents" "\<not> (st \<noteq> 0 \<and> t AND NOT CBS_ASN1_CONSTRUCTED \<noteq> st)" ok
          "indefinite_length contents hl"
        | "\<not> is_eoc hl contents" "\<not> (st \<noteq> 0 \<and> t AND NOT CBS_ASN1_CONSTRUCTED \<noteq> st)" ok
          "\<not> indefinite_length contents hl" by blast
      then show ?thesis
      proof cases
        case 1
        then show ?thesis using le eq by auto
      next
        case 2
        obtain ok2 c2 s2 where r: "convert_ber_loop fuel alloc ct True (depth + 1) oc c1 s1 = Some (ok2, c2, s2)"
          and l2: "cbs_len c2 \<le> cbs_len c1" using Suc.IH [OF c1] by blast
        obtain ok3 s3 where f: "CBB_flush alloc d s2 = (ok3, s3)" by fastforce
        have "cbs_len c2 \<le> fuel" using l2 c1 by simp
        then obtain ok4 c4 s4 where "convert_ber_loop fuel alloc st look depth d c2 s3 = Some (ok4, c4, s4)"
          and "cbs_len c4 \<le> cbs_len c2" using Suc.IH by blast
        then show ?thesis using 2 l2 le eq r f
          by (cases "depth + 1 > kMaxDepth"; cases ok2; cases ok3) auto
      next
        case 3
        obtain z body where sk: "CBS_skip hl contents = (z, body)" by fastforce
        show ?thesis
        proof (cases z)
          case None
          then show ?thesis using 3 le eq sk by auto
        next
          case (Some u)
          then have "cbs_len body \<le> fuel" using CBS_skip_len [of hl contents u body] sk ctl by simp
          then obtain ok2 c2 s2 where r: "convert_ber_loop fuel alloc ct False (depth + 1) oc body s1 =
              Some (ok2, c2, s2)" using Suc.IH by blast
          define inner where "inner = (if t AND CBS_ASN1_CONSTRUCTED \<noteq> 0 then
              (if depth + 1 > kMaxDepth then Some (False, s1)
               else map_option (\<lambda>(ok, _, s2). (ok, s2)) (convert_ber_loop fuel alloc ct False (depth + 1) oc body s1))
            else Some (CBB_add_bytes alloc oc (CBS_data body) (CBS_len body) s1))"
          have "inner \<noteq> None" using r by (auto simp: inner_def)
          then obtain ok3 s3 where i: "inner = Some (ok3, s3)" by auto
          obtain ok4 s4 where f: "CBB_flush alloc d s3 = (ok4, s4)" by fastforce
          obtain ok5 c5 s5 where "convert_ber_loop fuel alloc st look depth d c1 s4 = Some (ok5, c5, s5)"
            and "cbs_len c5 \<le> cbs_len c1" using Suc.IH [OF c1] by blast
          then show ?thesis using 3 le Some
            unfolding eq sk prod.case option.case inner_def [symmetric] i
            by (cases ok3; cases ok4) (auto simp: f)
        qed
      qed
    qed
  qed
qed

section \<open>The specification: BER values and their DER\<close>

text \<open>
  A BER value is primitive, or constructed with a definite or an indefinite length
  (the flag).  \<open>ber_bytes\<close> is how it is written, \<open>der_of\<close> the DER it stands for: lengths
  become definite and a constructed string becomes the concatenation of its pieces.
\<close>

datatype ber = Prim u32 bytes | Constr u32 bool "ber list"

fun ber_bytes :: "ber \<Rightarrow> bytes" where
  "ber_bytes (Prim t bs) = der_element t bs"
| "ber_bytes (Constr t indef cs) =
     (let body = concat (map ber_bytes cs)
      in if indef then der_tag t @ 0x80 # body @ [0, 0] else der_element t body)"

definition constructed :: "u32 \<Rightarrow> bool" where
  "constructed t \<longleftrightarrow> t AND CBS_ASN1_CONSTRUCTED \<noteq> 0"

definition base_tag :: "u32 \<Rightarrow> u32" where
  "base_tag t = t AND NOT CBS_ASN1_CONSTRUCTED"

fun string_of :: "ber \<Rightarrow> bytes" where
  "string_of (Prim t bs) = bs"
| "string_of (Constr t indef cs) = concat (map string_of cs)"

fun der_of :: "ber \<Rightarrow> bytes" where
  "der_of (Prim t bs) = der_element t bs"
| "der_of (Constr t indef cs) =
     (if is_string_type t then der_element (base_tag t) (concat (map string_of cs))
      else der_element t (concat (map der_of cs)))"

text \<open>What a value becomes below \<open>string_tag\<close> (0 for none).\<close>

definition converted :: "u32 \<Rightarrow> ber \<Rightarrow> bytes" where
  "converted st v = (if st \<noteq> 0 then string_of v else der_of v)"

fun height :: "ber \<Rightarrow> nat" where
  "height (Prim t bs) = 0"
| "height (Constr t indef cs) = Suc (foldr max (map height cs) 0)"

fun ber_valid :: "u32 \<Rightarrow> ber \<Rightarrow> bool" where
  "ber_valid st (Prim t bs) \<longleftrightarrow>
     \<not> constructed t \<and> \<not> (t = 0 \<and> bs = []) \<and> length bs \<le> 0xfffffffe \<and> (st \<noteq> 0 \<longrightarrow> t = st)"
| "ber_valid st (Constr t indef cs) \<longleftrightarrow>
     constructed t \<and> (st \<noteq> 0 \<longrightarrow> base_tag t = st) \<and>
     (\<not> indef \<longrightarrow> length (concat (map ber_bytes cs)) \<le> 0xfffffffe) \<and>
     (let st' = (if st \<noteq> 0 then st else if is_string_type t then base_tag t else 0)
      in (\<forall>c \<in> set cs. ber_valid st' c) \<and>
         length (concat (map (converted st') cs)) \<le> 0xfffffffe)"

lemma foldr_max_le: "x \<in> set xs \<Longrightarrow> x \<le> foldr max xs (0 :: nat)"
  by (induction xs) auto

lemma height_child: "c \<in> set cs \<Longrightarrow> height c < height (Constr t i cs)"
  using foldr_max_le [of "height c" "map height cs"] by auto

lemma ber_bytes_nonempty [simp]: "ber_bytes v \<noteq> []"
  by (cases v) (simp_all add: Let_def)

section \<open>Tags and the constructed bit\<close>

lemma constructed_bit: "CBS_ASN1_CONSTRUCTED = push_bit 29 1"
  by (simp add: CBS_ASN1_CONSTRUCTED_def push_bit_eq_mult)

lemma bit_constructed: "bit CBS_ASN1_CONSTRUCTED n \<longleftrightarrow> n = 29"
  unfolding constructed_bit by (auto simp only: bit_push_bit_iff bit_1_iff) simp_all

lemma constructed_iff: "constructed t \<longleftrightarrow> bit t 29"
  unfolding constructed_def constructed_bit by (simp only: bit_iff_and_push_bit_not_eq_0)

lemma base_tag_primitive: "\<not> constructed t \<Longrightarrow> base_tag t = t"
  unfolding constructed_iff base_tag_def
  by (intro bit_word_eqI) (auto simp: bit_simps bit_constructed)

lemma not_constructed_base [simp]: "\<not> constructed (base_tag t)"
  unfolding constructed_iff base_tag_def by (simp add: bit_simps bit_constructed)

lemma base_tag_idem [simp]: "base_tag (base_tag t) = base_tag t"
  by (rule base_tag_primitive) simp

lemma is_string_base: "is_string_type t \<Longrightarrow> base_tag t \<noteq> 0"
  by (auto simp: is_string_type_def base_tag_def)

text \<open>The element reader on an indefinite length: just the header is returned.\<close>

lemma indefinite_decodes:
  assumes "constructed t"
  shows "CBS_get_any_ber_asn1_element (cbs_over (der_tag t @ 0x80 # bs) r) =
    (Some (cbs_over (der_tag t @ [0x80]) (bs @ r), t, length (der_tag t) + 1), cbs_over bs r)"
proof -
  have "der_tag t @ 0x80 # bs = (der_tag t @ [0x80]) @ bs" by simp
  have b: "(0x80 AND 0x80 :: u8) \<noteq> 0" "unat (0x80 AND 0x7f :: u8) = 0" by simp_all
  have "CBS_get_bytes (length (der_tag t) + 1) (cbs_over ((der_tag t @ [0x80]) @ bs) r) =
      (Some (cbs_over (der_tag t @ [0x80]) (bs @ r)), cbs_over bs r)"
    unfolding CBS_get_bytes_over by simp
  then show ?thesis
    using assms b
    by (simp add: CBS_get_any_ber_asn1_element_def cbs_get_any_asn1_element_def constructed_def Let_def)
qed

lemma indefinite_header:
  "indefinite_length (cbs_over (der_tag t @ [0x80]) r) (length (der_tag t) + 1)"
  by (simp add: indefinite_length_def nth_append)

text \<open>A definite element never looks like one.\<close>

lemma last_der_length: "n < 128 \<Longrightarrow> der_length n = [word_of_nat n]"
  by (simp add: der_length_def)

lemma definite_header:
  assumes "length body < 2 ^ 32"
  shows "\<not> indefinite_length (cbs_over (der_element t body) r) (length (der_header t (length body)))"
proof (cases "body = []")
  case True
  then have "der_element t body = der_tag t @ [0]"
    by (simp add: der_element_def der_header_def der_length_def)
  moreover have "length (der_header t (length body)) = length (der_tag t) + 1"
    using True by (simp add: der_header_def der_length_def)
  ultimately show ?thesis by (simp add: indefinite_length_def nth_append)
next
  case False
  then show ?thesis by (simp add: indefinite_length_def der_element_def)
qed

lemma eoc_element_iff:
  "is_eoc (length (der_header t (length body))) (cbs_over (der_element t body) r) \<longleftrightarrow> t = 0 \<and> body = []"
proof
  assume e: "is_eoc (length (der_header t (length body))) (cbs_over (der_element t body) r)"
  then have "body = []" by (auto simp: is_eoc_def der_element_def)
  moreover have "der_element t body = [0, 0]" using e by (auto simp: is_eoc_def)
  moreover have "der_element 0 [] = [0, 0]"
    by (simp add: der_element_def der_header_def der_length_def der_tag_def)
  ultimately have "der_element t [] @ [] = der_element 0 [] @ []" by simp
  then show "t = 0 \<and> body = []"
    using element_codec.prefix_free [of "(t, [])" "(0, [])" "[]" "[]"] \<open>body = []\<close>
    by (simp add: der_valid_def)
next
  assume "t = 0 \<and> body = []"
  then show "is_eoc (length (der_header t (length body))) (cbs_over (der_element t body) r)"
    by (simp add: is_eoc_def der_element_def der_header_def der_length_def der_tag_def)
qed

lemma indefinite_not_eoc: "\<not> is_eoc (length (der_tag t) + 1) (cbs_over (der_tag t @ [0x80]) r)"
proof
  assume e: "is_eoc (length (der_tag t) + 1) (cbs_over (der_tag t @ [0x80]) r)"
  then have "length (der_tag t) = 1" by (simp add: is_eoc_def)
  then obtain x where "der_tag t = [x]" by (cases "der_tag t") auto
  with e show False by (simp add: is_eoc_def)
qed

section \<open>The conversion implements the specification\<close>

text \<open>One round, after the tests that end the loop.\<close>

definition ber_inner ::
    "nat \<Rightarrow> (nat \<Rightarrow> bool) \<Rightarrow> u32 \<Rightarrow> nat \<Rightarrow> nat \<Rightarrow> cbs \<Rightarrow> nat \<Rightarrow> u32 \<Rightarrow> cbs \<Rightarrow> cbb \<Rightarrow> (bool \<times> cbs \<times> cbb) option" where
  "ber_inner fuel alloc child_tag depth out contents header_len tag c1 s1 =
     (if indefinite_length contents header_len then
        (if depth + 1 > kMaxDepth then Some (False, c1, s1)
         else convert_ber_loop fuel alloc child_tag True (depth + 1) out c1 s1)
      else
        (case CBS_skip header_len contents of
           (None, _) \<Rightarrow> Some (False, c1, s1)
         | (Some _, body) \<Rightarrow>
             map_option (\<lambda>(ok, s2). (ok, c1, s2))
               (if constructed tag then
                  (if depth + 1 > kMaxDepth then Some (False, s1)
                   else map_option (\<lambda>(ok, _, s2). (ok, s2))
                          (convert_ber_loop fuel alloc child_tag False (depth + 1) out body s1))
                else Some (CBB_add_bytes alloc out (CBS_data body) (CBS_len body) s1))))"

definition ber_out_tag :: "u32 \<Rightarrow> u32" where
  "ber_out_tag t = (if constructed t \<and> is_string_type t then base_tag t else t)"

definition ber_child_tag :: "u32 \<Rightarrow> u32 \<Rightarrow> u32" where
  "ber_child_tag st t =
     (if st \<noteq> 0 then st else if constructed t \<and> is_string_type t then base_tag t else st)"

lemma convert_ber_round:
  assumes "CBS_len c \<noteq> 0" and "CBS_get_any_ber_asn1_element c = (Some (contents, t, hl), c1)"
    and "\<not> is_eoc hl contents" and "st \<noteq> 0 \<longrightarrow> base_tag t = st"
  shows "convert_ber_loop (Suc fuel) alloc st look depth d c s =
    (case (if st \<noteq> 0 then (True, s) else CBB_add_asn1 alloc d (ber_out_tag t) s) of
       (ok, s1) \<Rightarrow> if \<not> ok then Some (False, c1, s1)
       else case ber_inner fuel alloc (ber_child_tag st t) depth (if st \<noteq> 0 then d else Suc d)
                   contents hl t c1 s1 of
              None \<Rightarrow> None
            | Some (ok2, c2, s2) \<Rightarrow> if \<not> ok2 then Some (False, c2, s2)
              else case CBB_flush alloc d s2 of
                     (ok3, s3) \<Rightarrow> if \<not> ok3 then Some (False, c2, s3)
                       else convert_ber_loop fuel alloc st look depth d c2 s3)"
proof -
  have m: "\<not> (st \<noteq> 0 \<and> t AND NOT CBS_ASN1_CONSTRUCTED \<noteq> st)" using assms(4) by (auto simp: base_tag_def)
  note eq = convert_ber_loop.simps [of "Suc fuel" alloc st look depth d c s, unfolded assms(2)
      prod.case option.case nat.case if_not_P [OF assms(1)] if_not_P [OF assms(3)] if_not_P [OF m] Let_def,
      folded constructed_def base_tag_def, folded ber_out_tag_def]
  obtain ok1 s1 where 1: "(if st \<noteq> 0 then (True, s) else CBB_add_asn1 alloc d (ber_out_tag t) s) = (ok1, s1)"
    by fastforce
  have ct: "(if st \<noteq> 0 then st else if constructed t \<and> is_string_type t then ber_out_tag t else st) =
      ber_child_tag st t"
    by (simp add: ber_child_tag_def ber_out_tag_def)
  define oc where "oc = (if st \<noteq> 0 then d else Suc d)"
  obtain z body where sk: "CBS_skip hl contents = (z, body)" by fastforce
  define inner where "inner = (if constructed t then
      (if depth + 1 > kMaxDepth then Some (False, s1)
       else map_option (\<lambda>(ok, _, s2). (ok, s2))
              (convert_ber_loop fuel alloc (ber_child_tag st t) False (depth + 1) oc body s1))
    else Some (CBB_add_bytes alloc oc (CBS_data body) (CBS_len body) s1))"
  show ?thesis
  proof (cases "ok1 \<and> \<not> indefinite_length contents hl")
    case True
    then show ?thesis
      unfolding eq 1 prod.case ber_inner_def ct oc_def [symmetric] sk inner_def [symmetric]
      by (cases z; cases inner) (auto split: prod.split)
  next
    case False
    then show ?thesis
      unfolding eq 1 prod.case ber_inner_def ct oc_def [symmetric]
      by (cases ok1; cases "convert_ber_loop fuel alloc (ber_child_tag st t) True (depth + 1) oc c1 s1")
        (auto split: prod.split)
  qed
qed

definition ber_runs ::
    "((nat \<Rightarrow> bool) \<Rightarrow> cbb \<Rightarrow> (bool \<times> cbs \<times> cbb) option) \<Rightarrow> ((nat \<Rightarrow> bool) \<Rightarrow> cbb_op) \<Rightarrow> cbs \<Rightarrow> bool" where
  "ber_runs run f c' \<longleftrightarrow>
     (\<forall>alloc s. \<exists>c2. run alloc s = Some (fst (f alloc s), c2, snd (f alloc s)) \<and>
                   (fst (f alloc s) \<longrightarrow> c2 = c'))"

lemma convert_ber_step:
  assumes c: "CBS_len c \<noteq> 0" "CBS_get_any_ber_asn1_element c = (Some (contents, t, hl), c1)"
    and g1: "\<not> is_eoc hl contents" "st \<noteq> 0 \<longrightarrow> base_tag t = st"
    and inner: "appends (if st \<noteq> 0 then d else Suc d) g body" "length body \<le> 0xfffffffe"
      "ber_runs (\<lambda>alloc. ber_inner fuel alloc (ber_child_tag st t) depth (if st \<noteq> 0 then d else Suc d)
         contents hl t c1) g c2"
    and tail: "appends d f bs" "ber_runs (\<lambda>alloc. convert_ber_loop fuel alloc st look depth d c2) f c'"
  shows "\<exists>h. appends d h ((if st \<noteq> 0 then body else der_element (ber_out_tag t) body) @ bs) \<and>
    ber_runs (\<lambda>alloc. convert_ber_loop (Suc fuel) alloc st look depth d c) h c'"
proof -
  define h where "h = (\<lambda>alloc. cbb_then
    (if st \<noteq> 0 then Pair True else CBB_add_asn1 alloc d (ber_out_tag t))
    (cbb_then (g alloc) (cbb_then (CBB_flush alloc d) (f alloc))))"
  have "appends d h ((if st \<noteq> 0 then body else der_element (ber_out_tag t) body) @ bs)"
  proof (cases "st = 0")
    case True
    then have "writes d (\<lambda>alloc. cbb_then (CBB_add_asn1 alloc d (ber_out_tag t))
        (cbb_then (g alloc) (CBB_flush alloc d))) (der_element (ber_out_tag t) body)"
      using writes_element_appends [OF _ inner(2)] inner(1) by simp
    from appends_then [OF writes_appends [OF this] tail(1)] show ?thesis
      using True by (simp add: h_def cbb_then_assoc)
  next
    case False
    then have "appends d (\<lambda>alloc. cbb_then (Pair True) (cbb_then (g alloc)
        (cbb_then (CBB_flush alloc d) (f alloc)))) ([] @ body @ [] @ bs)"
      using inner(1) tail(1) writes_appends [OF writes_nothing]
      by (intro appends_then appends_nothing) simp_all
    then show ?thesis using False by (simp add: h_def)
  qed
  moreover have "ber_runs (\<lambda>alloc. convert_ber_loop (Suc fuel) alloc st look depth d c) h c'"
    unfolding ber_runs_def
  proof (intro allI)
    fix alloc s
    obtain ok1 s1 where 1: "(if st \<noteq> 0 then (True, s) else CBB_add_asn1 alloc d (ber_out_tag t) s) = (ok1, s1)"
      by fastforce
    then have o1: "(if st \<noteq> 0 then Pair True else CBB_add_asn1 alloc d (ber_out_tag t)) s = (ok1, s1)"
      by (cases "st = 0") simp_all
    obtain ok2 s2 where 2: "g alloc s1 = (ok2, s2)" by fastforce
    obtain cx where i: "ber_inner fuel alloc (ber_child_tag st t) depth (if st \<noteq> 0 then d else Suc d)
        contents hl t c1 s1 = Some (ok2, cx, s2)" "ok2 \<longrightarrow> cx = c2"
      using inner(3) 2 unfolding ber_runs_def by (metis fst_conv snd_conv)
    obtain ok3 s3 where 3: "CBB_flush alloc d s2 = (ok3, s3)" by fastforce
    obtain ok4 s4 where 4: "f alloc s3 = (ok4, s4)" by fastforce
    obtain cy where t: "convert_ber_loop fuel alloc st look depth d c2 s3 = Some (ok4, cy, s4)" "ok4 \<longrightarrow> cy = c'"
      using tail(2) 4 unfolding ber_runs_def by (metis fst_conv snd_conv)
    have h: "h alloc s = (if \<not> ok1 then (False, s1) else if \<not> ok2 then (False, s2)
        else if \<not> ok3 then (False, s3) else (ok4, s4))"
      unfolding h_def cbb_then_def by (simp add: o1 2 3 4)
    show "\<exists>c2. convert_ber_loop (Suc fuel) alloc st look depth d c s =
        Some (fst (h alloc s), c2, snd (h alloc s)) \<and> (fst (h alloc s) \<longrightarrow> c2 = c')"
      unfolding convert_ber_round [OF c g1] 1 prod.case i(1) option.case 3 h
      using i(2) t by (cases ok1; cases ok2; cases ok3) auto
  qed
  ultimately show ?thesis by blast
qed

lemma converted_string: "st \<noteq> 0 \<Longrightarrow> converted st = string_of"
  and converted_none: "converted 0 = der_of"
  by (simp_all add: converted_def fun_eq_iff)

lemma converted_Constr:
  "constructed t \<Longrightarrow> converted st (Constr t i cs) =
     (let body = concat (map (converted (ber_child_tag st t)) cs)
      in if st \<noteq> 0 then body else der_element (ber_out_tag t) body)"
  by (cases "st = 0"; cases "is_string_type t")
    (simp_all add: converted_string converted_none ber_child_tag_def ber_out_tag_def is_string_base)

lemma ber_valid_Constr:
  "ber_valid st (Constr t indef cs) \<longleftrightarrow>
     constructed t \<and> (st \<noteq> 0 \<longrightarrow> base_tag t = st) \<and>
     (\<not> indef \<longrightarrow> length (concat (map ber_bytes cs)) \<le> 0xfffffffe) \<and>
     (\<forall>c \<in> set cs. ber_valid (ber_child_tag st t) c) \<and>
     length (concat (map (converted (ber_child_tag st t)) cs)) \<le> 0xfffffffe"
  by (auto simp: ber_child_tag_def Let_def)

lemma ber_element_decodes:
  assumes "length body \<le> 0xfffffffe"
  shows "CBS_get_any_ber_asn1_element (cbs_over (der_element t body @ rest) r) =
    (Some (cbs_over (der_element t body) (rest @ r), t, length (der_header t (length body))),
     cbs_over rest r)"
  unfolding CBS_get_any_ber_asn1_element_def by (rule any_element_decodes) (use assms in simp)

lemma skip_header:
  "CBS_skip (length (der_header t (length body))) (cbs_over (der_element t body) r) =
     (Some (), cbs_over body r)"
  by (simp add: CBS_skip_over der_element_def)

lemma convert_ber_correct:
  assumes "\<forall>v \<in> set vs. ber_valid st v \<and> depth + height v \<le> kMaxDepth"
    and "te = (if look then 0 # 0 # rest else [])"
    and "length (concat (map ber_bytes vs) @ te) \<le> fuel"
  shows "\<exists>f. appends d f (concat (map (converted st) vs)) \<and>
    ber_runs (\<lambda>alloc. convert_ber_loop fuel alloc st look depth d
        (cbs_over (concat (map ber_bytes vs) @ te) r)) f (cbs_over (if look then rest else []) r)"
  using assms
proof (induction fuel arbitrary: vs st look depth d te rest r)
  case 0
  then have "vs = []" "\<not> look" by (auto split: if_splits)
  then show ?case
    using 0 appends_nothing
    by (intro exI [of _ "\<lambda>alloc. Pair True"]) (simp add: ber_runs_def convert_ber_loop.simps)
next
  case (Suc fuel)
  show ?case
  proof (cases vs)
    case Nil
    have eoc: "der_element 0 [] = [0, 0]"
      by (simp add: der_element_def der_header_def der_length_def der_tag_def)
    have e: "CBS_get_any_ber_asn1_element (cbs_over (0 # 0 # rest) r) =
        (Some (cbs_over [0, 0] (rest @ r), 0, 2), cbs_over rest r)"
      using ber_element_decodes [of "[]" 0 rest r] eoc
      by (simp add: der_header_def der_length_def der_tag_def)
    have "is_eoc 2 (cbs_over [0, 0] (rest @ r))" by (simp add: is_eoc_def)
    then show ?thesis
      using Suc.prems(2) Nil appends_nothing e
      by (intro exI [of _ "\<lambda>alloc. Pair True"])
        (simp add: ber_runs_def convert_ber_loop.simps [of "Suc fuel"])
  next
    case (Cons v vs')
    define after where "after = concat (map ber_bytes vs') @ te"
    have v: "ber_valid st v" "depth + height v \<le> kMaxDepth" using Suc.prems(1) Cons by simp_all
    have len: "length (ber_bytes v @ after) \<le> Suc fuel" using Suc.prems(3) Cons by (simp add: after_def)
    moreover have "0 < length (ber_bytes v)" by simp
    ultimately have la: "length after \<le> fuel" by (simp del: length_greater_0_conv)
    obtain f where f: "appends d f (concat (map (converted st) vs'))"
      "ber_runs (\<lambda>alloc. convert_ber_loop fuel alloc st look depth d (cbs_over after r)) f
         (cbs_over (if look then rest else []) r)"
      using Suc.IH [of vs' st depth te look rest d r] Suc.prems la Cons unfolding after_def by auto
    have input: "concat (map ber_bytes vs) @ te = ber_bytes v @ after" by (simp add: Cons after_def)
    have ne: "CBS_len (cbs_over (ber_bytes v @ after) r) \<noteq> 0" by simp
    show ?thesis
    proof (cases v)
      case (Prim t bs)
      then have p: "\<not> constructed t" "\<not> (t = 0 \<and> bs = [])" "length bs \<le> 0xfffffffe" "st \<noteq> 0 \<longrightarrow> t = st"
        using v(1) by auto
      then have bt: "st \<noteq> 0 \<longrightarrow> base_tag t = st" using base_tag_primitive by auto
      let ?el = "cbs_over (der_element t bs) (after @ r)" and ?hl = "length (der_header t (length bs))"
      let ?oc = "if st \<noteq> 0 then d else Suc d"
      have l32: "length bs < 2 ^ 32" "length bs < 2 ^ 63" using p(3) by simp_all
      have e: "CBS_get_any_ber_asn1_element (cbs_over (ber_bytes v @ after) r) = (Some (?el, t, ?hl), cbs_over after r)"
        using ber_element_decodes [OF p(3)] Prim by simp
      have eoc: "\<not> is_eoc ?hl ?el" using p(2) eoc_element_iff by blast
      have g: "appends ?oc (\<lambda>alloc. CBB_add_bytes alloc ?oc (bs @ after @ r) (length bs)) bs"
        using writes_appends [OF writes_bytes [of "length bs" "bs @ after @ r" ?oc]] l32 by simp
      have run: "ber_runs (\<lambda>alloc. ber_inner fuel alloc (ber_child_tag st t) depth ?oc ?el ?hl t (cbs_over after r))
          (\<lambda>alloc. CBB_add_bytes alloc ?oc (bs @ after @ r) (length bs)) (cbs_over after r)"
        using definite_header [OF l32(1), of t "after @ r"] p(1)
        by (simp add: ber_runs_def ber_inner_def skip_header split: prod.split)
      have "converted st v = (if st \<noteq> 0 then bs else der_element (ber_out_tag t) bs)"
        using p(1) by (simp add: converted_def Prim ber_out_tag_def)
      then show ?thesis
        using convert_ber_step [OF ne e eoc bt g p(3) run f] unfolding input by (simp add: Cons)
    next
      case (Constr t indef cs)
      note V = v(1) [unfolded Constr ber_valid_Constr]
      let ?ct = "ber_child_tag st t" and ?oc = "if st \<noteq> 0 then d else Suc d"
      have h: "\<forall>c \<in> set cs. ber_valid ?ct c \<and> (depth + 1) + height c \<le> kMaxDepth"
      proof
        fix c
        assume "c \<in> set cs"
        then have "height c < height v" using height_child Constr by metis
        then show "ber_valid ?ct c \<and> (depth + 1) + height c \<le> kMaxDepth"
          using V \<open>c \<in> set cs\<close> v(2) by auto
      qed
      have "1 \<le> height v" by (simp add: Constr)
      then have deep: "\<not> depth + 1 > kMaxDepth" using v(2) by linarith
      define body where "body = concat (map (converted ?ct) cs)"
      have conv: "converted st v = (if st \<noteq> 0 then body else der_element (ber_out_tag t) body)"
        using V by (simp add: Constr converted_Constr Let_def body_def)
      show ?thesis
      proof (cases indef)
        case True
        let ?el = "cbs_over (der_tag t @ [0x80]) (concat (map ber_bytes cs) @ 0 # 0 # after @ r)"
        let ?hl = "length (der_tag t) + 1"
        let ?c1 = "cbs_over (concat (map ber_bytes cs) @ 0 # 0 # after) r"
        have vb: "ber_bytes v @ after = der_tag t @ 0x80 # concat (map ber_bytes cs) @ 0 # 0 # after"
          by (simp add: Constr True Let_def)
        have e: "CBS_get_any_ber_asn1_element (cbs_over (ber_bytes v @ after) r) = (Some (?el, t, ?hl), ?c1)"
          unfolding vb using indefinite_decodes [of t "concat (map ber_bytes cs) @ 0 # 0 # after" r] V by simp
        have "length (concat (map ber_bytes cs) @ 0 # 0 # after) \<le> fuel"
          using len unfolding vb by simp
        then obtain g where g: "appends ?oc g body"
          "ber_runs (\<lambda>alloc. convert_ber_loop fuel alloc ?ct True (depth + 1) ?oc ?c1) g (cbs_over after r)"
          using Suc.IH [OF h, of "0 # 0 # after" True after ?oc r] unfolding body_def by auto
        have run: "ber_runs (\<lambda>alloc. ber_inner fuel alloc ?ct depth ?oc ?el ?hl t ?c1) g (cbs_over after r)"
          using g(2) deep indefinite_header unfolding ber_runs_def ber_inner_def by simp
        have bt: "st \<noteq> 0 \<longrightarrow> base_tag t = st" and bl: "length body \<le> 0xfffffffe"
          using V by (simp_all add: body_def)
        show ?thesis
          using convert_ber_step [OF ne e indefinite_not_eoc bt g(1) bl run f] conv
          unfolding input by (simp add: Cons)
      next
        case False
        let ?b = "concat (map ber_bytes cs)"
        have l: "length ?b \<le> 0xfffffffe" using V False by simp
        then have l32: "length ?b < 2 ^ 32" by simp
        let ?el = "cbs_over (der_element t ?b) (after @ r)" and ?hl = "length (der_header t (length ?b))"
        have vb: "ber_bytes v = der_element t ?b" by (simp add: Constr False Let_def)
        have e: "CBS_get_any_ber_asn1_element (cbs_over (ber_bytes v @ after) r) =
            (Some (?el, t, ?hl), cbs_over after r)"
          unfolding vb by (rule ber_element_decodes [OF l])
        have "t \<noteq> 0" using V by (auto simp: constructed_def)
        then have eoc: "\<not> is_eoc ?hl ?el" using eoc_element_iff by blast
        have "length ?b < length (ber_bytes v)" unfolding vb by (simp add: der_element_def der_header_def)
        then have "length (?b @ []) \<le> fuel" using len by simp
        then obtain g where g: "appends ?oc g body"
          "ber_runs (\<lambda>alloc. convert_ber_loop fuel alloc ?ct False (depth + 1) ?oc (cbs_over ?b (after @ r))) g
            (cbs_over [] (after @ r))"
          using Suc.IH [OF h, of "[]" False "[]" ?oc "after @ r"] unfolding body_def by auto
        have run: "ber_runs (\<lambda>alloc. ber_inner fuel alloc ?ct depth ?oc ?el ?hl t (cbs_over after r)) g
            (cbs_over after r)"
          unfolding ber_runs_def
        proof (intro allI)
          fix alloc s
          obtain c2 where "convert_ber_loop fuel alloc ?ct False (depth + 1) ?oc (cbs_over ?b (after @ r)) s =
              Some (fst (g alloc s), c2, snd (g alloc s))" using g(2) unfolding ber_runs_def by blast
          then show "\<exists>c2. ber_inner fuel alloc ?ct depth ?oc ?el ?hl t (cbs_over after r) s =
              Some (fst (g alloc s), c2, snd (g alloc s)) \<and> (fst (g alloc s) \<longrightarrow> c2 = cbs_over after r)"
            using definite_header [OF l32, of t "after @ r"] deep V
            by (simp add: ber_inner_def skip_header split: prod.split)
        qed
        have bt: "st \<noteq> 0 \<longrightarrow> base_tag t = st" and bl: "length body \<le> 0xfffffffe"
          using V by (simp_all add: body_def)
        show ?thesis
          using convert_ber_step [OF ne e eoc bt g(1) bl run f] conv unfolding input by (simp add: Cons)
      qed
    qed
  qed
qed

section \<open>The whole conversion\<close>

lemma ber_to_der_converts:
  assumes v: "\<forall>v \<in> set vs. ber_valid 0 v \<and> height v \<le> kMaxDepth"
    and found: "cbs_find_ber 0 (cbs_over (concat (map ber_bytes vs)) r) = (True, True)"
    and len: "length (concat (map ber_bytes vs)) < 2 ^ 60" "length (concat (map der_of vs)) < 2 ^ 60"
    and fuel: "length (concat (map ber_bytes vs)) \<le> fuel"
  shows "\<exists>out st. CBS_asn1_ber_to_der fuel alloc_total (cbs_over (concat (map ber_bytes vs)) r) =
      Some (Some (out, Some st), cbs_over [] r) \<and> cbs_bytes out = concat (map der_of vs)"
proof -
  let ?c = "cbs_over (concat (map ber_bytes vs)) r"
  obtain f where f: "appends 0 f (concat (map der_of vs))"
    "ber_runs (\<lambda>alloc. convert_ber_loop fuel alloc 0 False 0 0 ?c) f (cbs_over [] r)"
    using convert_ber_correct [of vs 0 0 "[]" False "[]" fuel 0 r] v fuel by (auto simp: converted_none)
  have cap: "length (concat (map ber_bytes vs)) + 8 < 2 ^ 63" using len(1) by simp
  have "fst (CBB_init alloc_total (CBS_len ?c))"
    unfolding CBS_len_over by (rule CBB_init_total [OF cap])
  then obtain s where i: "CBB_init alloc_total (CBS_len ?c) = (True, s)" by (metis prod.collapse)
  have I: "cbb_wf s" "cbb_live 0 s" "sealed 0 s = []" "cbb_children s = []" "can_resize (cbb_buf s)"
    "\<not> error (cbb_buf s)"
    using CBB_init_step [OF alloc_total_ok i, of 0] cap by (simp_all add: size_t_mod_def)
  have room: "cbb_room 0 (length (concat (map der_of vs))) s" using I len(2) by (simp add: cbb_room_def)
  then have "fst (f alloc_total s)" using f(1) I(4) by (simp add: appends_def)
  then obtain s1 where s1: "f alloc_total s = (True, s1)" by (metis prod.collapse)
  have "wrote 0 (concat (map der_of vs)) s (f alloc_total s)" using f(1) I by (simp add: appends_def)
  then have w: "wrote 0 (concat (map der_of vs)) s (True, s1)" using s1 by simp
  note n = wrote_next [OF w I(2)]
  have "cbb_room 0 0 s1" using n(5) [of 0] room by simp
  then have "fst (CBB_flush alloc_total 0 s1)" using writes_nothing [of 0] by (simp add: writes_def)
  then have "fst (CBB_finish alloc_total 0 True True s1) \<noteq> None"
    by (auto simp: CBB_finish_def split: prod.split)
  then obtain b k s2 where fin: "CBB_finish alloc_total 0 True True s1 = (Some (b, k), s2)"
    by (cases "CBB_finish alloc_total 0 True True s1") auto
  have k: "take k b = concat (map der_of vs)"
    using CBB_finish_step [OF alloc_total_ok n(1,2) fin] n(3) I(3) by auto
  have conv: "cbs_convert_ber fuel alloc_total 0 False 0 0 ?c s = Some (True, cbs_over [] r, s1)"
    using f(2) s1 unfolding ber_runs_def cbs_convert_ber_def by (auto dest!: spec [of _ alloc_total] spec [of _ s])
  have "CBS_asn1_ber_to_der fuel alloc_total ?c = Some (Some (CBS_init b k, Some b), cbs_over [] r)"
    using i conv fin by (simp add: CBS_asn1_ber_to_der_def found)
  then show ?thesis using k by (simp add: CBS_init_def cbs_bytes_def)
qed





text \<open>
  C4: \<open>CBS_asn1_ber_to_der\<close> is correct on the values it converts: input that is a list of
  well-formed BER values in which the walk finds an indefinite length or a constructed
  string becomes the DER of the same values, every byte of the input is consumed, and with
  memory the conversion cannot fail.
\<close>

theorem ber_to_der_correct:
  assumes "\<forall>v \<in> set vs. ber_valid 0 v \<and> height v \<le> kMaxDepth"
    and "cbs_find_ber 0 (cbs_over (concat (map ber_bytes vs)) r) = (True, True)"
    and "length (concat (map ber_bytes vs)) < 2 ^ 60" and "length (concat (map der_of vs)) < 2 ^ 60"
  shows "\<exists>out st. CBS_asn1_ber_to_der (length (concat (map ber_bytes vs))) alloc_total
        (cbs_over (concat (map ber_bytes vs)) r) = Some (Some (out, Some st), cbs_over [] r) \<and>
      cbs_bytes out = concat (map der_of vs)"
  using ber_to_der_converts [OF assms order_refl] .

lemma ber_to_der_correct_witness:
  "\<exists>vs out st. vs = [Constr 0x20000004 True [Prim 4 [1, 2], Prim 4 [3]]] \<and>
    CBS_asn1_ber_to_der (length (concat (map ber_bytes vs))) alloc_total
        (cbs_over (concat (map ber_bytes vs)) []) = Some (Some (out, Some st), cbs_over [] []) \<and>
    cbs_bytes out = [4, 3, 1, 2, 3]"
proof -
  let ?vs = "[Constr 0x20000004 True [Prim 4 [1, 2], Prim 4 [3]]]"
  have b: "concat (map ber_bytes ?vs) = [0x24, 0x80, 4, 2, 1, 2, 4, 1, 3, 0, 0]"
    by (simp add: der_element_def der_header_def der_length_def der_tag_def Let_def)
  have bt: "base_tag 0x20000004 = 4" "is_string_type 0x20000004" by code_simp+
  have d: "concat (map der_of ?vs) = [4, 3, 1, 2, 3]"
    by (simp add: bt der_element_def der_header_def der_length_def der_tag_def)
  have c: "constructed 0x20000004" "\<not> constructed 4" by code_simp+
  have f: "cbs_find_ber 0 (cbs_over [0x24, 0x80, 4, 2, 1, 2, 4, 1, 3, 0, 0] []) = (True, True)"
    by code_simp
  have "cbs_find_ber 0 (cbs_over (concat (map ber_bytes ?vs)) []) = (True, True)"
    using f unfolding b .
  moreover have "\<forall>v \<in> set ?vs. ber_valid 0 v \<and> height v \<le> kMaxDepth"
    by (simp add: c bt converted_def kMaxDepth_def Let_def)
  moreover have "length (concat (map ber_bytes ?vs)) < 2 ^ 60" "length (concat (map der_of ?vs)) < 2 ^ 60"
    unfolding b d by simp_all
  ultimately have "\<exists>out st. CBS_asn1_ber_to_der (length (concat (map ber_bytes ?vs))) alloc_total
      (cbs_over (concat (map ber_bytes ?vs)) []) = Some (Some (out, Some st), cbs_over [] []) \<and>
    cbs_bytes out = concat (map der_of ?vs)"
    by (intro ber_to_der_correct)
  then show ?thesis unfolding d by blast
qed


end
