(* ===== verification/Unicode.thy ===== *)
theory Unicode
  imports Asn1_write
begin

text \<open>
  The character encodings of crypto/bytestring/unicode.c: UTF-8, Latin-1, UCS-2 and UTF-32,
  read from a \<open>CBS\<close> and written to a \<open>CBB\<close>.  Each is an instance of the strict codecs
  and the round trips of the byte strings.
\<close>

section \<open>Operations\<close>

definition is_valid_code_point :: "u32 \<Rightarrow> bool" where
  "is_valid_code_point v \<longleftrightarrow>
     \<not> (v > 0x10ffff \<or> v AND 0xfffe = 0xfffe \<or> (v \<ge> 0xfdd0 \<and> v \<le> 0xfdef) \<or>
        (v \<ge> 0xd800 \<and> v \<le> 0xdfff))"

definition BOTTOM_BITS :: "nat \<Rightarrow> u8" where
  "BOTTOM_BITS n = ucast (push_bit n 1 - 1 :: u32)"

definition TOP_BITS :: "nat \<Rightarrow> u8" where
  "TOP_BITS n = NOT (BOTTOM_BITS (8 - n))"

text \<open>The loop over the continuation bytes of \<open>cbs_get_utf8\<close>, with the value so far.\<close>

fun utf8_rest :: "nat \<Rightarrow> u32 \<Rightarrow> u32 getter" where
  "utf8_rest 0 v c = (Some v, c)"
| "utf8_rest (Suc len) v c =
     (case CBS_get_u8 c of
        (None, c') \<Rightarrow> (None, c')
      | (Some b, c') \<Rightarrow>
          if b AND TOP_BITS 2 \<noteq> TOP_BITS 1 then (None, c')
          else utf8_rest len (push_bit 6 v OR ucast (b AND BOTTOM_BITS 6)) c')"

definition cbs_get_utf8 :: "u32 getter" where
  "cbs_get_utf8 c =
     (case CBS_get_u8 c of
        (None, c1) \<Rightarrow> (None, c1)
      | (Some b, c1) \<Rightarrow>
          if b \<le> 0x7f then (Some (ucast b), c1)
          else
            (case (if b AND TOP_BITS 3 = TOP_BITS 2 then Some (b AND BOTTOM_BITS 5, 1, 0x80)
                   else if b AND TOP_BITS 4 = TOP_BITS 3 then Some (b AND BOTTOM_BITS 4, 2, 0x800)
                   else if b AND TOP_BITS 5 = TOP_BITS 4 then Some (b AND BOTTOM_BITS 3, 3, 0x10000)
                   else None) of
               None \<Rightarrow> (None, c1)
             | Some (v, len, lower_bound) \<Rightarrow>
                 (case utf8_rest len (ucast v) c1 of
                    (None, c2) \<Rightarrow> (None, c2)
                  | (Some v', c2) \<Rightarrow>
                      if \<not> is_valid_code_point v' \<or> v' < lower_bound then (None, c2)
                      else (Some v', c2))))"

definition cbs_get_latin1 :: "u32 getter" where
  "cbs_get_latin1 = map_get ucast CBS_get_u8"

definition cbs_get_ucs2_be :: "u32 getter" where
  "cbs_get_ucs2_be c =
     (case CBS_get_u16 c of
        (None, c') \<Rightarrow> (None, c')
      | (Some w, c') \<Rightarrow> (if is_valid_code_point (ucast w) then Some (ucast w) else None, c'))"

definition cbs_get_utf32_be :: "u32 getter" where
  "cbs_get_utf32_be c =
     (case CBS_get_u32 c of
        (None, c') \<Rightarrow> (None, c')
      | (Some w, c') \<Rightarrow> (if is_valid_code_point w then Some w else None, c'))"

definition cbb_get_utf8_len :: "u32 \<Rightarrow> nat" where
  "cbb_get_utf8_len u = (if u \<le> 0x7f then 1 else if u \<le> 0x7ff then 2 else if u \<le> 0xffff then 3 else 4)"

definition cbb_add_utf8 :: "(nat \<Rightarrow> bool) \<Rightarrow> nat \<Rightarrow> u32 \<Rightarrow> cbb_op" where
  "cbb_add_utf8 alloc d u =
     (if \<not> is_valid_code_point u then Pair False
      else if u \<le> 0x7f then CBB_add_u8 alloc d (ucast u)
      else if u \<le> 0x7ff then
        cbb_then (CBB_add_u8 alloc d (TOP_BITS 2 OR ucast (drop_bit 6 u)))
          (CBB_add_u8 alloc d (TOP_BITS 1 OR (ucast u AND BOTTOM_BITS 6)))
      else if u \<le> 0xffff then
        cbb_then (CBB_add_u8 alloc d (TOP_BITS 3 OR ucast (drop_bit 12 u)))
          (cbb_then (CBB_add_u8 alloc d (TOP_BITS 1 OR (ucast (drop_bit 6 u) AND BOTTOM_BITS 6)))
            (CBB_add_u8 alloc d (TOP_BITS 1 OR (ucast u AND BOTTOM_BITS 6))))
      else if u \<le> 0x10ffff then
        cbb_then (CBB_add_u8 alloc d (TOP_BITS 4 OR ucast (drop_bit 18 u)))
          (cbb_then (CBB_add_u8 alloc d (TOP_BITS 1 OR (ucast (drop_bit 12 u) AND BOTTOM_BITS 6)))
            (cbb_then (CBB_add_u8 alloc d (TOP_BITS 1 OR (ucast (drop_bit 6 u) AND BOTTOM_BITS 6)))
              (CBB_add_u8 alloc d (TOP_BITS 1 OR (ucast u AND BOTTOM_BITS 6)))))
      else Pair False)"

definition cbb_add_latin1 :: "(nat \<Rightarrow> bool) \<Rightarrow> nat \<Rightarrow> u32 \<Rightarrow> cbb_op" where
  "cbb_add_latin1 alloc d u = (if u \<le> 0xff then CBB_add_u8 alloc d (ucast u) else Pair False)"

definition cbb_add_ucs2_be :: "(nat \<Rightarrow> bool) \<Rightarrow> nat \<Rightarrow> u32 \<Rightarrow> cbb_op" where
  "cbb_add_ucs2_be alloc d u =
     (if u \<le> 0xffff \<and> is_valid_code_point u then CBB_add_u16 alloc d (ucast u) else Pair False)"

definition cbb_add_utf32_be :: "(nat \<Rightarrow> bool) \<Rightarrow> nat \<Rightarrow> u32 \<Rightarrow> cbb_op" where
  "cbb_add_utf32_be alloc d u = (if is_valid_code_point u then CBB_add_u32 alloc d u else Pair False)"

section \<open>The encoding\<close>

text \<open>The code points a string may hold, and UTF-8 (RFC 3629), on numbers.\<close>

definition code_point :: "nat \<Rightarrow> bool" where
  "code_point n \<longleftrightarrow>
     n \<le> 0x10ffff \<and> n mod 0x10000 < 0xfffe \<and> (n < 0xfdd0 \<or> 0xfdef < n) \<and> (n < 0xd800 \<or> 0xdfff < n)"

definition utf8_byte :: "nat \<Rightarrow> nat \<Rightarrow> u8" where
  "utf8_byte lead n = word_of_nat (lead + n)"

definition utf8 :: "nat \<Rightarrow> bytes" where
  "utf8 n =
     (if n < 0x80 then [utf8_byte 0 n]
      else if n < 0x800 then [utf8_byte 0xc0 (n div 64), utf8_byte 0x80 (n mod 64)]
      else if n < 0x10000 then
        [utf8_byte 0xe0 (n div 4096), utf8_byte 0x80 (n div 64 mod 64), utf8_byte 0x80 (n mod 64)]
      else
        [utf8_byte 0xf0 (n div 262144), utf8_byte 0x80 (n div 4096 mod 64),
         utf8_byte 0x80 (n div 64 mod 64), utf8_byte 0x80 (n mod 64)])"

lemma unat_u32_le_numeral: "u \<le> numeral k \<longleftrightarrow> unat (u :: u32) \<le> unat (numeral k :: u32)"
  by (rule word_le_nat_alt)

lemma code_point_iff: "is_valid_code_point v \<longleftrightarrow> code_point (unat v)"
proof -
  have m: "(0xfffe :: u32) = push_bit 1 (mask 15)" by (simp add: mask_eq_exp_minus_1 push_bit_eq_mult)
  have "unat (v AND 0xfffe) = 2 * (unat v div 2 mod 32768)"
  proof -
    have "v AND push_bit 1 (mask 15) = push_bit 1 (drop_bit 1 v AND mask 15)"
      by (intro bit_word_eqI) (simp only: bit_and_iff bit_push_bit_iff bit_drop_bit_eq bit_mask_iff comp_apply, auto)
    moreover have "unat (push_bit 1 (drop_bit 1 v AND mask 15)) = 2 * (unat v div 2 mod 32768)"
      by (simp only: unat_push_bit unat_and_mask unat_drop_bit) simp
    ultimately show ?thesis unfolding m by simp
  qed
  then have "v AND 0xfffe = 0xfffe \<longleftrightarrow> 2 * (unat v div 2 mod 32768) = 65534"
    by (simp add: word_unat_eq_iff)
  also have "\<dots> \<longleftrightarrow> 65534 \<le> unat v mod 65536"
  proof -
    have "unat v mod 65536 = 2 * (unat v div 2 mod 32768) + unat v mod 2"
      using mod_mult2_eq [of "unat v" 2 32768] by simp
    moreover have "unat v div 2 mod 32768 \<le> 32767" using mod_less_divisor [of 32768 "unat v div 2"] by linarith
    moreover have "unat v mod 2 \<le> 1" by simp
    moreover have "2 * q = 65534 \<longleftrightarrow> 65534 \<le> 2 * q + r" if "q \<le> 32767" and "r \<le> 1" for q r :: nat
      using that by presburger
    ultimately show ?thesis by metis
  qed
  finally show ?thesis
    by (auto simp: is_valid_code_point_def code_point_def word_le_nat_alt word_less_nat_alt)
qed

lemma bits_masks:
  "BOTTOM_BITS 3 = mask 3" "BOTTOM_BITS 4 = mask 4" "BOTTOM_BITS 5 = mask 5" "BOTTOM_BITS 6 = mask 6"
proof -
  have "mask 3 = (0x7 :: u8)" "mask 4 = (0xf :: u8)" "mask 5 = (0x1f :: u8)" "mask 6 = (0x3f :: u8)"
    by (simp_all add: mask_eq_exp_minus_1)
  then show "BOTTOM_BITS 3 = mask 3" "BOTTOM_BITS 4 = mask 4" "BOTTOM_BITS 5 = mask 5" "BOTTOM_BITS 6 = mask 6"
    by (simp_all only:) (simp_all add: BOTTOM_BITS_def push_bit_eq_mult)
qed

lemma top_bits:
  "TOP_BITS 1 = 0x80" "TOP_BITS 2 = 0xc0" "TOP_BITS 3 = 0xe0" "TOP_BITS 4 = 0xf0" "TOP_BITS 5 = 0xf8"
  by (simp_all add: TOP_BITS_def BOTTOM_BITS_def push_bit_eq_mult)

lemma unat_and_not_mask: "unat (b AND NOT (mask n) :: 'a::len word) = unat b div 2 ^ n * 2 ^ n"
proof -
  have "b AND mask n OR b AND NOT (mask n) = b" "(b AND mask n) AND (b AND NOT (mask n)) = 0"
    by (auto intro!: bit_word_eqI simp: bit_simps)
  then have "(b AND mask n) + (b AND NOT (mask n)) = b" by (metis disjunctive_add_eq_or)
  moreover have "(b AND mask n) AND b = b AND mask n" by (auto intro!: bit_word_eqI simp: bit_simps)
  ultimately have "b AND NOT (mask n) = b - (b AND mask n)" and "b AND mask n \<le> b"
    by (auto simp: algebra_simps) (metis word_and_le1 and.commute)
  then have "unat (b AND NOT (mask n)) = unat b - unat (b AND mask n)" by (simp add: unat_sub)
  then show ?thesis by (simp add: unat_and_mask minus_mod_eq_div_mult)
qed

lemma and_top_iff:
  "NOT (mask n) = t \<Longrightarrow> b AND t = c \<longleftrightarrow> unat (b :: u8) div 2 ^ n * 2 ^ n = unat c"
  by (metis unat_and_not_mask word_unat_eq_iff)

lemma not_masks:
  "NOT (mask 5) = (0xe0 :: u8)" "NOT (mask 4) = (0xf0 :: u8)" "NOT (mask 3) = (0xf8 :: u8)"
  "NOT (mask 6) = (0xc0 :: u8)"
  by (simp_all add: mask_eq_exp_minus_1)

lemma utf8_classes:
  "b AND TOP_BITS 3 = TOP_BITS 2 \<longleftrightarrow> unat b div 32 = 6"
  "b AND TOP_BITS 4 = TOP_BITS 3 \<longleftrightarrow> unat b div 16 = 14"
  "b AND TOP_BITS 5 = TOP_BITS 4 \<longleftrightarrow> unat b div 8 = 30"
  "b AND TOP_BITS 2 = TOP_BITS 1 \<longleftrightarrow> unat b div 64 = 2"
  by (auto simp only: top_bits and_top_iff [OF not_masks(1)] and_top_iff [OF not_masks(2)]
      and_top_iff [OF not_masks(3)] and_top_iff [OF not_masks(4)]) simp_all

lemma bottom_bits:
  "unat (b AND BOTTOM_BITS 5) = unat b mod 32" "unat (b AND BOTTOM_BITS 4) = unat b mod 16"
  "unat (b AND BOTTOM_BITS 3) = unat b mod 8" "unat (b AND BOTTOM_BITS 6) = unat b mod 64"
  by (simp_all add: bits_masks unat_and_mask)

lemma top_bits_or:
  "unat b < 32 \<Longrightarrow> unat (TOP_BITS 2 OR b) = 0xc0 + unat b"
  "unat b < 16 \<Longrightarrow> unat (TOP_BITS 3 OR b) = 0xe0 + unat b"
  "unat b < 8 \<Longrightarrow> unat (TOP_BITS 4 OR b) = 0xf0 + unat b"
  "unat (TOP_BITS 1 OR (b AND BOTTOM_BITS 6)) = 0x80 + unat b mod 64"
proof -
  have "TOP_BITS 2 = push_bit 5 6" "TOP_BITS 3 = push_bit 4 14" "TOP_BITS 4 = push_bit 3 30"
    "TOP_BITS 1 = push_bit 6 2" unfolding top_bits by (simp_all add: push_bit_eq_mult)
  note P = this
  show "unat b < 32 \<Longrightarrow> unat (TOP_BITS 2 OR b) = 0xc0 + unat b"
    using unat_shift_or [of b 5 6] by (simp add: P)
  show "unat b < 16 \<Longrightarrow> unat (TOP_BITS 3 OR b) = 0xe0 + unat b"
    using unat_shift_or [of b 4 14] by (simp add: P)
  show "unat b < 8 \<Longrightarrow> unat (TOP_BITS 4 OR b) = 0xf0 + unat b"
    using unat_shift_or [of b 3 30] by (simp add: P)
  have "unat (b AND BOTTOM_BITS 6) < 64" by (simp add: bottom_bits)
  then show "unat (TOP_BITS 1 OR (b AND BOTTOM_BITS 6)) = 0x80 + unat b mod 64"
    using unat_shift_or [of "b AND BOTTOM_BITS 6" 6 2] by (simp add: P(4) [simplified] bottom_bits)
qed


lemma unat_utf8_byte [simp]: "lead + n < 256 \<Longrightarrow> unat (utf8_byte lead n) = lead + n"
  unfolding utf8_byte_def by (rule unat_word_of_nat_small) simp

definition continuation :: "u8 \<Rightarrow> bool" where
  "continuation b \<longleftrightarrow> unat b div 64 = 2"

lemma continuation_iff: "b AND TOP_BITS 2 = TOP_BITS (Suc 0) \<longleftrightarrow> continuation b"
  using utf8_classes(4) [of b] by (simp add: continuation_def)

lemma continuation_byte [simp]: "n < 64 \<Longrightarrow> continuation (utf8_byte 0x80 n)"
  by (simp add: continuation_def)

abbreviation utf8_value :: "nat \<Rightarrow> bytes \<Rightarrow> nat" where
  "utf8_value \<equiv> foldl (\<lambda>m b. 64 * m + unat b mod 64)"

lemma unat_next:
  assumes "unat v < 2 ^ 26"
  shows "unat (push_bit 6 v OR ucast (b AND BOTTOM_BITS 6) :: u32) = 64 * unat v + unat b mod 64"
proof -
  have "unat (ucast (b AND BOTTOM_BITS 6) :: u32) = unat b mod 64" by (simp add: bottom_bits)
  then show ?thesis using unat_shift_or [of "ucast (b AND BOTTOM_BITS 6) :: u32" 6 v] assms by simp
qed

lemma utf8_rest_ok:
  assumes "unat v < 2 ^ (32 - 6 * length cs)" and "length cs \<le> 5" and "\<forall>b \<in> set cs. continuation b"
  shows "\<exists>x. utf8_rest (length cs) v (cbs_over (cs @ bs) r) = (Some x, cbs_over bs r) \<and>
    unat x = utf8_value (unat v) cs"
  using assms
proof (induction cs arbitrary: v)
  case (Cons b cs)
  define e where "e = 26 - 6 * length cs"
  have e: "32 - 6 * length (b # cs) = e" "32 - 6 * length cs = e + 6" "e \<le> 26"
    using Cons.prems(2) by (auto simp: e_def)
  have v: "unat v < 2 ^ e" using Cons.prems(1) e by simp
  moreover have "(2::nat) ^ e \<le> 2 ^ 26" using e(3) by (rule power_increasing) simp
  ultimately have n: "unat (push_bit 6 v OR ucast (b AND BOTTOM_BITS 6) :: u32) = 64 * unat v + unat b mod 64"
    by (intro unat_next) simp
  have "64 * unat v + unat b mod 64 < 64 * 2 ^ e" using v by simp
  then have "unat (push_bit 6 v OR ucast (b AND BOTTOM_BITS 6) :: u32) < 2 ^ (32 - 6 * length cs)"
    unfolding n e(2) by (simp add: power_add)
  then obtain x where "utf8_rest (length cs) (push_bit 6 v OR ucast (b AND BOTTOM_BITS 6)) (cbs_over (cs @ bs) r) =
      (Some x, cbs_over bs r)" and "unat x = utf8_value (64 * unat v + unat b mod 64) cs"
    using Cons.IH Cons.prems n by (metis Suc_leD length_Cons list.set_intros(2))
  moreover have "continuation b" using Cons.prems by simp
  ultimately show ?case by (simp add: continuation_iff)
qed simp

lemma utf8_rest_sound:
  assumes "utf8_rest n v (cbs_over bs r) = (Some x, c')" and "unat v < 2 ^ (32 - 6 * n)" and "n \<le> 5"
  shows "\<exists>cs rest. bs = cs @ rest \<and> length cs = n \<and> (\<forall>b \<in> set cs. continuation b) \<and>
    c' = cbs_over rest r \<and> unat x = utf8_value (unat v) cs"
proof -
  have "\<exists>cs rest. bs = cs @ rest \<and> length cs = n \<and> (\<forall>b \<in> set cs. continuation b)"
    using assms(1)
  proof (induction n arbitrary: v bs)
    case (Suc n)
    obtain b bs' where bs: "bs = b # bs'" using Suc.prems by (cases bs) (auto simp: CBS_get_u8_over)
    then have "continuation b" "\<exists>v'. utf8_rest n v' (cbs_over bs' r) = (Some x, c')"
      using Suc.prems by (auto simp: continuation_iff split: if_splits)
    then obtain cs rest where "bs' = cs @ rest" "length cs = n" "\<forall>b \<in> set cs. continuation b"
      using Suc.IH by blast
    then show ?case using bs \<open>continuation b\<close> by (intro exI [of _ "b # cs"] exI [of _ rest]) simp
  qed simp
  then obtain cs rest where c: "bs = cs @ rest" "length cs = n" "\<forall>b \<in> set cs. continuation b" by blast
  then show ?thesis using utf8_rest_ok [of v cs rest r] assms by auto
qed

lemma utf8_head:
  "b \<le> 0x7f \<longleftrightarrow> unat (b :: u8) < 128"
  by (simp add: word_le_nat_alt) linarith


lemma decodes_multibyte:
  assumes "code_point n" and bytes: "utf8 n = b # cs" "\<not> b \<le> 0x7f"
    and lead: "(if b AND TOP_BITS 3 = TOP_BITS 2 then Some (b AND BOTTOM_BITS 5, 1 :: nat, 0x80 :: u32)
       else if b AND TOP_BITS 4 = TOP_BITS 3 then Some (b AND BOTTOM_BITS 4, 2, 0x800)
       else if b AND TOP_BITS 5 = TOP_BITS 4 then Some (b AND BOTTOM_BITS 3, 3, 0x10000)
       else None) = Some (v, length cs, lb)"
    and v: "unat v < 32" and len: "length cs \<le> 3" and cs: "\<forall>b \<in> set cs. continuation b"
    and n: "utf8_value (unat v) cs = n" and lb: "unat lb \<le> n"
  shows "\<exists>x. cbs_get_utf8 (cbs_over (utf8 n @ bs) r) = (Some x, cbs_over bs r) \<and> unat x = n"
proof -
  have "(32::nat) \<le> 2 ^ (32 - 6 * length cs)"
    using power_increasing [of 5 "32 - 6 * length cs" "2::nat"] len by simp
  then have "unat (ucast v :: u32) < 2 ^ (32 - 6 * length cs)" using v by simp
  then obtain x where x: "utf8_rest (length cs) (ucast v) (cbs_over (cs @ bs) r) = (Some x, cbs_over bs r)"
    "unat x = utf8_value (unat (ucast v :: u32)) cs"
    using utf8_rest_ok [of "ucast v" cs bs r] len cs by auto
  then have xn: "unat x = n" using n by simp
  then have "is_valid_code_point x" "\<not> x < lb"
    using assms(1) lb by (simp_all add: code_point_iff word_less_nat_alt)
  then show ?thesis using bytes lead x xn by (simp add: cbs_get_utf8_def)
qed

lemma value_digits:
  "64 * (n div 64) + n mod 64 = (n :: nat)" "64 * (n div 4096) + n div 64 mod 64 = n div 64"
  "64 * (n div 262144) + n div 4096 mod 64 = n div 4096"
  using mult_div_mod_eq [of 64 n] mult_div_mod_eq [of 64 "n div 64"] mult_div_mod_eq [of 64 "n div 4096"]
  by (simp_all add: div_mult2_eq [symmetric])

lemma lead_digits:
  "q < 64 \<Longrightarrow> (128 + q) mod 64 = (q :: nat)" "q < 32 \<Longrightarrow> (192 + q) mod 32 = q"
  "q < 16 \<Longrightarrow> (224 + q) mod 16 = q" "q < 8 \<Longrightarrow> (240 + q) mod 8 = q"
  using mod_mult_self1 [of q 2 64] mod_mult_self1 [of q 6 32] mod_mult_self1 [of q 14 16]
    mod_mult_self1 [of q 30 8]
  by (simp_all add: add.commute)

lemma lead_classes:
  "q < 32 \<Longrightarrow> (192 + q) div 32 = (6 :: nat)" "q < 16 \<Longrightarrow> (224 + q) div 16 = (14 :: nat)"
  "q < 16 \<Longrightarrow> (224 + q) div 32 = (7 :: nat)" "q < 8 \<Longrightarrow> (240 + q) div 8 = (30 :: nat)"
  "q < 8 \<Longrightarrow> (240 + q) div 16 = (15 :: nat)" "q < 8 \<Longrightarrow> (240 + q) div 32 = (7 :: nat)"
  by (rule div_nat_eqI; simp)+

lemma decodes_utf8:
  assumes "code_point n"
  shows "\<exists>x. cbs_get_utf8 (cbs_over (utf8 n @ bs) r) = (Some x, cbs_over bs r) \<and> unat x = n"
proof -
  have lt: "n < 0x110000" using assms by (simp add: code_point_def)
  consider "n < 0x80" | "0x80 \<le> n" "n < 0x800" | "0x800 \<le> n" "n < 0x10000" | "0x10000 \<le> n" by linarith
  then show ?thesis
  proof cases
    case 1
    then show ?thesis by (simp add: utf8_def cbs_get_utf8_def utf8_head)
  next
    case 2
    let ?b = "utf8_byte 0xc0 (n div 64)" and ?cs = "[utf8_byte 0x80 (n mod 64)]"
    have lead: "n div 64 < 32" using 2 by simp
    have val: "utf8_value (n div 64) ?cs = n" by (simp add: value_digits lead_digits)
    show ?thesis
      by (rule decodes_multibyte [OF assms, of ?b ?cs "?b AND BOTTOM_BITS 5" "0x80"])
        (use 2 lead val in \<open>simp_all add: utf8_def utf8_head utf8_classes bottom_bits lead_digits lead_classes\<close>)
  next
    case 3
    let ?b = "utf8_byte 0xe0 (n div 4096)" and ?cs = "[utf8_byte 0x80 (n div 64 mod 64), utf8_byte 0x80 (n mod 64)]"
    have lead: "n div 4096 < 16" using 3 by simp
    have val: "utf8_value (n div 4096) ?cs = n" by (simp add: value_digits lead_digits)
    show ?thesis
      by (rule decodes_multibyte [OF assms, of ?b ?cs "?b AND BOTTOM_BITS 4" "0x800"])
        (use 3 lead val in \<open>simp_all add: utf8_def utf8_head utf8_classes bottom_bits lead_digits lead_classes\<close>)
  next
    case 4
    let ?b = "utf8_byte 0xf0 (n div 262144)" and ?cs = "[utf8_byte 0x80 (n div 4096 mod 64), utf8_byte 0x80 (n div 64 mod 64), utf8_byte 0x80 (n mod 64)]"
    have lead: "n div 262144 < 8" using 4 lt by simp
    have val: "utf8_value (n div 262144) ?cs = n" by (simp add: value_digits lead_digits)
    show ?thesis
      by (rule decodes_multibyte [OF assms, of ?b ?cs "?b AND BOTTOM_BITS 3" "0x10000"])
        (use 4 lead val in \<open>simp_all add: utf8_def utf8_head utf8_classes bottom_bits lead_digits lead_classes\<close>)
  qed
qed


lemma utf8_bytes_eqI:
  "unat b = lead + n \<Longrightarrow> utf8_byte lead n = b"
  unfolding utf8_byte_def by (metis of_nat_unat ucast_id)

lemma digit_split: "q < 64 \<Longrightarrow> (64 * p + q) div 64 = (p :: nat)" "q < 64 \<Longrightarrow> (64 * p + q) mod 64 = (q :: nat)"
  by simp_all

lemma div_digits: "n div 4096 = n div 64 div (64 :: nat)" "n div 262144 = n div 64 div 64 div (64 :: nat)"
  by (simp_all add: div_mult2_eq [symmetric])

lemma unat_split: "unat b div m = k \<Longrightarrow> unat (b :: u8) = m * k + unat b mod m"
  using mult_div_mod_eq [of m "unat b"] by simp

lemma utf8_of_bytes:
  assumes "\<forall>b \<in> set cs. continuation b" and m: "m = utf8_value k cs"
  shows "unat b = 192 + k \<Longrightarrow> k < 32 \<Longrightarrow> 128 \<le> m \<Longrightarrow> length cs = 1 \<Longrightarrow> utf8 m = b # cs"
    and "unat b = 224 + k \<Longrightarrow> k < 16 \<Longrightarrow> 2048 \<le> m \<Longrightarrow> length cs = 2 \<Longrightarrow> utf8 m = b # cs"
    and "unat b = 240 + k \<Longrightarrow> k < 8 \<Longrightarrow> 65536 \<le> m \<Longrightarrow> length cs = 3 \<Longrightarrow> utf8 m = b # cs"
proof -
  have c: "utf8_byte 128 (unat c mod 64) = c" if "c \<in> set cs" for c
    using that assms(1) unat_split [of c 64 2] by (intro utf8_bytes_eqI) (simp add: continuation_def)
  show "utf8 m = b # cs" if H: "unat b = 192 + k" "k < 32" "128 \<le> m" "length cs = 1"
  proof -
    obtain c1 where "cs = [c1]" using H(4) by (auto simp: length_Suc_conv)
    then show ?thesis using H m c by (auto simp: utf8_def utf8_bytes_eqI)
  qed
  show "utf8 m = b # cs" if H: "unat b = 224 + k" "k < 16" "2048 \<le> m" "length cs = 2"
  proof -
    obtain c1 c2 where cs: "cs = [c1, c2]" using H(4) by (auto simp: length_Suc_conv numeral_2_eq_2)
    define p q where "p = unat c1 mod 64" and "q = unat c2 mod 64"
    have pq: "utf8_byte 128 p = c1" "utf8_byte 128 q = c2" "p < 64" "q < 64"
      and m': "m = 64 * (64 * k + p) + q" using c m cs by (simp_all add: p_def q_def)
    have "m mod 64 = q" "m div 64 = 64 * k + p" using digit_split [OF pq(4), of "64 * k + p"] m' by simp_all
    moreover have "m < 65536"
    proof -
      have "k \<le> 15" "p \<le> 63" "q \<le> 63" using H(2) pq(3,4) by simp_all
      then show ?thesis using m' by simp
    qed
    ultimately show ?thesis using H cs pq
      by (simp add: utf8_def utf8_bytes_eqI div_digits digit_split)
  qed
  show "utf8 m = b # cs" if H: "unat b = 240 + k" "k < 8" "65536 \<le> m" "length cs = 3"
  proof -
    obtain c1 c2 c3 where cs: "cs = [c1, c2, c3]" using H(4) by (auto simp: length_Suc_conv numeral_3_eq_3)
    define p q r where "p = unat c1 mod 64" and "q = unat c2 mod 64" and "r = unat c3 mod 64"
    have pq: "utf8_byte 128 p = c1" "utf8_byte 128 q = c2" "utf8_byte 128 r = c3" "p < 64" "q < 64" "r < 64"
      and m': "m = 64 * (64 * (64 * k + p) + q) + r" using c m cs by (simp_all add: p_def q_def r_def)
    have "m mod 64 = r" "m div 64 = 64 * (64 * k + p) + q"
      using digit_split [OF pq(6), of "64 * (64 * k + p) + q"] m' by simp_all
    then show ?thesis using H cs pq digit_split [OF pq(5), of "64 * k + p"]
      by (simp add: utf8_def utf8_bytes_eqI div_digits digit_split)
  qed
qed

lemma canonical_utf8:
  assumes "cbs_get_utf8 (cbs_over bs r) = (Some x, c')"
  shows "code_point (unat x) \<and> (\<exists>rest. bs = utf8 (unat x) @ rest \<and> c' = cbs_over rest r)"
proof -
  obtain b bs' where bs: "bs = b # bs'"
    using assms by (cases bs) (auto simp: cbs_get_utf8_def CBS_get_u8_over)
  show ?thesis
  proof (cases "b \<le> 0x7f")
    case True
    then have x: "x = ucast b" "c' = cbs_over bs' r" using assms bs by (auto simp: cbs_get_utf8_def)
    have lt: "unat b < 128" using True by (simp add: utf8_head)
    then have "code_point (unat x)" by (simp add: x code_point_def)
    moreover have "bs = utf8 (unat x) @ bs'" using lt bs by (simp add: x utf8_def utf8_bytes_eqI)
    ultimately show ?thesis using x(2) by blast
  next
    case False
    define k where "k = (if unat b div 32 = 6 then 1 else if unat b div 16 = 14 then 2 else 3 :: nat)"
    obtain v lb where lead: "(if unat b div 32 = 6 then Some (b AND BOTTOM_BITS 5, 1 :: nat, 0x80 :: u32)
       else if unat b div 16 = 14 then Some (b AND BOTTOM_BITS 4, 2, 0x800)
       else if unat b div 8 = 30 then Some (b AND BOTTOM_BITS 3, 3, 0x10000)
       else None) = Some (v, k, lb)" and rest: "utf8_rest k (ucast v) (cbs_over bs' r) = (Some x, c')"
      and ok: "is_valid_code_point x" "\<not> x < lb"
      using assms False bs
      by (auto simp: cbs_get_utf8_def utf8_classes k_def split: if_splits option.splits prod.splits)
    have k: "k \<le> 5" by (simp add: k_def)
    have v: "unat v < 32" using lead by (auto simp: bottom_bits split: if_splits)
    have "(32::nat) \<le> 2 ^ (32 - 6 * k)"
      using power_increasing [of 5 "32 - 6 * k" "2::nat"] by (simp add: k_def)
    then have v': "unat (ucast v :: u32) < 2 ^ (32 - 6 * k)" using v by simp
    have uv: "unat (ucast v :: u32) = unat v" by simp
    obtain cs tl where cs: "bs' = cs @ tl" "length cs = k" "\<forall>b \<in> set cs. continuation b"
      "c' = cbs_over tl r" "unat x = utf8_value (unat v) cs"
      using utf8_rest_sound [OF rest v' k] unfolding uv by blast
    have lb: "unat lb \<le> unat x" using ok(2) unfolding word_less_nat_alt by (rule leI)
    have "utf8 (unat x) = b # cs"
    proof -
      have len: "length cs = k" by (rule cs(2))
      consider (two) "unat b div 32 = 6" | (three) "unat b div 32 \<noteq> 6" "unat b div 16 = 14"
        | (four) "unat b div 32 \<noteq> 6" "unat b div 16 \<noteq> 14" "unat b div 8 = 30"
        using lead by (auto split: if_splits)
      then show ?thesis
      proof cases
        case two
        then have "unat v = unat b mod 32" "lb = 0x80" "k = 1" using lead by (auto simp: bottom_bits)
        then show ?thesis using utf8_of_bytes(1) [OF cs(3,5), of b] unat_split [OF two] lb len by simp
      next
        case three
        then have "unat v = unat b mod 16" "lb = 0x800" "k = 2" using lead by (auto simp: bottom_bits)
        then show ?thesis using utf8_of_bytes(2) [OF cs(3,5), of b] unat_split [OF three(2)] lb len by simp
      next
        case four
        then have "unat v = unat b mod 8" "lb = 0x10000" "k = 3" using lead by (auto simp: bottom_bits)
        then show ?thesis using utf8_of_bytes(3) [OF cs(3,5), of b] unat_split [OF four(3)] lb len by simp
      qed
    qed
    then show ?thesis using bs cs ok(1) by (simp add: code_point_iff)
  qed
qed


lemma utf8_nonempty [simp]: "utf8 n \<noteq> []"
  by (simp add: utf8_def)

lemma length_utf8: "unat u < 0x110000 \<Longrightarrow> length (utf8 (unat u)) = cbb_get_utf8_len u"
  by (simp add: utf8_def cbb_get_utf8_len_def word_le_nat_alt)

interpretation utf8_codec: strict_codec cbs_get_utf8 unat utf8 code_point
  by unfold_locales (use decodes_utf8 canonical_utf8 in blast)+


section \<open>Writing\<close>

lemma unat_byte_shift: "unat u < 2 ^ (8 + k) \<Longrightarrow> unat (ucast (drop_bit k u :: u32) :: u8) = unat u div 2 ^ k"
  by (simp add: word_nat power_add less_mult_imp_div_less)

lemma add_utf8_bytes:
  "unat u < 0x80 \<Longrightarrow> ucast u = utf8_byte 0 (unat u)"
  "unat u < 0x800 \<Longrightarrow> TOP_BITS 2 OR ucast (drop_bit 6 (u :: u32)) = utf8_byte 0xc0 (unat u div 64)"
  "unat u < 0x10000 \<Longrightarrow> TOP_BITS 3 OR ucast (drop_bit 12 u) = utf8_byte 0xe0 (unat u div 4096)"
  "unat u < 0x110000 \<Longrightarrow> TOP_BITS 4 OR ucast (drop_bit 18 u) = utf8_byte 0xf0 (unat u div 262144)"
  "TOP_BITS 1 OR (ucast u AND BOTTOM_BITS 6) = utf8_byte 0x80 (unat u mod 64)"
  "TOP_BITS 1 OR (ucast (drop_bit 6 u) AND BOTTOM_BITS 6) = utf8_byte 0x80 (unat u div 64 mod 64)"
  "TOP_BITS 1 OR (ucast (drop_bit 12 u) AND BOTTOM_BITS 6) = utf8_byte 0x80 (unat u div 4096 mod 64)"
proof -
  show "unat u < 0x80 \<Longrightarrow> ucast u = utf8_byte 0 (unat u)"
    by (simp add: utf8_byte_def)
  have m: "unat (ucast v :: u8) mod 64 = unat v mod 64" for v :: u32
    by (simp add: unat_ucast mod_mod_cancel)
  show "TOP_BITS 1 OR (ucast u AND BOTTOM_BITS 6) = utf8_byte 0x80 (unat u mod 64)"
    "TOP_BITS 1 OR (ucast (drop_bit 6 u) AND BOTTOM_BITS 6) = utf8_byte 0x80 (unat u div 64 mod 64)"
    "TOP_BITS 1 OR (ucast (drop_bit 12 u) AND BOTTOM_BITS 6) = utf8_byte 0x80 (unat u div 4096 mod 64)"
    by (rule utf8_bytes_eqI [symmetric], simp add: top_bits_or(4) [simplified] m unat_drop_bit)+
  show "TOP_BITS 2 OR ucast (drop_bit 6 u) = utf8_byte 0xc0 (unat u div 64)" if "unat u < 0x800"
  proof -
    have "unat (ucast (drop_bit 6 u) :: u8) = unat u div 64" using unat_byte_shift [of u 6] that by simp
    moreover have "unat u div 64 < 32" using that by simp
    ultimately show ?thesis by (intro utf8_bytes_eqI [symmetric]) (simp only: top_bits_or)
  qed
  show "TOP_BITS 3 OR ucast (drop_bit 12 u) = utf8_byte 0xe0 (unat u div 4096)" if "unat u < 0x10000"
  proof -
    have "unat (ucast (drop_bit 12 u) :: u8) = unat u div 4096" using unat_byte_shift [of u 12] that by simp
    moreover have "unat u div 4096 < 16" using that by simp
    ultimately show ?thesis by (intro utf8_bytes_eqI [symmetric]) (simp only: top_bits_or)
  qed
  show "TOP_BITS 4 OR ucast (drop_bit 18 u) = utf8_byte 0xf0 (unat u div 262144)" if "unat u < 0x110000"
  proof -
    have "unat (ucast (drop_bit 18 u) :: u8) = unat u div 262144" using unat_byte_shift [of u 18] that by simp
    moreover have "unat u div 262144 < 8" using that by simp
    ultimately show ?thesis by (intro utf8_bytes_eqI [symmetric]) (simp only: top_bits_or)
  qed
qed

lemma writes_utf8:
  assumes "code_point n"
  shows "writes d (\<lambda>alloc. cbb_add_utf8 alloc d (word_of_nat n)) (utf8 n)"
proof -
  define u :: u32 where "u = word_of_nat n"
  have n: "n < 0x110000" using assms by (simp add: code_point_def)
  then have u: "unat u = n" unfolding u_def by (intro unat_word_of_nat_small) simp
  have v: "is_valid_code_point u" using assms u by (simp add: code_point_iff)
  have le: "u \<le> 0x7f \<longleftrightarrow> n < 0x80" "u \<le> 0x7ff \<longleftrightarrow> n < 0x800" "u \<le> 0xffff \<longleftrightarrow> n < 0x10000" "u \<le> 0x10ffff"
    using n u by (auto simp: word_le_nat_alt)
  note w = writes_u8 writes_then [OF writes_u8 writes_u8]
    writes_then [OF writes_u8 writes_then [OF writes_u8 writes_u8]]
    writes_then [OF writes_u8 writes_then [OF writes_u8 writes_then [OF writes_u8 writes_u8]]]
  note b = add_utf8_bytes [of u, unfolded u]
  show ?thesis
    unfolding u_def [symmetric]
  proof (cases "n < 0x80"; cases "n < 0x800"; cases "n < 0x10000")
    assume "n < 0x80"
    then show "writes d (\<lambda>alloc. cbb_add_utf8 alloc d u) (utf8 n)"
      using w(1) [of d "ucast u"] b(1) by (simp add: cbb_add_utf8_def utf8_def v le)
  next
    assume "\<not> n < 0x80" "n < 0x800"
    then show "writes d (\<lambda>alloc. cbb_add_utf8 alloc d u) (utf8 n)"
      using w(2) [of d "utf8_byte 0xc0 (n div 64)" "utf8_byte 0x80 (n mod 64)"]
      by (simp add: cbb_add_utf8_def utf8_def v le b(2) b(5-7) [simplified])
  next
    assume "\<not> n < 0x80" "\<not> n < 0x800" "n < 0x10000"
    then show "writes d (\<lambda>alloc. cbb_add_utf8 alloc d u) (utf8 n)"
      using w(3) [of d "utf8_byte 0xe0 (n div 4096)" "utf8_byte 0x80 (n div 64 mod 64)" "utf8_byte 0x80 (n mod 64)"]
      by (simp add: cbb_add_utf8_def utf8_def v le b(3) b(5-7) [simplified])
  next
    assume "\<not> n < 0x80" "\<not> n < 0x800" "\<not> n < 0x10000"
    then show "writes d (\<lambda>alloc. cbb_add_utf8 alloc d u) (utf8 n)"
      using w(4) [of d "utf8_byte 0xf0 (n div 262144)" "utf8_byte 0x80 (n div 4096 mod 64)"
          "utf8_byte 0x80 (n div 64 mod 64)" "utf8_byte 0x80 (n mod 64)"] b(4) n
      by (simp add: cbb_add_utf8_def utf8_def v le b(5-7) [simplified])
  qed simp_all
qed

interpretation utf8_trip: round_trip "\<lambda>alloc d n. cbb_add_utf8 alloc d (word_of_nat n)" cbs_get_utf8 unat utf8
    code_point
  by unfold_locales (rule writes_utf8)


section \<open>The fixed-width encodings\<close>

lemma code_point_u32: "code_point n \<Longrightarrow> unat (word_of_nat n :: u32) = n"
  by (rule unat_word_of_nat_small) (simp add: code_point_def)

lemma low_byte: "ucast (ucast b :: u32) = (b :: u8)"
proof -
  have "unat b < 4294967296" using unat_u8_lt [of b] by linarith
  then show ?thesis by (simp add: word_unat_eq_iff unat_ucast)
qed

interpretation latin1_trip: round_trip "\<lambda>alloc d n. cbb_add_latin1 alloc d (word_of_nat n)"
    cbs_get_latin1 unat "\<lambda>n. [word_of_nat n]" "\<lambda>n. n < 256"
proof unfold_locales
  fix n d
  assume "n < (256 :: nat)"
  then have n: "unat (word_of_nat n :: u32) = n" "ucast (word_of_nat n :: u32) = (word_of_nat n :: u8)"
    by (auto intro!: unat_word_of_nat_small simp: word_unat_eq_iff unat_ucast unat_of_nat)
  then show "writes d (\<lambda>alloc. cbb_add_latin1 alloc d (word_of_nat n)) [word_of_nat n]"
    using writes_u8 [of d "word_of_nat n"] \<open>n < 256\<close> by (simp add: cbb_add_latin1_def word_le_nat_alt)
next
  fix n :: nat and bs r
  assume n: "n < 256"
  then have "unat (word_of_nat n :: u8) = n" by (intro unat_word_of_nat_small) simp
  then show "\<exists>x. cbs_get_latin1 (cbs_over ([word_of_nat n] @ bs) r) = (Some x, cbs_over bs r) \<and> unat x = n"
    by (simp add: cbs_get_latin1_def map_get_over)
qed

interpretation latin1_codec: strict_codec cbs_get_latin1 unat "\<lambda>n. [word_of_nat n]" "\<lambda>n. n < 256"
proof unfold_locales
  fix bs r x c'
  assume "cbs_get_latin1 (cbs_over bs r) = (Some x, c')"
  then show "unat x < 256 \<and> (\<exists>rest. bs = [word_of_nat (unat x)] @ rest \<and> c' = cbs_over rest r)"
    by (cases bs) (auto simp: cbs_get_latin1_def map_get_over CBS_get_u8_over low_byte)
qed

interpretation ucs2_trip: round_trip "\<lambda>alloc d n. cbb_add_ucs2_be alloc d (word_of_nat n)"
    cbs_get_ucs2_be unat "\<lambda>n. be_bytes 2 (word_of_nat n :: u16)" "\<lambda>n. n < 65536 \<and> code_point n"
proof unfold_locales
  fix n d
  assume n: "n < 65536 \<and> code_point n"
  then have "unat (word_of_nat n :: u32) = n" "ucast (word_of_nat n :: u32) = (word_of_nat n :: u16)"
    using code_point_u32 by (auto simp: word_unat_eq_iff unat_ucast unat_of_nat)
  then show "writes d (\<lambda>alloc. cbb_add_ucs2_be alloc d (word_of_nat n)) (be_bytes 2 (word_of_nat n :: u16))"
    using writes_u16 [of d "word_of_nat n"] n by (simp add: cbb_add_ucs2_be_def word_le_nat_alt code_point_iff)
next
  fix n bs r
  assume n: "n < 65536 \<and> code_point n"
  then have u: "unat (word_of_nat n :: u16) = n" by (intro unat_word_of_nat_small) simp
  then have "is_valid_code_point (ucast (word_of_nat n :: u16))" using n by (simp add: code_point_iff)
  then show "\<exists>x. cbs_get_ucs2_be (cbs_over (be_bytes 2 (word_of_nat n :: u16) @ bs) r) =
      (Some x, cbs_over bs r) \<and> unat x = n"
    using u16_codec.decodes [of "word_of_nat n" bs r] u n by (auto simp: cbs_get_ucs2_be_def)
qed

interpretation ucs2_codec: strict_codec cbs_get_ucs2_be unat "\<lambda>n. be_bytes 2 (word_of_nat n :: u16)"
    "\<lambda>n. n < 65536 \<and> code_point n"
proof unfold_locales
  fix bs r x c'
  assume a: "cbs_get_ucs2_be (cbs_over bs r) = (Some x, c')"
  then obtain w where w: "CBS_get_u16 (cbs_over bs r) = (Some w, c')" "is_valid_code_point (ucast w)" "x = ucast w"
    by (auto simp: cbs_get_ucs2_be_def split: prod.splits option.splits if_splits)
  have "unat x < 65536" using w(3) unsigned_less [of w, where ?'a = nat] by simp
  then show "(unat x < 65536 \<and> code_point (unat x)) \<and>
      (\<exists>rest. bs = be_bytes 2 (word_of_nat (unat x) :: u16) @ rest \<and> c' = cbs_over rest r)"
    using u16_codec.canonical [OF w(1)] w by (simp add: code_point_iff)
qed

interpretation utf32_trip: round_trip "\<lambda>alloc d n. cbb_add_utf32_be alloc d (word_of_nat n)"
    cbs_get_utf32_be unat "\<lambda>n. be_bytes 4 (word_of_nat n :: u32)" code_point
proof unfold_locales
  fix n d
  assume n: "code_point n"
  then show "writes d (\<lambda>alloc. cbb_add_utf32_be alloc d (word_of_nat n)) (be_bytes 4 (word_of_nat n :: u32))"
    using writes_u32 [of d "word_of_nat n"] code_point_u32 by (simp add: cbb_add_utf32_be_def code_point_iff)
next
  fix n bs r
  assume n: "code_point n"
  have "unat (word_of_nat n :: u32) < 256 ^ 4"
    using unsigned_less [of "word_of_nat n :: u32", where ?'a = nat] by simp
  then show "\<exists>x. cbs_get_utf32_be (cbs_over (be_bytes 4 (word_of_nat n :: u32) @ bs) r) =
      (Some x, cbs_over bs r) \<and> unat x = n"
    using u32_codec.decodes [of "word_of_nat n" bs r] code_point_u32 [OF n] n
    by (auto simp: cbs_get_utf32_be_def code_point_iff)
qed

interpretation utf32_codec: strict_codec cbs_get_utf32_be unat "\<lambda>n. be_bytes 4 (word_of_nat n :: u32)" code_point
proof unfold_locales
  fix bs r x c'
  assume a: "cbs_get_utf32_be (cbs_over bs r) = (Some x, c')"
  then have "CBS_get_u32 (cbs_over bs r) = (Some x, c')" "is_valid_code_point x"
    by (auto simp: cbs_get_utf32_be_def split: prod.splits option.splits if_splits)
  then show "code_point (unat x) \<and>
      (\<exists>rest. bs = be_bytes 4 (word_of_nat (unat x) :: u32) @ rest \<and> c' = cbs_over rest r)"
    using u32_codec.canonical [of bs r x c'] by (simp add: code_point_iff)
qed

section \<open>Properties\<close>

text \<open>
  C6: \<open>cbs_get_utf8\<close> accepts exactly UTF-8: it reads a code point off the front of the input
  just when the input starts with the RFC 3629 encoding of one that is in range, not a
  surrogate and not a noncharacter; overlong forms, stray continuation bytes and truncated
  sequences are refused, and the bytes of the encoding, no more, are consumed.
\<close>

theorem utf8_accepted_iff:
  "cbs_get_utf8 (cbs_over bs r) = (Some u, c') \<longleftrightarrow>
     code_point (unat u) \<and> (\<exists>rest. bs = utf8 (unat u) @ rest \<and> c' = cbs_over rest r)"
  using utf8_codec.canonical [of bs r u c'] utf8_codec.decodes [of "unat u" _ r] by (metis word_unat_eq_iff)

text \<open>
  C7: Text written code point by code point with \<open>cbb_add_utf8\<close> into a fresh builder takes
  \<open>cbb_get_utf8_len\<close> bytes per code point, and reading the finished buffer with
  \<open>cbs_get_utf8\<close> until it is empty gives the same code points.
\<close>

theorem utf8_text_round_trip:
  assumes "\<forall>n \<in> set ns. code_point n" and "capacity + 8 < 2 ^ 63" and "4 * length ns < 2 ^ 60"
  shows "\<exists>out. cbb_build capacity
        (put_all (\<lambda>alloc d n. cbb_add_utf8 alloc d (word_of_nat n)) 0 ns) alloc_total = Some out \<and>
      length out = (\<Sum>n \<leftarrow> ns. cbb_get_utf8_len (word_of_nat n)) \<and>
      (\<exists>us. get_all (length ns) cbs_get_utf8 (cbs_over out r) = Some (Some us) \<and> map unat us = ns)"
proof -
  have l: "length (utf8 n) = cbb_get_utf8_len (word_of_nat n) \<and> length (utf8 n) \<le> 4" if "n \<in> set ns" for n
  proof -
    have "unat (word_of_nat n :: u32) = n" "n < 0x110000"
      using assms(1) that code_point_u32 by (auto simp: code_point_def)
    then show ?thesis using length_utf8 [of "word_of_nat n"] by (simp add: cbb_get_utf8_len_def)
  qed
  then have len: "length (concat (map utf8 ns)) = (\<Sum>n \<leftarrow> ns. cbb_get_utf8_len (word_of_nat n))"
    by (simp add: length_concat comp_def cong: map_cong)
  have "length (concat (map utf8 ns)) \<le> 4 * length ns" using l by (induction ns) force+
  then have b: "cbb_build capacity (put_all (\<lambda>alloc d n. cbb_add_utf8 alloc d (word_of_nat n)) 0 ns) alloc_total =
      Some (concat (map utf8 ns))"
    using utf8_trip.build_total [OF assms(1,2)] assms(3) by simp
  show ?thesis
    using utf8_trip.build_then_get_all [OF assms(1) _ assms(2) alloc_total_ok b, of "length ns" r] b len by auto
qed

lemma utf8_text_round_trip_witness:
  "\<exists>out. cbb_build 8 (put_all (\<lambda>alloc d n. cbb_add_utf8 alloc d (word_of_nat n)) 0 [0x24, 0x20ac, 0x10348])
        alloc_total = Some out \<and>
      length out = (\<Sum>n \<leftarrow> [0x24, 0x20ac, 0x10348]. cbb_get_utf8_len (word_of_nat n)) \<and>
      (\<exists>us. get_all (length [0x24, 0x20ac, 0x10348 :: nat]) cbs_get_utf8 (cbs_over out [9]) = Some (Some us) \<and>
         map unat us = [0x24, 0x20ac, 0x10348])"
  by (rule utf8_text_round_trip) (simp_all add: code_point_def)

end
