(* ===== verification/Buffers.thy ===== *)
theory Buffers
  imports Prelude
begin

text \<open>
  Output buffers written at an offset, cutting input into blocks, and the contract of the
  contexts that buffer input until a block is full (the base64 encoder and the digests).
\<close>

section \<open>Writing into a buffer\<close>

text \<open>
  \<open>poke p xs out\<close> is the buffer \<open>out\<close> after the bytes \<open>xs\<close> were stored from offset \<open>p\<close> on.
  A write past the end makes the list longer: that \<open>length\<close> is kept is what the bounds
  lemmas of the components state.
\<close>

definition poke :: "nat \<Rightarrow> 'a list \<Rightarrow> 'a list \<Rightarrow> 'a list" where
  "poke p xs out = take p out @ xs @ drop (p + length xs) out"

lemma poke_Nil [simp]: "poke p [] out = out"
  by (simp add: poke_def)

lemma length_poke [simp]: "p + length xs \<le> length out \<Longrightarrow> length (poke p xs out) = length out"
  by (simp add: poke_def)

lemma length_poke_iff: "p \<le> length out \<Longrightarrow> length (poke p xs out) = length out \<longleftrightarrow> p + length xs \<le> length out"
  by (auto simp: poke_def)

lemma poke_append:
  "p + length xs \<le> length out \<Longrightarrow> poke (p + length xs) ys (poke p xs out) = poke p (xs @ ys) out"
  by (simp add: poke_def ac_simps)

text \<open>The last byte stored is often overwritten by the next write: a terminator.\<close>

lemma poke_over:
  assumes "p + length (xs @ zs) \<le> length out" and "length zs \<le> length ys"
  shows "poke (p + length xs) ys (poke p (xs @ zs) out) = poke p (xs @ ys) out"
proof -
  have "drop (length ys - length zs) (drop (p + (length xs + length zs)) out) = drop (p + (length xs + length ys)) out"
    using assms(2) by (simp add: add.commute add.left_commute)
  then show ?thesis using assms by (simp add: poke_def ac_simps)
qed

lemma take_poke [simp]: "p \<le> length out \<Longrightarrow> take (p + length xs) (poke p xs out) = take p out @ xs"
  by (simp add: poke_def)

lemma take_poke_0 [simp]: "take (length xs) (poke 0 xs out) = xs"
  by (simp add: poke_def)

lemma take_poke_below: "n \<le> p \<Longrightarrow> p \<le> length out \<Longrightarrow> take n (poke p xs out) = take n out"
  by (simp add: poke_def min_def)

lemma poke_single: "p < length out \<Longrightarrow> poke p [x] out = out[p := x]"
  by (simp add: poke_def upd_conv_take_nth_drop)

section \<open>Cutting a byte string into blocks\<close>

fun blocks :: "nat \<Rightarrow> 'a list \<Rightarrow> 'a list list" where
  "blocks n bs = (if n = 0 \<or> length bs < n then [] else take n bs # blocks n (drop n bs))"

declare blocks.simps [simp del]

definition leftover :: "nat \<Rightarrow> 'a list \<Rightarrow> 'a list" where
  "leftover n bs = drop (length bs div n * n) bs"

lemma blocks_small [simp]: "length bs < n \<Longrightarrow> blocks n bs = []"
  by (simp add: blocks.simps)

lemma leftover_small [simp]: "length bs < n \<Longrightarrow> leftover n bs = bs"
  by (simp add: leftover_def)

lemma blocks_Cons: "0 < n \<Longrightarrow> n \<le> length bs \<Longrightarrow> blocks n bs = take n bs # blocks n (drop n bs)"
  by (subst blocks.simps) simp

lemma leftover_drop:
  assumes "0 < n" and "n \<le> length bs"
  shows "leftover n bs = leftover n (drop n bs)"
proof -
  have "length bs div n = Suc ((length bs - n) div n)"
    using assms by (metis le_div_geq)
  then show ?thesis by (simp add: leftover_def add.commute)
qed

lemma length_leftover: "0 < n \<Longrightarrow> length (leftover n bs) = length bs mod n"
  by (simp add: leftover_def minus_div_mult_eq_mod)

lemma length_leftover_less [simp]: "0 < n \<Longrightarrow> length (leftover n bs) < n"
  by (simp add: length_leftover)

lemma length_blocks: "0 < n \<Longrightarrow> length (blocks n bs) = length bs div n"
proof (induction n bs rule: blocks.induct)
  case (1 n bs)
  then show ?case by (cases "length bs < n") (simp_all add: blocks_Cons le_div_geq)
qed

lemma blocks_lengths: "b \<in> set (blocks n bs) \<Longrightarrow> length b = n"
proof (induction n bs rule: blocks.induct)
  case (1 n bs)
  then show ?case by (subst (asm) (2) blocks.simps) (auto split: if_splits)
qed

lemma concat_blocks: "0 < n \<Longrightarrow> concat (blocks n bs) @ leftover n bs = bs"
proof (induction n bs rule: blocks.induct)
  case (1 n bs)
  then show ?case by (cases "length bs < n") (simp_all add: blocks_Cons leftover_drop)
qed

lemma blocks_append:
  "0 < n \<Longrightarrow> blocks n (xs @ ys) = blocks n xs @ blocks n (leftover n xs @ ys) \<and>
     leftover n (xs @ ys) = leftover n (leftover n xs @ ys)"
proof (induction n xs rule: blocks.induct)
  case (1 n xs)
  then show ?case by (cases "length xs < n") (simp_all add: blocks_Cons leftover_drop)
qed

section \<open>Buffering input until a block is full\<close>

text \<open>
  What the block-buffering contexts of the code (digests, the base64 encoder) have in
  common: \<open>process\<close> folds one full block into the result so far, and a context stands for
  that result with the bytes that wait for the next block.
\<close>

locale block_buffer =
  fixes bsize :: nat and process :: "'h \<Rightarrow> bytes \<Rightarrow> 'h"
  assumes bsize_pos: "0 < bsize"
begin

definition absorb :: "'h \<times> bytes \<Rightarrow> bytes \<Rightarrow> 'h \<times> bytes" where
  "absorb s x = (foldl process (fst s) (blocks bsize (snd s @ x)), leftover bsize (snd s @ x))"

lemma absorb_Nil: "length (snd s) < bsize \<Longrightarrow> absorb s [] = s"
  by (simp add: absorb_def)

lemma absorb_pending: "length (snd (absorb s x)) < bsize"
  using bsize_pos by (simp add: absorb_def)

lemma absorb_append: "absorb (absorb s x) y = absorb s (x @ y)"
  using blocks_append [OF bsize_pos, of "snd s @ x" y] by (simp add: absorb_def)

lemma absorb_all: "length (snd s) < bsize \<Longrightarrow> foldl absorb s xs = absorb s (concat xs)"
proof (induction xs rule: rev_induct)
  case Nil
  then show ?case by (simp add: absorb_Nil)
qed (simp add: absorb_append)

end

text \<open>
  The contract of an update operation on such a context: \<open>abs\<close> reads off what a context
  stands for.  However a message is cut, the context ends up the same.
\<close>

locale block_updates = block_buffer bsize process
  for bsize :: nat and process :: "'h \<Rightarrow> bytes \<Rightarrow> 'h" +
  fixes wf :: "'c \<Rightarrow> bool" and abs :: "'c \<Rightarrow> 'h \<times> bytes" and upd :: "'c \<Rightarrow> bytes \<Rightarrow> 'c"
    and fits :: "'c \<Rightarrow> nat \<Rightarrow> bool"
  assumes upd_absorbs: "wf c \<Longrightarrow> fits c (length x) \<Longrightarrow> wf (upd c x) \<and> abs (upd c x) = absorb (abs c) x"
    and wf_pending: "wf c \<Longrightarrow> length (snd (abs c)) < bsize"
    and fits_next: "wf c \<Longrightarrow> fits c (length x + n) \<Longrightarrow> fits c (length x) \<and> fits (upd c x) n"
begin

lemma updates_absorb:
  "wf c \<Longrightarrow> fits c (length (concat xs)) \<Longrightarrow>
   wf (foldl upd c xs) \<and> abs (foldl upd c xs) = absorb (abs c) (concat xs)"
proof (induction xs arbitrary: c)
  case Nil
  then show ?case by (simp add: absorb_Nil wf_pending)
next
  case (Cons x xs)
  have f: "fits c (length x) \<and> fits (upd c x) (length (concat xs))"
    using fits_next [OF Cons.prems(1), of x "length (concat xs)"] Cons.prems(2) by simp
  then have u: "wf (upd c x)" "abs (upd c x) = absorb (abs c) x"
    using upd_absorbs Cons.prems(1) by blast+
  have "wf (foldl upd (upd c x) xs) \<and> abs (foldl upd (upd c x) xs) = absorb (abs (upd c x)) (concat xs)"
    using Cons.IH [OF u(1)] f by blast
  then show ?case unfolding u(2) by (simp add: absorb_append)
qed

lemma cuts_agree:
  assumes "wf c" and "fits c (length (concat xs))" and "concat xs = concat ys"
  shows "abs (foldl upd c xs) = abs (foldl upd c ys)"
  using updates_absorb [OF assms(1), of xs] updates_absorb [OF assms(1), of ys] assms(2,3) by simp

end

end
