(* ===== verification/Const_time.thy ===== *)
theory Const_time
  imports Prelude
begin

text \<open>
  The constant-time comparison and selection functions of crypto/internal.h.
\<close>

section \<open>Operations\<close>

text \<open>
  \<open>crypto_word_t\<close> is 64 bits wide.  \<open>value_barrier_w\<close> is an empty assembly statement and
  returns its argument; converting an \<open>int\<close> to \<open>crypto_word_t\<close> extends its sign.
\<close>

definition value_barrier_w :: "u64 \<Rightarrow> u64" where
  "value_barrier_w a = a"

definition constant_time_msb_w :: "u64 \<Rightarrow> u64" where
  "constant_time_msb_w a = 0 - drop_bit (8 * 8 - 1) a"

definition constant_time_lt_w :: "u64 \<Rightarrow> u64 \<Rightarrow> u64" where
  "constant_time_lt_w a b = constant_time_msb_w (a XOR ((a XOR b) OR ((a - b) XOR a)))"

definition constant_time_lt_8 :: "u64 \<Rightarrow> u64 \<Rightarrow> u8" where
  "constant_time_lt_8 a b = ucast (constant_time_lt_w a b)"

definition constant_time_ge_w :: "u64 \<Rightarrow> u64 \<Rightarrow> u64" where
  "constant_time_ge_w a b = NOT (constant_time_lt_w a b)"

definition constant_time_ge_8 :: "u64 \<Rightarrow> u64 \<Rightarrow> u8" where
  "constant_time_ge_8 a b = ucast (constant_time_ge_w a b)"

definition constant_time_is_zero_w :: "u64 \<Rightarrow> u64" where
  "constant_time_is_zero_w a = constant_time_msb_w (NOT a AND (a - 1))"

definition constant_time_is_zero_8 :: "u64 \<Rightarrow> u8" where
  "constant_time_is_zero_8 a = ucast (constant_time_is_zero_w a)"

definition constant_time_eq_w :: "u64 \<Rightarrow> u64 \<Rightarrow> u64" where
  "constant_time_eq_w a b = constant_time_is_zero_w (a XOR b)"

definition constant_time_eq_8 :: "u64 \<Rightarrow> u64 \<Rightarrow> u8" where
  "constant_time_eq_8 a b = ucast (constant_time_eq_w a b)"

definition constant_time_eq_int :: "32 word \<Rightarrow> 32 word \<Rightarrow> u64" where
  "constant_time_eq_int a b = constant_time_eq_w (scast a) (scast b)"

definition constant_time_eq_int_8 :: "32 word \<Rightarrow> 32 word \<Rightarrow> u8" where
  "constant_time_eq_int_8 a b = constant_time_eq_8 (scast a) (scast b)"

definition constant_time_select_w :: "u64 \<Rightarrow> u64 \<Rightarrow> u64 \<Rightarrow> u64" where
  "constant_time_select_w msk a b = (value_barrier_w msk AND a) OR (value_barrier_w (NOT msk) AND b)"

definition constant_time_select_8 :: "u8 \<Rightarrow> u8 \<Rightarrow> u8 \<Rightarrow> u8" where
  "constant_time_select_8 msk a b = ucast (constant_time_select_w (ucast msk) (ucast a) (ucast b))"

definition constant_time_select_int :: "u64 \<Rightarrow> 32 word \<Rightarrow> 32 word \<Rightarrow> 32 word" where
  "constant_time_select_int msk a b = ucast (constant_time_select_w msk (scast a) (scast b))"

section \<open>What they compute\<close>

lemma msb_u64: "bit (a :: u64) 63 \<longleftrightarrow> 2 ^ 63 \<le> unat a"
proof -
  have "bit a 63 \<longleftrightarrow> bit (unat a) 63" by (simp add: bit_unsigned_iff)
  also have "\<dots> \<longleftrightarrow> odd (unat a div 2 ^ 63)" by (rule bit_iff_odd)
  finally have b: "bit a 63 \<longleftrightarrow> odd (unat a div 2 ^ 63)" .
  have "unat a < 2 ^ 64" using unsigned_less [of a, where ?'a = nat] by simp
  then have "unat a div 2 ^ 63 = 0 \<or> unat a div 2 ^ 63 = 1" by (simp add: div_eq_0_iff) arith
  then show ?thesis using b by (auto simp: div_eq_0_iff)
qed

lemma constant_time_msb_w_eq: "constant_time_msb_w a = (if bit a 63 then - 1 else 0)"
proof -
  have "drop_bit 63 a = (if bit a 63 then 1 else 0)"
  proof (rule bit_word_eqI)
    fix n
    show "bit (drop_bit 63 a) n \<longleftrightarrow> bit (if bit a 63 then 1 else 0 :: u64) n"
      by (cases n) (auto simp: bit_simps dest: bit_imp_le_length)
  qed
  then show ?thesis by (simp add: constant_time_msb_w_def)
qed


lemma constant_time_lt_w_eq: "constant_time_lt_w a b = (if a < b then - 1 else 0)"
proof -
  have ab: "unat a < 2 ^ 64" "unat b < 2 ^ 64"
    using unsigned_less [of a, where ?'a = nat] unsigned_less [of b, where ?'a = nat] by simp_all
  have sub: "unat (a - b) = (if unat b \<le> unat a then unat a - unat b else unat a + 2 ^ 64 - unat b)"
    using ab by (simp add: unat_sub_if')
  have "bit (a XOR ((a XOR b) OR ((a - b) XOR a))) 63 \<longleftrightarrow>
      (if bit a 63 \<longleftrightarrow> bit b 63 then bit (a - b) 63 else bit b 63)"
    by (auto simp: bit_simps)
  also have "\<dots> \<longleftrightarrow> a < b" using ab sub by (auto simp: msb_u64 word_less_nat_alt)
  finally show ?thesis by (simp add: constant_time_lt_w_def constant_time_msb_w_eq)
qed

lemma constant_time_ge_w_eq: "constant_time_ge_w a b = (if a \<ge> b then - 1 else 0)"
  by (auto simp: constant_time_ge_w_def constant_time_lt_w_eq)

lemma constant_time_is_zero_w_eq: "constant_time_is_zero_w a = (if a = 0 then - 1 else 0)"
proof -
  have "bit (NOT a AND (a - 1)) 63 \<longleftrightarrow> a = 0"
  proof (cases "a = 0")
    case False
    then have "unat (a - 1) = unat a - 1" by (metis unat_minus_one)
    moreover have "bit (NOT a AND (a - 1)) 63 \<longleftrightarrow> \<not> bit a 63 \<and> bit (a - 1) 63" by (simp add: bit_simps)
    ultimately show ?thesis using False by (auto simp: msb_u64)
  qed (simp add: bit_simps)
  then show ?thesis by (simp add: constant_time_is_zero_w_def constant_time_msb_w_eq)
qed

lemma constant_time_eq_w_eq: "constant_time_eq_w a b = (if a = b then - 1 else 0)"
proof -
  have "a XOR b = 0 \<longleftrightarrow> a = b" by (auto simp: bit_eq_iff bit_simps)
  then show ?thesis by (simp add: constant_time_eq_w_def constant_time_is_zero_w_eq)
qed

lemma constant_time_select_w_eq [simp]:
  "constant_time_select_w (- 1) a b = a" "constant_time_select_w 0 a b = b"
  by (simp_all add: constant_time_select_w_def value_barrier_w_def)

lemma ucast_all_ones [simp]: "LENGTH('b) \<le> LENGTH('a) \<Longrightarrow> ucast (- 1 :: 'a::len word) = (- 1 :: 'b::len word)"
  by (rule bit_word_eqI) (simp add: bit_simps)

lemma constant_time_8_eq:
  "constant_time_lt_8 a b = (if a < b then - 1 else 0)"
  "constant_time_ge_8 a b = (if a \<ge> b then - 1 else 0)"
  "constant_time_is_zero_8 a = (if a = 0 then - 1 else 0)"
  "constant_time_eq_8 a b = (if a = b then - 1 else 0)"
  by (simp_all add: constant_time_lt_8_def constant_time_ge_8_def constant_time_is_zero_8_def
      constant_time_eq_8_def constant_time_lt_w_eq constant_time_ge_w_eq constant_time_is_zero_w_eq
      constant_time_eq_w_eq)

lemma constant_time_eq_int_eq: "constant_time_eq_int a b = (if a = b then - 1 else 0)"
    "constant_time_eq_int_8 a b = (if a = b then - 1 else 0)"
proof -
  have "scast a = (scast b :: u64) \<longleftrightarrow> a = b" for a b :: "32 word"
  proof
    assume e: "scast a = (scast b :: u64)"
    show "a = b"
    proof (rule bit_word_eqI)
      fix n assume "n < LENGTH(32)"
      moreover have "bit (scast a :: u64) n = bit (scast b :: u64) n" using e by simp
      ultimately show "bit a n = bit b n" by (simp add: bit_simps min_absorb2)
    qed
  qed simp
  then show "constant_time_eq_int a b = (if a = b then - 1 else 0)"
    "constant_time_eq_int_8 a b = (if a = b then - 1 else 0)"
    by (simp_all add: constant_time_eq_int_def constant_time_eq_int_8_def constant_time_eq_w_eq constant_time_8_eq)
qed

lemma constant_time_select_8_bits: "constant_time_select_8 m a b = (m AND a) OR (NOT m AND b)"
  by (rule bit_word_eqI)
    (auto simp: constant_time_select_8_def constant_time_select_w_def value_barrier_w_def bit_simps)

lemma constant_time_select_8_eq [simp]:
  "constant_time_select_8 (- 1) a b = a" "constant_time_select_8 0 a b = b"
  by (simp_all add: constant_time_select_8_bits)

lemma constant_time_select_int_eq [simp]:
  "constant_time_select_int (- 1) a b = a" "constant_time_select_int 0 a b = b"
proof -
  have "ucast (scast c :: u64) = c" for c :: "32 word"
    by (rule bit_word_eqI) (simp add: bit_simps min_absorb2)
  then show "constant_time_select_int (- 1) a b = a" "constant_time_select_int 0 a b = b"
    by (simp_all add: constant_time_select_int_def)
qed

section \<open>Properties\<close>

text \<open>
  The branch-free comparisons and selections are the comparisons and conditionals they
  stand for, on all 64-bit words: selecting by \<open>constant_time_lt_w\<close>, \<open>constant_time_ge_w\<close>,
  \<open>constant_time_is_zero_w\<close> or \<open>constant_time_eq_w\<close> is \<open>if\<close> on the comparison of the
  unsigned values, and every mask is all ones or zero.
\<close>

theorem constant_time_select_correct:
  "constant_time_select_w (constant_time_lt_w a b) x y = (if unat a < unat b then x else y) \<and>
   constant_time_select_w (constant_time_ge_w a b) x y = (if unat b \<le> unat a then x else y) \<and>
   constant_time_select_w (constant_time_is_zero_w a) x y = (if a = 0 then x else y) \<and>
   constant_time_select_w (constant_time_eq_w a b) x y = (if a = b then x else y) \<and>
   constant_time_select_8 (constant_time_eq_8 a b) u v = (if a = b then u else v) \<and>
   constant_time_lt_w a b \<in> {0, - 1}"
  by (simp add: constant_time_lt_w_eq constant_time_ge_w_eq constant_time_is_zero_w_eq
      constant_time_eq_w_eq constant_time_8_eq word_less_nat_alt word_le_nat_alt)

end
