(* ===== verification/Base64.thy ===== *)
theory Base64
  imports Buffers Const_time
begin

text \<open>
  crypto/base64/base64.c: the base64 encoding and decoding of whole blocks and of streams.
  Output buffers are lists written with \<open>poke\<close>, from the pointer the caller passes on.
\<close>

section \<open>Encoding\<close>

definition constant_time_lt_args_8 :: "u8 \<Rightarrow> u8 \<Rightarrow> u8" where
  "constant_time_lt_args_8 a b =
     (let aw = ucast a :: u64; bw = ucast b in ucast (constant_time_msb_w (aw - bw)))"

definition constant_time_in_range_8 :: "u8 \<Rightarrow> u8 \<Rightarrow> u8 \<Rightarrow> u8" where
  "constant_time_in_range_8 a mn mx = (let a = a - mn in constant_time_lt_args_8 a (mx - mn + 1))"

definition conv_bin2ascii :: "u8 \<Rightarrow> u8" where
  "conv_bin2ascii a0 =
     (let a = a0 AND 0x3f;
          ret = constant_time_select_8 (constant_time_eq_8 (ucast a) 62) 0x2b 0x2f;
          ret = constant_time_select_8 (constant_time_lt_args_8 a 62) (a - 52 + 0x30) ret;
          ret = constant_time_select_8 (constant_time_lt_args_8 a 52) (a - 26 + 0x61) ret;
          ret = constant_time_select_8 (constant_time_lt_args_8 a 26) (a + 0x41) ret
      in ret)"

text \<open>Every sum and shift is computed in \<open>size_t\<close>.\<close>

definition EVP_EncodedLength :: "nat \<Rightarrow> nat option" where
  "EVP_EncodedLength len0 =
     (if (len0 + 2) mod size_t_mod < len0 then None
      else
        (let len = (len0 + 2) mod size_t_mod div 3
         in if (len * 4) mod size_t_mod div 4 \<noteq> len then None
            else
              (let len = (len * 4) mod size_t_mod
               in if (len + 1) mod size_t_mod < len then None else Some (len + 1))))"

text \<open>
  The loop of \<open>EVP_EncodeBlock\<close>: \<open>s\<close> is how far \<open>src\<close> has moved, \<open>ret\<close> the bytes written,
  which is also how far \<open>dst\<close> has moved.
\<close>

function encode_loop :: "bytes \<Rightarrow> nat \<Rightarrow> nat \<Rightarrow> nat \<Rightarrow> bytes \<Rightarrow> nat \<times> bytes" where
  "encode_loop src s remaining ret dst =
     (if remaining = 0 then (ret, dst)
      else if remaining \<ge> 3 then
        (let l = push_bit 16 (ucast (src ! s)) OR push_bit 8 (ucast (src ! (s + 1))) OR
                 ucast (src ! (s + 2)) :: u32
         in encode_loop src (s + 3) (remaining - 3) (ret + 4)
              (poke ret [conv_bin2ascii (ucast (drop_bit 18 l)), conv_bin2ascii (ucast (drop_bit 12 l)),
                         conv_bin2ascii (ucast (drop_bit 6 l)), conv_bin2ascii (ucast l)] dst))
      else
        (let l = push_bit 16 (ucast (src ! s)) :: u32;
             l = (if remaining = 2 then l OR push_bit 8 (ucast (src ! (s + 1))) else l)
         in encode_loop src (s + 3) 0 (ret + 4)
              (poke ret [conv_bin2ascii (ucast (drop_bit 18 l)), conv_bin2ascii (ucast (drop_bit 12 l)),
                         (if remaining = 1 then 0x3d else conv_bin2ascii (ucast (drop_bit 6 l))), 0x3d] dst)))"
  by pat_completeness auto
termination by (relation "measure (\<lambda>(_, _, remaining, _, _). remaining)") auto

declare encode_loop.simps [simp del]

definition EVP_EncodeBlock :: "bytes \<Rightarrow> bytes \<Rightarrow> nat \<Rightarrow> nat \<times> bytes" where
  "EVP_EncodeBlock dst src src_len =
     (case encode_loop src 0 src_len 0 dst of (ret, dst') \<Rightarrow> (ret, poke ret [0] dst'))"

section \<open>The encoding of RFC 4648\<close>

definition b64_alphabet :: bytes where
  "b64_alphabet = map word_of_nat ([65..<91] @ [97..<123] @ [48..<58] @ [43, 47])"

definition b64_char :: "nat \<Rightarrow> u8" where
  "b64_char n = b64_alphabet ! n"

definition b64_quad :: "nat \<Rightarrow> bytes" where
  "b64_quad v = [b64_char (v div 262144), b64_char (v div 4096 mod 64), b64_char (v div 64 mod 64),
                 b64_char (v mod 64)]"

fun base64 :: "bytes \<Rightarrow> bytes" where
  "base64 [] = []"
| "base64 [a] = take 2 (b64_quad (65536 * unat a)) @ [0x3d, 0x3d]"
| "base64 [a, b] = take 3 (b64_quad (65536 * unat a + 256 * unat b)) @ [0x3d]"
| "base64 (a # b # c # bs) = b64_quad (65536 * unat a + 256 * unat b + unat c) @ base64 bs"

lemma lt_args_8: "constant_time_lt_args_8 a b = (if a < b then - 1 else 0)"
proof -
  have "bit (ucast a - ucast b :: u64) 63 \<longleftrightarrow> a < b"
  proof -
    have ab: "unat a < 256" "unat b < 256" by simp_all
    show ?thesis
    proof (cases "unat b \<le> unat a")
      case True
      then have "unat (ucast a - ucast b :: u64) = unat a - unat b" by (simp add: unat_sub_if')
      then have "unat (ucast a - ucast b :: u64) < 9223372036854775808" using ab by linarith
      then show ?thesis using True by (simp add: msb_u64 word_less_nat_alt)
    next
      case False
      then have "unat (ucast a - ucast b :: u64) = unat a + 18446744073709551616 - unat b" by (simp add: unat_sub_if')
      then have "9223372036854775808 \<le> unat (ucast a - ucast b :: u64)" using ab by linarith
      then show ?thesis using False by (simp add: msb_u64 word_less_nat_alt)
    qed
  qed
  then show ?thesis by (simp add: constant_time_lt_args_8_def constant_time_msb_w_eq)
qed

lemma ucast_eq_numeral: "ucast (a :: u8) = (ucast b :: u64) \<longleftrightarrow> a = b"
  by (simp add: word_unat_eq_iff)

lemma conv_bin2ascii_cases:
  "conv_bin2ascii a =
     (let a = a AND 0x3f in
      if a < 26 then a + 0x41 else if a < 52 then a - 26 + 0x61 else if a < 62 then a - 52 + 0x30
      else if a = 62 then 0x2b else 0x2f)"
  using ucast_eq_numeral [of "a AND 0x3f" 62]
  by (simp add: conv_bin2ascii_def lt_args_8 constant_time_8_eq Let_def)

lemma conv_bin2ascii_eq: "conv_bin2ascii a = b64_char (unat a mod 64)"
  unfolding conv_bin2ascii_cases by (rule u8_by_enumeration [where b = a]) code_simp


lemma length_b64_quad [simp]: "length (b64_quad v) = 4"
  by (simp add: b64_quad_def)

lemma length_base64: "length (base64 bs) = 4 * ((length bs + 2) div 3)"
proof (induction bs rule: base64.induct)
  case (4 a b c bs)
  have "(3 + (length bs + 2)) div 3 = Suc ((length bs + 2) div 3)" by simp
  then show ?case using 4 by simp
qed simp_all

text \<open>The four digits of a 24-bit word.\<close>

lemma conv_digit:
  "conv_bin2ascii (ucast (drop_bit k l :: u32)) = b64_char (unat l div 2 ^ k mod 64)"
proof -
  have "unat l div 2 ^ k mod 256 mod 64 = unat l div 2 ^ k mod 64" by (rule mod_mod_cancel) simp
  then show ?thesis by (simp add: conv_bin2ascii_eq word_nat)
qed

lemma conv_quad:
  assumes "unat (l :: u32) < 16777216"
  shows "[conv_bin2ascii (ucast (drop_bit 18 l)), conv_bin2ascii (ucast (drop_bit 12 l)),
          conv_bin2ascii (ucast (drop_bit 6 l)), conv_bin2ascii (ucast l)] = b64_quad (unat l)"
proof -
  have "unat l div 262144 < 64" using assms by simp
  then show ?thesis using conv_digit [of 18 l] conv_digit [of 12 l] conv_digit [of 6 l] conv_digit [of 0 l]
    by (simp add: b64_quad_def)
qed

lemma three_bytes:
  "unat (push_bit 16 (ucast a) OR push_bit 8 (ucast b) OR ucast c :: u32) =
     65536 * unat (a :: u8) + 256 * unat (b :: u8) + unat (c :: u8)"
proof -
  have b: "unat (push_bit 8 (ucast b) OR ucast c :: u32) = unat b * 256 + unat c"
    using unat_shift_or [of "ucast c :: u32" 8 "ucast b"] unat_u8_lt [of b] unat_u8_lt [of c] by simp
  have "unat b * 256 + unat c < 65536" using unat_u8_le [of b] unat_u8_lt [of c] by linarith
  then show ?thesis
    using unat_shift_or [of "push_bit 8 (ucast b) OR ucast c :: u32" 16 "ucast a"] unat_u8_le [of a] b
    by (simp add: or.assoc)
qed

lemma three_bytes_less: "65536 * unat (a :: u8) + 256 * unat (b :: u8) + unat (c :: u8) < 16777216"
  using unat_u8_le [of a] unat_u8_le [of b] unat_u8_le [of c] by linarith

lemma conv_three_bytes:
  fixes a b c :: u8
  defines "l \<equiv> push_bit 16 (ucast a) OR push_bit 8 (ucast b) OR ucast c :: u32"
  shows "[conv_bin2ascii (ucast (drop_bit 18 l)), conv_bin2ascii (ucast (drop_bit 12 l)),
          conv_bin2ascii (ucast (drop_bit 6 l)), conv_bin2ascii (ucast l)] =
         b64_quad (65536 * unat a + 256 * unat b + unat c)"
  using conv_quad [of l] three_bytes_less [of a b c] unfolding l_def three_bytes by simp

lemma encode_loop_steps:
  "encode_loop src s 0 ret dst = (ret, dst)"
  "encode_loop src s (Suc 0) ret dst =
     (ret + 4, poke ret (take 2 (b64_quad (65536 * unat (src ! s))) @ [0x3d, 0x3d]) dst)"
  "encode_loop src s 2 ret dst =
     (ret + 4, poke ret (take 3 (b64_quad (65536 * unat (src ! s) + 256 * unat (src ! Suc s))) @ [0x3d]) dst)"
  "3 \<le> n \<Longrightarrow> encode_loop src s n ret dst =
     encode_loop src (s + 3) (n - 3) (ret + 4)
       (poke ret (b64_quad (65536 * unat (src ! s) + 256 * unat (src ! (s + 1)) + unat (src ! (s + 2)))) dst)"
proof -
  show z: "encode_loop src s 0 ret dst = (ret, dst)" for s ret dst
    by (simp add: encode_loop.simps)
  show "encode_loop src s (Suc 0) ret dst =
      (ret + 4, poke ret (take 2 (b64_quad (65536 * unat (src ! s))) @ [0x3d, 0x3d]) dst)"
    using conv_three_bytes [of "src ! s" 0 0, symmetric]
    by (subst encode_loop.simps) (simp add: z Let_def)
  show "encode_loop src s 2 ret dst =
     (ret + 4, poke ret (take 3 (b64_quad (65536 * unat (src ! s) + 256 * unat (src ! Suc s))) @ [0x3d]) dst)"
    using conv_three_bytes [of "src ! s" "src ! Suc s" 0, symmetric]
    by (subst encode_loop.simps) (simp add: z Let_def)
  show "3 \<le> n \<Longrightarrow> encode_loop src s n ret dst =
     encode_loop src (s + 3) (n - 3) (ret + 4)
       (poke ret (b64_quad (65536 * unat (src ! s) + 256 * unat (src ! (s + 1)) + unat (src ! (s + 2)))) dst)"
    unfolding conv_three_bytes [of "src ! s" "src ! (s + 1)" "src ! (s + 2)", symmetric]
    by (subst encode_loop.simps) (simp add: Let_def)
qed

lemma drop_nth_Cons: "s < length xs \<Longrightarrow> drop s xs = xs ! s # drop (Suc s) xs"
  by (simp add: Cons_nth_drop_Suc)

lemma encode_loop_eq:
  assumes "s + n \<le> length src" and "ret + length (base64 (take n (drop s src))) \<le> length dst"
  shows "encode_loop src s n ret dst =
    (ret + length (base64 (take n (drop s src))), poke ret (base64 (take n (drop s src))) dst)"
  using assms
proof (induction n arbitrary: s ret dst rule: less_induct)
  case (less n)
  consider (none) "n = 0" | (one) "n = Suc 0" | (two) "n = 2" | (more) "3 \<le> n" by linarith
  then show ?case
  proof cases
    case none
    then show ?thesis by (simp add: encode_loop_steps)
  next
    case one
    then have "take n (drop s src) = [src ! s]" using less.prems(1) by (simp add: drop_nth_Cons)
    then show ?thesis using one by (simp add: encode_loop_steps)
  next
    case two
    then have "take n (drop s src) = [src ! s, src ! Suc s]"
      using less.prems(1) by (simp add: drop_nth_Cons numeral_2_eq_2)
    then show ?thesis using two by (simp add: encode_loop_steps)
  next
    case more
    let ?q = "b64_quad (65536 * unat (src ! s) + 256 * unat (src ! (s + 1)) + unat (src ! (s + 2)))"
    let ?rest = "base64 (take (n - 3) (drop (s + 3) src))"
    have d: "base64 (take n (drop s src)) = ?q @ ?rest"
    proof -
      obtain m where n: "n = Suc (Suc (Suc m))" using more by (metis Suc_diff_Suc le_add_diff_inverse numeral_3_eq_3 add_Suc add_0)
      have e: "s + 3 = Suc (Suc (Suc s))" by simp
      show ?thesis using less.prems(1) unfolding n by (simp add: drop_nth_Cons e)
    qed
    have l: "length (poke ret ?q dst) = length dst" using less.prems(2) d by simp
    have "encode_loop src s n ret dst = encode_loop src (s + 3) (n - 3) (ret + length ?q) (poke ret ?q dst)"
      using encode_loop_steps(4) [OF more] by simp
    also have "\<dots> = (ret + length ?q + length ?rest, poke (ret + length ?q) ?rest (poke ret ?q dst))"
      using less.IH [of "n - 3" "s + 3" "ret + length ?q" "poke ret ?q dst"] less.prems more d l by simp
    also have "poke (ret + length ?q) ?rest (poke ret ?q dst) = poke ret (?q @ ?rest) dst"
      using less.prems(2) d by (intro poke_append) simp
    finally show ?thesis using d by simp
  qed
qed

lemma EVP_EncodeBlock_eq:
  assumes "n \<le> length src" and "length (base64 (take n src)) < length dst"
  shows "EVP_EncodeBlock dst src n = (length (base64 (take n src)), poke 0 (base64 (take n src) @ [0]) dst)"
  using encode_loop_eq [of 0 n src 0 dst] poke_append [of 0 "base64 (take n src)" dst "[0]"] assms
  by (simp add: EVP_EncodeBlock_def)

lemma EVP_EncodedLength_eq:
  assumes "4 * ((n + 2) div 3) + 1 < size_t_mod" and "n + 2 < size_t_mod"
  shows "EVP_EncodedLength n = Some (4 * ((n + 2) div 3) + 1)"
  using assms by (simp add: EVP_EncodedLength_def Let_def mult.commute)


section \<open>The streaming encoder\<close>

record evp_encode_ctx =
  data_used :: nat
  ctx_data :: bytes
  eof_seen :: bool
  error_encountered :: bool

definition EVP_EncodeInit :: evp_encode_ctx where
  "EVP_EncodeInit = \<lparr>data_used = 0, ctx_data = replicate 48 0, eof_seen = False, error_encountered = False\<rparr>"

text \<open>\<open>EVP_EncodeBlock(out, ...)\<close> where \<open>out\<close> has moved by \<open>p\<close>, and the newline behind it.\<close>

definition encode_line :: "nat \<Rightarrow> bytes \<Rightarrow> bytes \<Rightarrow> nat \<Rightarrow> nat \<times> bytes" where
  "encode_line p out src n =
     (case EVP_EncodeBlock (drop p out) src n of
        (encoded, dst) \<Rightarrow> (encoded, poke (p + encoded) [0x0a, 0] (take p out @ dst)))"

text \<open>
  The loop of \<open>EVP_EncodeUpdate\<close> over the full lines: \<open>s\<close> is how far \<open>in\<close> has moved,
  \<open>total\<close> the bytes written, which is also how far \<open>out\<close> has moved.  \<open>Inl\<close> is the early
  return when \<open>total\<close> overflows.
\<close>

function encode_lines :: "bytes \<Rightarrow> nat \<Rightarrow> nat \<Rightarrow> nat \<Rightarrow> bytes \<Rightarrow> bytes + nat \<times> nat \<times> nat \<times> bytes" where
  "encode_lines inp s in_len tot out =
     (if in_len \<ge> 48 then
        (case encode_line tot out (drop s inp) 48 of
           (encoded, out') \<Rightarrow>
             if (tot + encoded + 1) mod size_t_mod < tot then Inl out'
             else encode_lines inp (s + 48) (in_len - 48) (tot + encoded + 1) out')
      else Inr (s, in_len, tot, out))"
  by pat_completeness auto
termination by (relation "measure (\<lambda>(_, _, in_len, _, _). in_len)") auto

declare encode_lines.simps [simp del]

definition EVP_EncodeUpdate ::
    "evp_encode_ctx \<Rightarrow> bytes \<Rightarrow> bytes \<Rightarrow> nat \<Rightarrow> evp_encode_ctx \<times> bytes \<times> nat" where
  "EVP_EncodeUpdate ctx out inp in_len =
     (if in_len = 0 then (ctx, out, 0)
      else if 48 - data_used ctx > in_len then
        (ctx\<lparr>ctx_data := poke (data_used ctx) (take in_len inp) (ctx_data ctx),
             data_used := data_used ctx + in_len\<rparr>, out, 0)
      else
        (let (ctx1, s, in_len1, tot, out1) =
           (if data_used ctx \<noteq> 0 then
              (let todo = 48 - data_used ctx;
                   ctx1 = ctx\<lparr>ctx_data := poke (data_used ctx) (take todo inp) (ctx_data ctx)\<rparr>
               in case encode_line 0 out (ctx_data ctx1) 48 of
                    (encoded, out1) \<Rightarrow> (ctx1\<lparr>data_used := 0\<rparr>, todo, in_len - todo, encoded + 1, out1))
            else (ctx, 0, in_len, 0, out))
         in case encode_lines inp s in_len1 tot out1 of
              Inl out2 \<Rightarrow> (ctx1, out2, 0)
            | Inr (s', in_len2, tot', out2) \<Rightarrow>
                (ctx1\<lparr>ctx_data := (if in_len2 \<noteq> 0 then poke 0 (take in_len2 (drop s' inp)) (ctx_data ctx1)
                                 else ctx_data ctx1),
                      data_used := in_len2\<rparr>,
                 out2, if tot' > int_max then 0 else tot')))"

definition EVP_EncodeFinal :: "evp_encode_ctx \<Rightarrow> bytes \<Rightarrow> evp_encode_ctx \<times> bytes \<times> nat" where
  "EVP_EncodeFinal ctx out =
     (if data_used ctx = 0 then (ctx, out, 0)
      else
        (case encode_line 0 out (ctx_data ctx) (data_used ctx) of
           (encoded, out') \<Rightarrow> (ctx\<lparr>data_used := 0\<rparr>, out', encoded + 1)))"

subsection \<open>What it computes\<close>

definition b64_line :: "bytes \<Rightarrow> bytes" where
  "b64_line b = base64 b @ [0x0a]"

definition b64_lines :: "bytes list \<Rightarrow> bytes" where
  "b64_lines bs = concat (map b64_line bs)"

definition terminated :: "bytes \<Rightarrow> bytes" where
  "terminated xs = (if xs = [] then [] else xs @ [0])"

definition encoder_wf :: "evp_encode_ctx \<Rightarrow> bool" where
  "encoder_wf ctx \<longleftrightarrow> length (ctx_data ctx) = 48 \<and> data_used ctx < 48"

definition encoder_pending :: "evp_encode_ctx \<Rightarrow> bytes" where
  "encoder_pending ctx = take (data_used ctx) (ctx_data ctx)"

lemma encode_line_eq:
  assumes "n \<le> length src" and "p + length (base64 (take n src)) + 2 \<le> length out"
  shows "encode_line p out src n =
    (length (base64 (take n src)), poke p (b64_line (take n src) @ [0]) out)"
proof -
  let ?e = "base64 (take n src)"
  have p: "take p out @ poke 0 (?e @ [0]) (drop p out) = poke p (?e @ [0]) out"
    by (simp add: poke_def add.commute)
  have "poke (p + length ?e) [0x0a, 0] (poke p (?e @ [0]) out) = poke p (?e @ [0x0a, 0]) out"
    by (rule poke_over) (use assms in simp_all)
  then show ?thesis
    using EVP_EncodeBlock_eq [OF assms(1), of "drop p out"] assms(2) p
    by (simp add: encode_line_def b64_line_def)
qed

lemma encode_lines_eq:
  assumes "s + n \<le> length inp" and "length (b64_lines (blocks 48 (take n (drop s inp)))) + tot < size_t_mod"
    and "tot + length (terminated (b64_lines (blocks 48 (take n (drop s inp))))) \<le> length out"
  shows "encode_lines inp s n tot out =
    Inr (s + n div 48 * 48, n mod 48, tot + length (b64_lines (blocks 48 (take n (drop s inp)))),
         poke tot (terminated (b64_lines (blocks 48 (take n (drop s inp))))) out)"
  using assms
proof (induction n arbitrary: s tot out rule: less_induct)
  case (less n)
  show ?case
  proof (cases "n < 48")
    case True
    then show ?thesis by (simp add: encode_lines.simps b64_lines_def terminated_def)
  next
    case False
    define b where "b = take 48 (drop s inp)"
    define L where "L = b64_lines (blocks 48 (take (n - 48) (drop (s + 48) inp)))"
    have "drop 48 (take n (drop s inp)) = take (n - 48) (drop (s + 48) inp)"
      by (simp add: drop_take add.commute)
    moreover have "48 \<le> length (take n (drop s inp))" using False less.prems(1) by simp
    moreover have "take 48 (take n (drop s inp)) = b" using False by (simp add: b_def min_def)
    ultimately have lines: "b64_lines (blocks 48 (take n (drop s inp))) = b64_line b @ L"
      using blocks_Cons [of 48 "take n (drop s inp)"] by (simp add: b64_lines_def L_def)
    have b: "length (b64_line b) = 65" using False less.prems(1) by (simp add: b64_line_def length_base64 b_def)
    then have nb: "b64_line b \<noteq> []" by auto
    have room: "tot + 65 + length L + 1 \<le> length out" using less.prems(3) b nb by (simp add: lines terminated_def)
    have e: "encode_line tot out (drop s inp) 48 = (64, poke tot (b64_line b @ [0]) out)"
      using encode_line_eq [of 48 "drop s inp" tot out] False less.prems(1) b room
      by (simp add: b_def [symmetric] b64_line_def)
    let ?out = "poke tot (b64_line b @ [0]) out"
    have len: "length ?out = length out" using room b by simp
    have "encode_lines inp s n tot out = encode_lines inp (s + 48) (n - 48) (tot + 65) ?out"
      using False e less.prems(2) b by (subst encode_lines.simps) (simp add: lines add.commute)
    also have "\<dots> = Inr (s + 48 + (n - 48) div 48 * 48, (n - 48) mod 48, tot + 65 + length L,
        poke (tot + 65) (terminated L) ?out)"
      unfolding L_def
      by (rule less.IH) (use False less.prems b len room in \<open>auto simp: lines L_def [symmetric] terminated_def\<close>)
    also have "poke (tot + 65) (terminated L) ?out = poke tot (terminated (b64_line b @ L)) out"
    proof (cases "L = []")
      case True
      then show ?thesis using b nb by (simp add: terminated_def)
    next
      case False
      then show ?thesis using poke_over [of tot "b64_line b" "[0]" out "L @ [0]"] b nb room
        by (simp add: terminated_def)
    qed
    finally show ?thesis using False b by (simp add: lines le_div_geq le_mod_geq)
  qed
qed


lemma length_b64_lines: "(\<forall>b \<in> set bs. length b = 48) \<Longrightarrow> length (b64_lines bs) = 65 * length bs"
  by (induction bs) (simp_all add: b64_lines_def b64_line_def length_base64)

text \<open>The end of an update: what is left of the input waits in the context.\<close>

lemma encoder_keeps:
  fixes inp s n
  defines "X \<equiv> take n (drop s inp)"
  assumes "s + n \<le> length inp" and "length d = 48"
  shows "take (n mod 48) (if n mod 48 \<noteq> 0 then poke 0 (take (n mod 48) (drop (s + n div 48 * 48) inp)) d else d) =
      leftover 48 X"
    and "length (if n mod 48 \<noteq> 0 then poke 0 (take (n mod 48) (drop (s + n div 48 * 48) inp)) d else d) = 48"
proof -
  have "n mod 48 < 48" by simp
  moreover have n: "n div 48 * 48 + n mod 48 = n" by simp
  moreover have "leftover 48 X = take (n mod 48) (drop (s + n div 48 * 48) inp)"
    using assms(2) n by (simp add: leftover_def X_def drop_take minus_div_mult_eq_mod min.absorb2 add.commute)
  moreover have "length (take (n mod 48) (drop (s + n div 48 * 48) inp)) = n mod 48"
  proof -
    have "n mod 48 \<le> length inp - (s + n div 48 * 48)" using assms(2) n by linarith
    then show ?thesis by (simp only: length_take length_drop min.absorb2)
  qed
  ultimately show "take (n mod 48) (if n mod 48 \<noteq> 0 then poke 0 (take (n mod 48) (drop (s + n div 48 * 48) inp)) d else d) =
      leftover 48 X"
    and "length (if n mod 48 \<noteq> 0 then poke 0 (take (n mod 48) (drop (s + n div 48 * 48) inp)) d else d) = 48"
    using assms(3) take_poke_0 [of "take (n mod 48) (drop (s + n div 48 * 48) inp)" d]
    by (auto simp: leftover_def)
qed

lemma EVP_EncodeUpdate_eq:
  fixes ctx inp n
  defines "pending \<equiv> encoder_pending ctx @ take n inp"
  assumes wf: "encoder_wf ctx" and n: "n \<le> length inp"
    and fits: "65 * (length pending div 48) \<le> int_max"
    and room: "length (terminated (b64_lines (blocks 48 pending))) \<le> length out"
  shows "\<exists>ctx'. EVP_EncodeUpdate ctx out inp n =
      (ctx', poke 0 (terminated (b64_lines (blocks 48 pending))) out, length (b64_lines (blocks 48 pending))) \<and>
    encoder_wf ctx' \<and> encoder_pending ctx' = leftover 48 pending"
proof -
  let ?u = "data_used ctx" and ?d = "ctx_data ctx"
  have u: "?u < 48" "length ?d = 48" using wf by (simp_all add: encoder_wf_def)
  have pl: "length pending = ?u + n" using u n by (simp add: pending_def encoder_pending_def)
  have nl: "length (b64_lines (blocks 48 pending)) = 65 * (length pending div 48)"
    using length_b64_lines blocks_lengths by (metis length_blocks zero_less_numeral)
  have im: "int_max < size_t_mod" by (simp add: int_max_def size_t_mod_def)
  consider "n = 0" | (small) "0 < n" "?u + n < 48" | (fill) "0 < n" "48 \<le> ?u + n" by linarith
  then show ?thesis
  proof cases
    case 1
    then show ?thesis using wf u by (simp add: EVP_EncodeUpdate_def pending_def encoder_pending_def terminated_def b64_lines_def)
  next
    case small
    then have e: "blocks 48 pending = []" "leftover 48 pending = pending" using pl by simp_all
    have "encoder_pending (ctx\<lparr>ctx_data := poke ?u (take n inp) ?d, data_used := ?u + n\<rparr>) = pending"
      using u small n take_poke [of ?u ?d "take n inp"] by (simp add: encoder_pending_def pending_def min.absorb2)
    moreover have "n < 48 - ?u" using small by linarith
    ultimately show ?thesis
      using small u n e by (simp add: EVP_EncodeUpdate_def encoder_wf_def terminated_def b64_lines_def)
  next
    case fill
    show ?thesis
    proof (cases "?u = 0")
      case True
      then have p: "pending = take n inp" by (simp add: pending_def encoder_pending_def)
      have l: "encode_lines inp 0 n 0 out = Inr (n div 48 * 48, n mod 48, length (b64_lines (blocks 48 pending)),
          poke 0 (terminated (b64_lines (blocks 48 pending))) out)"
        using encode_lines_eq [of 0 n inp 0 out] n nl fits im room by (simp add: p)
      show ?thesis
        using l fill True encoder_keeps [of 0 n inp ?d] n u fits nl
        by (cases "n mod 48 = 0") (simp_all add: EVP_EncodeUpdate_def encoder_wf_def encoder_pending_def p)
    next
      case False
      define todo where "todo = 48 - ?u"
      define b where "b = take 48 pending"
      define X where "X = take (n - todo) (drop todo inp)"
      have todo: "todo \<le> n" "todo \<le> length inp" "?u + todo = 48" "0 < todo" using fill u n by (simp_all add: todo_def)
      have b: "b = take ?u ?d @ take todo inp" using u todo(1) by (simp add: b_def pending_def encoder_pending_def todo_def min.absorb2)
      have X: "drop 48 pending = X" using u todo n
        by (simp add: pending_def encoder_pending_def X_def drop_take todo_def)
      have bl: "blocks 48 pending = b # blocks 48 X" "leftover 48 pending = leftover 48 X"
        using fill pl X by (simp_all add: blocks_Cons b_def leftover_drop)
      have d: "poke ?u (take todo inp) ?d = b" using u todo by (simp add: poke_def b)
      have lb: "length b = 48" using fill pl by (simp add: b_def)
      have ll: "length (b64_line b) = 65" by (simp add: b64_line_def length_base64 lb)
      then have nb: "b64_line b \<noteq> []" by auto
      define L where "L = b64_lines (blocks 48 X)"
      have lines: "b64_lines (blocks 48 pending) = b64_line b @ L" by (simp add: bl(1) b64_lines_def L_def)
      have room': "65 + length L + 1 \<le> length out" using room nb ll by (simp add: lines terminated_def)
      have e: "encode_line 0 out b 48 = (64, poke 0 (b64_line b @ [0]) out)"
        using encode_line_eq [of 48 b 0 out] room' lb by (simp add: length_base64)
      have "encode_lines inp todo (n - todo) 65 (poke 0 (b64_line b @ [0]) out) =
        Inr (todo + (n - todo) div 48 * 48, (n - todo) mod 48, 65 + length L,
          poke 65 (terminated L) (poke 0 (b64_line b @ [0]) out))"
        unfolding L_def X_def
        by (rule encode_lines_eq)
          (use n todo fits nl im ll room' in \<open>auto simp: lines L_def [symmetric] X_def [symmetric] terminated_def\<close>)
      moreover have "poke 65 (terminated L) (poke 0 (b64_line b @ [0]) out) = poke 0 (terminated (b64_line b @ L)) out"
        using poke_over [of 0 "b64_line b" "[0]" out "L @ [0]"] ll nb room' by (auto simp: terminated_def)
      ultimately have l: "encode_lines inp todo (n - todo) 65 (poke 0 (b64_line b @ [0]) out) =
        Inr (todo + (n - todo) div 48 * 48, (n - todo) mod 48, length (b64_line b @ L),
          poke 0 (terminated (b64_line b @ L)) out)" using ll by simp
      show ?thesis
        using fill False u e l d encoder_keeps [of todo "n - todo" inp b] n todo lb fits nl
        by (cases "(n - todo) mod 48 = 0")
          (simp_all add: EVP_EncodeUpdate_def encoder_wf_def encoder_pending_def todo_def [symmetric] lines bl(2) X_def)
    qed
  qed
qed

section \<open>Encoding a stream\<close>

text \<open>
  One update as the caller sees it: a buffer that is large enough, and the output gathered
  from the calls so far.
\<close>

definition encoder_call :: "evp_encode_ctx \<times> bytes \<Rightarrow> bytes \<Rightarrow> evp_encode_ctx \<times> bytes" where
  "encoder_call s x =
     (case EVP_EncodeUpdate (fst s) (replicate (66 + 2 * length x) 0) x (length x) of
        (ctx, out, out_len) \<Rightarrow> (ctx, snd s @ take out_len out))"

definition encoder_abs :: "evp_encode_ctx \<times> bytes \<Rightarrow> bytes \<times> bytes" where
  "encoder_abs s = (snd s, encoder_pending (fst s))"

definition encoder_fits :: "evp_encode_ctx \<times> bytes \<Rightarrow> nat \<Rightarrow> bool" where
  "encoder_fits s n \<longleftrightarrow> 65 * ((data_used (fst s) + n) div 48) \<le> int_max"

lemma length_encoder_pending: "encoder_wf ctx \<Longrightarrow> length (encoder_pending ctx) = data_used ctx"
  by (simp add: encoder_wf_def encoder_pending_def)

lemma foldl_b64_line: "foldl (\<lambda>acc b. acc @ b64_line b) acc bs = acc @ b64_lines bs"
  by (induction bs arbitrary: acc) (simp_all add: b64_lines_def)

lemma encoder_call_eq:
  assumes wf: "encoder_wf (fst s)" and f: "encoder_fits s (length x)"
  shows "encoder_wf (fst (encoder_call s x)) \<and>
    encoder_abs (encoder_call s x) =
      (snd s @ b64_lines (blocks 48 (encoder_pending (fst s) @ x)), leftover 48 (encoder_pending (fst s) @ x))"
proof -
  let ?p = "encoder_pending (fst s) @ x" and ?out = "replicate (66 + 2 * length x) (0 :: u8)"
  have u: "length (encoder_pending (fst s)) = data_used (fst s)" "data_used (fst s) < 48"
    using wf length_encoder_pending by (simp_all add: encoder_wf_def)
  have l: "length (b64_lines (blocks 48 ?p)) = 65 * (length ?p div 48)"
    using length_b64_lines blocks_lengths by (metis length_blocks zero_less_numeral)
  have room: "length (terminated (b64_lines (blocks 48 ?p))) \<le> length ?out"
  proof -
    have "length ?p div 48 \<le> (47 + length x) div 48" using u by (intro div_le_mono) simp
    moreover have "65 * ((47 + length x) div 48) \<le> 65 + 2 * length x" by linarith
    ultimately have "65 * (length ?p div 48) + 1 \<le> length ?out" by simp
    then show ?thesis using l by (simp add: terminated_def)
  qed
  have t: "take (length x) x = x" by simp
  have "65 * (length (encoder_pending (fst s) @ take (length x) x) div 48) \<le> int_max"
    using f u by (simp add: encoder_fits_def)
  then obtain ctx' where "EVP_EncodeUpdate (fst s) ?out x (length x) =
      (ctx', poke 0 (terminated (b64_lines (blocks 48 ?p))) ?out, length (b64_lines (blocks 48 ?p)))"
    "encoder_wf ctx'" "encoder_pending ctx' = leftover 48 ?p"
    using EVP_EncodeUpdate_eq [OF wf order_refl, of x ?out] room unfolding t by blast
  moreover have "take (length L) (poke 0 (terminated L) ?out) = L" for L :: bytes
    using take_poke_0 [of "L @ [0]" ?out, THEN arg_cong, of "take (length L)"] by (auto simp: terminated_def min_def)
  ultimately show ?thesis by (simp add: encoder_call_def encoder_abs_def)
qed

interpretation line_buffer: block_buffer 48 "\<lambda>acc b. acc @ b64_line b"
  by unfold_locales simp

lemma encoder_call_absorbs:
  assumes "encoder_wf (fst s)" and "encoder_fits s (length x)"
  shows "encoder_wf (fst (encoder_call s x)) \<and> encoder_abs (encoder_call s x) = line_buffer.absorb (encoder_abs s) x"
  using encoder_call_eq [OF assms]
  by (simp add: line_buffer.absorb_def encoder_abs_def foldl_b64_line)

lemma encoder_fits_next:
  assumes "encoder_wf (fst s)" and f: "encoder_fits s (length x + n)"
  shows "encoder_fits s (length x) \<and> encoder_fits (encoder_call s x) n"
proof -
  let ?u = "data_used (fst s)"
  have "?u + length x \<le> ?u + (length x + n)" by simp
  then have "(?u + length x) div 48 \<le> (?u + (length x + n)) div 48" by (rule div_le_mono)
  then have a: "encoder_fits s (length x)" using f by (simp add: encoder_fits_def)
  have "data_used (fst (encoder_call s x)) = length (snd (encoder_abs (encoder_call s x)))"
    using encoder_call_eq [OF assms(1) a] length_encoder_pending [of "fst (encoder_call s x)"]
    by (simp add: encoder_abs_def)
  also have "\<dots> = (?u + length x) mod 48"
    using encoder_call_eq [OF assms(1) a] length_encoder_pending [OF assms(1)] by (simp add: length_leftover)
  finally have "(data_used (fst (encoder_call s x)) + n) div 48 \<le> (?u + (length x + n)) div 48"
    by (metis add.assoc add_le_mono1 div_le_mono mod_less_eq_dividend)
  then show ?thesis using a f by (simp add: encoder_fits_def)
qed

interpretation encoder: block_updates 48 "\<lambda>acc b. acc @ b64_line b" "\<lambda>s. encoder_wf (fst s)"
    encoder_abs encoder_call encoder_fits
proof unfold_locales
  fix c :: "evp_encode_ctx \<times> bytes" and x :: bytes and n
  assume wf: "encoder_wf (fst c)"
  show "length (snd (encoder_abs c)) < 48"
    using wf length_encoder_pending by (simp add: encoder_abs_def encoder_wf_def)
  show "encoder_fits c (length x) \<Longrightarrow> encoder_wf (fst (encoder_call c x)) \<and>
      encoder_abs (encoder_call c x) = line_buffer.absorb (encoder_abs c) x"
    using wf by (rule encoder_call_absorbs)
  show "encoder_fits c (length x + n) \<Longrightarrow> encoder_fits c (length x) \<and> encoder_fits (encoder_call c x) n"
    using wf by (rule encoder_fits_next)
qed

text \<open>A whole stream: initialise, update with each piece, finish.\<close>

definition encode_stream :: "bytes list \<Rightarrow> bytes" where
  "encode_stream xs =
     (let s = foldl encoder_call (EVP_EncodeInit, []) xs
      in case EVP_EncodeFinal (fst s) (replicate 66 0) of (_, out, out_len) \<Rightarrow> snd s @ take out_len out)"

text \<open>Base64 with a newline after every 64 characters and at the end.\<close>

definition base64_lines :: "bytes \<Rightarrow> bytes" where
  "base64_lines bs =
     b64_lines (blocks 48 bs) @ (if leftover 48 bs = [] then [] else b64_line (leftover 48 bs))"

lemma EVP_EncodeFinal_eq:
  assumes "encoder_wf ctx"
  shows "\<exists>ctx' out n. EVP_EncodeFinal ctx (replicate 66 0) = (ctx', out, n) \<and>
    take n out = (if encoder_pending ctx = [] then [] else b64_line (encoder_pending ctx))"
proof (cases "data_used ctx = 0")
  case True
  then show ?thesis by (simp add: EVP_EncodeFinal_def encoder_pending_def)
next
  case False
  have u: "data_used ctx < 48" "length (ctx_data ctx) = 48" using assms by (simp_all add: encoder_wf_def)
  then have ne: "encoder_pending ctx \<noteq> []" using False by (auto simp: encoder_pending_def)
  have "length (base64 (encoder_pending ctx)) \<le> 64"
    using u by (simp add: length_base64 encoder_pending_def)
  then have "encode_line 0 (replicate 66 0) (ctx_data ctx) (data_used ctx) =
      (length (base64 (encoder_pending ctx)), poke 0 (b64_line (encoder_pending ctx) @ [0]) (replicate 66 0))"
    using encode_line_eq [of "data_used ctx" "ctx_data ctx" 0 "replicate 66 0"] u
    by (simp add: encoder_pending_def)
  then show ?thesis using False ne
    by (simp add: EVP_EncodeFinal_def b64_line_def poke_def)
qed

text \<open>
  C8: The streaming encoder is independent of how its input is cut: initialising, updating
  with any list of pieces and finishing writes the RFC 4648 base64 of their concatenation,
  with a newline after every 48 input bytes and at the end.
\<close>

theorem encode_stream_correct:
  assumes "2 * length (concat xs) \<le> int_max"
  shows "encode_stream xs = base64_lines (concat xs)"
proof -
  let ?init = "(EVP_EncodeInit, [] :: bytes)" and ?s = "foldl encoder_call (EVP_EncodeInit, []) xs"
  have w: "encoder_wf (fst ?init)" "encoder_abs ?init = ([], [])"
    by (simp_all add: encoder_wf_def EVP_EncodeInit_def encoder_abs_def encoder_pending_def)
  have "65 * (length (concat xs) div 48) \<le> int_max" using assms by linarith
  then have "encoder_fits ?init (length (concat xs))" by (simp add: encoder_fits_def EVP_EncodeInit_def)
  then have s: "encoder_wf (fst ?s)" "encoder_abs ?s = line_buffer.absorb ([], []) (concat xs)"
    using encoder.updates_absorb [OF w(1)] w(2) by simp_all
  then have out: "snd ?s = b64_lines (blocks 48 (concat xs))" "encoder_pending (fst ?s) = leftover 48 (concat xs)"
    by (simp_all add: line_buffer.absorb_def encoder_abs_def foldl_b64_line)
  show ?thesis
    using EVP_EncodeFinal_eq [OF s(1)] out by (auto simp: encode_stream_def base64_lines_def Let_def)
qed

lemma encode_stream_correct_witness:
  "encode_stream [[1, 2], [], replicate 50 7] = base64_lines (concat [[1, 2], [], replicate 50 7])"
  by (rule encode_stream_correct) (simp add: int_max_def)


section \<open>Decoding\<close>

definition EVP_DecodedLength :: "nat \<Rightarrow> nat option" where
  "EVP_DecodedLength len = (if len mod 4 \<noteq> 0 then None else Some (len div 4 * 3))"


definition base64_ascii_to_bin :: "u8 \<Rightarrow> u8" where
  "base64_ascii_to_bin a =
     (let is_upper = constant_time_in_range_8 a 0x41 0x5a;
          is_lower = constant_time_in_range_8 a 0x61 0x7a;
          is_digit = constant_time_in_range_8 a 0x30 0x39;
          is_plus = constant_time_eq_8 (ucast a) 0x2b;
          is_slash = constant_time_eq_8 (ucast a) 0x2f;
          is_equals = constant_time_eq_8 (ucast a) 0x3d;
          ret = 0xff;
          ret = constant_time_select_8 is_upper (a - 0x41) ret;
          ret = constant_time_select_8 is_lower (a - 0x61 + 26) ret;
          ret = constant_time_select_8 is_digit (a - 0x30 + 52) ret;
          ret = constant_time_select_8 is_plus 62 ret;
          ret = constant_time_select_8 is_slash 63 ret;
          ret = constant_time_select_8 is_equals 0 ret
      in ret)"

text \<open>The bytes \<open>base64_decode_quad\<close> writes; \<open>None\<close> is its error.\<close>

definition base64_decode_quad :: "bytes \<Rightarrow> bytes option" where
  "base64_decode_quad inp =
     (let a = base64_ascii_to_bin (inp ! 0); b = base64_ascii_to_bin (inp ! 1);
          c = base64_ascii_to_bin (inp ! 2); d = base64_ascii_to_bin (inp ! 3)
      in if a = 0xff \<or> b = 0xff \<or> c = 0xff \<or> d = 0xff then None
         else
           (let v = push_bit 18 (ucast a) OR push_bit 12 (ucast b) OR push_bit 6 (ucast c) OR ucast d :: u32;
                padding_pattern = 8 * of_bool (inp ! 0 = 0x3d) + 4 * of_bool (inp ! 1 = 0x3d) +
                                  2 * of_bool (inp ! 2 = 0x3d) + of_bool (inp ! 3 = 0x3d) :: nat
            in if padding_pattern = 0 then Some [ucast (drop_bit 16 v), ucast (drop_bit 8 v), ucast v]
               else if padding_pattern = 1 then Some [ucast (drop_bit 16 v), ucast (drop_bit 8 v)]
               else if padding_pattern = 3 then Some [ucast (drop_bit 16 v)]
               else None))"

text \<open>
  \<open>EVP_DecodeBase64\<close>: the return value with \<open>*out_len\<close>, and the buffer.  In the loop \<open>i\<close>
  counts the characters read and \<open>bytes_out\<close> the bytes written, which is how far \<open>out\<close>
  has moved.
\<close>

function decode_loop :: "bytes \<Rightarrow> nat \<Rightarrow> nat \<Rightarrow> nat \<Rightarrow> bytes \<Rightarrow> nat option \<times> bytes" where
  "decode_loop inp in_len i bytes_out out =
     (if i < in_len then
        (case base64_decode_quad (drop i inp) of
           None \<Rightarrow> (None, out)
         | Some bs \<Rightarrow>
             (let out' = poke bytes_out bs out
              in if length bs \<noteq> 3 \<and> i \<noteq> in_len - 4 then (None, out')
                 else decode_loop inp in_len (i + 4) (bytes_out + length bs) out'))
      else (Some bytes_out, out))"
  by pat_completeness auto
termination by (relation "measure (\<lambda>(_, in_len, i, _, _). in_len - i)") auto

declare decode_loop.simps [simp del]

definition EVP_DecodeBase64 :: "bytes \<Rightarrow> nat \<Rightarrow> bytes \<Rightarrow> nat \<Rightarrow> nat option \<times> bytes" where
  "EVP_DecodeBase64 out max_out inp in_len =
     (if in_len mod 4 \<noteq> 0 then (None, out)
      else
        (case EVP_DecodedLength in_len of
           None \<Rightarrow> (None, out)
         | Some max_len \<Rightarrow> if max_out < max_len then (None, out) else decode_loop inp in_len 0 0 out))"

definition b64_space :: "u8 \<Rightarrow> bool" where
  "b64_space c \<longleftrightarrow> c = 0x20 \<or> c = 0x09 \<or> c = 0x0d \<or> c = 0x0a"

fun trim_end :: "bytes \<Rightarrow> nat \<Rightarrow> nat" where
  "trim_end src 0 = 0"
| "trim_end src (Suc n) = (if b64_space (src ! n) then trim_end src n else Suc n)"

fun trim_start :: "bytes \<Rightarrow> nat \<Rightarrow> nat \<Rightarrow> nat \<times> nat" where
  "trim_start src s 0 = (s, 0)"
| "trim_start src s (Suc n) =
     (if src ! s \<noteq> 0x20 \<and> src ! s \<noteq> 0x09 then (s, Suc n) else trim_start src (Suc s) n)"

text \<open>\<open>EVP_DecodeBlock\<close>: \<open>None\<close> is the return value \<open>-1\<close>.\<close>

definition EVP_DecodeBlock :: "bytes \<Rightarrow> bytes \<Rightarrow> nat \<Rightarrow> nat option \<times> bytes" where
  "EVP_DecodeBlock dst src src_len =
     (case trim_start src 0 src_len of
        (s, n) \<Rightarrow>
          (let src' = drop s src; len = trim_end src' n
           in case EVP_DecodedLength len of
                None \<Rightarrow> (None, dst)
              | Some dst_len \<Rightarrow>
                  if dst_len > int_max then (None, dst)
                  else
                    (case EVP_DecodeBase64 dst dst_len src' len of
                       (None, dst') \<Rightarrow> (None, dst')
                     | (Some dst_len', dst') \<Rightarrow>
                         (let pad = (3 - dst_len' mod 3) mod 3
                          in (Some (dst_len' + pad), poke dst_len' (replicate pad 0) dst')))))"




section \<open>What decoding computes\<close>

lemma in_range_8: "constant_time_in_range_8 a mn mx = (if a - mn < mx - mn + 1 then - 1 else 0)"
  by (simp add: constant_time_in_range_8_def lt_args_8 Let_def)

lemma base64_ascii_to_bin_cases:
  "base64_ascii_to_bin a =
     (if a = 0x3d then 0 else if a = 0x2f then 63 else if a = 0x2b then 62
      else if a - 0x30 < 10 then a - 0x30 + 52 else if a - 0x61 < 26 then a - 0x61 + 26
      else if a - 0x41 < 26 then a - 0x41 else 0xff)"
  using ucast_eq_numeral [of a "0x3d"] ucast_eq_numeral [of a "0x2f"] ucast_eq_numeral [of a "0x2b"]
  by (simp add: base64_ascii_to_bin_def in_range_8 constant_time_8_eq Let_def)

lemma all_less_64: "(\<forall>n < 64. P n) \<longleftrightarrow> list_all P [0..<64]"
  by (auto simp: list_all_iff)

lemma ascii_to_bin_char_all: "\<forall>n < 64. base64_ascii_to_bin (b64_char n) = word_of_nat n \<and> b64_char n \<noteq> 0x3d \<and> \<not> b64_space (b64_char n)"
  unfolding all_less_64 base64_ascii_to_bin_cases by code_simp

lemma ascii_to_bin_char [simp]:
  assumes "n < 64"
  shows "base64_ascii_to_bin (b64_char n) = word_of_nat n" "b64_char n \<noteq> 0x3d" "\<not> b64_space (b64_char n)"
  using ascii_to_bin_char_all assms by blast+

lemma ascii_to_bin_pad [simp]: "base64_ascii_to_bin 0x3d = 0"
  by (simp add: base64_ascii_to_bin_cases)

lemma digits_ne_255: "n < 64 \<Longrightarrow> (word_of_nat n :: u8) \<noteq> 0xff"
proof
  assume "n < 64" and e: "(word_of_nat n :: u8) = 0xff"
  then have "unat (word_of_nat n :: u8) = n" by (intro unat_word_of_nat_small) simp
  then show False using \<open>n < 64\<close> e by simp
qed

lemma four_digits:
  assumes "unat w < 64" "unat x < 64" "unat y < 64" "unat z < 64"
  shows "unat (push_bit 18 (ucast w) OR push_bit 12 (ucast x) OR push_bit 6 (ucast y) OR ucast z :: u32) =
    262144 * unat (w :: u8) + 4096 * unat (x :: u8) + 64 * unat (y :: u8) + unat (z :: u8)"
proof -
  define yz where "yz = (push_bit 6 (ucast y) OR ucast z :: u32)"
  define xyz where "xyz = push_bit 12 (ucast x) OR yz"
  have 1: "unat yz = unat y * 64 + unat z"
    unfolding yz_def using unat_shift_or [of "ucast z :: u32" 6 "ucast y"] assms by simp
  have "unat yz < 4096" using 1 assms by linarith
  then have 2: "unat xyz = unat x * 4096 + unat yz"
    unfolding xyz_def using unat_shift_or [of yz 12 "ucast x"] assms by simp
  have "unat xyz < 262144" using 1 2 assms by linarith
  then have "unat (push_bit 18 (ucast w) OR xyz) = unat w * 262144 + unat xyz"
    using unat_shift_or [of xyz 18 "ucast w"] assms by simp
  then show ?thesis using 1 2 by (simp add: xyz_def yz_def or.assoc)
qed

lemma quad_digits_sum:
  "v < 16777216 \<Longrightarrow>
     262144 * (v div 262144) + 4096 * (v div 4096 mod 64) + 64 * (v div 64 mod 64) + v mod 64 = (v :: nat)"
proof -
  have "v div 4096 = 64 * (v div 262144) + v div 4096 mod 64"
    using mult_div_mod_eq [of 64 "v div 4096"] by (simp add: div_mult2_eq [symmetric])
  moreover have "v div 64 = 64 * (v div 4096) + v div 64 mod 64"
    using mult_div_mod_eq [of 64 "v div 64"] by (simp add: div_mult2_eq [symmetric])
  moreover have "v = 64 * (v div 64) + v mod 64" by simp
  ultimately show ?thesis by linarith
qed

lemma bytes_of_24:
  assumes "unat (l :: u32) = 65536 * unat a + 256 * unat b + unat c"
  shows "(ucast (drop_bit 16 l) :: u8) = a" "(ucast (drop_bit 8 l) :: u8) = b" "(ucast l :: u8) = c"
proof -
  have abc: "unat a < 256" "unat b < 256" "unat c < 256" by simp_all
  have h: "unat l div 256 = 256 * unat a + unat b" "unat l mod 256 = unat c"
  proof -
    have "unat l = 256 * (256 * unat a + unat b) + unat c" using assms by simp
    then show "unat l div 256 = 256 * unat a + unat b" "unat l mod 256 = unat c"
      using abc(3) by (simp_all only: div_mult_self4 mod_mult_self4) simp_all
  qed
  have "unat l div 65536 = unat l div 256 div 256" by (simp add: div_mult2_eq [symmetric])
  also have "\<dots> = unat a" using h(1) abc(2) by simp
  finally have "unat l div 65536 = unat a" .
  then show "(ucast (drop_bit 16 l) :: u8) = a" "(ucast (drop_bit 8 l) :: u8) = b" "(ucast l :: u8) = c"
    using h abc by (simp_all add: word_unat_eq_iff unat_ucast unat_drop_bit)
qed

lemma decode_quad_rule:
  assumes bin: "base64_ascii_to_bin c0 = word_of_nat w" "base64_ascii_to_bin c1 = word_of_nat x"
      "base64_ascii_to_bin c2 = word_of_nat y" "base64_ascii_to_bin c3 = word_of_nat z"
    and lt: "w < 64" "x < 64" "y < 64" "z < 64"
    and v: "262144 * w + 4096 * x + 64 * y + z = 65536 * unat a + 256 * unat b + unat c"
    and ne: "c0 \<noteq> 0x3d" "c1 \<noteq> 0x3d"
  shows "base64_decode_quad (c0 # c1 # c2 # c3 # r) =
    (if c2 = 0x3d then if c3 = 0x3d then Some [a] else None
     else if c3 = 0x3d then Some [a, b] else Some [a, b, c])"
proof -
  define l :: u32 where "l = push_bit 18 (ucast (word_of_nat w :: u8)) OR push_bit 12 (ucast (word_of_nat x :: u8)) OR
      push_bit 6 (ucast (word_of_nat y :: u8)) OR ucast (word_of_nat z :: u8)"
  have u: "unat (word_of_nat n :: u8) = n" if "n < 64" for n
    using that by (intro unat_word_of_nat_small) simp
  have "unat l = 65536 * unat a + 256 * unat b + unat c"
    using four_digits [of "word_of_nat w" "word_of_nat x" "word_of_nat y" "word_of_nat z"] u lt v
    by (simp add: l_def)
  note l = bytes_of_24 [OF this]
  have n: "(c0 # c1 # c2 # c3 # r) ! 0 = c0" "(c0 # c1 # c2 # c3 # r) ! 1 = c1"
    "(c0 # c1 # c2 # c3 # r) ! 2 = c2" "(c0 # c1 # c2 # c3 # r) ! 3 = c3" by simp_all
  show ?thesis
    unfolding base64_decode_quad_def Let_def n bin l_def [symmetric] l
    using lt ne digits_ne_255 by simp
qed

lemma decode_quad_encoded:
  "base64_decode_quad (b64_quad (65536 * unat a + 256 * unat b + unat c) @ r) = Some [a, b, c]"
  "base64_decode_quad (take 3 (b64_quad (65536 * unat a + 256 * unat b)) @ 0x3d # r) = Some [a, b]"
  "base64_decode_quad (take 2 (b64_quad (65536 * unat a)) @ 0x3d # 0x3d # r) = Some [a]"
proof -
  define v where "v = 65536 * unat a + 256 * unat b + unat c"
  have v: "v < 16777216" using three_bytes_less by (simp add: v_def)
  have d: "v div 262144 < 64" "v div 4096 mod 64 < 64" "v div 64 mod 64 < 64" "v mod 64 < 64" using v by simp_all
  show "base64_decode_quad (b64_quad (65536 * unat a + 256 * unat b + unat c) @ r) = Some [a, b, c]"
    using decode_quad_rule [of "b64_char (v div 262144)" "v div 262144" "b64_char (v div 4096 mod 64)" "v div 4096 mod 64"
        "b64_char (v div 64 mod 64)" "v div 64 mod 64" "b64_char (v mod 64)" "v mod 64" a b c r] quad_digits_sum [OF v] d
    by (simp add: b64_quad_def v_def [symmetric])
next
  define v where "v = 65536 * unat a + 256 * unat b"
  have v: "v < 16777216" using three_bytes_less [of a b 0] by (simp add: v_def)
  have d: "v div 262144 < 64" "v div 4096 mod 64 < 64" "v div 64 mod 64 < 64" using v by simp_all
  have "v mod 64 = 0" by (simp add: v_def mod_add_eq [symmetric] mod_mult_left_eq [symmetric])
  then show "base64_decode_quad (take 3 (b64_quad (65536 * unat a + 256 * unat b)) @ 0x3d # r) = Some [a, b]"
    using decode_quad_rule [of "b64_char (v div 262144)" "v div 262144" "b64_char (v div 4096 mod 64)" "v div 4096 mod 64"
        "b64_char (v div 64 mod 64)" "v div 64 mod 64" "0x3d" 0 a b 0 r] quad_digits_sum [OF v] d
    by (simp add: b64_quad_def v_def [symmetric])
next
  define v where "v = 65536 * unat a"
  have v: "v < 16777216" using three_bytes_less [of a 0 0] by (simp add: v_def)
  have d: "v div 262144 < 64" "v div 4096 mod 64 < 64" using v by simp_all
  have "v mod 64 = 0" "v div 64 mod 64 = 0" by (simp_all add: v_def mod_mult_left_eq [symmetric])
  then show "base64_decode_quad (take 2 (b64_quad (65536 * unat a)) @ 0x3d # 0x3d # r) = Some [a]"
    using decode_quad_rule [of "b64_char (v div 262144)" "v div 262144" "b64_char (v div 4096 mod 64)" "v div 4096 mod 64"
        "0x3d" 0 "0x3d" 0 a 0 0 r] quad_digits_sum [OF v] d
    by (simp add: b64_quad_def v_def [symmetric])
qed


text \<open>
  A decoder on lists: groups of four characters, of which only the last may be padded.
\<close>

fun unbase64 :: "bytes \<Rightarrow> bytes option" where
  "unbase64 [] = Some []"
| "unbase64 (a # b # c # d # cs) =
     (case base64_decode_quad [a, b, c, d] of
        None \<Rightarrow> None
      | Some bs \<Rightarrow> if length bs \<noteq> 3 \<and> cs \<noteq> [] then None else map_option ((@) bs) (unbase64 cs))"
| "unbase64 _ = None"

lemma decode_quad_prefix:
  "base64_decode_quad (a # b # c # d # cs) = base64_decode_quad [a, b, c, d]"
  by (simp add: base64_decode_quad_def)

lemma decode_quad_length: "base64_decode_quad cs = Some bs \<Longrightarrow> length bs \<le> 3 \<and> bs \<noteq> []"
  by (auto simp: base64_decode_quad_def Let_def split: if_splits)

lemma unbase64_base64: "unbase64 (base64 bs) = Some bs"
proof (induction bs rule: base64.induct)
  case (2 a)
  then show ?case using decode_quad_encoded(3) [of a "[]"] by (simp add: b64_quad_def)
next
  case (3 a b)
  then show ?case using decode_quad_encoded(2) [of a b "[]"] by (simp add: b64_quad_def)
next
  case (4 a b c bs)
  then show ?case using decode_quad_encoded(1) [of a b c "[]"] by (simp add: b64_quad_def)
qed simp

lemma unbase64_length: "unbase64 cs = Some bs \<Longrightarrow> length bs \<le> length cs div 4 * 3"
proof (induction cs arbitrary: bs rule: unbase64.induct)
  case (2 a b c d cs)
  have "(4 + length cs) div 4 = Suc (length cs div 4)" by simp
  with 2 show ?case by (fastforce split: option.splits if_splits dest!: decode_quad_length)
qed simp_all

lemma decode_loop_eq:
  assumes "i + 4 * k \<le> length inp" and "bo + 3 * k \<le> length out"
  shows "fst (decode_loop inp (i + 4 * k) i bo out) =
      map_option (\<lambda>bs. bo + length bs) (unbase64 (take (4 * k) (drop i inp))) \<and>
    length (snd (decode_loop inp (i + 4 * k) i bo out)) = length out \<and>
    (\<forall>bs. unbase64 (take (4 * k) (drop i inp)) = Some bs \<longrightarrow>
       snd (decode_loop inp (i + 4 * k) i bo out) = poke bo bs out)"
  using assms
proof (induction k arbitrary: i bo out)
  case 0
  then show ?case by (simp add: decode_loop.simps)
next
  case (Suc k)
  define cs where "cs = take (4 * k) (drop (i + 4) inp)"
  obtain a b c d rest where r: "drop i inp = a # b # c # d # rest"
  proof -
    have "4 \<le> length (drop i inp)" using Suc.prems(1) by simp
    then show thesis by (cases "drop i inp" rule: unbase64.cases) (use that in auto)
  qed
  have "drop (i + 4) inp = drop 4 (drop i inp)" by (simp add: add.commute)
  then have rest: "drop (i + 4) inp = rest" by (simp add: r)
  have t: "take (4 * Suc k) (drop i inp) = a # b # c # d # cs" by (simp add: r cs_def rest take_Cons')
  have cs: "cs = [] \<longleftrightarrow> k = 0" using Suc.prems(1) by (auto simp: cs_def)
  have i4: "i + 4 * Suc k = (i + 4) + 4 * k" by simp
  have step: "decode_loop inp (i + 4 * Suc k) i bo out =
     (case base64_decode_quad [a, b, c, d] of
        None \<Rightarrow> (None, out)
      | Some bs \<Rightarrow> if length bs \<noteq> 3 \<and> k \<noteq> 0 then (None, poke bo bs out)
          else decode_loop inp ((i + 4) + 4 * k) (i + 4) (bo + length bs) (poke bo bs out))"
    by (subst decode_loop.simps) (auto simp: r decode_quad_prefix [of a b c d rest] Let_def add.assoc split: option.split)
  show ?case
  proof (cases "base64_decode_quad [a, b, c, d]")
    case None
    then show ?thesis unfolding step t by simp
  next
    case (Some bs)
    have len: "length bs \<le> 3" "length (poke bo bs out) = length out"
      using decode_quad_length [OF Some] Suc.prems(2) by auto
    note IH = Suc.IH [of "i + 4" "bo + length bs" "poke bo bs out", folded cs_def]
    show ?thesis
    proof (cases "length bs \<noteq> 3 \<and> k \<noteq> 0")
      case True
      then show ?thesis unfolding step t using Some len cs by simp
    next
      case False
      have "poke (bo + length bs) bs' (poke bo bs out) = poke bo (bs @ bs') out" for bs'
        using Suc.prems(2) len by (intro poke_append) simp
      then show ?thesis unfolding step t
        using IH False Some len cs Suc.prems by (auto simp: option.map_comp comp_def add.assoc)
    qed
  qed
qed

lemma EVP_DecodeBase64_eq:
  assumes "n \<le> length inp" and "n div 4 * 3 \<le> max_out" and "n div 4 * 3 \<le> length out"
  shows "fst (EVP_DecodeBase64 out max_out inp n) = map_option length (unbase64 (take n inp))"
    and "length (snd (EVP_DecodeBase64 out max_out inp n)) = length out"
    and "unbase64 (take n inp) = Some bs \<Longrightarrow> snd (EVP_DecodeBase64 out max_out inp n) = poke 0 bs out"
proof -
  have un: "unbase64 cs = None" if "length cs mod 4 \<noteq> 0" for cs
    using that by (induction cs rule: unbase64.induct) (auto split: option.splits)
  have "fst (EVP_DecodeBase64 out max_out inp n) = map_option length (unbase64 (take n inp)) \<and>
    length (snd (EVP_DecodeBase64 out max_out inp n)) = length out \<and>
    (\<forall>bs. unbase64 (take n inp) = Some bs \<longrightarrow> snd (EVP_DecodeBase64 out max_out inp n) = poke 0 bs out)"
  proof (cases "n mod 4 = 0")
    case True
    then obtain k where k: "n = 4 * k" by (metis mod_eq_0_iff_dvd dvdE)
    then have "decode_loop inp n 0 0 out = EVP_DecodeBase64 out max_out inp n"
      using assms(2) by (simp add: EVP_DecodeBase64_def EVP_DecodedLength_def)
    then show ?thesis using decode_loop_eq [of 0 k inp 0 out] assms k by (simp add: mult.commute)
  next
    case False
    then show ?thesis using un [of "take n inp"] assms(1) by (simp add: EVP_DecodeBase64_def min_def)
  qed
  then show "fst (EVP_DecodeBase64 out max_out inp n) = map_option length (unbase64 (take n inp))"
    and "length (snd (EVP_DecodeBase64 out max_out inp n)) = length out"
    and "unbase64 (take n inp) = Some bs \<Longrightarrow> snd (EVP_DecodeBase64 out max_out inp n) = poke 0 bs out"
    by blast+
qed


text \<open>
  C10: \<open>EVP_DecodeBase64\<close> undoes \<open>EVP_EncodeBlock\<close>: encoding any data and decoding the
  characters succeeds, gives back its length and its bytes, and neither call writes past the
  buffer of the size that \<open>EVP_EncodedLength\<close> and \<open>EVP_DecodedLength\<close> announce.
\<close>

theorem encode_decode_round_trip:
  assumes "EVP_EncodedLength (length data) = Some enc_len" and "length dst = enc_len"
    and "EVP_EncodeBlock dst data (length data) = (n, dst')"
    and "EVP_DecodedLength n = Some dec_len" and "length out = dec_len"
    and "4 * length data < 2 ^ 60"
  shows "n + 1 = enc_len \<and> length dst' = enc_len \<and> dst' ! n = 0 \<and> take n dst' = base64 data \<and>
    fst (EVP_DecodeBase64 out dec_len dst' n) = Some (length data) \<and>
    length (snd (EVP_DecodeBase64 out dec_len dst' n)) = dec_len \<and>
    take (length data) (snd (EVP_DecodeBase64 out dec_len dst' n)) = data"
proof -
  have "enc_len = length (base64 data) + 1"
    using assms(1,6) EVP_EncodedLength_eq [of "length data"] by (simp add: length_base64 size_t_mod_def)
  moreover from this have e: "n = length (base64 data)" "dst' = poke 0 (base64 data @ [0]) dst"
    using EVP_EncodeBlock_eq [of "length data" data dst] assms(2,3) by simp_all
  ultimately have 1: "n + 1 = enc_len" "length dst' = enc_len" using assms(2) by simp_all
  have t: "take n dst' = base64 data" "dst' ! n = 0" by (simp_all add: e poke_def nth_append)
  have d: "dec_len = n div 4 * 3" using assms(4) by (simp add: EVP_DecodedLength_def split: if_splits)
  have u: "unbase64 (take n dst') = Some data" by (simp add: t(1) unbase64_base64)
  have "n \<le> length dst'" using 1 by simp
  note D = EVP_DecodeBase64_eq [OF this, of dec_len out]
  show ?thesis
    using 1 t D u assms(5) d by simp
qed

lemma encode_decode_round_trip_witness:
  "\<exists>dst' n. n + 1 = 9 \<and> length dst' = 9 \<and> dst' ! n = 0 \<and> take n dst' = base64 [1, 2, 3, 255] \<and>
    fst (EVP_DecodeBase64 (replicate 6 0) 6 dst' n) = Some (length [1, 2, 3, 255 :: u8]) \<and>
    length (snd (EVP_DecodeBase64 (replicate 6 0) 6 dst' n)) = 6 \<and>
    take (length [1, 2, 3, 255 :: u8]) (snd (EVP_DecodeBase64 (replicate 6 0) 6 dst' n)) = [1, 2, 3, 255]"
proof -
  have e: "EVP_EncodedLength (length [1, 2, 3, 255 :: u8]) = Some 9"
    by (simp add: EVP_EncodedLength_def size_t_mod_def Let_def)
  obtain dst' where b: "EVP_EncodeBlock (replicate 9 0) [1, 2, 3, 255] (length [1, 2, 3, 255 :: u8]) = (8, dst')"
    using EVP_EncodeBlock_eq [of "length [1, 2, 3, 255 :: u8]" "[1, 2, 3, 255]" "replicate 9 0"]
    by (simp add: length_base64)
  from encode_decode_round_trip [OF e _ b, of 6 "replicate 6 0"] show ?thesis
    by (intro exI [of _ dst'] exI [of _ 8]) (simp add: EVP_DecodedLength_def)
qed

section \<open>Decoding a stream\<close>
















end
