(* ===== verification/Fbase64.thy ===== *)
theory Fbase64
  imports Base64
begin

text \<open>
  FirebaseDatabase/Sources/third_party/SocketRocket/fbase64.c: the base64 functions of the
  WebSocket client, compared with the encoder of BoringSSL.
\<close>

section \<open>Operations\<close>

text \<open>The table \<open>Base64\<close> is the alphabet of RFC 4648, without its terminator.\<close>

definition ntop_alphabet :: bytes where
  "ntop_alphabet = map (word_of_nat \<circ> of_char)
     ''ABCDEFGHIJKLMNOPQRSTUVWXYZabcdefghijklmnopqrstuvwxyz0123456789+/''"




text \<open>\<open>isspace\<close> of the C locale, and \<open>strchr\<close> on the table as an index.\<close>

definition isspace :: "u8 \<Rightarrow> bool" where
  "isspace c \<longleftrightarrow> c = 0x20 \<or> (0x09 \<le> c \<and> c \<le> 0x0d)"

fun index_from :: "u8 \<Rightarrow> nat \<Rightarrow> bytes \<Rightarrow> nat option" where
  "index_from c i [] = None"
| "index_from c i (x # xs) = (if x = c then Some i else index_from c (Suc i) xs)"

definition strchr_Base64 :: "u8 \<Rightarrow> u8 option" where
  "strchr_Base64 c = map_option word_of_nat (index_from c 0 ntop_alphabet)"







section \<open>What they compute\<close>



lemma index_from_char_all: "\<forall>n < 64. strchr_Base64 (b64_char n) = Some (word_of_nat n) \<and> \<not> isspace (b64_char n) \<and> b64_char n \<noteq> 0"
  unfolding all_less_64 by code_simp

lemma strchr_char [simp]:
  assumes "n < 64"
  shows "strchr_Base64 (b64_char n) = Some (word_of_nat n)" "\<not> isspace (b64_char n)" "b64_char n \<noteq> 0"
  using index_from_char_all assms by blast+











section \<open>Decoding\<close>












end
