(* ===== verification/Pb_stream.thy ===== *)
theory Pb_stream
  imports Buffers
begin

text \<open>
  The streams of nanopb (\<open>pb_encode.c\<close>, \<open>pb_decode.c\<close>): writing and reading bytes, variable
  length and fixed width numbers, tags, strings and submessages, and skipping a field.
\<close>

section \<open>Output streams\<close>

text \<open>
  A \<open>pb_ostream_t\<close>: the callback takes the stream's state and the bytes to write, and gives
  its verdict and the new state; \<open>None\<close> is the null callback of a sizing stream.
\<close>

record 's pb_ostream =
  os_callback :: "('s \<Rightarrow> bytes \<Rightarrow> bool \<times> 's) option"
  os_state :: 's
  max_size :: nat
  bytes_written :: nat
  os_errmsg :: "string option"

type_synonym 's pb_writer = "'s pb_ostream \<Rightarrow> bool \<times> 's pb_ostream"

text \<open>\<open>PB_RETURN_ERROR\<close>: only the first message is kept.\<close>

definition PB_SET_ERROR :: "string \<Rightarrow> string option \<Rightarrow> string option" where
  "PB_SET_ERROR msg errmsg = (case errmsg of None \<Rightarrow> Some msg | Some m \<Rightarrow> Some m)"

definition os_error :: "string \<Rightarrow> 's pb_writer" where
  "os_error msg s = (False, s\<lparr>os_errmsg := PB_SET_ERROR msg (os_errmsg s)\<rparr>)"

text \<open>The callback of a stream over a memory buffer: its state is the buffer and a position in it.\<close>

definition buf_write :: "bytes \<times> nat \<Rightarrow> bytes \<Rightarrow> bool \<times> bytes \<times> nat" where
  "buf_write st buf = (case st of (dest, p) \<Rightarrow> (True, poke p buf dest, p + length buf))"

definition pb_ostream_from_buffer :: "bytes \<Rightarrow> nat \<Rightarrow> (bytes \<times> nat) pb_ostream" where
  "pb_ostream_from_buffer buf bufsize =
     \<lparr>os_callback = Some buf_write, os_state = (buf, 0), max_size = bufsize, bytes_written = 0,
      os_errmsg = None\<rparr>"

text \<open>The state of a sizing stream is a null pointer, which nothing reads: any \<open>st\<close> stands for it.\<close>

definition PB_OSTREAM_SIZING :: "'s \<Rightarrow> 's pb_ostream" where
  "PB_OSTREAM_SIZING st =
     \<lparr>os_callback = None, os_state = st, max_size = 0, bytes_written = 0, os_errmsg = None\<rparr>"

definition pb_write :: "bytes \<Rightarrow> nat \<Rightarrow> 's pb_writer" where
  "pb_write buf count s =
     (let total_bytes = (bytes_written s + count) mod size_t_mod in
      case os_callback s of
        Some callback \<Rightarrow>
          if count > 0 then
            (if total_bytes < bytes_written s \<or> total_bytes > max_size s then os_error ''stream full'' s
             else
               (case callback (os_state s) (take count buf) of
                  (False, st) \<Rightarrow> os_error ''io error'' (s\<lparr>os_state := st\<rparr>)
                | (True, st) \<Rightarrow> (True, s\<lparr>os_state := st, bytes_written := total_bytes\<rparr>)))
          else (True, s\<lparr>bytes_written := total_bytes\<rparr>)
      | None \<Rightarrow> (True, s\<lparr>bytes_written := total_bytes\<rparr>))"

section \<open>Writing numbers\<close>

function varint_loop :: "u64 \<Rightarrow> bytes" where
  "varint_loop v = (if v = 0 then [] else (ucast (v AND 0x7F) OR 0x80) # varint_loop (drop_bit 7 v))"
  by pat_completeness auto
termination
proof (relation "measure unat")
  fix v :: u64
  assume "v \<noteq> 0"
  then have "0 < unat v" by (simp add: unat_gt_0)
  then show "(drop_bit 7 v, v) \<in> measure unat" by (simp add: unat_drop_bit)
qed simp

declare varint_loop.simps [simp del]

definition pb_encode_varint :: "u64 \<Rightarrow> 's pb_writer" where
  "pb_encode_varint v s =
     (if v \<le> 0x7F then pb_write [ucast v] 1 s
      else
        (let buffer = varint_loop v; i = length buffer
         in pb_write (buffer[i - 1 := buffer ! (i - 1) AND 0x7F]) i s))"

text \<open>A \<open>pb_int64_t\<close> is a 64-bit word whose value is \<open>sint\<close>.\<close>

definition pb_encode_svarint :: "u64 \<Rightarrow> 's pb_writer" where
  "pb_encode_svarint v =
     pb_encode_varint (if sint v < 0 then NOT (push_bit 1 v) else push_bit 1 v)"

definition pb_encode_fixed32 :: "u32 \<Rightarrow> 's pb_writer" where
  "pb_encode_fixed32 val =
     pb_write [ucast (val AND 0xFF), ucast (drop_bit 8 val AND 0xFF), ucast (drop_bit 16 val AND 0xFF),
       ucast (drop_bit 24 val AND 0xFF)] 4"

definition pb_encode_fixed64 :: "u64 \<Rightarrow> 's pb_writer" where
  "pb_encode_fixed64 val =
     pb_write [ucast (val AND 0xFF), ucast (drop_bit 8 val AND 0xFF), ucast (drop_bit 16 val AND 0xFF),
       ucast (drop_bit 24 val AND 0xFF), ucast (drop_bit 32 val AND 0xFF), ucast (drop_bit 40 val AND 0xFF),
       ucast (drop_bit 48 val AND 0xFF), ucast (drop_bit 56 val AND 0xFF)] 8"

text \<open>Wire types, by the numbers the header gives them.\<close>

definition PB_WT_VARINT :: u32 where "PB_WT_VARINT = 0"
definition PB_WT_64BIT :: u32 where "PB_WT_64BIT = 1"
definition PB_WT_STRING :: u32 where "PB_WT_STRING = 2"
definition PB_WT_32BIT :: u32 where "PB_WT_32BIT = 5"

definition pb_encode_tag :: "u32 \<Rightarrow> u32 \<Rightarrow> 's pb_writer" where
  "pb_encode_tag wiretype field_number =
     pb_encode_varint (push_bit 3 (ucast field_number) OR ucast wiretype)"

definition pb_encode_string :: "bytes \<Rightarrow> nat \<Rightarrow> 's pb_writer" where
  "pb_encode_string buffer sz s =
     (case pb_encode_varint (word_of_nat sz) s of
        (False, s') \<Rightarrow> (False, s')
      | (True, s') \<Rightarrow> pb_write buffer sz s')"

text \<open>
  \<open>encode\<close> is \<open>pb_encode\<close> on the fields and the structure of the submessage.  It runs twice,
  first on a stream that only counts.
\<close>

definition pb_encode_submessage :: "'s pb_writer \<Rightarrow> 's pb_writer" where
  "pb_encode_submessage encode s =
     (case encode (PB_OSTREAM_SIZING (os_state s)) of
        (False, sub) \<Rightarrow> (False, s\<lparr>os_errmsg := os_errmsg sub\<rparr>)
      | (True, sub) \<Rightarrow>
          (let sz = bytes_written sub in
           case pb_encode_varint (word_of_nat sz) s of
             (False, s1) \<Rightarrow> (False, s1)
           | (True, s1) \<Rightarrow>
               if os_callback s1 = None then pb_write [] sz s1
               else if (bytes_written s1 + sz) mod size_t_mod > max_size s1 then os_error ''stream full'' s1
               else
                 (case encode (sub\<lparr>os_callback := os_callback s1, os_state := os_state s1,
                                  max_size := sz, bytes_written := 0, os_errmsg := None\<rparr>) of
                    (status, sub2) \<Rightarrow>
                      (let s2 = s1\<lparr>bytes_written := (bytes_written s1 + bytes_written sub2) mod size_t_mod,
                                   os_state := os_state sub2, os_errmsg := os_errmsg sub2\<rparr>
                       in if bytes_written sub2 \<noteq> sz then os_error ''submsg size changed'' s2
                          else (status, s2)))))"

section \<open>What the writers append\<close>

text \<open>The base 128 encoding of a number, least significant group first.\<close>

fun varint :: "nat \<Rightarrow> bytes" where
  "varint n = (if n < 128 then [word_of_nat n] else word_of_nat (128 + n mod 128) # varint (n div 128))"

declare varint.simps [simp del]

text \<open>A writer that appends the pieces \<open>cs\<close> is the sequence of the writes of the pieces.\<close>

primrec write_all :: "bytes list \<Rightarrow> 's pb_writer" where
  "write_all [] s = (True, s)"
| "write_all (c # cs) s =
     (case pb_write c (length c) s of
        (False, s') \<Rightarrow> (False, s')
      | (True, s') \<Rightarrow> write_all cs s')"

lemma write_all_single: "write_all [c] s = pb_write c (length c) s"
  by (cases "pb_write c (length c) s" rule: prod.exhaust) (simp split: bool.splits)

lemma write_all_append:
  "write_all (cs @ ds) s =
     (case write_all cs s of (False, s') \<Rightarrow> (False, s') | (True, s') \<Rightarrow> write_all ds s')"
  by (induction cs arbitrary: s) (auto split: prod.splits bool.splits)

lemma unat_continued: "unat (word_of_nat (128 + n mod 128) :: u8) = 128 + n mod 128"
  by (rule unat_word_of_nat_small) simp

lemma unat_and_7F: "unat (w AND 0x7F :: 'a::len word) = unat w mod 128"
  if "7 \<le> LENGTH('a)"
  using unat_and_mask [of w 7] that by (simp add: mask_eq_exp_minus_1)

lemma ucast_low_bits_or:
  fixes v :: u64
  shows "ucast (v AND 0x7F) OR 0x80 = (word_of_nat (128 + unat v mod 128) :: u8)"
proof -
  have m: "unat (v AND 0x7F) = unat v mod 128"
    using unat_and_mask [of v 7] by (simp add: mask_eq_exp_minus_1)
  have "unat (ucast (v AND 0x7F) :: u8) = unat v mod 128"
    using m by (simp add: unat_ucast)
  moreover have "unat (push_bit 7 1 OR (ucast (v AND 0x7F) :: u8)) =
      unat (1 :: u8) * 2 ^ 7 + unat (ucast (v AND 0x7F) :: u8)"
    by (rule unat_shift_or) (use calculation in simp_all)
  ultimately have "unat (ucast (v AND 0x7F) OR 0x80 :: u8) = 128 + unat v mod 128"
    by (simp add: or.commute)
  then show ?thesis by (simp only: word_unat_eq_iff unat_continued)
qed

lemma varint_loop_eq:
  assumes "v \<noteq> 0"
  shows "varint_loop v \<noteq> [] \<and>
    (varint_loop v)[length (varint_loop v) - 1 := varint_loop v ! (length (varint_loop v) - 1) AND 0x7F] =
      varint (unat v)"
  using assms
proof (induction v rule: varint_loop.induct)
  case (1 v)
  have dv: "unat (drop_bit 7 v) = unat v div 128" by (simp add: unat_drop_bit)
  show ?case
  proof (cases "drop_bit 7 v = 0")
    case True
    then have lt: "unat v < 128" using dv by (simp add: word_unat_eq_iff [of "drop_bit 7 v"] del: unat_drop_bit)
    define x :: u8 where "x = word_of_nat (128 + unat v mod 128)"
    have x: "unat x = 128 + unat v mod 128" unfolding x_def by (rule unat_continued)
    have "varint_loop v = [x]"
      using 1(2) True by (subst varint_loop.simps) (simp add: ucast_low_bits_or x_def varint_loop.simps [of 0])
    moreover have "unat (x AND 0x7F) = unat (word_of_nat (unat v) :: u8)"
    proof -
      have "unat (word_of_nat (unat v) :: u8) = unat v" by (rule unat_word_of_nat_small) (use lt in simp)
      then show ?thesis using lt x by (simp add: unat_and_7F)
    qed
    ultimately show ?thesis using lt
      by (simp add: varint.simps [of "unat v"] word_unat_eq_iff [of "x AND 0x7F"] del: of_nat_unat)
  next
    case False
    then have ge: "\<not> unat v < 128" using dv by (metis div_less unat_0 word_unat_eq_iff)
    have IH: "varint_loop (drop_bit 7 v) \<noteq> []"
      "(varint_loop (drop_bit 7 v))[length (varint_loop (drop_bit 7 v)) - 1 :=
         varint_loop (drop_bit 7 v) ! (length (varint_loop (drop_bit 7 v)) - 1) AND 0x7F] = varint (unat v div 128)"
      using 1 False dv by auto
    obtain n where n: "length (varint_loop (drop_bit 7 v)) = Suc n"
      using IH(1) by (cases "length (varint_loop (drop_bit 7 v))") auto
    have "varint_loop v = word_of_nat (128 + unat v mod 128) # varint_loop (drop_bit 7 v)"
      using 1(2) by (subst varint_loop.simps) (simp only: ucast_low_bits_or if_False)
    then show ?thesis using IH ge n by (simp add: varint.simps [of "unat v"])
  qed
qed

lemma varint_nonempty [simp]: "varint n \<noteq> []"
  by (subst varint.simps) simp

lemma pb_encode_varint_eq: "pb_encode_varint v = write_all [varint (unat v)]"
proof
  fix s :: "'a pb_ostream"
  show "pb_encode_varint v s = write_all [varint (unat v)] s"
  proof (cases "v \<le> 0x7F")
    case True
    then have "unat v < 128" by (simp add: word_le_nat_alt)
    moreover have "(ucast v :: u8) = word_of_nat (unat v)"
      by (simp add: word_unat_eq_iff unat_ucast unat_word_of_nat_small calculation)
    ultimately show ?thesis
      by (simp add: pb_encode_varint_def write_all_single True varint.simps del: write_all.simps)
  next
    case False
    then have "v \<noteq> 0" by auto
    then show ?thesis using varint_loop_eq [of v]
      by (auto simp: pb_encode_varint_def write_all_single False Let_def simp del: write_all.simps)
        (metis length_list_update)
  qed
qed

section \<open>Writers as sequences of writes\<close>

lemma pb_encode_svarint_eq:
  "pb_encode_svarint v = write_all [varint (unat (if sint v < 0 then NOT (push_bit 1 v) else push_bit 1 v))]"
  by (simp only: pb_encode_svarint_def pb_encode_varint_eq)

lemma pb_encode_tag_eq:
  "pb_encode_tag w n = write_all [varint (unat (push_bit 3 (ucast n) OR ucast w :: u64))]"
  by (simp only: pb_encode_tag_def pb_encode_varint_eq)

lemma ucast_byte: "ucast (w AND 0xFF) = (ucast w :: u8)" if "8 \<le> LENGTH('a)" for w :: "'a::len word"
proof -
  have "unat (w AND 0xFF) = unat w mod 256"
    using unat_and_mask [of w 8] that by (simp add: mask_eq_exp_minus_1)
  then show ?thesis by (simp add: word_unat_eq_iff unat_ucast)
qed

lemma pb_encode_fixed32_eq: "pb_encode_fixed32 v = write_all [le_bytes 4 v]"
  by (rule ext) (simp add: pb_encode_fixed32_def write_all_single ucast_byte eval_nat_numeral
      drop_bit_drop_bit del: write_all.simps)

lemma pb_encode_fixed64_eq: "pb_encode_fixed64 v = write_all [le_bytes 8 v]"
  by (rule ext) (simp add: pb_encode_fixed64_def write_all_single ucast_byte eval_nat_numeral
      drop_bit_drop_bit del: write_all.simps)

lemma pb_write_take: "pb_write (take n buf) n = pb_write buf n"
  by (simp add: pb_write_def Let_def fun_eq_iff split: option.split)

lemma pb_encode_string_eq:
  assumes "n \<le> length buf" and "n < size_t_mod"
  shows "pb_encode_string buf n = write_all [varint n, take n buf]"
proof
  fix s :: "'a pb_ostream"
  have "unat (word_of_nat n :: u64) = n"
    by (rule unat_word_of_nat_small) (use assms(2) in \<open>simp add: size_t_mod_def\<close>)
  then have "pb_encode_varint (word_of_nat n) = (write_all [varint n] :: 'a pb_writer)"
    by (simp only: pb_encode_varint_eq)
  then have "pb_encode_string buf n s =
      (case write_all [varint n] s of (False, s') \<Rightarrow> (False, s') | (True, s') \<Rightarrow> write_all [take n buf] s')"
    using assms(1)
    by (simp only: pb_write_take pb_encode_string_def write_all_single length_take min_absorb2)
  also have "\<dots> = write_all [varint n, take n buf] s"
    by (simp only: write_all_append [symmetric] append.simps)
  finally show "pb_encode_string buf n s = write_all [varint n, take n buf] s" .
qed

section \<open>Counting, and writing where there is room\<close>

lemma write_all_sizing:
  assumes "os_callback s = None" and "bytes_written s < size_t_mod"
  shows "write_all cs s = (True, s\<lparr>bytes_written := (bytes_written s + length (concat cs)) mod size_t_mod\<rparr>)"
  using assms
proof (induction cs arbitrary: s)
  case (Cons c cs)
  let ?s = "s\<lparr>bytes_written := (bytes_written s + length c) mod size_t_mod\<rparr>"
  have "pb_write c (length c) s = (True, ?s)" using Cons.prems by (simp add: pb_write_def)
  moreover have "size_t_mod > 0" by (simp add: size_t_mod_def)
  ultimately show ?case
    using Cons.IH [of ?s] Cons.prems by (simp add: mod_add_left_eq add.assoc)
qed simp

text \<open>
  What a callback promises that delivers the bytes somewhere: as long as there is room, it
  accepts and they are received in order.
\<close>

locale sink =
  fixes callback :: "'s \<Rightarrow> bytes \<Rightarrow> bool \<times> 's"
    and received :: "'s \<Rightarrow> bytes"
    and room :: "'s \<Rightarrow> nat"
  assumes accepts: "length bs \<le> room st \<Longrightarrow> fst (callback st bs) \<and>
      received (snd (callback st bs)) = received st @ bs \<and>
      room (snd (callback st bs)) + length bs = room st"
begin

definition ready :: "'s pb_ostream \<Rightarrow> bool" where
  "ready s \<longleftrightarrow> os_callback s = Some callback \<and> max_size s < size_t_mod \<and> bytes_written s \<le> max_size s \<and>
     max_size s - bytes_written s \<le> room (os_state s)"

lemma write_fits:
  assumes "ready s" and "bytes_written s + length c \<le> max_size s"
  obtains s' where "pb_write c (length c) s = (True, s')" and "ready s'"
    and "bytes_written s' = bytes_written s + length c" and "max_size s' = max_size s"
    and "received (os_state s') = received (os_state s) @ c"
    and "room (os_state s') + length c = room (os_state s)"
proof (cases "c = []")
  case True
  then show ?thesis using assms by (intro that [of s]) (auto simp: pb_write_def ready_def)
next
  case False
  obtain ok st where cb: "callback (os_state s) c = (ok, st)" by fastforce
  then have "ok \<and> received st = received (os_state s) @ c \<and> room st + length c = room (os_state s)"
    using accepts [of c "os_state s"] assms by (auto simp: ready_def)
  then show ?thesis using assms False cb
    by (intro that [of "s\<lparr>os_state := st, bytes_written := bytes_written s + length c\<rparr>"])
      (auto simp: pb_write_def ready_def)
qed

lemma write_full:
  assumes "ready s" and "max_size s < bytes_written s + length c" and "length c < size_t_mod"
  shows "pb_write c (length c) s = os_error ''stream full'' s"
proof -
  have "(bytes_written s + length c) mod size_t_mod < bytes_written s \<or>
      (bytes_written s + length c) mod size_t_mod > max_size s"
  proof (cases "bytes_written s + length c < size_t_mod")
    case False
    then have "(bytes_written s + length c) mod size_t_mod = bytes_written s + length c - size_t_mod"
    proof -
      have "bytes_written s + length c - size_t_mod < size_t_mod" using assms by (auto simp: ready_def)
      then show ?thesis using False by (metis le_mod_geq mod_less not_less)
    qed
    then show ?thesis using assms False by (auto simp: ready_def)
  qed (use assms in simp)
  moreover have "0 < length c" using assms by (cases c) (auto simp: ready_def)
  ultimately show ?thesis using assms(1) by (auto simp: pb_write_def ready_def Let_def)
qed

lemma write_all_fits:
  assumes "ready s" and "bytes_written s + length (concat cs) \<le> max_size s"
  shows "\<exists>s'. write_all cs s = (True, s') \<and> ready s' \<and> bytes_written s' = bytes_written s + length (concat cs) \<and>
    max_size s' = max_size s \<and> received (os_state s') = received (os_state s) @ concat cs \<and>
    room (os_state s') + length (concat cs) = room (os_state s)"
  using assms
proof (induction cs arbitrary: s)
  case (Cons c cs)
  then have "bytes_written s + length c \<le> max_size s" by simp
  then obtain s1 where s1: "pb_write c (length c) s = (True, s1)" "ready s1"
      "bytes_written s1 = bytes_written s + length c" "max_size s1 = max_size s"
      "received (os_state s1) = received (os_state s) @ c"
      "room (os_state s1) + length c = room (os_state s)"
    by (rule write_fits [OF Cons.prems(1)])
  then have "bytes_written s1 + length (concat cs) \<le> max_size s1" using Cons.prems by simp
  from Cons.IH [OF s1(2) this] s1 show ?case by auto
qed simp

text \<open>How a stream is left by a writer for which there is no room.\<close>

definition refused :: "'s pb_ostream \<Rightarrow> 's pb_ostream \<Rightarrow> bool" where
  "refused s s' \<longleftrightarrow> ready s' \<and> max_size s' = max_size s \<and> os_errmsg s' \<noteq> None \<and>
     length (received (os_state s')) + room (os_state s') = length (received (os_state s)) + room (os_state s)"

lemma refused_error: "ready s \<Longrightarrow> refused s (snd (os_error msg s))"
  by (auto simp: refused_def os_error_def ready_def PB_SET_ERROR_def split: option.split)

lemma write_all_full:
  assumes "ready s" and "max_size s < bytes_written s + length (concat cs)" and "length (concat cs) < size_t_mod"
  shows "\<exists>s'. write_all cs s = (False, s') \<and> refused s s'"
  using assms
proof (induction cs arbitrary: s)
  case (Cons c cs)
  show ?case
  proof (cases "bytes_written s + length c \<le> max_size s")
    case True
    then obtain s1 where s1: "pb_write c (length c) s = (True, s1)" "ready s1"
      "bytes_written s1 = bytes_written s + length c" "max_size s1 = max_size s"
      "received (os_state s1) = received (os_state s) @ c" "room (os_state s1) + length c = room (os_state s)"
      by (rule write_fits [OF Cons.prems(1)])
    then have "max_size s1 < bytes_written s1 + length (concat cs)" "length (concat cs) < size_t_mod"
      using Cons.prems by auto
    from Cons.IH [OF s1(2) this] s1 show ?thesis by (auto simp: refused_def)
  next
    case False
    then have "pb_write c (length c) s = os_error ''stream full'' s"
      using Cons.prems by (intro write_full) auto
    then show ?thesis using refused_error [OF Cons.prems(1)] by (simp add: os_error_def)
  qed
qed (simp add: ready_def)

end

interpretation buffer_sink: sink buf_write "\<lambda>(dest, p). take p dest" "\<lambda>(dest, p). length dest - p"
proof (unfold_locales, goal_cases)
  case (1 bs st)
  obtain dest p where "st = (dest, p)" by fastforce
  with 1 show ?case by (cases "p \<le> length dest") (auto simp: buf_write_def)
qed

lemma from_buffer_ready: "buffer_sink.ready (pb_ostream_from_buffer buf (length buf))"
  if "length buf < size_t_mod"
  using that by (simp add: buffer_sink.ready_def pb_ostream_from_buffer_def)

section \<open>Writers that deliver\<close>

text \<open>
  A writer delivers \<open>bs\<close> when it adds their number to a sizing stream, appends them to what a
  sink has received where they fit, and fails without a write out of bounds where they do not.
\<close>

context sink
begin

definition delivered :: "bytes \<Rightarrow> 's pb_ostream \<Rightarrow> 's pb_ostream \<Rightarrow> bool" where
  "delivered bs s s' \<longleftrightarrow> ready s' \<and> bytes_written s' = bytes_written s + length bs \<and> max_size s' = max_size s \<and>
     received (os_state s') = received (os_state s) @ bs \<and> room (os_state s') + length bs = room (os_state s)"

definition counts :: "'s pb_writer \<Rightarrow> nat \<Rightarrow> bool" where
  "counts w n \<longleftrightarrow> (\<forall>s. os_callback s = None \<and> bytes_written s < size_t_mod \<longrightarrow>
     w s = (True, s\<lparr>bytes_written := (bytes_written s + n) mod size_t_mod\<rparr>))"

definition rejects :: "'s pb_writer \<Rightarrow> nat \<Rightarrow> bool" where
  "rejects w n \<longleftrightarrow> (\<forall>s. ready s \<and> max_size s < bytes_written s + n \<and> bytes_written s + n < size_t_mod \<longrightarrow>
     (\<exists>s'. w s = (False, s') \<and> refused s s'))"

definition delivers :: "'s pb_writer \<Rightarrow> bytes \<Rightarrow> bool" where
  "delivers w bs \<longleftrightarrow> counts w (length bs) \<and> rejects w (length bs) \<and>
     (\<forall>s. ready s \<and> bytes_written s + length bs \<le> max_size s \<longrightarrow> (\<exists>s'. w s = (True, s') \<and> delivered bs s s'))"

lemma deliversD:
  assumes "delivers w bs" and "ready s" and "bytes_written s + length bs \<le> max_size s"
  obtains s' where "w s = (True, s')" and "delivered bs s s'"
  using assms by (auto simp: delivers_def)

lemma rejectsD:
  assumes "delivers w bs" and "ready s" and "max_size s < bytes_written s + length bs"
    and "bytes_written s + length bs < size_t_mod"
  obtains s' where "w s = (False, s')" and "refused s s'"
  using assms by (auto simp: delivers_def rejects_def)

lemma write_all_delivers: "delivers (write_all cs) (concat cs)"
  unfolding delivers_def
proof (intro conjI)
  show "counts (write_all cs) (length (concat cs))" by (simp add: counts_def write_all_sizing)
  show "rejects (write_all cs) (length (concat cs))" by (auto simp: rejects_def intro: write_all_full)
  show "\<forall>s. ready s \<and> bytes_written s + length (concat cs) \<le> max_size s \<longrightarrow>
      (\<exists>s'. write_all cs s = (True, s') \<and> delivered (concat cs) s s')"
    using write_all_fits [of _ cs] by (simp add: delivered_def)
qed

lemma encode_varint_delivers: "delivers (pb_encode_varint v) (varint (unat v))"
  using write_all_delivers [of "[varint (unat v)]"] by (simp add: pb_encode_varint_eq del: write_all.simps)

lemma counts_then:
  assumes "counts w m" and "counts w' n"
    and "\<And>s s1. w s = (True, s1) \<Longrightarrow> v s = w' s1"
  shows "counts v (m + n)"
proof -
  have "0 < size_t_mod" by (simp add: size_t_mod_def)
  then show ?thesis using assms by (fastforce simp: counts_def mod_add_left_eq add.assoc)
qed

lemma then_delivers:
  assumes "delivers w as" and "delivers w' bs" and "\<And>s s1. w s = (True, s1) \<Longrightarrow> v s = w' s1"
    and failed: "\<And>s s1. w s = (False, s1) \<Longrightarrow> v s = (False, s1)"
  shows "delivers v (as @ bs)"
  unfolding delivers_def
proof (intro conjI allI impI)
  show "counts v (length (as @ bs))"
    using counts_then [of w "length as" w' "length bs" v] assms by (simp add: delivers_def)
  show "rejects v (length (as @ bs))"
    unfolding rejects_def
  proof (intro allI impI)
    fix s
    assume s: "ready s \<and> max_size s < bytes_written s + length (as @ bs) \<and> bytes_written s + length (as @ bs) < size_t_mod"
    show "\<exists>s'. v s = (False, s') \<and> refused s s'"
    proof (cases "bytes_written s + length as \<le> max_size s")
      case True
      then obtain s1 where s1: "w s = (True, s1)" "delivered as s s1" using s by (auto intro: deliversD [OF assms(1)])
      then obtain s2 where "w' s1 = (False, s2)" "refused s1 s2"
        using s by (auto simp: delivered_def intro: rejectsD [OF assms(2), of s1])
      then show ?thesis using assms(3) [OF s1(1)] s1(2) by (auto simp: delivered_def refused_def)
    next
      case False
      then obtain s1 where "w s = (False, s1)" "refused s s1" using s by (auto intro: rejectsD [OF assms(1)])
      then show ?thesis using failed by auto
    qed
  qed
  fix s
  assume s: "ready s \<and> bytes_written s + length (as @ bs) \<le> max_size s"
  then have "bytes_written s + length as \<le> max_size s" by simp
  then obtain s1 where s1: "w s = (True, s1)" "delivered as s s1" using s by (auto intro: deliversD [OF assms(1)])
  then have "ready s1" "bytes_written s1 + length bs \<le> max_size s1" using s by (auto simp: delivered_def)
  then obtain s2 where "w' s1 = (True, s2)" "delivered bs s1 s2" by (auto intro: deliversD [OF assms(2)])
  then show "\<exists>s'. v s = (True, s') \<and> delivered (as @ bs) s s'"
    using assms(3) [OF s1(1)] s1(2) by (auto simp: delivered_def)
qed

lemma submessage_delivers:
  assumes w: "delivers w bs" and len: "length bs < size_t_mod"
  shows "delivers (pb_encode_submessage w) (varint (length bs) @ bs)"
  unfolding delivers_def
proof (intro conjI allI impI)
  let ?e = "pb_encode_varint (word_of_nat (length bs))"
  have n: "unat (word_of_nat (length bs) :: u64) = length bs"
    by (rule unat_word_of_nat_small) (use len in \<open>simp add: size_t_mod_def\<close>)
  then have e: "delivers ?e (varint (length bs))" using encode_varint_delivers [of "word_of_nat (length bs)"] by simp
  have sub: "w (PB_OSTREAM_SIZING st) = (True, (PB_OSTREAM_SIZING st)\<lparr>bytes_written := length bs\<rparr>)" for st
    using w len by (simp add: delivers_def counts_def PB_OSTREAM_SIZING_def size_t_mod_def)
  have zero: "0 < size_t_mod" by (simp add: size_t_mod_def)
  show "counts (pb_encode_submessage w) (length (varint (length bs) @ bs))"
    unfolding counts_def
  proof (intro allI impI)
    fix s :: "'s pb_ostream"
    assume s: "os_callback s = None \<and> bytes_written s < size_t_mod"
    then have "?e s = (True, s\<lparr>bytes_written := (bytes_written s + length (varint (length bs))) mod size_t_mod\<rparr>)"
      using e by (simp add: delivers_def counts_def)
    then show "pb_encode_submessage w s = (True, s\<lparr>bytes_written :=
        (bytes_written s + length (varint (length bs) @ bs)) mod size_t_mod\<rparr>)"
      using s zero by (simp add: pb_encode_submessage_def sub pb_write_def Let_def mod_add_left_eq add.assoc)
  qed
  show "rejects (pb_encode_submessage w) (length (varint (length bs) @ bs))"
    unfolding rejects_def
  proof (intro allI impI)
    fix s :: "'s pb_ostream"
    assume s: "ready s \<and> max_size s < bytes_written s + length (varint (length bs) @ bs) \<and>
      bytes_written s + length (varint (length bs) @ bs) < size_t_mod"
    show "\<exists>s'. pb_encode_submessage w s = (False, s') \<and> refused s s'"
    proof (cases "bytes_written s + length (varint (length bs)) \<le> max_size s")
      case True
      then obtain s1 where s1: "?e s = (True, s1)" "delivered (varint (length bs)) s s1"
        using s by (auto intro: deliversD [OF e])
      then have "pb_encode_submessage w s = os_error ''stream full'' s1"
        using s by (simp add: pb_encode_submessage_def sub delivered_def ready_def add.assoc)
      moreover have "refused s (snd (os_error ''stream full'' s1))"
        using refused_error [of s1 "''stream full''"] s1(2) by (auto simp: refused_def delivered_def)
      ultimately show ?thesis by (simp add: os_error_def)
    next
      case False
      then obtain s1 where "?e s = (False, s1)" "refused s s1" using s by (auto intro: rejectsD [OF e])
      then show ?thesis by (auto simp: pb_encode_submessage_def sub)
    qed
  qed
  fix s :: "'s pb_ostream"
  assume s: "ready s \<and> bytes_written s + length (varint (length bs) @ bs) \<le> max_size s"
  then have "bytes_written s + length (varint (length bs)) \<le> max_size s" by simp
  then obtain s1 where s1: "?e s = (True, s1)" "delivered (varint (length bs)) s s1"
    using s by (auto intro: deliversD [OF e])
  have cb: "os_callback s1 = Some callback" using s1(2) by (simp add: delivered_def ready_def)
  have fits: "bytes_written s1 + length bs \<le> max_size s1" "max_size s1 < size_t_mod"
    using s s1(2) by (auto simp: delivered_def ready_def)
  let ?t = "(PB_OSTREAM_SIZING (os_state s))\<lparr>os_callback := Some callback, os_state := os_state s1,
      max_size := length bs, bytes_written := 0, os_errmsg := None\<rparr>"
  have "ready ?t" "bytes_written ?t + length bs \<le> max_size ?t"
    using fits len s1(2) by (auto simp: ready_def delivered_def)
  then obtain t where t: "w ?t = (True, t)" "delivered bs ?t t" by (auto intro: deliversD [OF w])
  let ?s' = "s1\<lparr>bytes_written := bytes_written s1 + length bs, os_state := os_state t, os_errmsg := os_errmsg t\<rparr>"
  have "pb_encode_submessage w s = (True, ?s')"
    using s1(1) t fits cb
    by (simp add: pb_encode_submessage_def sub delivered_def)
  moreover have "delivered (varint (length bs) @ bs) s ?s'"
    using s1(2) t(2) fits cb by (auto simp: delivered_def ready_def)
  ultimately show "\<exists>s'. pb_encode_submessage w s = (True, s') \<and> delivered (varint (length bs) @ bs) s s'" by blast
qed

end

section \<open>Input streams\<close>

text \<open>
  Where the bytes of a \<open>pb_istream_t\<close> come from: \<open>Buffer bs\<close> is the callback \<open>buf_read\<close> with
  a state that points to the bytes \<open>bs\<close>, \<open>Custom f st\<close> any other callback \<open>f\<close> with its state:
  it delivers the number of bytes it is asked for, or fails.
\<close>

datatype 's pb_source = Buffer bytes | Custom "'s \<Rightarrow> nat \<Rightarrow> bytes option \<times> 's" 's

record 's pb_istream =
  is_source :: "'s pb_source"
  bytes_left :: nat
  is_errmsg :: "string option"

type_synonym ('s, 'a) pb_reader = "'s pb_istream \<Rightarrow> 'a option \<times> 's pb_istream"

definition is_error :: "string \<Rightarrow> ('s, 'a) pb_reader" where
  "is_error msg s = (None, s\<lparr>is_errmsg := PB_SET_ERROR msg (is_errmsg s)\<rparr>)"

text \<open>\<open>if (!m(stream, &x)) return false;\<close> and the rest of the function.\<close>

definition read_then :: "('s, 'a) pb_reader \<Rightarrow> ('a \<Rightarrow> ('s, 'b) pb_reader) \<Rightarrow> ('s, 'b) pb_reader" where
  "read_then m f s = (case m s of (None, s') \<Rightarrow> (None, s') | (Some x, s') \<Rightarrow> f x s')"

definition buf_read :: "bytes \<Rightarrow> nat \<Rightarrow> bytes option \<times> bytes" where
  "buf_read source count = (Some (take count source), drop count source)"

fun source_read :: "'s pb_source \<Rightarrow> nat \<Rightarrow> bytes option \<times> 's pb_source" where
  "source_read (Buffer bs) count = (case buf_read bs count of (r, bs') \<Rightarrow> (r, Buffer bs'))"
| "source_read (Custom f st) count = (case f st count of (r, st') \<Rightarrow> (r, Custom f st'))"

definition pb_istream_from_buffer :: "bytes \<Rightarrow> nat \<Rightarrow> 's pb_istream" where
  "pb_istream_from_buffer buf bufsize = \<lparr>is_source = Buffer buf, bytes_left = bufsize, is_errmsg = None\<rparr>"

text \<open>\<open>pb_read\<close> into a buffer, and with a null buffer: \<open>pb_skip\<close>.\<close>

definition pb_read :: "nat \<Rightarrow> ('s, bytes) pb_reader" where
  "pb_read count s =
     (if count = 0 then (Some [], s)
      else if bytes_left s < count then is_error ''end-of-stream'' s
      else
        (case source_read (is_source s) count of
           (None, src) \<Rightarrow> is_error ''io error'' (s\<lparr>is_source := src\<rparr>)
         | (Some bs, src) \<Rightarrow> (Some bs, s\<lparr>is_source := src, bytes_left := bytes_left s - count\<rparr>)))"

fun skip_blocks :: "nat \<Rightarrow> ('s, bytes) pb_reader" where
  "skip_blocks count =
     (if count > 16 then read_then (pb_read 16) (\<lambda>_. skip_blocks (count - 16)) else pb_read count)"

declare skip_blocks.simps [simp del]

definition pb_skip :: "nat \<Rightarrow> ('s, unit) pb_reader" where
  "pb_skip count s =
     (if count = 0 then (Some (), s)
      else
        (case is_source s of
           Custom f st \<Rightarrow> read_then (skip_blocks count) (\<lambda>_ s'. (Some (), s')) s
         | Buffer bs \<Rightarrow> read_then (pb_read count) (\<lambda>_ s'. (Some (), s')) s))"

definition pb_readbyte :: "('s, u8) pb_reader" where
  "pb_readbyte s =
     (if bytes_left s = 0 then is_error ''end-of-stream'' s
      else
        (case source_read (is_source s) 1 of
           (None, src) \<Rightarrow> is_error ''io error'' (s\<lparr>is_source := src\<rparr>)
         | (Some bs, src) \<Rightarrow> (Some (bs ! 0), s\<lparr>is_source := src, bytes_left := bytes_left s - 1\<rparr>)))"

lemma readbyte_left: "pb_readbyte s = (Some b, s') \<Longrightarrow> bytes_left s' < bytes_left s"
  by (auto simp: pb_readbyte_def is_error_def split: if_splits prod.splits option.splits)

section \<open>Reading numbers\<close>

text \<open>\<open>bitpos\<close> is a \<open>uint_fast8_t\<close>, eight bits wide on the platforms of the app.\<close>

function varint32_loop :: "nat \<Rightarrow> u32 \<Rightarrow> ('s, u32) pb_reader" where
  "varint32_loop bitpos result s =
     (case pb_readbyte s of
        (None, s') \<Rightarrow> (None, s')
      | (Some byte, s') \<Rightarrow>
          if bitpos \<ge> 32 \<and> byte AND 0x7F \<noteq> 0 \<and>
             (drop_bit 31 result = 0 \<or> byte \<noteq> (if bitpos < 63 then 0xFF else 0x01))
          then is_error ''varint overflow'' s'
          else
            (let result' = if bitpos \<ge> 32 then result else result OR push_bit bitpos (ucast (byte AND 0x7F));
                 bitpos' = (bitpos + 7) mod 256
             in if byte AND 0x80 \<noteq> 0 then varint32_loop bitpos' result' s'
                else if bitpos' = 35 \<and> byte AND 0x70 \<noteq> 0 then is_error ''varint overflow'' s'
                else (Some result', s')))"
  by pat_completeness auto
termination
  by (relation "measure (\<lambda>(_, _, s). bytes_left s)") (auto dest: readbyte_left [OF sym])

declare varint32_loop.simps [simp del]

text \<open>The result, and whether \<open>*eof\<close> is set.\<close>

definition pb_decode_varint32_eof :: "'s pb_istream \<Rightarrow> (u32 option \<times> 's pb_istream) \<times> bool" where
  "pb_decode_varint32_eof s =
     (case pb_readbyte s of
        (None, s') \<Rightarrow> ((None, s'), bytes_left s' = 0)
      | (Some byte, s') \<Rightarrow>
          (if byte AND 0x80 = 0 then (Some (ucast byte), s') else varint32_loop 7 (ucast (byte AND 0x7F)) s', False))"

definition pb_decode_varint32 :: "('s, u32) pb_reader" where
  "pb_decode_varint32 s = fst (pb_decode_varint32_eof s)"

function varint64_loop :: "nat \<Rightarrow> u64 \<Rightarrow> ('s, u64) pb_reader" where
  "varint64_loop bitpos result s =
     (if bitpos \<ge> 64 then is_error ''varint overflow'' s
      else
        (case pb_readbyte s of
           (None, s') \<Rightarrow> (None, s')
         | (Some byte, s') \<Rightarrow>
             (let result' = result OR push_bit bitpos (ucast (byte AND 0x7F))
              in if byte AND 0x80 \<noteq> 0 then varint64_loop ((bitpos + 7) mod 256) result' s'
                 else (Some result', s'))))"
  by pat_completeness auto
termination
  by (relation "measure (\<lambda>(_, _, s). bytes_left s)") (auto dest: readbyte_left [OF sym])

declare varint64_loop.simps [simp del]

definition pb_decode_varint :: "('s, u64) pb_reader" where
  "pb_decode_varint = varint64_loop 0 0"

function pb_skip_varint :: "('s, unit) pb_reader" where
  "pb_skip_varint s =
     (case pb_read 1 s of
        (None, s') \<Rightarrow> (None, s')
      | (Some bs, s') \<Rightarrow> if bs ! 0 AND 0x80 \<noteq> 0 then pb_skip_varint s' else (Some (), s'))"
  by pat_completeness auto
termination
  by (relation "measure bytes_left")
    (auto simp: pb_read_def is_error_def split: if_splits prod.splits option.splits)

declare pb_skip_varint.simps [simp del]

definition pb_skip_string :: "('s, unit) pb_reader" where
  "pb_skip_string = read_then pb_decode_varint32 (\<lambda>length. pb_skip (unat length))"

text \<open>
  The wire type and the tag, and whether \<open>*eof\<close> is set: at the end of the stream, and by the
  tag zero.
\<close>

definition pb_decode_tag :: "'s pb_istream \<Rightarrow> ((u32 \<times> u32) option \<times> 's pb_istream) \<times> bool" where
  "pb_decode_tag s =
     (case pb_decode_varint32_eof s of
        ((None, s'), eof) \<Rightarrow> ((None, s'), eof)
      | ((Some temp, s'), eof) \<Rightarrow>
          if temp = 0 then ((None, s'), True) else ((Some (temp AND 7, drop_bit 3 temp), s'), eof))"

definition pb_skip_field :: "u32 \<Rightarrow> ('s, unit) pb_reader" where
  "pb_skip_field wire_type =
     (if wire_type = PB_WT_VARINT then pb_skip_varint
      else if wire_type = PB_WT_64BIT then pb_skip 8
      else if wire_type = PB_WT_STRING then pb_skip_string
      else if wire_type = PB_WT_32BIT then pb_skip 4
      else is_error ''invalid wire_type'')"

text \<open>The loop of \<open>read_raw_value\<close> for a varint: \<open>acc\<close> is what is in the buffer so far.\<close>

function raw_varint :: "nat \<Rightarrow> bytes \<Rightarrow> ('s, bytes) pb_reader" where
  "raw_varint max_sz acc s =
     (if length acc + 1 > max_sz then (None, s)
      else
        (case pb_read 1 s of
           (None, s') \<Rightarrow> (None, s')
         | (Some bs, s') \<Rightarrow>
             if bs ! 0 AND 0x80 \<noteq> 0 then raw_varint max_sz (acc @ [bs ! 0]) s'
             else (Some (acc @ [bs ! 0]), s')))"
  by pat_completeness auto
termination
  by (relation "measure (\<lambda>(_, _, s). bytes_left s)")
    (auto simp: pb_read_def is_error_def split: if_splits prod.splits option.splits)

declare raw_varint.simps [simp del]

definition read_raw_value :: "u32 \<Rightarrow> nat \<Rightarrow> ('s, bytes) pb_reader" where
  "read_raw_value wire_type max_sz =
     (if wire_type = PB_WT_VARINT then raw_varint max_sz []
      else if wire_type = PB_WT_64BIT then pb_read 8
      else if wire_type = PB_WT_32BIT then pb_read 4
      else is_error ''invalid wire_type'')"

text \<open>The substream; the stream itself counts the bytes of the substream as read.\<close>

definition pb_make_string_substream :: "('s, 's pb_istream) pb_reader" where
  "pb_make_string_substream =
     read_then pb_decode_varint32 (\<lambda>sz s.
       if bytes_left s < unat sz then is_error ''parent stream too short'' s
       else (Some (s\<lparr>bytes_left := unat sz\<rparr>), s\<lparr>bytes_left := bytes_left s - unat sz\<rparr>))"

definition pb_close_string_substream :: "'s pb_istream \<Rightarrow> ('s, unit) pb_reader" where
  "pb_close_string_substream substream s =
     (case (if bytes_left substream \<noteq> 0 then pb_skip (bytes_left substream) substream
            else (Some (), substream)) of
        (None, sub) \<Rightarrow> (None, s)
      | (Some _, sub) \<Rightarrow> (Some (), s\<lparr>is_source := is_source sub, is_errmsg := is_errmsg sub\<rparr>))"

definition pb_decode_svarint :: "('s, u64) pb_reader" where
  "pb_decode_svarint =
     read_then pb_decode_varint (\<lambda>value s. (Some (if value AND 1 \<noteq> 0 then NOT (drop_bit 1 value) else drop_bit 1 value), s))"

definition pb_decode_fixed32 :: "('s, u32) pb_reader" where
  "pb_decode_fixed32 =
     read_then (pb_read 4) (\<lambda>bs s.
       (Some (push_bit 0 (ucast (bs ! 0)) OR push_bit 8 (ucast (bs ! 1)) OR push_bit 16 (ucast (bs ! 2)) OR
              push_bit 24 (ucast (bs ! 3))), s))"

definition pb_decode_fixed64 :: "('s, u64) pb_reader" where
  "pb_decode_fixed64 =
     read_then (pb_read 8) (\<lambda>bs s.
       (Some (push_bit 0 (ucast (bs ! 0)) OR push_bit 8 (ucast (bs ! 1)) OR push_bit 16 (ucast (bs ! 2)) OR
              push_bit 24 (ucast (bs ! 3)) OR push_bit 32 (ucast (bs ! 4)) OR push_bit 40 (ucast (bs ! 5)) OR
              push_bit 48 (ucast (bs ! 6)) OR push_bit 56 (ucast (bs ! 7))), s))"

section \<open>Readers\<close>

lemma read_then_Some: "m s = (Some x, s') \<Longrightarrow> read_then m f s = f x s'"
  by (simp add: read_then_def)

text \<open>
  What a source promises: as long as it holds enough bytes it delivers them, in order.
\<close>

locale feed =
  fixes valid :: "'s pb_source \<Rightarrow> bool" and content :: "'s pb_source \<Rightarrow> bytes"
  assumes supplies: "valid src \<Longrightarrow> n \<le> length (content src) \<Longrightarrow>
    \<exists>src'. source_read src n = (Some (take n (content src)), src') \<and> valid src' \<and> content src' = drop n (content src)"
begin

text \<open>The stream is limited to \<open>bs\<close>; behind them the source holds \<open>beyond\<close>.\<close>

definition feeds :: "'s pb_istream \<Rightarrow> bytes \<Rightarrow> bytes \<Rightarrow> bool" where
  "feeds s bs beyond \<longleftrightarrow> valid (is_source s) \<and> content (is_source s) = bs @ beyond \<and> bytes_left s = length bs"

definition reads :: "('s, 'a) pb_reader \<Rightarrow> 'a \<Rightarrow> bytes \<Rightarrow> bool" where
  "reads m x bs \<longleftrightarrow> (\<forall>s r beyond. feeds s (bs @ r) beyond \<longrightarrow> (\<exists>s'. m s = (Some x, s') \<and> feeds s' r beyond))"

lemma readsD:
  assumes "reads m x bs" and "feeds s (bs @ r) beyond"
  obtains s' where "m s = (Some x, s')" and "feeds s' r beyond"
  using assms that unfolding reads_def by blast

lemma reads_then: "reads m x as \<Longrightarrow> reads (f x) y bs \<Longrightarrow> reads (read_then m f) y (as @ bs)"
proof -
  assume m: "reads m x as" and f: "reads (f x) y bs"
  show ?thesis unfolding reads_def
  proof (intro allI impI)
    fix s r beyond
    assume "feeds s ((as @ bs) @ r) beyond"
    then have s: "feeds s (as @ bs @ r) beyond" by simp
    obtain s1 where s1: "m s = (Some x, s1)" "feeds s1 (bs @ r) beyond" using readsD [OF m s] .
    obtain s2 where "f x s1 = (Some y, s2)" "feeds s2 r beyond" using readsD [OF f s1(2)] .
    then show "\<exists>s'. read_then m f s = (Some y, s') \<and> feeds s' r beyond" using s1(1) by (simp add: read_then_def)
  qed
qed

lemma reads_return: "reads (\<lambda>s. (Some x, s)) x []"
  by (simp add: reads_def)

lemma reads_map: "reads m x bs \<Longrightarrow> reads (read_then m (\<lambda>v s. (Some (f v), s))) (f x) bs"
  using reads_then [of m x bs "\<lambda>v s. (Some (f v), s)" "f x" "[]"] reads_return [of "f x"] by simp

lemma read_reads: "reads (pb_read (length bs)) bs bs"
  unfolding reads_def
proof (intro allI impI)
  fix s r beyond
  assume s: "feeds s (bs @ r) beyond"
  then obtain src where "source_read (is_source s) (length bs) = (Some bs, src)" "valid src" "content src = r @ beyond"
    using supplies [of "is_source s" "length bs"] by (auto simp: feeds_def)
  then show "\<exists>s'. pb_read (length bs) s = (Some bs, s') \<and> feeds s' r beyond"
    using s by (cases "bs = []") (auto simp: pb_read_def feeds_def)
qed

lemma readbyte_reads: "reads pb_readbyte b [b]"
  unfolding reads_def
proof (intro allI impI)
  fix s r beyond
  assume s: "feeds s ([b] @ r) beyond"
  then obtain src where "source_read (is_source s) 1 = (Some [b], src)" "valid src" "content src = r @ beyond"
    using supplies [of "is_source s" 1] by (auto simp: feeds_def)
  then show "\<exists>s'. pb_readbyte s = (Some b, s') \<and> feeds s' r beyond"
    using s by (auto simp: pb_readbyte_def feeds_def)
qed

lemma reads_byte:
  assumes "\<And>s s'. pb_readbyte s = (Some b, s') \<Longrightarrow> m s = f s'" and "reads f x bs"
  shows "reads m x (b # bs)"
  unfolding reads_def
proof (intro allI impI)
  fix s r beyond
  assume "feeds s ((b # bs) @ r) beyond"
  then have s: "feeds s ([b] @ bs @ r) beyond" by simp
  obtain s1 where s1: "pb_readbyte s = (Some b, s1)" "feeds s1 (bs @ r) beyond" using readsD [OF readbyte_reads s] .
  obtain s2 where "f s1 = (Some x, s2)" "feeds s2 r beyond" using readsD [OF assms(2) s1(2)] .
  then show "\<exists>s'. m s = (Some x, s') \<and> feeds s' r beyond" using assms(1) [OF s1(1)] by simp
qed

lemma skip_blocks_reads: "\<exists>x. reads (skip_blocks (length bs)) x bs"
proof (induction "length bs" arbitrary: bs rule: less_induct)
  case less
  show ?case
  proof (cases "16 < length bs")
    case True
    then have "length (drop 16 bs) < length bs" by simp
    from less [OF this] obtain x where "reads (skip_blocks (length (drop 16 bs))) x (drop 16 bs)" by blast
    then have "reads (read_then (pb_read 16) (\<lambda>_. skip_blocks (length bs - 16))) x (take 16 bs @ drop 16 bs)"
      using read_reads [of "take 16 bs"] True by (intro reads_then [of _ "take 16 bs"]) simp_all
    then show ?thesis using True by (subst skip_blocks.simps) auto
  next
    case False
    then show ?thesis using read_reads [of bs] by (subst skip_blocks.simps) auto
  qed
qed

lemma skip_reads: "reads (pb_skip (length bs)) () bs"
proof -
  obtain x where x: "reads (skip_blocks (length bs)) x bs" using skip_blocks_reads by blast
  show ?thesis unfolding reads_def
  proof (intro allI impI)
    fix s r beyond
    assume s: "feeds s (bs @ r) beyond"
    obtain s1 where "pb_read (length bs) s = (Some bs, s1)" "feeds s1 r beyond"
      using readsD [OF read_reads s] .
    moreover obtain s2 where "skip_blocks (length bs) s = (Some x, s2)" "feeds s2 r beyond"
      using readsD [OF x s] .
    ultimately show "\<exists>s'. pb_skip (length bs) s = (Some (), s') \<and> feeds s' r beyond"
      using s by (cases "is_source s") (auto simp: pb_skip_def read_then_Some)
  qed
qed

end

interpretation memory_feed: feed "\<lambda>src. \<exists>bs. src = Buffer bs" "\<lambda>src. case src of Buffer bs \<Rightarrow> bs | Custom f st \<Rightarrow> []"
  by unfold_locales (auto simp: buf_read_def)

lemma from_buffer_feeds:
  "n \<le> length bs \<Longrightarrow> memory_feed.feeds (pb_istream_from_buffer bs n) (take n bs) (drop n bs)"
  by (simp add: memory_feed.feeds_def pb_istream_from_buffer_def)

section \<open>Reading back what was written\<close>

lemma unat_low_bits: "unat (b AND 0x7F) = unat b mod 128" for b :: u8
  using unat_and_7F [of b] by simp

lemma varint_unfold:
  "n < 128 \<Longrightarrow> varint n = [word_of_nat n]"
  "128 \<le> n \<Longrightarrow> varint n = word_of_nat (128 + n mod 128) # varint (n div 128)"
  by (subst varint.simps, simp)+

lemma and_80_iff: "b AND 0x80 \<noteq> 0 \<longleftrightarrow> 128 \<le> unat b" for b :: u8
  by (rule msb_u8_iff)

lemma group_step:
  assumes "a < 2 ^ p" and "a' = (n mod 128) * 2 ^ p + (a :: nat)"
  shows "a' < 2 ^ (p + 7)" and "n div 128 * 2 ^ (p + 7) + a' = n * 2 ^ p + a"
proof -
  have "n mod 128 * 2 ^ p + a < (n mod 128 + 1) * 2 ^ p" using assms(1) by simp
  also have "\<dots> \<le> 128 * 2 ^ p" by (rule mult_le_mono1) (simp add: Suc_leI)
  finally show "a' < 2 ^ (p + 7)" using assms(2) by (simp add: power_add)
  have "n div 128 * 2 ^ (p + 7) + n mod 128 * 2 ^ p = (n div 128 * 128 + n mod 128) * 2 ^ p"
    by (simp only: power_add add_mult_distrib) simp
  also have "\<dots> = n * 2 ^ p" by (simp only: div_mult_mod_eq)
  finally show "n div 128 * 2 ^ (p + 7) + a' = n * 2 ^ p + a" using assms(2) by simp
qed

lemma insert_group:
  fixes acc :: "'a::len word" and b :: u8
  assumes "unat acc < 2 ^ p" and "(unat b mod 128) * 2 ^ p + unat acc < 2 ^ LENGTH('a)" and "7 \<le> LENGTH('a)"
  shows "unat (acc OR push_bit p (ucast (b AND 0x7F))) = (unat b mod 128) * 2 ^ p + unat acc"
proof -
  have "(128::nat) = 2 ^ 7" by simp
  also have "\<dots> \<le> 2 ^ LENGTH('a)" using assms(3) by (rule power_increasing) simp
  finally have "unat b mod 128 < 2 ^ LENGTH('a)" by (meson less_le_trans mod_less_divisor zero_less_numeral)
  then have "unat (ucast (b AND 0x7F) :: 'a word) = unat b mod 128" by (simp add: unat_ucast unat_low_bits)
  then show ?thesis
    using unat_shift_or [of acc p "ucast (b AND 0x7F)"] assms by (simp add: or.commute)
qed

context feed
begin

lemma varint64_loop_reads:
  assumes "unat acc < 2 ^ p" and "n * 2 ^ p + unat acc < 2 ^ 64" and "p < 64"
  shows "reads (varint64_loop p acc) (word_of_nat (n * 2 ^ p + unat acc)) (varint n)"
  using assms
proof (induction n arbitrary: p acc rule: varint.induct)
  case (1 n)
  define b :: u8 where "b = (if n < 128 then word_of_nat n else word_of_nat (128 + n mod 128))"
  have b: "unat b mod 128 = n mod 128" "128 \<le> unat b \<longleftrightarrow> \<not> n < 128"
    by (auto simp: b_def unat_continued unat_word_of_nat_small simp del: of_nat_add)
  define acc' where "acc' = acc OR push_bit p (ucast (b AND 0x7F))"
  have "(n mod 128) * 2 ^ p \<le> n * 2 ^ p" by (rule mult_le_mono1) simp
  then have "(n mod 128) * 2 ^ p + unat acc < 2 ^ 64" using 1(3) by linarith
  then have "(unat b mod 128) * 2 ^ p + unat acc < 2 ^ LENGTH(64)" by (simp add: b(1))
  then have acc': "unat acc' = (n mod 128) * 2 ^ p + unat acc"
    unfolding acc'_def using insert_group [OF 1(2), where b = b] b(1) by simp
  have step: "varint64_loop p acc s = (if n < 128 then (Some acc', s') else varint64_loop (p + 7) acc' s')"
    if "pb_readbyte s = (Some b, s')" for s s'
    using that 1(4) b(2) by (subst varint64_loop.simps) (simp add: acc'_def [symmetric] and_80_iff Let_def)
  show ?case
  proof (cases "n < 128")
    case True
    then have "acc' = word_of_nat (n * 2 ^ p + unat acc)"
      using acc' 1(3) by (simp only: word_unat_eq_iff) (subst unat_word_of_nat_small, simp_all)
    moreover have "varint n = [b]" using True by (simp add: varint_unfold b_def)
    moreover have "reads (varint64_loop p acc) acc' [b]"
      by (rule reads_byte [OF _ reads_return]) (simp add: step True)
    ultimately show ?thesis by simp
  next
    case False
    have "(2::nat) ^ (p + 7) \<le> n * 2 ^ p" using False by (simp add: power_add)
    then have p: "p + 7 < 64"
      using 1(3) power_less_imp_less_exp [of "2::nat" "p + 7" 64] by linarith
    note s1 = group_step(1) [OF 1(2) acc'] and s2 = group_step(2) [OF 1(2) acc']
    have "reads (varint64_loop (p + 7) acc') (word_of_nat (n * 2 ^ p + unat acc)) (varint (n div 128))"
      using 1(1) [OF False s1, unfolded s2] 1(3) p by simp
    then have "reads (varint64_loop p acc) (word_of_nat (n * 2 ^ p + unat acc)) (b # varint (n div 128))"
      by (rule reads_byte [rotated]) (simp only: step False if_False)
    moreover have "varint n = b # varint (n div 128)" using False by (simp add: varint_unfold b_def)
    ultimately show ?thesis by simp
  qed
qed

lemma decode_varint_reads: "n < 2 ^ 64 \<Longrightarrow> reads pb_decode_varint (word_of_nat n) (varint n)"
  using varint64_loop_reads [of 0 0 n] by (simp add: pb_decode_varint_def)

end

lemma word_0x70_eq_0: "b AND 0x70 = 0" if "unat b < 16" for b :: u8
proof -
  have "take_bit 4 b = b" using that
    by (simp add: take_bit_eq_mask word_unat_eq_iff unat_and_mask)
  then have "\<not> bit b k" if "4 \<le> k" for k using that by (metis bit_take_bit_iff leD)
  moreover have "\<not> bit (0x70 :: u8) k" if "k < 4" for k
    using that by (cases k; simp) (auto simp: bit_numeral_rec less_Suc_eq eval_nat_numeral)
  ultimately have "\<not> bit (b AND 0x70) k" for k by (metis bit_and_iff not_le)
  then show ?thesis by (intro bit_word_eqI) simp
qed

lemma sint_neg_iff: "sint v < 0 \<longleftrightarrow> bit v 63" for v :: u64
  using bit_last_iff [of v] by simp

lemma unzigzag:
  fixes v :: u64
  shows "sint v < 0 \<Longrightarrow> NOT (push_bit 1 v) AND 1 = 1"
    and "push_bit 1 v AND 1 = 0"
    and "sint v < 0 \<Longrightarrow> NOT (drop_bit 1 (NOT (push_bit 1 v))) = v"
    and "\<not> sint v < 0 \<Longrightarrow> drop_bit 1 (push_bit 1 v) = v"
proof -
  show "push_bit 1 v AND 1 = 0" by (intro bit_word_eqI, unfold bit_and_iff bit_push_bit_iff bit_not_iff bit_1_iff) auto
  show "NOT (push_bit 1 v) AND 1 = 1" by (intro bit_word_eqI, unfold bit_and_iff bit_push_bit_iff bit_not_iff bit_1_iff) auto
  have top: "k = 63" if "k < 64" "\<not> Suc k < 64" for k using that by linarith
  show "NOT (drop_bit 1 (NOT (push_bit 1 v))) = v" if "sint v < 0"
    using that by (intro bit_word_eqI, unfold bit_drop_bit_eq comp_def bit_not_iff bit_push_bit_iff sint_neg_iff) (auto dest: top)
  show "drop_bit 1 (push_bit 1 v) = v" if "\<not> sint v < 0"
    using that by (intro bit_word_eqI, unfold bit_drop_bit_eq comp_def bit_not_iff bit_push_bit_iff sint_neg_iff) (auto dest: top)
qed

lemma join_bytes_4:
  "push_bit 0 (ucast b0) OR push_bit 8 (ucast b1) OR push_bit 16 (ucast b2) OR push_bit 24 (ucast b3) =
    (le_word [b0, b1, b2, b3] :: 'a::len word)"
  by (simp add: push_bit_or or.commute or.left_commute)

lemma join_bytes_8:
  "push_bit 0 (ucast b0) OR push_bit 8 (ucast b1) OR push_bit 16 (ucast b2) OR push_bit 24 (ucast b3) OR
    push_bit 32 (ucast b4) OR push_bit 40 (ucast b5) OR push_bit 48 (ucast b6) OR push_bit 56 (ucast b7) =
    (le_word [b0, b1, b2, b3, b4, b5, b6, b7] :: 'a::len word)"
  by (simp add: push_bit_or or.commute or.left_commute)

lemma list_of_nth_4: "length bs = 4 \<Longrightarrow> [bs ! 0, bs ! 1, bs ! 2, bs ! 3] = bs"
  by (auto simp: eval_nat_numeral length_Suc_conv)

lemma list_of_nth_8: "length bs = 8 \<Longrightarrow> [bs ! 0, bs ! 1, bs ! 2, bs ! 3, bs ! 4, bs ! 5, bs ! 6, bs ! 7] = bs"
  by (auto simp: eval_nat_numeral length_Suc_conv)

context feed
begin

lemma varint32_loop_reads:
  assumes "unat acc < 2 ^ p" and "n * 2 ^ p + unat acc < 2 ^ 32" and "p \<le> 28 \<and> 7 dvd p"
  shows "reads (varint32_loop p acc) (word_of_nat (n * 2 ^ p + unat acc)) (varint n)"
  using assms
proof (induction n arbitrary: p acc rule: varint.induct)
  case (1 n)
  define b :: u8 where "b = (if n < 128 then word_of_nat n else word_of_nat (128 + n mod 128))"
  have b: "unat b mod 128 = n mod 128" "128 \<le> unat b \<longleftrightarrow> \<not> n < 128"
    by (auto simp: b_def unat_continued unat_word_of_nat_small simp del: of_nat_add)
  define acc' where "acc' = acc OR push_bit p (ucast (b AND 0x7F))"
  have "(n mod 128) * 2 ^ p \<le> n * 2 ^ p" by (rule mult_le_mono1) simp
  then have "(n mod 128) * 2 ^ p + unat acc < 2 ^ 32" using 1(3) by linarith
  then have "(unat b mod 128) * 2 ^ p + unat acc < 2 ^ LENGTH(32)" by (simp add: b(1))
  then have acc': "unat acc' = (n mod 128) * 2 ^ p + unat acc"
    unfolding acc'_def using insert_group [OF 1(2), where b = b] b(1) by simp
  have fits: "b AND 0x70 = 0" if "p = 28" "n < 128"
  proof -
    have "n * 2 ^ 28 < 2 ^ 32" using that 1(3) by (simp add: add.commute)
    then have "n < 16" by simp
    then show ?thesis using b that by (intro word_0x70_eq_0) (metis mod_less not_less)
  qed
  have step: "varint32_loop p acc s = (if n < 128 then (Some acc', s') else varint32_loop (p + 7) acc' s')"
    if "pb_readbyte s = (Some b, s')" for s s'
    using that 1(4) b(2) by (subst varint32_loop.simps) (auto simp: acc'_def [symmetric] and_80_iff Let_def dest: fits)
  show ?case
  proof (cases "n < 128")
    case True
    then have "acc' = word_of_nat (n * 2 ^ p + unat acc)"
      using acc' 1(3) by (simp only: word_unat_eq_iff) (subst unat_word_of_nat_small, simp_all)
    moreover have "varint n = [b]" using True by (simp add: varint_unfold b_def)
    moreover have "reads (varint32_loop p acc) acc' [b]"
      by (rule reads_byte [OF _ reads_return]) (simp add: step True)
    ultimately show ?thesis by simp
  next
    case False
    have "(2::nat) ^ (p + 7) \<le> n * 2 ^ p" using False by (simp add: power_add)
    then have p: "p + 7 < 32"
      using 1(3) power_less_imp_less_exp [of "2::nat" "p + 7" 32] by linarith
    then have p28: "p + 7 \<le> 28 \<and> 7 dvd (p + 7)" using 1(4) by presburger
    have "reads (varint32_loop (p + 7) acc') (word_of_nat (n * 2 ^ p + unat acc)) (varint (n div 128))"
      using 1(1) [OF False group_step(1) [OF 1(2) acc'], unfolded group_step(2) [OF 1(2) acc']] 1(3) p28 by simp
    then have "reads (varint32_loop p acc) (word_of_nat (n * 2 ^ p + unat acc)) (b # varint (n div 128))"
      by (rule reads_byte [rotated]) (simp only: step False if_False)
    moreover have "varint n = b # varint (n div 128)" using False by (simp add: varint_unfold b_def)
    ultimately show ?thesis by simp
  qed
qed

lemma decode_varint32_reads:
  assumes "n < 2 ^ 32"
  shows "reads pb_decode_varint32 (word_of_nat n) (varint n)"
proof (cases "n < 128")
  case True
  define b :: u8 where "b = word_of_nat n"
  have b: "unat b = n" unfolding b_def by (rule unat_word_of_nat_small) (use True in simp)
  then have "b AND 0x80 = 0" using and_80_iff [of b] True by auto
  then have "pb_decode_varint32 s = (Some (ucast b), s')" if "pb_readbyte s = (Some b, s')" for s s'
    using that by (simp add: pb_decode_varint32_def pb_decode_varint32_eof_def)
  moreover have "ucast b = (word_of_nat n :: u32)"
    unfolding b [symmetric] by simp
  ultimately have "reads pb_decode_varint32 (word_of_nat n) [b]"
    by (intro reads_byte [OF _ reads_return]) simp
  then show ?thesis using True by (simp add: varint_unfold b_def)
next
  case False
  define b :: u8 where "b = word_of_nat (128 + n mod 128)"
  have b: "unat b = 128 + n mod 128" unfolding b_def by (rule unat_continued)
  define acc :: u32 where "acc = ucast (b AND 0x7F)"
  have acc: "unat acc = n mod 128" using b by (simp add: acc_def unat_ucast unat_low_bits)
  have step: "pb_decode_varint32 s = varint32_loop 7 acc s'" if "pb_readbyte s = (Some b, s')" for s s'
    using that and_80_iff [of b] b
    by (simp add: pb_decode_varint32_def pb_decode_varint32_eof_def acc_def)
  have "n div 128 * 2 ^ 7 + unat acc = n" using acc by simp
  then have "reads (varint32_loop 7 acc) (word_of_nat n) (varint (n div 128))"
    using varint32_loop_reads [of acc 7 "n div 128"] acc assms by simp
  then have "reads pb_decode_varint32 (word_of_nat n) (b # varint (n div 128))"
    by (rule reads_byte [rotated]) (simp only: step)
  then show ?thesis using False by (simp add: varint_unfold b_def)
qed

text \<open>Skipping: a varint of any length, by its continuation bits.\<close>

lemma skip_varint_reads: "reads pb_skip_varint () (varint n)"
proof (induction n rule: varint.induct)
  case (1 n)
  define b :: u8 where "b = (if n < 128 then word_of_nat n else word_of_nat (128 + n mod 128))"
  have b: "128 \<le> unat b \<longleftrightarrow> \<not> n < 128"
    by (auto simp: b_def unat_continued unat_word_of_nat_small simp del: of_nat_add)
  have step: "pb_skip_varint s = (if n < 128 then (Some (), s') else pb_skip_varint s')"
    if "pb_read 1 s = (Some [b], s')" for s s'
    using that b by (subst pb_skip_varint.simps) (simp add: and_80_iff)
  have *: "reads (read_then (pb_read 1) (\<lambda>_. if n < 128 then \<lambda>s. (Some (), s) else pb_skip_varint)) ()
      ([b] @ (if n < 128 then [] else varint (n div 128)))"
    using read_reads [of "[b]"] 1 reads_return by (intro reads_then [of _ "[b]"]) auto
  have "reads pb_skip_varint () ([b] @ (if n < 128 then [] else varint (n div 128)))"
    unfolding reads_def
  proof (intro allI impI)
    fix s r beyond
    assume s: "feeds s (([b] @ (if n < 128 then [] else varint (n div 128))) @ r) beyond"
    then have "feeds s ([b] @ (if n < 128 then [] else varint (n div 128)) @ r) beyond" by simp
    then obtain s1 where "pb_read (length [b]) s = (Some [b], s1)" by (rule readsD [OF read_reads])
    then have "pb_skip_varint s =
        read_then (pb_read 1) (\<lambda>_. if n < 128 then \<lambda>s. (Some (), s) else pb_skip_varint) s"
      using step [of s s1] by (simp add: read_then_def)
    then show "\<exists>s'. pb_skip_varint s = (Some (), s') \<and> feeds s' r beyond"
      using readsD [OF * s] by metis
  qed
  then show ?case by (simp add: b_def varint_unfold split: if_splits)
qed

lemma skip_string_reads:
  assumes "length bs < 2 ^ 32"
  shows "reads pb_skip_string () (varint (length bs) @ bs)"
proof -
  have "unat (word_of_nat (length bs) :: u32) = length bs" by (rule unat_word_of_nat_small) (use assms in simp)
  then show ?thesis unfolding pb_skip_string_def
    using reads_then [OF decode_varint32_reads [OF assms], of "\<lambda>n. pb_skip (unat n)" "()" bs] skip_reads [of bs]
    by (simp only: HOL.simp_thms)
qed

text \<open>The body of a field of each wire type, and that skipping it consumes exactly the body.\<close>

lemma skip_field_reads:
  "reads (pb_skip_field PB_WT_VARINT) () (varint n)"
  "length bs = 8 \<Longrightarrow> reads (pb_skip_field PB_WT_64BIT) () bs"
  "length bs = 4 \<Longrightarrow> reads (pb_skip_field PB_WT_32BIT) () bs"
  "length bs < 2 ^ 32 \<Longrightarrow> reads (pb_skip_field PB_WT_STRING) () (varint (length bs) @ bs)"
  using skip_varint_reads skip_string_reads [of bs] skip_reads [of bs]
  by (simp_all add: pb_skip_field_def PB_WT_VARINT_def PB_WT_64BIT_def PB_WT_32BIT_def PB_WT_STRING_def)

text \<open>Zigzag coding interleaves the numbers of both signs.\<close>

lemma decode_svarint_reads:
  "reads pb_decode_svarint v (varint (unat (if sint v < 0 then NOT (push_bit 1 v) else push_bit 1 v)))"
proof -
  let ?z = "if sint v < 0 then NOT (push_bit 1 v) else push_bit 1 v"
  have "reads pb_decode_varint ?z (varint (unat ?z))"
    using decode_varint_reads [of "unat ?z"] unsigned_less [of ?z, where ?'a = nat] by simp
  from reads_map [OF this, of "\<lambda>value. if value AND 1 \<noteq> 0 then NOT (drop_bit 1 value) else drop_bit 1 value"]
  show ?thesis unfolding pb_decode_svarint_def using unzigzag [of v] by (simp split: if_splits)
qed

lemma decode_fixed32_reads: "reads pb_decode_fixed32 v (le_bytes 4 v)"
proof -
  have "reads (pb_read 4) (le_bytes 4 v) (le_bytes 4 v)" using read_reads [of "le_bytes 4 v"] by simp
  moreover have "le_word (le_bytes 4 v) = v"
    by (rule le_word_le_bytes) (use unsigned_less [of v, where ?'a = nat] in simp_all)
  ultimately show ?thesis unfolding pb_decode_fixed32_def join_bytes_4
    using reads_map [of "pb_read 4" "le_bytes 4 v" "le_bytes 4 v"
        "\<lambda>bs. le_word [bs ! 0, bs ! 1, bs ! 2, bs ! 3] :: u32"] 
    by (simp only: list_of_nth_4 [OF length_le_bytes])
qed

lemma decode_fixed64_reads: "reads pb_decode_fixed64 v (le_bytes 8 v)"
proof -
  have "reads (pb_read 8) (le_bytes 8 v) (le_bytes 8 v)" using read_reads [of "le_bytes 8 v"] by simp
  moreover have "le_word (le_bytes 8 v) = v"
    by (rule le_word_le_bytes) (use unsigned_less [of v, where ?'a = nat] in simp_all)
  ultimately show ?thesis unfolding pb_decode_fixed64_def join_bytes_8
    using reads_map [of "pb_read 8" "le_bytes 8 v" "le_bytes 8 v"
        "\<lambda>bs. le_word [bs ! 0, bs ! 1, bs ! 2, bs ! 3, bs ! 4, bs ! 5, bs ! 6, bs ! 7] :: u64"]
    by (simp only: list_of_nth_8 [OF length_le_bytes])
qed

text \<open>A string becomes a substream over its bytes; closing it resumes behind them.\<close>

lemma make_substream_feeds:
  assumes s: "feeds s ((varint (length bs) @ bs) @ r) beyond" and len: "length bs < 2 ^ 32"
  obtains sub s' where "pb_make_string_substream s = (Some sub, s')" and "feeds sub bs (r @ beyond)"
    and "bytes_left s' = length r"
proof -
  have "feeds s (varint (length bs) @ bs @ r) beyond" using s by simp
  then obtain s1 where s1: "pb_decode_varint32 s = (Some (word_of_nat (length bs)), s1)" "feeds s1 (bs @ r) beyond"
    by (rule readsD [OF decode_varint32_reads [OF len]])
  have "unat (word_of_nat (length bs) :: u32) = length bs" by (rule unat_word_of_nat_small) (use len in simp)
  then show ?thesis using s1
    by (intro that [of "s1\<lparr>bytes_left := length bs\<rparr>" "s1\<lparr>bytes_left := length r\<rparr>"])
      (auto simp: pb_make_string_substream_def read_then_def feeds_def)
qed

lemma close_substream_feeds:
  assumes "feeds sub bs (r @ beyond)" and "bytes_left s' = length r"
  shows "\<exists>s''. pb_close_string_substream sub s' = (Some (), s'') \<and> feeds s'' r beyond"
proof -
  have "feeds sub (bs @ []) (r @ beyond)" using assms(1) by simp
  then obtain sub2 where "pb_skip (length bs) sub = (Some (), sub2)" "feeds sub2 [] (r @ beyond)"
    by (rule readsD [OF skip_reads])
  then show ?thesis using assms
    by (cases "bytes_left sub = 0") (auto simp: pb_close_string_substream_def feeds_def)
qed

end

section \<open>What the number decoders accept\<close>

text \<open>The value of base 128 groups, least significant first, of any length.\<close>

primrec group_value :: "bytes \<Rightarrow> nat" where
  "group_value [] = 0"
| "group_value (b # bs) = unat b mod 128 + 128 * group_value bs"

text \<open>The bytes of a varint at the head of \<open>bs\<close>, but for the last.\<close>

definition continued :: "bytes \<Rightarrow> bytes" where
  "continued bs = takeWhile (\<lambda>b. 128 \<le> unat b) bs"

lemma insert_group_word:
  fixes acc :: u64 and b :: u8
  assumes "unat acc < 2 ^ p" and "p < 64"
  shows "acc OR push_bit p (ucast (b AND 0x7F)) = acc + word_of_nat ((unat b mod 128) * 2 ^ p)"
proof -
  have "ucast (b AND 0x7F) = (word_of_nat (unat b mod 128) :: u64)"
  proof (rule iffD2 [OF word_unat_eq_iff])
    have "unat (word_of_nat (unat b mod 128) :: u64) = unat b mod 128"
      by (rule unat_word_of_nat_small) (rule less_le_trans [of _ 128], simp_all)
    then show "unat (ucast (b AND 0x7F) :: u64) = unat (word_of_nat (unat b mod 128) :: u64)"
      by (simp add: unat_low_bits)
  qed
  moreover have "push_bit p (word_of_nat m :: u64) = word_of_nat (m * 2 ^ p)" for m
    by (simp add: push_bit_eq_mult)
  ultimately show ?thesis
    using push_bit_or_eq_add [of acc p "ucast (b AND 0x7F)"] assms by (simp add: or.commute add.commute)
qed

lemma varint64_loop_any:
  fixes s :: "'s pb_istream"
  assumes "is_source s = Buffer (bs @ beyond)" and "bytes_left s = length bs"
    and "unat acc < 2 ^ p" and "p < 64" and "7 dvd p" and "is_errmsg s = None"
  defines "k \<equiv> length (continued bs)"
  shows "(k < length bs \<longrightarrow> 7 * k + p < 64 \<longrightarrow>
           varint64_loop p acc s = (Some (acc + word_of_nat (2 ^ p * group_value (take (Suc k) bs))),
             s\<lparr>is_source := Buffer (drop (Suc k) bs @ beyond), bytes_left := length bs - Suc k\<rparr>)) \<and>
         (\<not> (k < length bs \<and> 7 * k + p < 64) \<longrightarrow>
           (\<exists>s'. varint64_loop p acc s = (None, s') \<and>
             is_errmsg s' = Some (if 64 \<le> 7 * k + p then ''varint overflow'' else ''end-of-stream'')))"
  using assms(1-6) unfolding k_def
proof (induction bs arbitrary: p acc s)
  case Nil
  then show ?case
    by (subst (1 2) varint64_loop.simps) (simp add: pb_readbyte_def is_error_def PB_SET_ERROR_def continued_def)
next
  case (Cons b bs)
  let ?s = "s\<lparr>is_source := Buffer (bs @ beyond), bytes_left := length bs\<rparr>"
  define acc' where "acc' = acc OR push_bit p (ucast (b AND 0x7F))"
  have acc': "acc' = acc + word_of_nat ((unat b mod 128) * 2 ^ p)"
    unfolding acc'_def using Cons.prems by (intro insert_group_word) auto
  have rb: "pb_readbyte s = (Some b, ?s)"
    using Cons.prems by (simp add: pb_readbyte_def buf_read_def)
  show ?case
  proof (cases "128 \<le> unat b")
    case False
    then have "continued (b # bs) = []" by (simp add: continued_def)
    moreover have "varint64_loop p acc s = (Some acc', ?s)"
      using Cons.prems False rb by (subst varint64_loop.simps) (simp add: acc'_def [symmetric] and_80_iff)
    ultimately show ?thesis using Cons.prems by (simp add: acc' mult.commute)
  next
    case True
    then have c: "continued (b # bs) = b # continued bs" by (simp add: continued_def)
    have loop: "varint64_loop p acc s = varint64_loop (p + 7) acc' ?s"
      using Cons.prems True rb by (subst varint64_loop.simps) (simp add: acc'_def [symmetric] and_80_iff Let_def)
    show ?thesis
    proof (cases "p + 7 < 64")
      case False
      then have "varint64_loop p acc s = is_error ''varint overflow'' ?s"
        using loop by (subst (asm) (2) varint64_loop.simps) simp
      then show ?thesis using False Cons.prems by (simp add: c is_error_def PB_SET_ERROR_def)
    next
      case p7: True
      have "(unat b mod 128) * 2 ^ p + unat acc < 2 ^ LENGTH(64)"
      proof -
        have "(unat b mod 128) * 2 ^ p + unat acc < 2 ^ (p + 7)"
          by (rule group_step(1) [OF Cons.prems(3) refl])
        also have "\<dots> \<le> 2 ^ 64" using p7 by (intro power_increasing) simp_all
        finally show ?thesis by simp
      qed
      then have "unat acc' = (unat b mod 128) * 2 ^ p + unat acc"
        unfolding acc'_def using insert_group [OF Cons.prems(3), where b = b] by simp
      then have lt: "unat acc' < 2 ^ (p + 7)" by (rule group_step(1) [OF Cons.prems(3)])
      have dv: "7 dvd (p + 7)" using Cons.prems by simp
      have sum: "acc' + word_of_nat (2 ^ (p + 7) * g) = acc + word_of_nat (2 ^ p * (unat b mod 128 + 128 * g))" for g
        unfolding acc' by (simp add: power_add algebra_simps)
      have eq: "7 * length (b # continued bs) + p = 7 * length (continued bs) + (p + 7)" by simp
      show ?thesis
        using Cons.IH [of ?s acc' "p + 7"] lt dv p7 Cons.prems sum
        unfolding c loop eq by (simp add: algebra_simps)
    qed
  qed
qed


section \<open>Properties\<close>

text \<open>
  C17: What \<open>pb_decode_varint\<close> makes of any input: more than nine continued bytes are an
  overflow, a varint that does not end is the end of the stream, and otherwise the value is
  that of the groups modulo \<open>2 ^ 64\<close>: the bits of a tenth byte that do not fit are dropped
  without an error.
\<close>

theorem decode_varint_correct:
  "(case pb_decode_varint (pb_istream_from_buffer bs (length bs) :: 's pb_istream) of
      (v, s) \<Rightarrow> (v, is_errmsg s)) =
    (if 10 \<le> length (continued bs) then (None, Some ''varint overflow'')
     else if continued bs = bs then (None, Some ''end-of-stream'')
     else (Some (word_of_nat (group_value (take (Suc (length (continued bs))) bs))), None))"
proof -
  let ?s = "pb_istream_from_buffer bs (length bs) :: 's pb_istream" and ?k = "length (continued bs)"
  have pre: "continued bs = take ?k bs" unfolding continued_def by (rule takeWhile_eq_take)
  have len: "?k \<le> length bs" unfolding continued_def by (rule length_takeWhile_le)
  have all: "continued bs = bs \<longleftrightarrow> ?k = length bs"
    by (rule iffI, simp, subst pre, simp)
  have "(?k < length bs \<longrightarrow> 7 * ?k < 64 \<longrightarrow>
           pb_decode_varint ?s = (Some (word_of_nat (group_value (take (Suc ?k) bs))),
             ?s\<lparr>is_source := Buffer (drop (Suc ?k) bs), bytes_left := length bs - Suc ?k\<rparr>)) \<and>
         (\<not> (?k < length bs \<and> 7 * ?k < 64) \<longrightarrow>
           (\<exists>s'. pb_decode_varint ?s = (None, s') \<and>
             is_errmsg s' = Some (if 64 \<le> 7 * ?k then ''varint overflow'' else ''end-of-stream'')))"
    using varint64_loop_any [of ?s bs "[]" 0 0] by (simp add: pb_istream_from_buffer_def pb_decode_varint_def)
  moreover have "64 \<le> 7 * ?k \<longleftrightarrow> 10 \<le> ?k" by linarith
  moreover have "7 * ?k < 64 \<longleftrightarrow> \<not> 10 \<le> ?k" by linarith
  ultimately show ?thesis using len all by (auto simp: pb_istream_from_buffer_def)
qed


section \<open>Fields\<close>

text \<open>A field value by the coding it is written with.\<close>

datatype pb_item = Varint u64 | Svarint u64 | Fixed32 u32 | Fixed64 u64 | String bytes

fun put_item :: "pb_item \<Rightarrow> 's pb_writer" where
  "put_item (Varint v) = pb_encode_varint v"
| "put_item (Svarint v) = pb_encode_svarint v"
| "put_item (Fixed32 v) = pb_encode_fixed32 v"
| "put_item (Fixed64 v) = pb_encode_fixed64 v"
| "put_item (String bs) = pb_encode_string bs (length bs)"

fun item_wiretype :: "pb_item \<Rightarrow> u32" where
  "item_wiretype (Fixed32 v) = PB_WT_32BIT"
| "item_wiretype (Fixed64 v) = PB_WT_64BIT"
| "item_wiretype (String bs) = PB_WT_STRING"
| "item_wiretype (Varint v) = PB_WT_VARINT"
| "item_wiretype (Svarint v) = PB_WT_VARINT"

text \<open>Reading a value of the same coding.\<close>

fun get_like :: "pb_item \<Rightarrow> ('s, pb_item) pb_reader" where
  "get_like (Varint _) = read_then pb_decode_varint (\<lambda>v s. (Some (Varint v), s))"
| "get_like (Svarint _) = read_then pb_decode_svarint (\<lambda>v s. (Some (Svarint v), s))"
| "get_like (Fixed32 _) = read_then pb_decode_fixed32 (\<lambda>v s. (Some (Fixed32 v), s))"
| "get_like (Fixed64 _) = read_then pb_decode_fixed64 (\<lambda>v s. (Some (Fixed64 v), s))"
| "get_like (String _) = read_then pb_decode_varint32 (\<lambda>n. read_then (pb_read (unat n)) (\<lambda>bs s. (Some (String bs), s)))"

fun item_bytes :: "pb_item \<Rightarrow> bytes" where
  "item_bytes (Varint v) = varint (unat v)"
| "item_bytes (Svarint v) = varint (unat (if sint v < 0 then NOT (push_bit 1 v) else push_bit 1 v))"
| "item_bytes (Fixed32 v) = le_bytes 4 v"
| "item_bytes (Fixed64 v) = le_bytes 8 v"
| "item_bytes (String bs) = varint (length bs) @ bs"

primrec item_ok :: "pb_item \<Rightarrow> bool" where
  "item_ok (Varint v) = True"
| "item_ok (Svarint v) = True"
| "item_ok (Fixed32 v) = True"
| "item_ok (Fixed64 v) = True"
| "item_ok (String bs) = (length bs < 2 ^ 32)"

definition field_ok :: "u32 \<times> pb_item \<Rightarrow> bool" where
  "field_ok f \<longleftrightarrow> 0 < unat (fst f) \<and> unat (fst f) < 2 ^ 29 \<and> item_ok (snd f)"

definition field_key :: "u32 \<times> pb_item \<Rightarrow> nat" where
  "field_key f = 8 * unat (fst f) + unat (item_wiretype (snd f))"

definition field_bytes :: "u32 \<times> pb_item \<Rightarrow> bytes" where
  "field_bytes f = varint (field_key f) @ item_bytes (snd f)"

text \<open>Writing fields, reading back fields one knows, and skipping fields one does not.\<close>

primrec put_fields :: "(u32 \<times> pb_item) list \<Rightarrow> 's pb_writer" where
  "put_fields [] s = (True, s)"
| "put_fields (f # fs) s =
     (case pb_encode_tag (item_wiretype (snd f)) (fst f) s of
        (False, s') \<Rightarrow> (False, s')
      | (True, s') \<Rightarrow>
          (case put_item (snd f) s' of (False, s2) \<Rightarrow> (False, s2) | (True, s2) \<Rightarrow> put_fields fs s2))"

primrec get_fields :: "(u32 \<times> pb_item) list \<Rightarrow> ('s, (u32 \<times> u32 \<times> pb_item) list) pb_reader" where
  "get_fields [] = (\<lambda>s. (Some [], s))"
| "get_fields (f # fs) =
     read_then (\<lambda>s. fst (pb_decode_tag s)) (\<lambda>(wt, tag).
       read_then (get_like (snd f)) (\<lambda>i.
         read_then (get_fields fs) (\<lambda>rest s. (Some ((wt, tag, i) # rest), s))))"

text \<open>The loop of a decoder that knows no field; \<open>n\<close> bounds the number of fields.\<close>

primrec skip_fields :: "nat \<Rightarrow> 's pb_istream \<Rightarrow> bool \<times> 's pb_istream" where
  "skip_fields 0 s = (False, s)"
| "skip_fields (Suc n) s =
     (case pb_decode_tag s of
        ((None, s'), eof) \<Rightarrow> (eof, s')
      | ((Some (wt, tag), s'), eof) \<Rightarrow>
          (case pb_skip_field wt s' of (None, s2) \<Rightarrow> (False, s2) | (Some _, s2) \<Rightarrow> skip_fields n s2))"

lemma wiretype_less: "unat (item_wiretype i) < 8"
  by (cases i) (simp_all add: PB_WT_32BIT_def PB_WT_64BIT_def PB_WT_STRING_def PB_WT_VARINT_def)

lemma field_key:
  assumes "field_ok f"
  shows "0 < field_key f" and "field_key f < 2 ^ 32"
    and "(word_of_nat (field_key f) :: u32) AND 7 = item_wiretype (snd f)"
    and "drop_bit 3 (word_of_nat (field_key f) :: u32) = fst f"
    and "unat (push_bit 3 (ucast (fst f)) OR ucast (item_wiretype (snd f)) :: u64) = field_key f"
proof -
  note w = wiretype_less [of "snd f"]
  show "0 < field_key f" and lt: "field_key f < 2 ^ 32"
    using assms w by (simp_all add: field_ok_def field_key_def)
  then have u: "unat (word_of_nat (field_key f) :: u32) = field_key f" by (intro unat_word_of_nat_small) simp
  have "unat ((word_of_nat (field_key f) :: u32) AND 7) = field_key f mod 8"
    using unat_and_mask [of "word_of_nat (field_key f) :: u32" 3] u by (simp add: mask_eq_exp_minus_1)
  then show "(word_of_nat (field_key f) :: u32) AND 7 = item_wiretype (snd f)"
    using w by (simp add: word_unat_eq_iff field_key_def del: of_nat_add of_nat_mult)
  show "drop_bit 3 (word_of_nat (field_key f) :: u32) = fst f"
    using u w by (simp add: word_unat_eq_iff unat_drop_bit field_key_def del: of_nat_add of_nat_mult)
  have "unat (ucast (fst f) :: u64) = unat (fst f)" "unat (ucast (item_wiretype (snd f)) :: u64) = unat (item_wiretype (snd f))"
    by simp_all
  then show "unat (push_bit 3 (ucast (fst f)) OR ucast (item_wiretype (snd f)) :: u64) = field_key f"
    using assms w by (subst unat_shift_or) (simp_all add: field_ok_def field_key_def)
qed

lemma item_wiretype_body: "item_ok i \<Longrightarrow>
   (\<exists>n. item_wiretype i = PB_WT_VARINT \<and> item_bytes i = varint n) \<or>
   (item_wiretype i = PB_WT_64BIT \<and> length (item_bytes i) = 8) \<or>
   (item_wiretype i = PB_WT_32BIT \<and> length (item_bytes i) = 4) \<or>
   (\<exists>bs. item_wiretype i = PB_WT_STRING \<and> item_bytes i = varint (length bs) @ bs \<and> length bs < 2 ^ 32)"
  by (cases i) auto

context sink
begin

lemma put_item_delivers: "item_ok i \<Longrightarrow> delivers (put_item i) (item_bytes i)"
  using write_all_delivers [of "[item_bytes i]"]
proof (cases i)
  case (String bs)
  moreover assume "item_ok i"
  ultimately show ?thesis
    using write_all_delivers [of "[varint (length bs), bs]"]
    by (simp add: pb_encode_string_eq size_t_mod_def del: write_all.simps)
qed (simp_all add: pb_encode_varint_eq pb_encode_svarint_eq pb_encode_fixed32_eq pb_encode_fixed64_eq del: write_all.simps)

lemma put_fields_delivers:
  "\<forall>f \<in> set fs. field_ok f \<Longrightarrow> delivers (put_fields fs) (concat (map field_bytes fs))"
proof (induction fs)
  case Nil
  have "put_fields [] = (write_all [] :: 's pb_writer)" by (rule ext) simp
  then show ?case using write_all_delivers [of "[]"] by (simp del: write_all.simps put_fields.simps)
next
  case (Cons f fs)
  then have f: "field_ok f" by simp
  have tag: "delivers (pb_encode_tag (item_wiretype (snd f)) (fst f)) (varint (field_key f))"
    using encode_varint_delivers [of "push_bit 3 (ucast (fst f)) OR ucast (item_wiretype (snd f)) :: u64"]
      field_key(5) [OF f] by (simp add: pb_encode_tag_def [abs_def])
  have item: "delivers (put_item (snd f)) (item_bytes (snd f))"
    using f by (intro put_item_delivers) (simp add: field_ok_def)
  have rest: "delivers (put_fields fs) (concat (map field_bytes fs))" using Cons by simp
  have "delivers (\<lambda>s. case put_item (snd f) s of (False, s2) \<Rightarrow> (False, s2) | (True, s2) \<Rightarrow> put_fields fs s2)
      (item_bytes (snd f) @ concat (map field_bytes fs))"
    by (rule then_delivers [OF item rest]) simp_all
  then have "delivers (put_fields (f # fs)) (varint (field_key f) @ item_bytes (snd f) @ concat (map field_bytes fs))"
    by (rule then_delivers [OF tag]) simp_all
  then show ?case by (simp add: field_bytes_def [of f] del: put_fields.simps)
qed

end

context feed
begin

lemma tag_reads:
  assumes "field_ok f"
  shows "reads (\<lambda>s. fst (pb_decode_tag s)) (item_wiretype (snd f), fst f) (varint (field_key f))"
  unfolding reads_def
proof (intro allI impI)
  fix s r beyond
  assume s: "feeds s (varint (field_key f) @ r) beyond"
  note key = field_key [OF assms]
  from s obtain s1 where s1: "pb_decode_varint32 s = (Some (word_of_nat (field_key f)), s1)" "feeds s1 r beyond"
    by (rule readsD [OF decode_varint32_reads [OF key(2)]])
  obtain eof where "pb_decode_varint32_eof s = ((Some (word_of_nat (field_key f)), s1), eof)"
    using s1(1) by (cases "pb_decode_varint32_eof s") (simp add: pb_decode_varint32_def)
  moreover have "(word_of_nat (field_key f) :: u32) \<noteq> 0"
    using key(1,2) unat_word_of_nat_small [of "field_key f", where ?'a = 32]
    by (simp add: word_unat_eq_iff [of _ 0])
  ultimately show "\<exists>s'. fst (pb_decode_tag s) = (Some (item_wiretype (snd f), fst f), s') \<and> feeds s' r beyond"
    using s1(2) key(3,4) by (auto simp: pb_decode_tag_def)
qed

lemma get_like_reads: "item_ok i \<Longrightarrow> reads (get_like i) i (item_bytes i)"
proof (cases i)
  case (Varint v)
  then show ?thesis
    using reads_map [OF decode_varint_reads [of "unat v"], of Varint] unsigned_less [of v, where ?'a = nat] by simp
next
  case (String bs)
  moreover assume "item_ok i"
  ultimately have len: "length bs < 2 ^ 32" by simp
  then have "unat (word_of_nat (length bs) :: u32) = length bs" by (intro unat_word_of_nat_small) simp
  then show ?thesis
    using reads_then [OF decode_varint32_reads [OF len],
        of "\<lambda>n. read_then (pb_read (unat n)) (\<lambda>bs s. (Some (String bs), s))"]
      reads_map [OF read_reads [of bs], of String] String by simp
next
  case (Svarint v)
  show ?thesis unfolding Svarint get_like.simps item_bytes.simps by (rule reads_map [OF decode_svarint_reads])
next
  case (Fixed32 v)
  show ?thesis unfolding Fixed32 get_like.simps item_bytes.simps by (rule reads_map [OF decode_fixed32_reads])
next
  case (Fixed64 v)
  show ?thesis unfolding Fixed64 get_like.simps item_bytes.simps by (rule reads_map [OF decode_fixed64_reads])
qed

lemma skip_item_reads: "item_ok i \<Longrightarrow> reads (pb_skip_field (item_wiretype i)) () (item_bytes i)"
  using item_wiretype_body [of i] skip_field_reads(1) skip_field_reads(2,3) [of "item_bytes i"] skip_field_reads(4)
  by auto

lemma get_fields_reads:
  "\<forall>f \<in> set fs. field_ok f \<Longrightarrow>
   reads (get_fields fs) (map (\<lambda>f. (item_wiretype (snd f), f)) fs) (concat (map field_bytes fs))"
proof (induction fs)
  case Nil
  then show ?case using reads_return by simp
next
  case (Cons f fs)
  then have f: "field_ok f" "item_ok (snd f)" by (simp_all add: field_ok_def)
  have "reads (get_fields fs) (map (\<lambda>f. (item_wiretype (snd f), f)) fs) (concat (map field_bytes fs))"
    using Cons by simp
  from reads_map [OF this, of "\<lambda>rest. (item_wiretype (snd f), fst f, snd f) # rest"]
  have "reads (read_then (get_like (snd f)) (\<lambda>i.
         read_then (get_fields fs) (\<lambda>rest s. (Some ((item_wiretype (snd f), fst f, i) # rest), s))))
      ((item_wiretype (snd f), fst f, snd f) # map (\<lambda>f. (item_wiretype (snd f), f)) fs)
      (item_bytes (snd f) @ concat (map field_bytes fs))"
    by (rule reads_then [OF get_like_reads [OF f(2)]])
  from reads_then [OF tag_reads [OF f(1)], of "\<lambda>(wt, tag). read_then (get_like (snd f)) (\<lambda>i.
         read_then (get_fields fs) (\<lambda>rest s. (Some ((wt, tag, i) # rest), s)))"] this
  show ?case by (simp add: field_bytes_def [of f])
qed

lemma skip_fields_feeds:
  assumes "\<forall>f \<in> set fs. field_ok f" and "feeds s (concat (map field_bytes fs)) beyond" and "length fs < n"
  shows "\<exists>s'. skip_fields n s = (True, s') \<and> bytes_left s' = 0"
  using assms
proof (induction fs arbitrary: s n)
  case Nil
  then obtain m where "n = Suc m" by (cases n) auto
  then show ?case using Nil
    by (simp add: pb_decode_tag_def pb_decode_varint32_eof_def pb_readbyte_def is_error_def feeds_def)
next
  case (Cons f fs)
  then obtain m where n: "n = Suc m" by (cases n) auto
  have f: "field_ok f" "item_ok (snd f)" using Cons.prems by (simp_all add: field_ok_def)
  have "feeds s (varint (field_key f) @ item_bytes (snd f) @ concat (map field_bytes fs)) beyond"
    using Cons.prems(2) by (simp add: field_bytes_def [of f])
  then obtain s1 where s1: "fst (pb_decode_tag s) = (Some (item_wiretype (snd f), fst f), s1)"
      "feeds s1 (item_bytes (snd f) @ concat (map field_bytes fs)) beyond"
    by (rule readsD [OF tag_reads [OF f(1)]])
  from s1(2) obtain s2 where s2: "pb_skip_field (item_wiretype (snd f)) s1 = (Some (), s2)"
      "feeds s2 (concat (map field_bytes fs)) beyond"
    by (rule readsD [OF skip_item_reads [OF f(2)]])
  obtain eof where "pb_decode_tag s = ((Some (item_wiretype (snd f), fst f), s1), eof)"
    using s1(1) by (cases "pb_decode_tag s") simp
  then show ?case using Cons.IH [OF _ s2(2), of m] Cons.prems s2(1) n by simp
qed

end

text \<open>What a writer that delivers leaves in a memory buffer.\<close>

lemma delivers_to_buffer:
  assumes "buffer_sink.delivers w bs" and "length bs \<le> length buf" and "length buf < 2 ^ 64"
  obtains s out where "w (pb_ostream_from_buffer buf (length buf)) = (True, s)"
    and "fst (os_state s) = out" and "bytes_written s = length bs" and "take (length bs) out = bs"
    and "length bs \<le> length out"
proof -
  let ?s = "pb_ostream_from_buffer buf (length buf)"
  have r: "buffer_sink.ready ?s" using assms(3) by (intro from_buffer_ready) (simp add: size_t_mod_def)
  have "bytes_written ?s + length bs \<le> max_size ?s" using assms(2) by (simp add: pb_ostream_from_buffer_def)
  then obtain s where s: "w ?s = (True, s)" "buffer_sink.delivered bs ?s s"
    by (rule buffer_sink.deliversD [OF assms(1) r])
  obtain out p where st: "os_state s = (out, p)" by fastforce
  then have bs: "bs = take p out" and n: "bytes_written s = length bs"
    using s(2) by (simp_all add: buffer_sink.delivered_def pb_ostream_from_buffer_def)
  have "take (length bs) out = bs" "length bs \<le> length out" unfolding bs by (simp_all add: min_def)
  then show ?thesis using s(1) st n by (intro that [of s out]) simp_all
qed

lemma sizing_delivers:
  "buffer_sink.delivers w bs \<Longrightarrow> length bs < 2 ^ 64 \<Longrightarrow>
   w (PB_OSTREAM_SIZING st) = (True, (PB_OSTREAM_SIZING st)\<lparr>bytes_written := length bs\<rparr>)"
  by (simp add: buffer_sink.delivers_def buffer_sink.counts_def PB_OSTREAM_SIZING_def size_t_mod_def)

text \<open>
  C15: Any fields written to a buffer that has room for them are read back unchanged, tags,
  wire types and values, by the decoders of their codings, and the input is then used up.
\<close>

theorem fields_round_trip:
  assumes "\<forall>f \<in> set fs. field_ok f" and "length (concat (map field_bytes fs)) \<le> length buf"
    and "length buf < 2 ^ 64"
  shows "\<exists>s s'. put_fields fs (pb_ostream_from_buffer buf (length buf)) = (True, s) \<and>
    get_fields fs (pb_istream_from_buffer (fst (os_state s)) (bytes_written s) :: 's pb_istream) =
      (Some (map (\<lambda>f. (item_wiretype (snd f), f)) fs), s') \<and> bytes_left s' = 0"
proof -
  let ?bs = "concat (map field_bytes fs)"
  obtain s out where s: "put_fields fs (pb_ostream_from_buffer buf (length buf)) = (True, s)"
      "fst (os_state s) = out" "bytes_written s = length ?bs" "take (length ?bs) out = ?bs" "length ?bs \<le> length out"
    by (rule delivers_to_buffer [OF buffer_sink.put_fields_delivers [OF assms(1)] assms(2,3)])
  have "memory_feed.feeds (pb_istream_from_buffer out (length ?bs) :: 's pb_istream) (?bs @ []) (drop (length ?bs) out)"
    using from_buffer_feeds [OF s(5)] s(4) by simp
  then obtain s' where "get_fields fs (pb_istream_from_buffer out (length ?bs) :: 's pb_istream) =
      (Some (map (\<lambda>f. (item_wiretype (snd f), f)) fs), s')"
      "memory_feed.feeds s' [] (drop (length ?bs) out)"
    by (rule memory_feed.readsD [OF memory_feed.get_fields_reads [OF assms(1)]])
  then show ?thesis using s by (auto simp: memory_feed.feeds_def)
qed

lemma fields_round_trip_witness:
  "\<exists>s s'. put_fields [(1, Svarint (- 3)), (2, String [104, 105])] (pb_ostream_from_buffer (replicate 8 0) 8) = (True, s) \<and>
    get_fields [(1, Svarint (- 3)), (2, String [104, 105])]
        (pb_istream_from_buffer (fst (os_state s)) (bytes_written s) :: unit pb_istream) =
      (Some [(0, 1, Svarint (- 3)), (2, 2, String [104, 105])], s') \<and> bytes_left s' = 0"
  using fields_round_trip [of "[(1, Svarint (- 3)), (2, String [104, 105])]" "replicate 8 0"]
  by (simp add: field_ok_def field_bytes_def field_key_def varint.simps PB_WT_VARINT_def PB_WT_STRING_def)

text \<open>
  C16: A decoder that knows none of the fields, and skips each by its wire type, reads to the
  end of the stream without an error, whatever the fields hold.
\<close>

theorem unknown_fields_skipped:
  assumes "\<forall>f \<in> set fs. field_ok f"
  shows "\<exists>s'. skip_fields (Suc (length fs))
      (pb_istream_from_buffer (concat (map field_bytes fs) @ beyond) (length (concat (map field_bytes fs)))
        :: 's pb_istream) = (True, s') \<and> bytes_left s' = 0"
proof -
  let ?bs = "concat (map field_bytes fs)"
  have "memory_feed.feeds (pb_istream_from_buffer (?bs @ beyond) (length ?bs)) ?bs beyond"
    using from_buffer_feeds [of "length ?bs" "?bs @ beyond"] by simp
  from memory_feed.skip_fields_feeds [OF assms this lessI] show ?thesis .
qed

lemma unknown_fields_skipped_witness:
  "\<exists>s'. skip_fields 3
      (pb_istream_from_buffer (concat (map field_bytes [(7, Varint 300), (9, String [1, 2, 3])]) @ [5])
         (length (concat (map field_bytes [(7, Varint 300), (9, String [1, 2, 3])]))) :: unit pb_istream) = (True, s') \<and>
      bytes_left s' = 0"
  using unknown_fields_skipped [of "[(7, Varint 300), (9, String [1, 2, 3])]" "[5]"]
  by (simp add: field_ok_def numeral_3_eq_3)



end
