(* ===== verification/Memory.thy ===== *)
theory Memory
  imports Prelude
begin

text \<open>
  The memory of the program where it reads and writes through pointers: reading and writing
  runs of bytes and words, and what a write leaves of what is read.
\<close>

section \<open>Memory\<close>

text \<open>Memory maps addresses to bytes; a pointer is an address, the null pointer is 0.\<close>

type_synonym mem = "nat \<Rightarrow> u8"

definition load :: "mem \<Rightarrow> nat \<Rightarrow> nat \<Rightarrow> bytes" where
  "load m a n = map m [a..<a + n]"

definition store :: "nat \<Rightarrow> bytes \<Rightarrow> mem \<Rightarrow> mem" where
  "store a bs m = (\<lambda>x. if a \<le> x \<and> x < a + length bs then bs ! (x - a) else m x)"

lemma length_load [simp]: "length (load m a n) = n"
  by (simp add: load_def)

lemma load_0 [simp]: "load m a 0 = []"
  by (simp add: load_def)

lemma load_store: "load (store a bs m) a (length bs) = bs"
  by (rule nth_equalityI) (simp_all add: load_def store_def)

lemma load_store_take: "n \<le> length bs \<Longrightarrow> load (store a bs m) a n = take n bs"
  by (rule nth_equalityI) (simp_all add: load_def store_def)

lemma load_store_other: "b + n \<le> a \<or> a + length bs \<le> b \<Longrightarrow> load (store a bs m) b n = load m b n"
  by (auto simp: load_def store_def)

lemma store_outside: "x < a \<or> a + length bs \<le> x \<Longrightarrow> store a bs m x = m x"
  by (auto simp: store_def)

lemma load_append: "load m a (k + n) = load m a k @ load m (a + k) n"
proof -
  have "[a..<a + k + n] = [a..<a + k] @ [a + k..<a + k + n]" by (rule upt_add_eq_append) simp
  then show ?thesis by (simp add: load_def add.assoc)
qed

lemma store_append: "store (a + length xs) ys (store a xs m) = store a (xs @ ys) m"
  by (rule ext) (auto simp: store_def nth_append)

lemma store_behind: "b = a + length xs \<Longrightarrow> store b ys (store a xs m) = store a (xs @ ys) m"
  by (simp only: store_append)

lemma load_snoc: "load m a (Suc n) = load m a n @ [m (a + n)]"
  by (simp add: load_def)

text \<open>Words lie in memory with the low byte first.\<close>

definition load_word :: "mem \<Rightarrow> nat \<Rightarrow> nat \<Rightarrow> 'a::len word" where
  "load_word m a n = le_word (load m a n)"

lemma le_bytes_load_word:
  assumes "n \<le> k" and "256 ^ k \<le> (2::nat) ^ LENGTH('a)"
  shows "le_bytes n (load_word m a n :: 'a::len word) = load m a n"
proof -
  have "(256::nat) ^ n \<le> 256 ^ k" using assms(1) by (rule power_increasing) simp
  then have "(256::nat) ^ n \<le> 2 ^ LENGTH('a)" using assms(2) by (rule le_trans)
  then have "unat (le_word (load m a n) :: 'a word) = le_nat (load m a n)"
    by (intro unat_le_word) simp
  then show ?thesis
    using le_nat_less [of "load m a n"] unfolding load_word_def
    by (intro le_nat_inj) (simp_all add: le_nat_le_bytes)
qed

end
