(* ===== verification/Pb_fields.thy ===== *)
theory Pb_fields
  imports Pb_stream Memory
begin

text \<open>
  Message fields in memory (\<open>pb_common.c\<close>, and the field encoders and decoders of
  \<open>pb_encode.c\<close> and \<open>pb_decode.c\<close>): memory, field descriptors, the iterator over the fields
  of a structure, and reading and writing one value.
\<close>

section \<open>Pointers in memory\<close>

text \<open>Pointers are eight bytes wide.\<close>

definition load_ptr :: "mem \<Rightarrow> nat \<Rightarrow> nat" where
  "load_ptr m a = unat (load_word m a 8 :: u64)"

definition store_ptr :: "nat \<Rightarrow> nat \<Rightarrow> mem \<Rightarrow> mem" where
  "store_ptr a p m = store a (le_bytes 8 (word_of_nat p :: u64)) m"

section \<open>Field descriptors\<close>

record pb_field =
  pf_tag :: u32
  pf_type :: u8
  pf_data_offset :: u32
  pf_size_offset :: "32 word"
  pf_data_size :: u32
  pf_array_size :: u32
  pf_ptr :: nat

text \<open>The entry that ends an array of descriptors; the arrays of the model are without it.\<close>

definition PB_LAST_FIELD :: pb_field where
  "PB_LAST_FIELD = \<lparr>pf_tag = 0, pf_type = 0, pf_data_offset = 0, pf_size_offset = 0, pf_data_size = 0,
     pf_array_size = 0, pf_ptr = 0\<rparr>"

definition field_at :: "pb_field list \<Rightarrow> nat \<Rightarrow> pb_field" where
  "field_at fs i = (if i < length fs then fs ! i else PB_LAST_FIELD)"

definition PB_ATYPE :: "u8 \<Rightarrow> u8" where "PB_ATYPE x = x AND 0xC0"
definition PB_HTYPE :: "u8 \<Rightarrow> u8" where "PB_HTYPE x = x AND 0x30"
definition PB_LTYPE :: "u8 \<Rightarrow> u8" where "PB_LTYPE x = x AND 0x0F"

definition PB_LTYPE_BOOL :: u8 where "PB_LTYPE_BOOL = 0x00"
definition PB_LTYPE_VARINT :: u8 where "PB_LTYPE_VARINT = 0x01"
definition PB_LTYPE_UVARINT :: u8 where "PB_LTYPE_UVARINT = 0x02"
definition PB_LTYPE_SVARINT :: u8 where "PB_LTYPE_SVARINT = 0x03"
definition PB_LTYPE_FIXED32 :: u8 where "PB_LTYPE_FIXED32 = 0x04"
definition PB_LTYPE_FIXED64 :: u8 where "PB_LTYPE_FIXED64 = 0x05"
definition PB_LTYPE_LAST_PACKABLE :: u8 where "PB_LTYPE_LAST_PACKABLE = 0x05"
definition PB_LTYPE_BYTES :: u8 where "PB_LTYPE_BYTES = 0x06"
definition PB_LTYPE_STRING :: u8 where "PB_LTYPE_STRING = 0x07"
definition PB_LTYPE_SUBMESSAGE :: u8 where "PB_LTYPE_SUBMESSAGE = 0x08"
definition PB_LTYPE_EXTENSION :: u8 where "PB_LTYPE_EXTENSION = 0x09"
definition PB_LTYPE_FIXED_LENGTH_BYTES :: u8 where "PB_LTYPE_FIXED_LENGTH_BYTES = 0x0A"

definition PB_HTYPE_REQUIRED :: u8 where "PB_HTYPE_REQUIRED = 0x00"
definition PB_HTYPE_OPTIONAL :: u8 where "PB_HTYPE_OPTIONAL = 0x10"
definition PB_HTYPE_REPEATED :: u8 where "PB_HTYPE_REPEATED = 0x20"
definition PB_HTYPE_ONEOF :: u8 where "PB_HTYPE_ONEOF = 0x30"

definition PB_ATYPE_STATIC :: u8 where "PB_ATYPE_STATIC = 0x00"
definition PB_ATYPE_POINTER :: u8 where "PB_ATYPE_POINTER = 0x80"
definition PB_ATYPE_CALLBACK :: u8 where "PB_ATYPE_CALLBACK = 0x40"

definition PB_SIZE_MAX :: u32 where "PB_SIZE_MAX = 0xFFFFFFFF"

named_theorems pb_types "the numbers of the field types"

lemmas [pb_types] = PB_LTYPE_BOOL_def PB_LTYPE_VARINT_def PB_LTYPE_UVARINT_def PB_LTYPE_SVARINT_def
  PB_LTYPE_FIXED32_def PB_LTYPE_FIXED64_def PB_LTYPE_LAST_PACKABLE_def PB_LTYPE_BYTES_def PB_LTYPE_STRING_def
  PB_LTYPE_SUBMESSAGE_def PB_LTYPE_EXTENSION_def PB_LTYPE_FIXED_LENGTH_BYTES_def
  PB_HTYPE_REQUIRED_def PB_HTYPE_OPTIONAL_def PB_HTYPE_REPEATED_def PB_HTYPE_ONEOF_def
  PB_ATYPE_STATIC_def PB_ATYPE_POINTER_def PB_ATYPE_CALLBACK_def

text \<open>\<open>sizeof(bytes array)\<close>: the four bytes of \<open>size\<close> come before the bytes.\<close>

definition PB_BYTES_ARRAY_T_ALLOCSIZE :: "u32 \<Rightarrow> nat" where
  "PB_BYTES_ARRAY_T_ALLOCSIZE n = unat n + 4"

section \<open>The iterator over the fields of a structure\<close>

record pb_field_iter =
  it_start :: "pb_field list"
  it_pos :: nat
  required_field_index :: nat
  it_dest_struct :: nat
  pData :: nat
  pSize :: nat

definition it_field :: "pb_field_iter \<Rightarrow> pb_field" where
  "it_field it = field_at (it_start it) (it_pos it)"

text \<open>Address arithmetic with the signed \<open>size_offset\<close>.\<close>

definition at_offset :: "nat \<Rightarrow> 32 word \<Rightarrow> nat" where
  "at_offset a off = nat (int a + sint off)"

definition pb_field_iter_begin :: "pb_field list \<Rightarrow> nat \<Rightarrow> bool \<times> pb_field_iter" where
  "pb_field_iter_begin fs dest =
     (let f = field_at fs 0; data = dest + unat (pf_data_offset f)
      in (pf_tag f \<noteq> 0,
          \<lparr>it_start = fs, it_pos = 0, required_field_index = 0, it_dest_struct = dest,
           pData = data, pSize = at_offset data (pf_size_offset f)\<rparr>))"

definition pb_field_iter_next :: "pb_field_iter \<Rightarrow> bool \<times> pb_field_iter" where
  "pb_field_iter_next it =
     (let prev = it_field it; f = field_at (it_start it) (Suc (it_pos it))
      in if pf_tag prev = 0 then (False, it)
         else if pf_tag f = 0 then (False, snd (pb_field_iter_begin (it_start it) (it_dest_struct it)))
         else if PB_HTYPE (pf_type prev) = PB_HTYPE_ONEOF \<and> PB_HTYPE (pf_type f) = PB_HTYPE_ONEOF \<and>
                 pf_data_offset f = PB_SIZE_MAX
         then (True, it\<lparr>it_pos := Suc (it_pos it)\<rparr>)
         else
           (let prev_size =
              (if PB_ATYPE (pf_type prev) = PB_ATYPE_STATIC \<and> PB_HTYPE (pf_type prev) = PB_HTYPE_REPEATED
               then unat (pf_data_size prev) * unat (pf_array_size prev)
               else if PB_ATYPE (pf_type prev) = PB_ATYPE_POINTER then 8
               else unat (pf_data_size prev));
                data = pData it + prev_size + unat (pf_data_offset f)
            in (True,
                it\<lparr>it_pos := Suc (it_pos it),
                   required_field_index := (if PB_HTYPE (pf_type prev) = PB_HTYPE_REQUIRED
                     then Suc (required_field_index it) else required_field_index it),
                   pData := data, pSize := at_offset data (pf_size_offset f)\<rparr>)))"

lemma iter_next_advances:
  "pb_field_iter_next it = (True, it') \<Longrightarrow>
   it_start it' = it_start it \<and> it_pos it' = Suc (it_pos it) \<and> Suc (it_pos it) < length (it_start it)"
  by (auto simp: pb_field_iter_next_def Let_def field_at_def PB_LAST_FIELD_def split: if_splits)

text \<open>\<open>pb_field_iter_find\<close> goes round the array once, from where the iterator stands.\<close>

fun iter_find_loop :: "nat \<Rightarrow> nat \<Rightarrow> u32 \<Rightarrow> pb_field_iter \<Rightarrow> bool \<times> pb_field_iter" where
  "iter_find_loop n start tag it =
     (if pf_tag (it_field it) = tag \<and> PB_LTYPE (pf_type (it_field it)) \<noteq> PB_LTYPE_EXTENSION then (True, it)
      else
        (let it' = snd (pb_field_iter_next it)
         in if it_pos it' = start \<or> n = 0 then (False, it') else iter_find_loop (n - 1) start tag it'))"

declare iter_find_loop.simps [simp del]

definition pb_field_iter_find :: "pb_field_iter \<Rightarrow> u32 \<Rightarrow> bool \<times> pb_field_iter" where
  "pb_field_iter_find it tag = iter_find_loop (length (it_start it)) (it_pos it) tag it"

section \<open>Encoders of one value\<close>

type_synonym 's pb_encoder = "mem \<Rightarrow> pb_field \<Rightarrow> nat \<Rightarrow> 's pb_writer"

text \<open>\<open>sizeof(bool)\<close> is 1.\<close>

definition safe_read_bool :: "mem \<Rightarrow> nat \<Rightarrow> bool" where
  "safe_read_bool m p = (m p \<noteq> 0)"

definition pb_encode_tag_for_field :: "pb_field \<Rightarrow> 's pb_writer" where
  "pb_encode_tag_for_field field =
     (let lt = PB_LTYPE (pf_type field)
      in if lt = PB_LTYPE_BOOL \<or> lt = PB_LTYPE_VARINT \<or> lt = PB_LTYPE_UVARINT \<or> lt = PB_LTYPE_SVARINT
         then pb_encode_tag PB_WT_VARINT (pf_tag field)
         else if lt = PB_LTYPE_FIXED32 then pb_encode_tag PB_WT_32BIT (pf_tag field)
         else if lt = PB_LTYPE_FIXED64 then pb_encode_tag PB_WT_64BIT (pf_tag field)
         else if lt = PB_LTYPE_BYTES \<or> lt = PB_LTYPE_STRING \<or> lt = PB_LTYPE_SUBMESSAGE \<or>
                 lt = PB_LTYPE_FIXED_LENGTH_BYTES
         then pb_encode_tag PB_WT_STRING (pf_tag field)
         else os_error ''invalid field type'')"

definition pb_enc_bool :: "'s pb_encoder" where
  "pb_enc_bool m field src = pb_encode_varint (if safe_read_bool m src then 1 else 0)"

text \<open>Loading a signed or unsigned integer of 1, 2, 4 or 8 bytes into 64 bits.\<close>

definition load_signed :: "mem \<Rightarrow> nat \<Rightarrow> u32 \<Rightarrow> u64 option" where
  "load_signed m a sz =
     (if sz = 1 then Some (scast (load_word m a 1 :: u8))
      else if sz = 2 then Some (scast (load_word m a 2 :: u16))
      else if sz = 4 then Some (scast (load_word m a 4 :: u32))
      else if sz = 8 then Some (load_word m a 8)
      else None)"

definition load_unsigned :: "mem \<Rightarrow> nat \<Rightarrow> u32 \<Rightarrow> u64 option" where
  "load_unsigned m a sz =
     (if sz = 1 then Some (ucast (load_word m a 1 :: u8))
      else if sz = 2 then Some (ucast (load_word m a 2 :: u16))
      else if sz = 4 then Some (ucast (load_word m a 4 :: u32))
      else if sz = 8 then Some (load_word m a 8)
      else None)"

definition pb_enc_varint :: "'s pb_encoder" where
  "pb_enc_varint m field src =
     (case load_signed m src (pf_data_size field) of
        None \<Rightarrow> os_error ''invalid data_size''
      | Some value \<Rightarrow> pb_encode_varint value)"

definition pb_enc_uvarint :: "'s pb_encoder" where
  "pb_enc_uvarint m field src =
     (case load_unsigned m src (pf_data_size field) of
        None \<Rightarrow> os_error ''invalid data_size''
      | Some value \<Rightarrow> pb_encode_varint value)"

definition pb_enc_svarint :: "'s pb_encoder" where
  "pb_enc_svarint m field src =
     (case load_signed m src (pf_data_size field) of
        None \<Rightarrow> os_error ''invalid data_size''
      | Some value \<Rightarrow> pb_encode_svarint value)"

definition pb_enc_fixed64 :: "'s pb_encoder" where
  "pb_enc_fixed64 m field src = pb_encode_fixed64 (load_word m src 8)"

definition pb_enc_fixed32 :: "'s pb_encoder" where
  "pb_enc_fixed32 m field src = pb_encode_fixed32 (load_word m src 4)"

definition pb_enc_bytes :: "'s pb_encoder" where
  "pb_enc_bytes m field src =
     (if src = 0 then pb_encode_string [] 0
      else
        (let sz = load_word m src 4 :: u32; allocsize = PB_BYTES_ARRAY_T_ALLOCSIZE sz
         in if allocsize < unat sz \<or>
               (PB_ATYPE (pf_type field) = PB_ATYPE_STATIC \<and> allocsize > unat (pf_data_size field))
            then os_error ''bytes size exceeded''
            else pb_encode_string (load m (src + 4) (unat sz)) (unat sz)))"

text \<open>The loop that looks for the terminator; it reads at most \<open>n\<close> bytes.\<close>

fun string_size :: "mem \<Rightarrow> nat \<Rightarrow> nat \<Rightarrow> nat" where
  "string_size m p 0 = 0"
| "string_size m p (Suc n) = (if m p = 0 then 0 else Suc (string_size m (Suc p) n))"

text \<open>For a pointer the search is not limited but by \<open>SIZE_MAX\<close>.\<close>

definition pb_enc_string :: "'s pb_encoder" where
  "pb_enc_string m field src =
     (let max_sz = (if PB_ATYPE (pf_type field) = PB_ATYPE_POINTER then size_t_mod - 1 else unat (pf_data_size field));
          sz = (if src = 0 then 0 else string_size m src max_sz)
      in pb_encode_string (load m src sz) sz)"

text \<open>\<open>encode\<close> is \<open>pb_encode\<close> on the array of descriptors at an address.\<close>

definition pb_enc_submessage :: "(nat \<Rightarrow> nat \<Rightarrow> 's pb_writer) \<Rightarrow> 's pb_encoder" where
  "pb_enc_submessage encode m field src =
     (if pf_ptr field = 0 then os_error ''invalid field descriptor''
      else pb_encode_submessage (encode (pf_ptr field) src))"

definition pb_enc_fixed_length_bytes :: "'s pb_encoder" where
  "pb_enc_fixed_length_bytes m field src =
     pb_encode_string (load m src (unat (pf_data_size field))) (unat (pf_data_size field))"

text \<open>The table of encoders, indexed by the type; \<open>None\<close> is its null entry and the space behind it.\<close>

definition PB_ENCODERS :: "(nat \<Rightarrow> nat \<Rightarrow> 's pb_writer) \<Rightarrow> u8 \<Rightarrow> 's pb_encoder option" where
  "PB_ENCODERS encode lt =
     (if lt = PB_LTYPE_BOOL then Some pb_enc_bool
      else if lt = PB_LTYPE_VARINT then Some pb_enc_varint
      else if lt = PB_LTYPE_UVARINT then Some pb_enc_uvarint
      else if lt = PB_LTYPE_SVARINT then Some pb_enc_svarint
      else if lt = PB_LTYPE_FIXED32 then Some pb_enc_fixed32
      else if lt = PB_LTYPE_FIXED64 then Some pb_enc_fixed64
      else if lt = PB_LTYPE_BYTES then Some pb_enc_bytes
      else if lt = PB_LTYPE_STRING then Some pb_enc_string
      else if lt = PB_LTYPE_SUBMESSAGE then Some (pb_enc_submessage encode)
      else if lt = PB_LTYPE_FIXED_LENGTH_BYTES then Some pb_enc_fixed_length_bytes
      else None)"

section \<open>Decoders of one value\<close>

text \<open>
  A decoder works on the stream and the memory.  \<open>realloc\<close> is the C library's: it is given the
  old pointer and the size and gives the new pointer, null when it fails, and the memory.
\<close>

type_synonym 's pb_state = "'s pb_istream \<times> mem"
type_synonym 's pb_decoder = "pb_field \<Rightarrow> nat \<Rightarrow> 's pb_state \<Rightarrow> bool \<times> 's pb_state"

definition st_error :: "string \<Rightarrow> 's pb_state \<Rightarrow> bool \<times> 's pb_state" where
  "st_error msg st = (False, snd (is_error msg (fst st) :: unit option \<times> 's pb_istream), snd st)"

text \<open>\<open>if (!m(stream, &x)) return false;\<close> where only the stream is involved.\<close>

definition st_read :: "('s, 'a) pb_reader \<Rightarrow> ('a \<Rightarrow> 's pb_state \<Rightarrow> bool \<times> 's pb_state) \<Rightarrow> 's pb_state \<Rightarrow> bool \<times> 's pb_state" where
  "st_read m f st =
     (case m (fst st) of (None, s') \<Rightarrow> (False, s', snd st) | (Some x, s') \<Rightarrow> f x (s', snd st))"

definition allocate_field :: "(nat \<Rightarrow> nat \<Rightarrow> mem \<Rightarrow> nat \<times> mem) \<Rightarrow> nat \<Rightarrow> nat \<Rightarrow> nat \<Rightarrow> 's pb_state \<Rightarrow> bool \<times> 's pb_state" where
  "allocate_field realloc data data_size array_size st =
     (if data_size = 0 \<or> array_size = 0 then st_error ''invalid size'' st
      else
        (let check_limit = 2 ^ 32
         in if (data_size \<ge> check_limit \<or> array_size \<ge> check_limit) \<and>
               (size_t_mod - 1) div array_size < data_size
            then st_error ''size too large'' st
            else
              (case realloc (load_ptr (snd st) data) ((array_size * data_size) mod size_t_mod) (snd st) of
                 (ptr, m) \<Rightarrow>
                   if ptr = 0 then st_error ''realloc failed'' (fst st, m)
                   else (True, fst st, store_ptr data ptr m))))"

definition pb_dec_bool :: "'s pb_decoder" where
  "pb_dec_bool field dest =
     st_read pb_decode_varint32 (\<lambda>value (s, m). (True, s, store dest [if value \<noteq> 0 then 1 else 0] m))"

text \<open>
  Storing a value in the width of the field, and the value read back from there as 64 bits:
  signed, and unsigned.
\<close>

definition clamp_signed :: "u32 \<Rightarrow> u64 \<Rightarrow> (u64 \<times> bytes) option" where
  "clamp_signed sz v =
     (if sz = 8 then Some (v, le_bytes 8 v)
      else if sz = 4 then Some (scast (ucast v :: u32), le_bytes 4 v)
      else if sz = 2 then Some (scast (ucast v :: u16), le_bytes 2 v)
      else if sz = 1 then Some (scast (ucast v :: u8), le_bytes 1 v)
      else None)"

definition clamp_unsigned :: "u32 \<Rightarrow> u64 \<Rightarrow> (u64 \<times> bytes) option" where
  "clamp_unsigned sz v =
     (if sz = 8 then Some (v, le_bytes 8 v)
      else if sz = 4 then Some (ucast (ucast v :: u32), le_bytes 4 v)
      else if sz = 2 then Some (ucast (ucast v :: u16), le_bytes 2 v)
      else if sz = 1 then Some (ucast (ucast v :: u8), le_bytes 1 v)
      else None)"

text \<open>What the decoders do with the value: the field is written also when it does not fit.\<close>

definition store_clamped :: "(u64 \<times> bytes) option \<Rightarrow> u64 \<Rightarrow> nat \<Rightarrow> 's pb_state \<Rightarrow> bool \<times> 's pb_state" where
  "store_clamped c v dest st =
     (case c of
        None \<Rightarrow> st_error ''invalid data_size'' st
      | Some (clamped, bs) \<Rightarrow>
          (let st' = (fst st, store dest bs (snd st))
           in if clamped \<noteq> v then st_error ''integer too large'' st' else (True, st')))"

definition pb_dec_varint :: "'s pb_decoder" where
  "pb_dec_varint field dest =
     st_read pb_decode_varint (\<lambda>value.
       let svalue = (if pf_data_size field = 8 then value else scast (ucast value :: u32))
       in store_clamped (clamp_signed (pf_data_size field) svalue) svalue dest)"

definition pb_dec_uvarint :: "'s pb_decoder" where
  "pb_dec_uvarint field dest =
     st_read pb_decode_varint (\<lambda>value. store_clamped (clamp_unsigned (pf_data_size field) value) value dest)"

definition pb_dec_svarint :: "'s pb_decoder" where
  "pb_dec_svarint field dest =
     st_read pb_decode_svarint (\<lambda>value. store_clamped (clamp_signed (pf_data_size field) value) value dest)"

definition pb_dec_fixed32 :: "'s pb_decoder" where
  "pb_dec_fixed32 field dest = st_read pb_decode_fixed32 (\<lambda>v (s, m). (True, s, store dest (le_bytes 4 v) m))"

definition pb_dec_fixed64 :: "'s pb_decoder" where
  "pb_dec_fixed64 field dest = st_read pb_decode_fixed64 (\<lambda>v (s, m). (True, s, store dest (le_bytes 8 v) m))"

definition pb_dec_bytes :: "(nat \<Rightarrow> nat \<Rightarrow> mem \<Rightarrow> nat \<times> mem) \<Rightarrow> 's pb_decoder" where
  "pb_dec_bytes realloc field dest =
     st_read pb_decode_varint32 (\<lambda>sz st.
       let alloc_size = PB_BYTES_ARRAY_T_ALLOCSIZE sz;
           fill = (\<lambda>bdest (s, m). st_read (pb_read (unat sz)) (\<lambda>bs (s, m). (True, s, store (bdest + 4) bs m))
                                    (s, store bdest (le_bytes 4 sz) m))
       in if sz > PB_SIZE_MAX then st_error ''bytes overflow'' st
          else if unat sz > alloc_size then st_error ''size too large'' st
          else if PB_ATYPE (pf_type field) = PB_ATYPE_POINTER then
            (case allocate_field realloc dest alloc_size 1 st of
               (False, st') \<Rightarrow> (False, st')
             | (True, st') \<Rightarrow> fill (load_ptr (snd st') dest) st')
          else if alloc_size > unat (pf_data_size field) then st_error ''bytes overflow'' st
          else fill dest st)"

text \<open>\<open>size + 1\<close> is an addition of 32-bit words.  The terminator is written even if reading fails.\<close>

definition pb_dec_string :: "(nat \<Rightarrow> nat \<Rightarrow> mem \<Rightarrow> nat \<times> mem) \<Rightarrow> 's pb_decoder" where
  "pb_dec_string realloc field dest =
     st_read pb_decode_varint32 (\<lambda>sz st.
       let alloc_size = unat (sz + 1);
           fill = (\<lambda>dest (s, m).
             (case pb_read (unat sz) s of
                (None, s') \<Rightarrow> (False, s', store (dest + unat sz) [0] m)
              | (Some bs, s') \<Rightarrow> (True, s', store (dest + unat sz) [0] (store dest bs m))))
       in if alloc_size < unat sz then st_error ''size too large'' st
          else if PB_ATYPE (pf_type field) = PB_ATYPE_POINTER then
            (case allocate_field realloc dest alloc_size 1 st of
               (False, st') \<Rightarrow> (False, st')
             | (True, st') \<Rightarrow> fill (load_ptr (snd st') dest) st')
          else if alloc_size > unat (pf_data_size field) then st_error ''string overflow'' st
          else fill dest st)"

definition pb_dec_fixed_length_bytes :: "'s pb_decoder" where
  "pb_dec_fixed_length_bytes field dest =
     st_read pb_decode_varint32 (\<lambda>sz st.
       if sz > PB_SIZE_MAX then st_error ''bytes overflow'' st
       else if sz = 0 then (True, fst st, store dest (replicate (unat (pf_data_size field)) 0) (snd st))
       else if sz \<noteq> pf_data_size field then st_error ''incorrect fixed length bytes size'' st
       else st_read (pb_read (unat (pf_data_size field))) (\<lambda>bs (s, m). (True, s, store dest bs m)) st)"

text \<open>\<open>decode\<close> and \<open>decode_noinit\<close> are \<open>pb_decode\<close> and \<open>pb_decode_noinit\<close> on the descriptors at an address.\<close>

definition pb_dec_submessage ::
    "(nat \<Rightarrow> nat \<Rightarrow> 's pb_state \<Rightarrow> bool \<times> 's pb_state) \<Rightarrow> (nat \<Rightarrow> nat \<Rightarrow> 's pb_state \<Rightarrow> bool \<times> 's pb_state) \<Rightarrow> 's pb_decoder" where
  "pb_dec_submessage decode decode_noinit field dest =
     st_read pb_make_string_substream (\<lambda>sub st.
       if pf_ptr field = 0 then st_error ''invalid field descriptor'' st
       else
         (case (if PB_HTYPE (pf_type field) = PB_HTYPE_REPEATED then decode (pf_ptr field) dest (sub, snd st)
                else decode_noinit (pf_ptr field) dest (sub, snd st)) of
            (status, sub', m) \<Rightarrow>
              (case pb_close_string_substream sub' (fst st) of
                 (None, s') \<Rightarrow> (False, s', m)
               | (Some _, s') \<Rightarrow> (status, s', m))))"

definition pb_decode_bool :: "('s, bool) pb_reader" where
  "pb_decode_bool s =
     (case pb_dec_bool PB_LAST_FIELD 0 (s, (\<lambda>_. 0)) of
        (ok, s', m) \<Rightarrow> (if ok then Some (safe_read_bool m 0) else None, s'))"

definition PB_DECODERS ::
    "(nat \<Rightarrow> nat \<Rightarrow> mem \<Rightarrow> nat \<times> mem) \<Rightarrow> 's pb_decoder \<Rightarrow> u8 \<Rightarrow> 's pb_decoder option" where
  "PB_DECODERS realloc dec_submessage lt =
     (if lt = PB_LTYPE_BOOL then Some pb_dec_bool
      else if lt = PB_LTYPE_VARINT then Some pb_dec_varint
      else if lt = PB_LTYPE_UVARINT then Some pb_dec_uvarint
      else if lt = PB_LTYPE_SVARINT then Some pb_dec_svarint
      else if lt = PB_LTYPE_FIXED32 then Some pb_dec_fixed32
      else if lt = PB_LTYPE_FIXED64 then Some pb_dec_fixed64
      else if lt = PB_LTYPE_BYTES then Some (pb_dec_bytes realloc)
      else if lt = PB_LTYPE_STRING then Some (pb_dec_string realloc)
      else if lt = PB_LTYPE_SUBMESSAGE then Some dec_submessage
      else if lt = PB_LTYPE_FIXED_LENGTH_BYTES then Some pb_dec_fixed_length_bytes
      else None)"

section \<open>What a value is written as\<close>

text \<open>Narrow signed integers survive the way through 64 and 32 bits.\<close>

lemma narrow_again:
  fixes w :: "'a::len word"
  assumes "LENGTH('a) \<le> LENGTH('b)" and "LENGTH('b) \<le> 64"
  shows "scast (ucast (scast w :: u64) :: 'b::len word) = (scast w :: u64)"
  using assms by (intro bit_word_eqI) (auto simp: bit_simps min_def)

lemma narrow_unsigned:
  fixes w :: "'a::len word"
  assumes "LENGTH('a) \<le> LENGTH('b)" and "LENGTH('b) \<le> 64"
  shows "ucast (ucast (ucast w :: u64) :: 'b::len word) = (ucast w :: u64)"
  using assms by (intro bit_word_eqI) (auto simp: bit_simps dest: bit_imp_le_length)

lemma le_bytes_narrow:
  fixes v :: u64 and w :: "'a::len word"
  assumes "ucast v = w" and "256 ^ n = (2::nat) ^ LENGTH('a)"
  shows "le_bytes n v = le_bytes n w"
proof -
  have "unat w = unat v mod 256 ^ n" using assms by (auto simp: unat_ucast)
  then show ?thesis by (intro le_nat_inj) (simp_all add: le_nat_le_bytes)
qed

lemma ucast_scast_id:
  fixes w :: "'a::len word"
  assumes "LENGTH('a) \<le> 64"
  shows "ucast (scast w :: u64) = w"
  using assms by (intro bit_word_eqI) (auto simp: bit_simps)

lemma ucast_ucast_id:
  fixes w :: "'a::len word"
  assumes "LENGTH('a) \<le> 64"
  shows "ucast (ucast w :: u64) = w"
  using assms by (intro bit_word_eqI) (auto simp: bit_simps dest: bit_imp_le_length)

lemma le_bytes_load:
  "le_bytes 1 (load_word m a 1 :: u8) = load m a 1" "le_bytes 2 (load_word m a 2 :: u16) = load m a 2"
  "le_bytes 4 (load_word m a 4 :: u32) = load m a 4" "le_bytes 8 (load_word m a 8 :: u64) = load m a 8"
  by (rule le_bytes_load_word [OF order_refl], simp)+

lemma le_bytes_extended:
  fixes w :: "'a::len word"
  assumes "256 ^ n = (2::nat) ^ LENGTH('a)" and "LENGTH('a) \<le> 64"
  shows "le_bytes n (scast w :: u64) = le_bytes n w" and "le_bytes n (ucast w :: u64) = le_bytes n w"
  using le_bytes_narrow [OF ucast_scast_id [OF assms(2)] assms(1)]
    le_bytes_narrow [OF ucast_ucast_id [OF assms(2)] assms(1)] by auto

lemma le_bytes_loaded:
  "le_bytes 1 (scast (load_word m a 1 :: u8) :: u64) = load m a 1"
  "le_bytes 2 (scast (load_word m a 2 :: u16) :: u64) = load m a 2"
  "le_bytes 4 (scast (load_word m a 4 :: u32) :: u64) = load m a 4"
  "le_bytes 1 (ucast (load_word m a 1 :: u8) :: u64) = load m a 1"
  "le_bytes 2 (ucast (load_word m a 2 :: u16) :: u64) = load m a 2"
  "le_bytes 4 (ucast (load_word m a 4 :: u32) :: u64) = load m a 4"
  by (subst le_bytes_extended; simp add: le_bytes_load [simplified])+

lemma clamp_signed_loaded:
  assumes "load_signed m a sz = Some v"
  shows "clamp_signed sz v = Some (v, load m a (unat sz))"
    and "(if sz = 8 then v else scast (ucast v :: u32)) = v"
proof -
  consider "sz = 1" "v = scast (load_word m a 1 :: u8)" | "sz = 2" "v = scast (load_word m a 2 :: u16)"
    | "sz = 4" "v = scast (load_word m a 4 :: u32)" | "sz = 8" "v = load_word m a 8"
    using assms by (auto simp: load_signed_def split: if_splits)
  then have "clamp_signed sz v = Some (v, load m a (unat sz)) \<and> (if sz = 8 then v else scast (ucast v :: u32)) = v"
    by cases (simp_all add: clamp_signed_def narrow_again le_bytes_loaded [simplified] le_bytes_load [simplified])
  then show "clamp_signed sz v = Some (v, load m a (unat sz))"
    and "(if sz = 8 then v else scast (ucast v :: u32)) = v" by blast+
qed

lemma clamp_unsigned_loaded:
  assumes "load_unsigned m a sz = Some v"
  shows "clamp_unsigned sz v = Some (v, load m a (unat sz))"
proof -
  consider "sz = 1" "v = ucast (load_word m a 1 :: u8)" | "sz = 2" "v = ucast (load_word m a 2 :: u16)"
    | "sz = 4" "v = ucast (load_word m a 4 :: u32)" | "sz = 8" "v = load_word m a 8"
    using assms by (auto simp: load_unsigned_def split: if_splits)
  then show ?thesis
    by cases (simp_all add: clamp_unsigned_def narrow_unsigned le_bytes_loaded [simplified] le_bytes_load [simplified])
qed

section \<open>Specification of the values\<close>

text \<open>
  The encoding of the value of a field, from the definition of the format: \<open>None\<close> when the
  descriptor or the value does not allow one.  \<open>sub\<close> is the body of the submessage.
\<close>

definition length_delimited :: "bytes \<Rightarrow> bytes" where
  "length_delimited bs = varint (length bs) @ bs"

definition value_bytes :: "bytes option \<Rightarrow> mem \<Rightarrow> pb_field \<Rightarrow> nat \<Rightarrow> bytes option" where
  "value_bytes sub m field src =
     (let lt = PB_LTYPE (pf_type field); atype = PB_ATYPE (pf_type field); n = unat (pf_data_size field)
      in if lt = PB_LTYPE_BOOL then Some (varint (if m src = 0 then 0 else 1))
         else if lt = PB_LTYPE_VARINT then map_option (\<lambda>v. item_bytes (Varint v)) (load_signed m src (pf_data_size field))
         else if lt = PB_LTYPE_UVARINT then map_option (\<lambda>v. item_bytes (Varint v)) (load_unsigned m src (pf_data_size field))
         else if lt = PB_LTYPE_SVARINT then map_option (\<lambda>v. item_bytes (Svarint v)) (load_signed m src (pf_data_size field))
         else if lt = PB_LTYPE_FIXED32 then Some (load m src 4)
         else if lt = PB_LTYPE_FIXED64 then Some (load m src 8)
         else if lt = PB_LTYPE_BYTES then
           (if src = 0 then Some (length_delimited [])
            else let sz = unat (load_word m src 4 :: u32)
                 in if atype = PB_ATYPE_STATIC \<and> sz + 4 > n then None else Some (length_delimited (load m (src + 4) sz)))
         else if lt = PB_LTYPE_STRING then
           (if src = 0 then Some (length_delimited [])
            else Some (length_delimited (load m src
              (string_size m src (if atype = PB_ATYPE_POINTER then size_t_mod - 1 else n)))))
         else if lt = PB_LTYPE_SUBMESSAGE then
           (if pf_ptr field = 0 then None
            else (case sub of None \<Rightarrow> None
                  | Some bs \<Rightarrow> if length bs < size_t_mod then Some (length_delimited bs) else None))
         else if lt = PB_LTYPE_FIXED_LENGTH_BYTES then Some (length_delimited (load m src n))
         else None)"

lemma string_size_le: "string_size m p n \<le> n"
  by (induction m p n rule: string_size.induct) auto

lemma string_size_nonzero: "p \<le> i \<Longrightarrow> i < p + string_size m p n \<Longrightarrow> m i \<noteq> 0"
proof (induction m p n rule: string_size.induct)
  case (2 m p n)
  then show ?case by (cases "i = p") (auto split: if_splits)
qed simp

lemma string_size_end: "string_size m p n < n \<Longrightarrow> m (p + string_size m p n) = 0"
  by (induction m p n rule: string_size.induct) (auto split: if_splits)

context sink
begin

lemma encode_string_delivers:
  assumes "n = length bs" and "n < size_t_mod"
  shows "delivers (pb_encode_string bs n) (length_delimited bs)"
  using write_all_delivers [of "[varint (length bs), bs]"] assms
  by (simp add: pb_encode_string_eq length_delimited_def del: write_all.simps)

lemma value_delivers:
  assumes "PB_ENCODERS encode (PB_LTYPE (pf_type field)) = Some func"
    and "value_bytes sub m field src = Some bs"
    and "\<And>b. sub = Some b \<Longrightarrow> delivers (encode (pf_ptr field) src) b"
  shows "delivers (func m field src) bs"
proof -
  have small: "unat (w :: u32) < size_t_mod" for w
    using unsigned_less [of w, where ?'a = nat] by (simp add: size_t_mod_def)
  have short: "string_size m src n < size_t_mod" if "n < size_t_mod" for n
    using string_size_le [of m src n] that by simp
  have pos: "0 < size_t_mod" by (simp add: size_t_mod_def)
  consider (bool) "PB_LTYPE (pf_type field) = PB_LTYPE_BOOL" "func = pb_enc_bool"
    | (varint) "PB_LTYPE (pf_type field) = PB_LTYPE_VARINT" "func = pb_enc_varint"
    | (uvarint) "PB_LTYPE (pf_type field) = PB_LTYPE_UVARINT" "func = pb_enc_uvarint"
    | (svarint) "PB_LTYPE (pf_type field) = PB_LTYPE_SVARINT" "func = pb_enc_svarint"
    | (fixed32) "PB_LTYPE (pf_type field) = PB_LTYPE_FIXED32" "func = pb_enc_fixed32"
    | (fixed64) "PB_LTYPE (pf_type field) = PB_LTYPE_FIXED64" "func = pb_enc_fixed64"
    | (bytes) "PB_LTYPE (pf_type field) = PB_LTYPE_BYTES" "func = pb_enc_bytes"
    | (string) "PB_LTYPE (pf_type field) = PB_LTYPE_STRING" "func = pb_enc_string"
    | (submessage) "PB_LTYPE (pf_type field) = PB_LTYPE_SUBMESSAGE" "func = pb_enc_submessage encode"
    | (fixed_bytes) "PB_LTYPE (pf_type field) = PB_LTYPE_FIXED_LENGTH_BYTES" "func = pb_enc_fixed_length_bytes"
    using assms(1) by (auto simp: PB_ENCODERS_def split: if_splits)
  then show ?thesis
  proof cases
    case bool
    then show ?thesis
      using assms(2) encode_varint_delivers [of "if m src = 0 then 0 else 1"]
      by (auto simp: value_bytes_def pb_enc_bool_def safe_read_bool_def split: if_splits)
  next
    case varint
    then show ?thesis
      using assms(2) encode_varint_delivers by (auto simp: value_bytes_def pb_enc_varint_def pb_types)
  next
    case uvarint
    then show ?thesis
      using assms(2) encode_varint_delivers by (auto simp: value_bytes_def pb_enc_uvarint_def pb_types)
  next
    case svarint
    then show ?thesis
      using assms(2) put_item_delivers [of "Svarint v" for v]
      by (auto simp: value_bytes_def pb_enc_svarint_def pb_types simp del: item_bytes.simps)
  next
    case fixed32
    then show ?thesis
      using assms(2) put_item_delivers [of "Fixed32 (load_word m src 4)"]
      by (simp add: value_bytes_def pb_enc_fixed32_def pb_types le_bytes_load)
  next
    case fixed64
    then show ?thesis
      using assms(2) put_item_delivers [of "Fixed64 (load_word m src 8)"]
      by (simp add: value_bytes_def pb_enc_fixed64_def pb_types le_bytes_load)
  next
    case bytes
    then show ?thesis
      using assms(2) encode_string_delivers [OF _ small, where bs = "load m (src + 4) (unat (load_word m src 4 :: u32))"]
        encode_string_delivers [OF _ pos, where bs = "[]"]
      by (auto simp: value_bytes_def pb_enc_bytes_def pb_types PB_BYTES_ARRAY_T_ALLOCSIZE_def Let_def split: if_splits)
  next
    case string
    define n where "n = (if PB_ATYPE (pf_type field) = PB_ATYPE_POINTER then size_t_mod - 1 else unat (pf_data_size field))"
    have "n < size_t_mod" using small pos by (simp add: n_def)
    then show ?thesis
      using string assms(2) encode_string_delivers [OF _ short [of n], where bs = "load m src (string_size m src n)"]
        encode_string_delivers [OF _ pos, where bs = "[]"]
      by (auto simp: value_bytes_def pb_enc_string_def pb_types n_def [symmetric, unfolded pb_types] Let_def split: if_splits)
  next
    case submessage
    then show ?thesis
      using assms(2,3) submessage_delivers
      by (auto simp: value_bytes_def pb_enc_submessage_def pb_types length_delimited_def split: if_splits option.splits)
  next
    case fixed_bytes
    then show ?thesis
      using assms(2) encode_string_delivers [OF _ small, where bs = "load m src (unat (pf_data_size field))"]
      by (simp add: value_bytes_def pb_enc_fixed_length_bytes_def pb_types)
  qed
qed

end

section \<open>Values read back\<close>

text \<open>
  The scalar values a statically allocated field can hold, and the bytes they occupy in the
  structure: strings with their terminator, byte arrays with their size.
\<close>

definition value_ok :: "mem \<Rightarrow> pb_field \<Rightarrow> nat \<Rightarrow> bool" where
  "value_ok m field src \<longleftrightarrow>
     (let lt = PB_LTYPE (pf_type field)
      in PB_ATYPE (pf_type field) = PB_ATYPE_STATIC \<and> lt \<noteq> PB_LTYPE_SUBMESSAGE \<and>
         (lt = PB_LTYPE_BYTES \<longrightarrow> src \<noteq> 0) \<and>
         (lt = PB_LTYPE_STRING \<longrightarrow> src \<noteq> 0 \<and> string_size m src (unat (pf_data_size field)) < unat (pf_data_size field)) \<and>
         (lt = PB_LTYPE_FIXED_LENGTH_BYTES \<longrightarrow> pf_data_size field \<noteq> 0))"

definition value_image :: "mem \<Rightarrow> pb_field \<Rightarrow> nat \<Rightarrow> bytes" where
  "value_image m field src =
     (let lt = PB_LTYPE (pf_type field); n = unat (pf_data_size field)
      in if lt = PB_LTYPE_BOOL then [if m src = 0 then 0 else 1]
         else if lt = PB_LTYPE_FIXED32 then load m src 4
         else if lt = PB_LTYPE_FIXED64 then load m src 8
         else if lt = PB_LTYPE_BYTES then load m src (4 + unat (load_word m src 4 :: u32))
         else if lt = PB_LTYPE_STRING then load m src (Suc (string_size m src n))
         else load m src n)"

context feed
begin

definition reads_into :: "('s pb_state \<Rightarrow> bool \<times> 's pb_state) \<Rightarrow> nat \<Rightarrow> bytes \<Rightarrow> bytes \<Rightarrow> bool" where
  "reads_into dec dest img bs \<longleftrightarrow> (\<forall>s r beyond m. feeds s (bs @ r) beyond \<longrightarrow>
     (\<exists>s'. dec (s, m) = (True, s', store dest img m) \<and> feeds s' r beyond))"

lemma st_read_into:
  assumes "reads rd x as" and "reads_into (f x) dest img bs"
  shows "reads_into (st_read rd f) dest img (as @ bs)"
  unfolding reads_into_def
proof (intro allI impI)
  fix s r beyond m
  assume "feeds s ((as @ bs) @ r) beyond"
  then have "feeds s (as @ bs @ r) beyond" by simp
  then obtain s1 where s1: "rd s = (Some x, s1)" "feeds s1 (bs @ r) beyond" by (rule readsD [OF assms(1)])
  with assms(2) obtain s2 where "f x (s1, m) = (True, s2, store dest img m)" "feeds s2 r beyond"
    unfolding reads_into_def by blast
  then show "\<exists>s'. st_read rd f (s, m) = (True, s', store dest img m) \<and> feeds s' r beyond"
    using s1 by (simp add: st_read_def)
qed

lemma store_into: "reads_into (\<lambda>(s, m). (True, s, store dest img m)) dest img []"
  by (simp add: reads_into_def)

lemma clamped_into: "c = Some (v, img) \<Longrightarrow> reads_into (store_clamped c v dest) dest img []"
  by (simp add: reads_into_def store_clamped_def)

lemma st_read_store:
  assumes "reads rd x bs" and "reads_into (f x) dest img []"
  shows "reads_into (st_read rd f) dest img bs"
  using st_read_into [of rd x bs f dest img "[]"] assms by simp

lemma varint_into: "reads_into (f v) dest img [] \<Longrightarrow> reads_into (st_read pb_decode_varint f) dest img (varint (unat v))"
  using st_read_store [OF decode_varint_reads [of "unat v"], of f dest img] unsigned_less [of v, where ?'a = nat] by simp

lemma delimited_feeds:
  assumes "feeds s (length_delimited bs @ r) beyond" and "length bs = unat (sz :: u32)"
  obtains s1 s2 where "pb_decode_varint32 s = (Some sz, s1)" and "pb_read (unat sz) s1 = (Some bs, s2)"
    and "feeds s2 r beyond"
proof -
  have lt: "length bs < 2 ^ 32" using unsigned_less [of sz, where ?'a = nat] assms(2) by simp
  have "feeds s (varint (length bs) @ bs @ r) beyond" using assms(1) by (simp add: length_delimited_def)
  then obtain s1 where s1: "pb_decode_varint32 s = (Some (word_of_nat (length bs)), s1)" "feeds s1 (bs @ r) beyond"
    by (rule readsD [OF decode_varint32_reads [OF lt]])
  from s1(2) obtain s2 where "pb_read (length bs) s1 = (Some bs, s2)" "feeds s2 r beyond"
    by (rule readsD [OF read_reads])
  then show ?thesis using s1(1) assms(2) by (intro that [of s1 s2]) simp_all
qed

lemma value_into:
  assumes "value_bytes None m field src = Some bs" and "value_ok m field src"
  shows "\<exists>dec. PB_DECODERS realloc subm (PB_LTYPE (pf_type field)) = Some dec \<and>
    reads_into (dec field dest) dest (value_image m field src) bs"
proof -
  let ?n = "pf_data_size field"
  note ok = assms(2) [unfolded value_ok_def Let_def]
  consider (bool) "PB_LTYPE (pf_type field) = PB_LTYPE_BOOL"
    | (varint) "PB_LTYPE (pf_type field) = PB_LTYPE_VARINT"
    | (uvarint) "PB_LTYPE (pf_type field) = PB_LTYPE_UVARINT"
    | (svarint) "PB_LTYPE (pf_type field) = PB_LTYPE_SVARINT"
    | (fixed32) "PB_LTYPE (pf_type field) = PB_LTYPE_FIXED32"
    | (fixed64) "PB_LTYPE (pf_type field) = PB_LTYPE_FIXED64"
    | (bytes) "PB_LTYPE (pf_type field) = PB_LTYPE_BYTES"
    | (string) "PB_LTYPE (pf_type field) = PB_LTYPE_STRING"
    | (fixed_bytes) "PB_LTYPE (pf_type field) = PB_LTYPE_FIXED_LENGTH_BYTES"
    using assms by (auto simp: value_bytes_def value_ok_def Let_def split: if_splits)
  then show ?thesis
  proof cases
    case bool
    have "reads_into (pb_dec_bool field dest) dest [if m src = 0 then 0 else 1] (varint (if m src = 0 then 0 else 1))"
      unfolding pb_dec_bool_def by (rule st_read_store [OF decode_varint32_reads]) (auto simp: reads_into_def)
    then show ?thesis using bool assms(1)
      by (auto simp: PB_DECODERS_def value_bytes_def value_image_def Let_def)
  next
    case varint
    then obtain v where v: "load_signed m src ?n = Some v" "bs = varint (unat v)"
      using assms(1) by (auto simp: value_bytes_def Let_def pb_types)
    have "reads_into (pb_dec_varint field dest) dest (load m src (unat ?n)) bs"
      unfolding pb_dec_varint_def v(2) Let_def
      by (rule varint_into) (simp only: clamp_signed_loaded(2) [OF v(1)] clamped_into [OF clamp_signed_loaded(1) [OF v(1)]])
    then show ?thesis using varint by (auto simp: PB_DECODERS_def value_image_def Let_def pb_types)
  next
    case uvarint
    then obtain v where v: "load_unsigned m src ?n = Some v" "bs = varint (unat v)"
      using assms(1) by (auto simp: value_bytes_def Let_def pb_types)
    have "reads_into (pb_dec_uvarint field dest) dest (load m src (unat ?n)) bs"
      unfolding pb_dec_uvarint_def v(2) by (rule varint_into) (rule clamped_into [OF clamp_unsigned_loaded [OF v(1)]])
    then show ?thesis using uvarint by (auto simp: PB_DECODERS_def value_image_def Let_def pb_types)
  next
    case svarint
    then obtain v where v: "load_signed m src ?n = Some v" "bs = item_bytes (Svarint v)"
      using assms(1) by (auto simp: value_bytes_def Let_def pb_types)
    have "reads_into (pb_dec_svarint field dest) dest (load m src (unat ?n)) bs"
      unfolding pb_dec_svarint_def v(2) item_bytes.simps
      by (rule st_read_store [OF decode_svarint_reads]) (rule clamped_into [OF clamp_signed_loaded(1) [OF v(1)]])
    then show ?thesis using svarint by (auto simp: PB_DECODERS_def value_image_def Let_def pb_types)
  next
    case fixed32
    have "reads_into (pb_dec_fixed32 field dest) dest (le_bytes 4 (load_word m src 4 :: u32)) (le_bytes 4 (load_word m src 4 :: u32))"
      unfolding pb_dec_fixed32_def by (rule st_read_store [OF decode_fixed32_reads store_into])
    then show ?thesis using fixed32 assms(1)
      by (auto simp: PB_DECODERS_def value_bytes_def value_image_def Let_def pb_types le_bytes_load)
  next
    case fixed64
    have "reads_into (pb_dec_fixed64 field dest) dest (le_bytes 8 (load_word m src 8 :: u64)) (le_bytes 8 (load_word m src 8 :: u64))"
      unfolding pb_dec_fixed64_def by (rule st_read_store [OF decode_fixed64_reads store_into])
    then show ?thesis using fixed64 assms(1)
      by (auto simp: PB_DECODERS_def value_bytes_def value_image_def Let_def pb_types le_bytes_load)
  next
    case bytes
    define sz where "sz = (load_word m src 4 :: u32)"
    have bs: "bs = length_delimited (load m (src + 4) (unat sz))" "unat sz + 4 \<le> unat ?n"
      using bytes assms(1) ok by (auto simp: value_bytes_def Let_def pb_types sz_def split: if_splits)
    have img: "load m src (4 + unat sz) = le_bytes 4 sz @ load m (src + 4) (unat sz)"
      by (simp add: load_append sz_def le_bytes_load)
    have "reads_into (pb_dec_bytes realloc field dest) dest (load m src (4 + unat sz)) bs"
      unfolding reads_into_def bs(1) img
    proof (intro allI impI)
      fix s r beyond m'
      assume "feeds s (length_delimited (load m (src + 4) (unat sz)) @ r) beyond"
      then obtain s1 s2 where "pb_decode_varint32 s = (Some sz, s1)"
          "pb_read (unat sz) s1 = (Some (load m (src + 4) (unat sz)), s2)" "feeds s2 r beyond"
        by (rule delimited_feeds) simp
      moreover have "\<not> sz > PB_SIZE_MAX" using unsigned_less [of sz, where ?'a = nat] by (simp add: PB_SIZE_MAX_def word_less_nat_alt)
      ultimately show "\<exists>s'. pb_dec_bytes realloc field dest (s, m') =
          (True, s', store dest (le_bytes 4 sz @ load m (src + 4) (unat sz)) m') \<and> feeds s' r beyond"
        using bs(2) ok by (simp add: pb_dec_bytes_def st_read_def Let_def PB_BYTES_ARRAY_T_ALLOCSIZE_def pb_types store_behind)
    qed
    then show ?thesis using bytes by (auto simp: PB_DECODERS_def value_image_def Let_def pb_types sz_def)
  next
    case string
    define n where "n = string_size m src (unat ?n)"
    define sz :: u32 where "sz = word_of_nat n"
    have n: "src \<noteq> 0" "n < unat ?n" using string ok by (auto simp: n_def)
    then have sz: "unat sz = n" unfolding sz_def using unsigned_less [of ?n, where ?'a = nat]
      by (intro unat_word_of_nat_small) simp
    have "unat (sz + 1) = n + 1" using sz n(2) unsigned_less [of ?n, where ?'a = nat]
      by (simp add: unat_word_ariths)
    moreover have bs: "bs = length_delimited (load m src n)"
      using string assms(1) ok n by (auto simp: value_bytes_def Let_def pb_types n_def split: if_splits)
    moreover have img: "load m src (Suc n) = load m src n @ [0]"
      using string_size_end [of m src "unat ?n"] n(2) by (simp add: load_snoc n_def)
    ultimately have "reads_into (pb_dec_string realloc field dest) dest (load m src (Suc n)) bs"
      unfolding reads_into_def bs img
    proof (intro allI impI)
      fix s r beyond m'
      assume *: "unat (sz + 1) = n + 1"
      assume "feeds s (length_delimited (load m src n) @ r) beyond"
      then obtain s1 s2 where "pb_decode_varint32 s = (Some sz, s1)"
          "pb_read (unat sz) s1 = (Some (load m src n), s2)" "feeds s2 r beyond"
        using delimited_feeds [of s "load m src n" r beyond sz] sz by auto
      then show "\<exists>s'. pb_dec_string realloc field dest (s, m') = (True, s', store dest (load m src n @ [0]) m') \<and> feeds s' r beyond"
        using n ok sz * by (simp add: pb_dec_string_def st_read_def Let_def pb_types store_behind)
    qed
    then show ?thesis using string by (auto simp: PB_DECODERS_def value_image_def Let_def pb_types n_def)
  next
    case fixed_bytes
    then have bs: "bs = length_delimited (load m src (unat ?n))" "?n \<noteq> 0"
      using assms(1) ok by (auto simp: value_bytes_def Let_def pb_types)
    have "reads_into (pb_dec_fixed_length_bytes field dest) dest (load m src (unat ?n)) bs"
      unfolding reads_into_def bs(1)
    proof (intro allI impI)
      fix s r beyond m'
      assume "feeds s (length_delimited (load m src (unat ?n)) @ r) beyond"
      then obtain s1 s2 where "pb_decode_varint32 s = (Some ?n, s1)"
          "pb_read (unat ?n) s1 = (Some (load m src (unat ?n)), s2)" "feeds s2 r beyond"
        by (rule delimited_feeds) simp
      moreover have "\<not> ?n > PB_SIZE_MAX" using unsigned_less [of ?n, where ?'a = nat] by (simp add: PB_SIZE_MAX_def word_less_nat_alt)
      ultimately show "\<exists>s'. pb_dec_fixed_length_bytes field dest (s, m') =
          (True, s', store dest (load m src (unat ?n)) m') \<and> feeds s' r beyond"
        using bs(2) by (simp add: pb_dec_fixed_length_bytes_def st_read_def)
    qed
    then show ?thesis using fixed_bytes by (auto simp: PB_DECODERS_def value_image_def Let_def pb_types)
  qed
qed

end

text \<open>A number that is read leaves no error message.\<close>

lemma readbyte_errmsg: "pb_readbyte s = (Some b, s') \<Longrightarrow> is_errmsg s' = is_errmsg s"
  by (auto simp: pb_readbyte_def is_error_def split: if_splits prod.splits option.splits)

lemma varint64_loop_errmsg: "varint64_loop p acc s = (Some x, s') \<Longrightarrow> is_errmsg s' = is_errmsg s"
proof (induction p acc s rule: varint64_loop.induct)
  case (1 p acc s)
  show ?case
  proof (cases "pb_readbyte s")
    case (Pair b s1)
    then show ?thesis using 1 readbyte_errmsg [of s _ s1]
      by (subst (asm) (2) varint64_loop.simps)
        (cases b, auto simp: is_error_def Let_def split: if_splits)
  qed
qed

lemma narrow_eq_iff:
  assumes "LENGTH('b) \<le> 64"
  shows "(ucast (ucast v :: 'b::len word) :: u64) = v \<longleftrightarrow> unat v < 2 ^ LENGTH('b)"
proof -
  have "unat (ucast (ucast v :: 'b word) :: u64) = unat v mod 2 ^ LENGTH('b)"
    by (subst unat_ucast_up) (use assms in \<open>simp_all add: unat_ucast\<close>)
  then show ?thesis by (metis mod_less mod_less_divisor word_unat_eq_iff zero_less_numeral zero_less_power)
qed

lemma clamp_unsigned_eq:
  assumes "n \<in> {1, 2, 4, 8}"
  shows "\<exists>c. clamp_unsigned (word_of_nat n) v = Some (c, le_bytes n v) \<and> (c = v \<longleftrightarrow> unat v < 256 ^ n)"
proof -
  have "unat v < 256 ^ 8" using unsigned_less [of v, where ?'a = nat] by simp
  then show ?thesis
    using assms narrow_eq_iff [where 'b = 8] narrow_eq_iff [where 'b = 16] narrow_eq_iff [where 'b = 32]
    by (auto simp: clamp_unsigned_def)
qed

section \<open>Properties\<close>

text \<open>
  C19: A scalar value that the encoder of its type takes from a structure and writes to a
  buffer is put by the decoder of the type into another structure as it was: integers of every
  width and sign, fixed numbers, byte arrays with their size, strings with their terminator.
  No other byte of the memory changes.
\<close>

theorem value_round_trip:
  assumes "value_bytes None m field src = Some bs" and "value_ok m field src"
    and "length bs \<le> length buf" and "length buf < 2 ^ 64"
  shows "\<exists>enc dec s s'. PB_ENCODERS encode (PB_LTYPE (pf_type field)) = Some enc \<and>
    PB_DECODERS realloc subm (PB_LTYPE (pf_type field)) = Some dec \<and>
    enc m field src (pb_ostream_from_buffer buf (length buf)) = (True, s) \<and>
    dec field dest (pb_istream_from_buffer (fst (os_state s)) (bytes_written s) :: 's pb_istream, m') =
      (True, s', store dest (value_image m field src) m') \<and> bytes_left s' = 0"
proof -
  obtain enc where enc: "PB_ENCODERS encode (PB_LTYPE (pf_type field)) = Some enc"
    using assms(1) unfolding PB_ENCODERS_def value_bytes_def by (auto simp: Let_def split: if_splits)
  have "buffer_sink.delivers (enc m field src) bs"
    by (rule buffer_sink.value_delivers [OF enc assms(1)]) simp
  then obtain s out where s: "enc m field src (pb_ostream_from_buffer buf (length buf)) = (True, s)"
      "fst (os_state s) = out" "bytes_written s = length bs" "take (length bs) out = bs" "length bs \<le> length out"
    by (rule delivers_to_buffer [OF _ assms(3,4)])
  obtain dec where dec: "PB_DECODERS realloc subm (PB_LTYPE (pf_type field)) = Some dec"
      "memory_feed.reads_into (dec field dest :: 's pb_state \<Rightarrow> _) dest (value_image m field src) bs"
    using memory_feed.value_into [OF assms(1,2)] by blast
  have "memory_feed.feeds (pb_istream_from_buffer out (length bs) :: 's pb_istream) (bs @ []) (drop (length bs) out)"
    using from_buffer_feeds [OF s(5)] s(4) by simp
  with dec(2) obtain s' where "dec field dest (pb_istream_from_buffer out (length bs), m') =
      (True, s', store dest (value_image m field src) m')" "memory_feed.feeds s' [] (drop (length bs) out)"
    unfolding memory_feed.reads_into_def by blast
  then show ?thesis using enc dec(1) s by (auto simp: memory_feed.feeds_def)
qed

definition sample_field :: pb_field where
  "sample_field = PB_LAST_FIELD\<lparr>pf_tag := 3, pf_type := PB_LTYPE_SVARINT, pf_data_size := 2\<rparr>"

lemma value_round_trip_witness:
  "\<exists>enc dec s s'. PB_ENCODERS (\<lambda>_ _ s. (True, s)) (PB_LTYPE (pf_type sample_field)) = Some enc \<and>
    PB_DECODERS (\<lambda>_ _ m. (0, m)) (\<lambda>_ _ st. (False, st)) (PB_LTYPE (pf_type sample_field)) = Some dec \<and>
    enc (\<lambda>a. if a = 9 then 0xfe else 0xff) sample_field 9 (pb_ostream_from_buffer [0] (length [0 :: u8])) = (True, s) \<and>
    dec sample_field 40 (pb_istream_from_buffer (fst (os_state s)) (bytes_written s) :: unit pb_istream, (\<lambda>_. 0)) =
      (True, s', store 40 (value_image (\<lambda>a. if a = 9 then 0xfe else 0xff) sample_field 9) (\<lambda>_. 0)) \<and> bytes_left s' = 0"
proof (rule value_round_trip)
  show "value_bytes None (\<lambda>a. if a = 9 then 0xfe else 0xff) sample_field 9 = Some [3]"
    by code_simp
  show "value_ok (\<lambda>a. if a = 9 then 0xfe else 0xff) sample_field 9" by code_simp
qed simp_all

text \<open>
  C21: An unsigned field of 1, 2, 4 or 8 bytes takes a decoded number exactly if the number
  fits; otherwise the decoder fails with \<open>integer too large\<close> and never takes a truncated value.
\<close>

theorem uvarint_range_checked:
  assumes "n \<in> {1, 2, 4, 8}" and "v < 2 ^ 64"
  shows "\<exists>s' m'. pb_dec_uvarint (f\<lparr>pf_data_size := word_of_nat n\<rparr>) dest
      (pb_istream_from_buffer (varint v) (length (varint v)) :: 's pb_istream, m) = (v < 256 ^ n, s', m') \<and>
    is_errmsg s' = (if v < 256 ^ n then None else Some ''integer too large'') \<and>
    (v < 256 ^ n \<longrightarrow> load m' dest n = le_bytes n (word_of_nat v :: u64))"
proof -
  let ?s = "pb_istream_from_buffer (varint v) (length (varint v)) :: 's pb_istream" and ?v = "word_of_nat v :: u64"
  have u: "unat ?v = v" by (rule unat_word_of_nat_small) (use assms(2) in simp)
  have "memory_feed.feeds ?s (varint v @ []) []" using from_buffer_feeds [of "length (varint v)" "varint v"] by simp
  then obtain s' where s': "pb_decode_varint ?s = (Some ?v, s')"
    by (rule memory_feed.readsD [OF memory_feed.decode_varint_reads [OF assms(2)]])
  then have err: "is_errmsg s' = None"
    using varint64_loop_errmsg [of 0 0 ?s] by (simp add: pb_decode_varint_def pb_istream_from_buffer_def)
  obtain c where "clamp_unsigned (word_of_nat n) ?v = Some (c, le_bytes n ?v)" "c = ?v \<longleftrightarrow> v < 256 ^ n"
    using clamp_unsigned_eq [OF assms(1), of ?v] u by auto
  then show ?thesis
    using s' err load_store [of dest "le_bytes n ?v" m]
    by (auto simp: pb_dec_uvarint_def st_read_def store_clamped_def st_error_def is_error_def PB_SET_ERROR_def)
qed

lemma uvarint_range_checked_witness:
  "\<exists>s' m'. pb_dec_uvarint (PB_LAST_FIELD\<lparr>pf_data_size := word_of_nat 1\<rparr>) 7
      (pb_istream_from_buffer (varint 300) (length (varint 300)) :: unit pb_istream, \<lambda>_. 0) = (300 < (256 :: nat) ^ 1, s', m') \<and>
    is_errmsg s' = (if 300 < (256 :: nat) ^ 1 then None else Some ''integer too large'') \<and>
    (300 < (256 :: nat) ^ 1 \<longrightarrow> load m' 7 1 = le_bytes 1 (word_of_nat 300 :: u64))"
  by (rule uvarint_range_checked) simp_all

text \<open>
  C20: When \<open>allocate_field\<close> succeeds, the product of the two sizes did not overflow: the block
  asked for is exactly the array, and the field points to what \<open>realloc\<close> returned.
\<close>

theorem allocate_field_exact:
  assumes "allocate_field realloc data data_size array_size (s, m) = (True, s', m')"
    and "data_size < 2 ^ 64" and "array_size < 2 ^ 64"
  shows "0 < data_size * array_size \<and> data_size * array_size < 2 ^ 64 \<and>
    (\<exists>ptr m1. realloc (load_ptr m data) (data_size * array_size) m = (ptr, m1) \<and> ptr \<noteq> 0 \<and> m' = store_ptr data ptr m1)"
proof -
  let ?limit = "(2::nat) ^ 32"
  have pos: "0 < data_size" "0 < array_size"
    and check: "\<not> ((data_size \<ge> ?limit \<or> array_size \<ge> ?limit) \<and> (size_t_mod - 1) div array_size < data_size)"
    using assms(1) by (auto simp: allocate_field_def st_error_def Let_def split: if_splits)
  have less: "data_size * array_size < 2 ^ 64"
  proof (cases "data_size \<ge> ?limit \<or> array_size \<ge> ?limit")
    case True
    then have "data_size \<le> (size_t_mod - 1) div array_size" using check by simp
    then have "data_size * array_size \<le> (size_t_mod - 1) div array_size * array_size" by (rule mult_le_mono1)
    also have "\<dots> \<le> size_t_mod - 1" by (rule div_times_less_eq_dividend)
    also have "\<dots> < 2 ^ 64" by (simp add: size_t_mod_def)
    finally show ?thesis .
  next
    case False
    then have "data_size * array_size < 2 ^ 32 * 2 ^ 32" by (intro mult_strict_mono) simp_all
    then show ?thesis by simp
  qed
  then have "(array_size * data_size) mod size_t_mod = data_size * array_size"
    by (simp add: size_t_mod_def mult.commute)
  then show ?thesis
    using assms(1) pos less check
    by (auto simp: allocate_field_def st_error_def Let_def split: if_splits prod.splits)
qed

lemma allocate_field_exact_witness:
  "0 < 12 * (5 :: nat) \<and> 12 * (5 :: nat) < 2 ^ 64 \<and>
    (\<exists>ptr m1. (\<lambda>p n m. (64 + n, m)) (load_ptr (\<lambda>_. 0) 8) (12 * 5) (\<lambda>_. 0) = (ptr, m1) \<and> ptr \<noteq> 0 \<and>
      store_ptr 8 124 (\<lambda>_. 0) = store_ptr 8 ptr m1)"
  using allocate_field_exact [of "\<lambda>p n m. (64 + n, m)" 8 12 5 "pb_istream_from_buffer [] 0" "\<lambda>_. 0"
      "pb_istream_from_buffer [] 0" "store_ptr 8 124 (\<lambda>_. 0)"]
  by (simp add: allocate_field_def size_t_mod_def)

end
