(* ===== verification/Pb_encode.thy ===== *)
theory Pb_encode
  imports Pb_fields
begin

text \<open>
  Encoding whole messages by their field descriptors (\<open>pb_encode.c\<close>): arrays, optional and
  oneof fields, proto3 defaults, callbacks, extensions and nested messages.
\<close>

section \<open>The environment of the encoder\<close>

text \<open>
  What lies behind the pointers that a message does not own: arrays of descriptors by address,
  the callbacks of the application by the address of the function, and how many extensions of
  a list are followed (a list in memory may be circular).
\<close>

record 's pb_env =
  fields_of :: "nat \<Rightarrow> pb_field list"
  encode_callback :: "nat \<Rightarrow> pb_field \<Rightarrow> nat \<Rightarrow> 's pb_writer"
  ext_encode :: "nat \<Rightarrow> nat \<Rightarrow> 's pb_writer"
  ext_limit :: nat

text \<open>The loop \<open>do ... while (pb_field_iter_next(&iter))\<close>, for a test and for a writer.\<close>

function iter_all :: "(pb_field_iter \<Rightarrow> bool) \<Rightarrow> pb_field_iter \<Rightarrow> bool" where
  "iter_all P it =
     (P it \<and> (case pb_field_iter_next it of (True, it') \<Rightarrow> iter_all P it' | (False, _) \<Rightarrow> True))"
  by pat_completeness auto
termination
  by (relation "measure (\<lambda>(_, it). length (it_start it) - it_pos it)")
    (auto dest!: iter_next_advances [OF sym])

declare iter_all.simps [simp del]

function iter_write :: "(pb_field_iter \<Rightarrow> 's pb_writer) \<Rightarrow> pb_field_iter \<Rightarrow> 's pb_writer" where
  "iter_write body it s =
     (case body it s of
        (False, s') \<Rightarrow> (False, s')
      | (True, s') \<Rightarrow> (case pb_field_iter_next it of (True, it') \<Rightarrow> iter_write body it' s' | (False, _) \<Rightarrow> (True, s')))"
  by pat_completeness auto
termination
  by (relation "measure (\<lambda>(_, it, _). length (it_start it) - it_pos it)")
    (auto dest!: iter_next_advances [OF sym])

declare iter_write.simps [simp del]

section \<open>Fields with an implicit default\<close>

text \<open>\<open>sub\<close> tests a submessage with the descriptors at an address.\<close>

definition check_default_field :: "(nat \<Rightarrow> nat \<Rightarrow> bool) \<Rightarrow> mem \<Rightarrow> pb_field \<Rightarrow> nat \<Rightarrow> bool" where
  "check_default_field sub m field data =
     (let ty = pf_type field; ht = PB_HTYPE ty; at = PB_ATYPE ty; lt = PB_LTYPE ty;
          psize = at_offset data (pf_size_offset field)
      in if ht = PB_HTYPE_REQUIRED then False
         else if ht = PB_HTYPE_REPEATED \<and> pf_size_offset field \<noteq> 0 then load_word m psize 4 = (0 :: u32)
         else if ht = PB_HTYPE_REPEATED \<and> at = PB_ATYPE_STATIC then False
         else if ht = PB_HTYPE_ONEOF then load_word m psize 4 = (0 :: u32)
         else if ht = PB_HTYPE_OPTIONAL \<and> pf_size_offset field \<noteq> 0 then \<not> safe_read_bool m psize
         else if at = PB_ATYPE_STATIC \<and> lt = PB_LTYPE_BYTES then load_word m data 4 = (0 :: u32)
         else if at = PB_ATYPE_STATIC \<and> lt = PB_LTYPE_STRING then m data = 0
         else if at = PB_ATYPE_STATIC \<and> lt = PB_LTYPE_FIXED_LENGTH_BYTES then pf_data_size field = 0
         else if at = PB_ATYPE_STATIC \<and> lt = PB_LTYPE_SUBMESSAGE then sub (pf_ptr field) data
         else if at = PB_ATYPE_POINTER \<and> lt > PB_LTYPE_LAST_PACKABLE then load_ptr m data = 0
         else list_all (\<lambda>b. b = 0) (load m data (unat (pf_data_size field))))"

text \<open>\<open>d\<close> bounds the depth of nested messages.\<close>

primrec pb_check_proto3_default_value :: "nat \<Rightarrow> 's pb_env \<Rightarrow> mem \<Rightarrow> pb_field \<Rightarrow> nat \<Rightarrow> bool" where
  "pb_check_proto3_default_value 0 env m = check_default_field (\<lambda>_ _. True) m"
| "pb_check_proto3_default_value (Suc d) env m =
     check_default_field (\<lambda>ptr data.
       case pb_field_iter_begin (fields_of env ptr) data of
         (ok, it) \<Rightarrow> ok \<longrightarrow> iter_all (\<lambda>it. pb_check_proto3_default_value d env m (it_field it) (pData it)) it) m"

section \<open>Fields\<close>

text \<open>The loops over the \<open>n\<close> items of an array of items of size \<open>sz\<close>, from the address \<open>p\<close> on.\<close>

primrec encode_items :: "(nat \<Rightarrow> 's pb_writer) \<Rightarrow> nat \<Rightarrow> nat \<Rightarrow> nat \<Rightarrow> 's pb_writer" where
  "encode_items w sz p 0 s = (True, s)"
| "encode_items w sz p (Suc n) s =
     (case w p s of (False, s') \<Rightarrow> (False, s') | (True, s') \<Rightarrow> encode_items w sz (p + sz) n s')"

text \<open>\<open>if (!w(stream)) return false;\<close> and the rest.\<close>

definition write_then :: "'s pb_writer \<Rightarrow> 's pb_writer \<Rightarrow> 's pb_writer" where
  "write_then w w' s = (case w s of (False, s') \<Rightarrow> (False, s') | (True, s') \<Rightarrow> w' s')"

definition encode_array :: "mem \<Rightarrow> pb_field \<Rightarrow> nat \<Rightarrow> nat \<Rightarrow> 's pb_encoder \<Rightarrow> 's pb_writer" where
  "encode_array m field data count func s =
     (let lt = PB_LTYPE (pf_type field); at = PB_ATYPE (pf_type field); sz = unat (pf_data_size field)
      in if count = 0 then (True, s)
         else if at \<noteq> PB_ATYPE_POINTER \<and> count > unat (pf_array_size field)
         then os_error ''array max size exceeded'' s
         else if lt \<le> PB_LTYPE_LAST_PACKABLE then
           write_then (pb_encode_tag PB_WT_STRING (pf_tag field)) (\<lambda>s.
             case (if lt = PB_LTYPE_FIXED32 then Some (4 * count)
                   else if lt = PB_LTYPE_FIXED64 then Some (8 * count)
                   else (case encode_items (func m field) sz data count (PB_OSTREAM_SIZING (os_state s)) of
                           (False, _) \<Rightarrow> None | (True, sizestream) \<Rightarrow> Some (bytes_written sizestream))) of
               None \<Rightarrow> (False, s)
             | Some total_sz \<Rightarrow>
                 write_then (pb_encode_varint (word_of_nat total_sz)) (\<lambda>s.
                   if os_callback s = None then pb_write [] total_sz s
                   else encode_items (func m field) sz data count s) s) s
         else
           encode_items (\<lambda>p. write_then (pb_encode_tag_for_field field)
               (if at = PB_ATYPE_POINTER \<and> (lt = PB_LTYPE_STRING \<or> lt = PB_LTYPE_BYTES)
                then func m field (load_ptr m p) else func m field p)) sz data count s)"

text \<open>
  \<open>is_default\<close> is \<open>pb_check_proto3_default_value\<close> and \<open>encode\<close> is \<open>pb_encode\<close> for submessages.  \<open>psize\<close> is
  \<open>None\<close> where \<open>pSize\<close> points to the local \<open>implicit_has\<close>.  The table of encoders has no entry
  for an extension; \<open>null_encoder\<close> stands for the call of the null pointer, which ends the
  program and is not reached from \<open>pb_encode\<close> on well-formed descriptors.
\<close>

definition null_encoder :: "'s pb_encoder" where
  "null_encoder m field src s = (False, s)"

definition encode_basic_field ::
    "(pb_field \<Rightarrow> nat \<Rightarrow> bool) \<Rightarrow> (nat \<Rightarrow> nat \<Rightarrow> 's pb_writer) \<Rightarrow> mem \<Rightarrow> pb_field \<Rightarrow> nat \<Rightarrow> 's pb_writer" where
  "encode_basic_field is_default encode m field data s =
     (let ht = PB_HTYPE (pf_type field);
          pointer = (PB_ATYPE (pf_type field) = PB_ATYPE_POINTER);
          psize = (if pf_size_offset field \<noteq> 0 then Some (at_offset data (pf_size_offset field)) else None);
          implicit0 = (if ht = PB_HTYPE_OPTIONAL then \<not> is_default field data else True);
          data' = (if pointer then load_ptr m data else data);
          implicit_has = (if pointer then data' \<noteq> 0 else implicit0);
          has = (case psize of Some a \<Rightarrow> safe_read_bool m a | None \<Rightarrow> implicit_has);
          func = (case PB_ENCODERS encode (PB_LTYPE (pf_type field)) of Some f \<Rightarrow> f | None \<Rightarrow> null_encoder);
          one = write_then (pb_encode_tag_for_field field) (func m field data')
      in if ht = PB_HTYPE_REQUIRED then
           (if data' = 0 then os_error ''missing required field'' s else one s)
         else if ht = PB_HTYPE_OPTIONAL then (if has then one s else (True, s))
         else if ht = PB_HTYPE_REPEATED then
           encode_array m field data'
             (case psize of Some a \<Rightarrow> unat (load_word m a 4 :: u32) | None \<Rightarrow> unat (pf_array_size field)) func s
         else if ht = PB_HTYPE_ONEOF then
           (case psize of
              Some a \<Rightarrow> if load_word m a 4 = pf_tag field then one s else (True, s)
            | None \<Rightarrow> (True, s))
         else os_error ''invalid field type'' s)"

text \<open>The structure \<open>pb_callback_t\<close> holds the function and, eight bytes on, its argument.\<close>

definition encode_callback_field :: "'s pb_env \<Rightarrow> mem \<Rightarrow> pb_field \<Rightarrow> nat \<Rightarrow> 's pb_writer" where
  "encode_callback_field env m field data s =
     (if load_ptr m data \<noteq> 0 then
        (case encode_callback env (load_ptr m data) field (data + 8) s of
           (False, s') \<Rightarrow> os_error ''callback error'' s'
         | (True, s') \<Rightarrow> (True, s'))
      else (True, s))"

definition encode_field ::
    "'s pb_env \<Rightarrow> (pb_field \<Rightarrow> nat \<Rightarrow> bool) \<Rightarrow> (nat \<Rightarrow> nat \<Rightarrow> 's pb_writer) \<Rightarrow> mem \<Rightarrow> pb_field \<Rightarrow> nat \<Rightarrow> 's pb_writer" where
  "encode_field env is_default encode m field data =
     (let at = PB_ATYPE (pf_type field)
      in if at = PB_ATYPE_STATIC \<or> at = PB_ATYPE_POINTER then encode_basic_field is_default encode m field data
         else if at = PB_ATYPE_CALLBACK then encode_callback_field env m field data
         else os_error ''invalid field type'')"

text \<open>
  An extension is a structure of four members of eight bytes: its type, the value, the next
  extension, and whether it was found.  Its type has the two handlers and the descriptor.
\<close>

definition default_extension_encoder ::
    "'s pb_env \<Rightarrow> (pb_field \<Rightarrow> nat \<Rightarrow> bool) \<Rightarrow> (nat \<Rightarrow> nat \<Rightarrow> 's pb_writer) \<Rightarrow> mem \<Rightarrow> nat \<Rightarrow> 's pb_writer" where
  "default_extension_encoder env is_default encode m ext =
     (let field = field_at (fields_of env (load_ptr m (load_ptr m ext + 16))) 0
      in if PB_ATYPE (pf_type field) = PB_ATYPE_POINTER then encode_field env is_default encode m field (ext + 8)
         else encode_field env is_default encode m field (load_ptr m (ext + 8)))"

primrec encode_extensions ::
    "nat \<Rightarrow> 's pb_env \<Rightarrow> (pb_field \<Rightarrow> nat \<Rightarrow> bool) \<Rightarrow> (nat \<Rightarrow> nat \<Rightarrow> 's pb_writer) \<Rightarrow> mem \<Rightarrow> nat \<Rightarrow> 's pb_writer" where
  "encode_extensions 0 env is_default encode m ext s =
     (if ext = 0 then (True, s) else os_error ''extension list too long'' s)"
| "encode_extensions (Suc n) env is_default encode m ext s =
     (if ext = 0 then (True, s)
      else
        (let handler = load_ptr m (load_ptr m ext + 8)
         in write_then (if handler \<noteq> 0 then ext_encode env handler ext
                        else default_extension_encoder env is_default encode m ext)
              (encode_extensions n env is_default encode m (load_ptr m (ext + 16))) s))"

definition encode_extension_field ::
    "'s pb_env \<Rightarrow> (pb_field \<Rightarrow> nat \<Rightarrow> bool) \<Rightarrow> (nat \<Rightarrow> nat \<Rightarrow> 's pb_writer) \<Rightarrow> mem \<Rightarrow> nat \<Rightarrow> 's pb_writer" where
  "encode_extension_field env is_default encode m data =
     encode_extensions (ext_limit env) env is_default encode m (load_ptr m data)"

section \<open>Messages\<close>

text \<open>\<open>d\<close> bounds the depth of nested messages.\<close>

primrec pb_encode :: "nat \<Rightarrow> 's pb_env \<Rightarrow> mem \<Rightarrow> pb_field list \<Rightarrow> nat \<Rightarrow> 's pb_writer" where
  "pb_encode 0 env m fs src = os_error ''nested too deeply''"
| "pb_encode (Suc d) env m fs src =
     (\<lambda>s. case pb_field_iter_begin fs src of
        (False, it) \<Rightarrow> (True, s)
      | (True, it) \<Rightarrow>
          iter_write (\<lambda>it.
            if PB_LTYPE (pf_type (it_field it)) = PB_LTYPE_EXTENSION
            then encode_extension_field env (pb_check_proto3_default_value d env m)
              (\<lambda>ptr src. pb_encode d env m (fields_of env ptr) src) m (pData it)
            else encode_field env (pb_check_proto3_default_value d env m)
              (\<lambda>ptr src. pb_encode d env m (fields_of env ptr) src) m (it_field it) (pData it)) it s)"

definition pb_encode_delimited :: "nat \<Rightarrow> 's pb_env \<Rightarrow> mem \<Rightarrow> pb_field list \<Rightarrow> nat \<Rightarrow> 's pb_writer" where
  "pb_encode_delimited d env m fs src = pb_encode_submessage (pb_encode d env m fs src)"

definition pb_encode_nullterminated :: "nat \<Rightarrow> 's pb_env \<Rightarrow> mem \<Rightarrow> pb_field list \<Rightarrow> nat \<Rightarrow> 's pb_writer" where
  "pb_encode_nullterminated d env m fs src = write_then (pb_encode d env m fs src) (pb_write [0] 1)"


section \<open>Specification of the encoding of messages\<close>

text \<open>
  What a message is encoded as, as a function of memory alone.  It is not defined where the
  message cannot be encoded, and for extensions; \<open>cb\<close> gives what the callbacks write.
\<close>

definition field_wiretype :: "pb_field \<Rightarrow> u32 option" where
  "field_wiretype field =
     (let lt = PB_LTYPE (pf_type field)
      in if lt \<in> {PB_LTYPE_BOOL, PB_LTYPE_VARINT, PB_LTYPE_UVARINT, PB_LTYPE_SVARINT} then Some PB_WT_VARINT
         else if lt = PB_LTYPE_FIXED32 then Some PB_WT_32BIT
         else if lt = PB_LTYPE_FIXED64 then Some PB_WT_64BIT
         else if lt \<in> {PB_LTYPE_BYTES, PB_LTYPE_STRING, PB_LTYPE_SUBMESSAGE, PB_LTYPE_FIXED_LENGTH_BYTES}
         then Some PB_WT_STRING else None)"

definition key_bytes :: "pb_field \<Rightarrow> u32 \<Rightarrow> bytes" where
  "key_bytes field wt = varint (8 * unat (pf_tag field) + unat wt)"

definition keyed :: "pb_field \<Rightarrow> bytes option \<Rightarrow> bytes option" where
  "keyed field v =
     (case field_wiretype field of None \<Rightarrow> None | Some wt \<Rightarrow> map_option (\<lambda>b. key_bytes field wt @ b) v)"

primrec item_values :: "(nat \<Rightarrow> bytes option) \<Rightarrow> nat \<Rightarrow> nat \<Rightarrow> nat \<Rightarrow> bytes option" where
  "item_values f sz p 0 = Some []"
| "item_values f sz p (Suc n) =
     (case f p of
        None \<Rightarrow> None
      | Some b \<Rightarrow> (case item_values f sz (p + sz) n of None \<Rightarrow> None | Some bs \<Rightarrow> Some (b @ bs)))"

definition array_bytes :: "mem \<Rightarrow> pb_field \<Rightarrow> nat \<Rightarrow> nat \<Rightarrow> (nat \<Rightarrow> bytes option) \<Rightarrow> bytes option" where
  "array_bytes m field data count value =
     (let lt = PB_LTYPE (pf_type field); pointer = (PB_ATYPE (pf_type field) = PB_ATYPE_POINTER);
          sz = unat (pf_data_size field)
      in if count = 0 then Some []
         else if \<not> pointer \<and> count > unat (pf_array_size field) then None
         else if lt \<le> PB_LTYPE_LAST_PACKABLE then
           (case item_values value sz data count of
              None \<Rightarrow> None
            | Some bs \<Rightarrow> if length bs < size_t_mod then Some (key_bytes field PB_WT_STRING @ length_delimited bs) else None)
         else item_values (\<lambda>p. keyed field
                (value (if pointer \<and> (lt = PB_LTYPE_STRING \<or> lt = PB_LTYPE_BYTES) then load_ptr m p else p))) sz data count)"

definition basic_bytes :: "(pb_field \<Rightarrow> nat \<Rightarrow> bool) \<Rightarrow> (nat \<Rightarrow> nat \<Rightarrow> bytes option) \<Rightarrow> mem \<Rightarrow> pb_field \<Rightarrow> nat \<Rightarrow> bytes option" where
  "basic_bytes is_default sub m field data =
     (let ht = PB_HTYPE (pf_type field);
          pointer = (PB_ATYPE (pf_type field) = PB_ATYPE_POINTER);
          own_size = (pf_size_offset field \<noteq> 0); psize = at_offset data (pf_size_offset field);
          data' = (if pointer then load_ptr m data else data);
          value = (\<lambda>p. value_bytes (sub (pf_ptr field) p) m field p)
      in if ht = PB_HTYPE_REQUIRED then (if data' = 0 then None else keyed field (value data'))
         else if ht = PB_HTYPE_OPTIONAL then
           (if (if own_size then m psize \<noteq> 0 else if pointer then data' \<noteq> 0 else \<not> is_default field data)
            then keyed field (value data') else Some [])
         else if ht = PB_HTYPE_REPEATED then
           array_bytes m field data' (if own_size then unat (load_word m psize 4 :: u32) else unat (pf_array_size field)) value
         else if ht = PB_HTYPE_ONEOF then
           (if own_size \<and> load_word m psize 4 = pf_tag field then keyed field (value data') else Some [])
         else None)"

definition any_field_bytes ::
    "(nat \<Rightarrow> pb_field \<Rightarrow> nat \<Rightarrow> bytes option) \<Rightarrow> (pb_field \<Rightarrow> nat \<Rightarrow> bool) \<Rightarrow> (nat \<Rightarrow> nat \<Rightarrow> bytes option) \<Rightarrow>
     mem \<Rightarrow> pb_field \<Rightarrow> nat \<Rightarrow> bytes option" where
  "any_field_bytes cb is_default sub m field data =
     (let at = PB_ATYPE (pf_type field)
      in if PB_LTYPE (pf_type field) = PB_LTYPE_EXTENSION then (if load_ptr m data = 0 then Some [] else None)
         else if at = PB_ATYPE_STATIC \<or> at = PB_ATYPE_POINTER then basic_bytes is_default sub m field data
         else if at = PB_ATYPE_CALLBACK then
           (if load_ptr m data = 0 then Some [] else cb (load_ptr m data) field (data + 8))
         else None)"

function iter_bytes :: "(pb_field_iter \<Rightarrow> bytes option) \<Rightarrow> pb_field_iter \<Rightarrow> bytes option" where
  "iter_bytes f it =
     (case f it of
        None \<Rightarrow> None
      | Some b \<Rightarrow>
          (case pb_field_iter_next it of
             (True, it') \<Rightarrow> (case iter_bytes f it' of None \<Rightarrow> None | Some bs \<Rightarrow> Some (b @ bs))
           | (False, _) \<Rightarrow> Some b))"
  by pat_completeness auto
termination
  by (relation "measure (\<lambda>(_, it). length (it_start it) - it_pos it)")
    (auto dest!: iter_next_advances [OF sym])

declare iter_bytes.simps [simp del]

primrec message_bytes ::
    "nat \<Rightarrow> 's pb_env \<Rightarrow> (nat \<Rightarrow> pb_field \<Rightarrow> nat \<Rightarrow> bytes option) \<Rightarrow> mem \<Rightarrow> pb_field list \<Rightarrow> nat \<Rightarrow> bytes option" where
  "message_bytes 0 env cb m fs src = None"
| "message_bytes (Suc d) env cb m fs src =
     (case pb_field_iter_begin fs src of
        (False, it) \<Rightarrow> Some []
      | (True, it) \<Rightarrow>
          iter_bytes (\<lambda>it. any_field_bytes cb (pb_check_proto3_default_value d env m)
            (\<lambda>ptr src. message_bytes d env cb m (fields_of env ptr) src) m (it_field it) (pData it)) it)"

section \<open>The encoder writes what is specified\<close>

lemma tag_for_field_eq:
  "pb_encode_tag_for_field field =
    (case field_wiretype field of None \<Rightarrow> os_error ''invalid field type'' | Some wt \<Rightarrow> pb_encode_tag wt (pf_tag field))"
  by (simp add: pb_encode_tag_for_field_def field_wiretype_def Let_def)

lemma field_wiretype_cases:
  "field_wiretype field = Some wt \<Longrightarrow> wt \<in> {PB_WT_VARINT, PB_WT_64BIT, PB_WT_STRING, PB_WT_32BIT}"
  unfolding field_wiretype_def Let_def by (simp split: if_split_asm)

lemma wt_small: "unat PB_WT_VARINT < 8" "unat PB_WT_64BIT < 8" "unat PB_WT_STRING < 8" "unat PB_WT_32BIT < 8"
  by (simp_all add: PB_WT_VARINT_def PB_WT_64BIT_def PB_WT_STRING_def PB_WT_32BIT_def)

lemma field_wiretype_small: "field_wiretype field = Some wt \<Longrightarrow> unat wt < 8"
  using field_wiretype_cases [of field wt] wt_small by auto

context sink
begin

lemma nothing_delivers: "delivers (\<lambda>s. (True, s)) []"
  by (auto simp: delivers_def counts_def rejects_def delivered_def ready_def)

lemma write_then_delivers: "delivers w as \<Longrightarrow> delivers w' bs \<Longrightarrow> delivers (write_then w w') (as @ bs)"
  by (rule then_delivers [of w as w' bs]) (simp_all add: write_then_def)

lemma encode_items_delivers:
  "item_values f sz p n = Some bs \<Longrightarrow> (\<And>p b. f p = Some b \<Longrightarrow> delivers (w p) b) \<Longrightarrow> delivers (encode_items w sz p n) bs"
proof (induction n arbitrary: p bs)
  case 0
  then show ?case using nothing_delivers by simp
next
  case (Suc n)
  then obtain b bs' where b: "f p = Some b" "item_values f sz (p + sz) n = Some bs'" "bs = b @ bs'"
    by (auto split: option.splits)
  have "encode_items w sz p (Suc n) = write_then (w p) (encode_items w sz (p + sz) n)"
    by (rule ext) (simp add: write_then_def)
  then show ?case using write_then_delivers [OF Suc.prems(2) [OF b(1)] Suc.IH [OF b(2) Suc.prems(2)]] b(3) by simp
qed

lemma encode_tag_delivers:
  assumes "unat wt < 8"
  shows "delivers (pb_encode_tag wt (pf_tag field)) (key_bytes field wt)"
proof -
  have "unat (pf_tag field) < 2 ^ 32" using unsigned_less [of "pf_tag field", where ?'a = nat] by simp
  then have "unat (push_bit 3 (ucast (pf_tag field)) OR ucast wt :: u64) = 8 * unat (pf_tag field) + unat wt"
    using assms by (subst unat_shift_or) simp_all
  then show ?thesis
    using encode_varint_delivers [of "push_bit 3 (ucast (pf_tag field)) OR ucast wt :: u64"]
    by (simp add: pb_encode_tag_def [abs_def] key_bytes_def)
qed

lemma keyed_delivers:
  assumes "keyed field v = Some bs" and "\<And>b. v = Some b \<Longrightarrow> delivers w b"
  shows "delivers (write_then (pb_encode_tag_for_field field) w) bs"
proof -
  obtain wt b where wt: "field_wiretype field = Some wt" "v = Some b" "bs = key_bytes field wt @ b"
    using assms(1) by (auto simp: keyed_def split: option.splits)
  have "pb_encode_tag_for_field field = (pb_encode_tag wt (pf_tag field) :: 's pb_writer) \<and> unat wt < 8"
    using wt(1) field_wiretype_small tag_for_field_eq [of field] by simp
  then show ?thesis
    using write_then_delivers [OF encode_tag_delivers [of wt field] assms(2) [OF wt(2)]] wt(3) by simp
qed

text \<open>Packed arrays: the size is found first, and on a sizing stream only the size is counted.\<close>

lemma sized_delivers:
  assumes "delivers w bs" and "length bs < size_t_mod"
  shows "delivers (\<lambda>s. if os_callback s = None then pb_write [] (length bs) s else w s) bs"
proof -
  let ?v = "\<lambda>s. if os_callback s = None then pb_write [] (length bs) s else w s"
  have "?v s = w s" if "ready s" for s using that by (simp add: ready_def)
  moreover have "counts ?v (length bs)" by (simp add: counts_def pb_write_def)
  ultimately show ?thesis using assms(1) by (simp add: delivers_def rejects_def)
qed

lemma item_values_length:
  "item_values f sz p n = Some bs \<Longrightarrow> (\<And>p b. f p = Some b \<Longrightarrow> length b = k) \<Longrightarrow> length bs = k * n"
  by (induction n arbitrary: p bs) (auto split: option.splits)

lemma sizing_counts:
  "delivers w bs \<Longrightarrow> length bs < size_t_mod \<Longrightarrow>
   w (PB_OSTREAM_SIZING st) = (True, (PB_OSTREAM_SIZING st)\<lparr>bytes_written := length bs\<rparr>)"
  by (simp add: delivers_def counts_def PB_OSTREAM_SIZING_def size_t_mod_def)

end

context sink
begin

lemma packed_delivers:
  assumes items: "delivers (encode_items (func m field) (unat (pf_data_size field)) data count) bs" and len: "length bs < size_t_mod"
    and fixed: "\<And>k. PB_LTYPE (pf_type field) = PB_LTYPE_FIXED32 \<and> k = 4 \<or> PB_LTYPE (pf_type field) = PB_LTYPE_FIXED64 \<and> k = 8 \<Longrightarrow>
      length bs = k * count"
    and count: "count \<noteq> 0" "PB_ATYPE (pf_type field) = PB_ATYPE_POINTER \<or> count \<le> unat (pf_array_size field)"
    and lt: "PB_LTYPE (pf_type field) \<le> PB_LTYPE_LAST_PACKABLE"
  shows "delivers (encode_array m field data count func) (key_bytes field PB_WT_STRING @ length_delimited bs)"
proof -
  let ?items = "encode_items (func m field) (unat (pf_data_size field)) data count"
  have total: "(if PB_LTYPE (pf_type field) = PB_LTYPE_FIXED32 then Some (4 * count)
      else if PB_LTYPE (pf_type field) = PB_LTYPE_FIXED64 then Some (8 * count)
      else (case ?items (PB_OSTREAM_SIZING (os_state s)) of
              (False, _) \<Rightarrow> None | (True, sizestream) \<Rightarrow> Some (bytes_written sizestream))) = Some (length bs)" for s :: "'s pb_ostream"
    using fixed [of 4] fixed [of 8] sizing_counts [OF items len] by simp
  have n: "unat (word_of_nat (length bs) :: u64) = length bs"
    by (rule unat_word_of_nat_small) (use len in \<open>simp add: size_t_mod_def\<close>)
  have eq: "encode_array m field data count func = write_then (pb_encode_tag PB_WT_STRING (pf_tag field))
      (write_then (pb_encode_varint (word_of_nat (length bs)))
        (\<lambda>s. if os_callback s = None then pb_write [] (length bs) s else ?items s))"
  proof
    fix s
    show "encode_array m field data count func s = write_then (pb_encode_tag PB_WT_STRING (pf_tag field))
      (write_then (pb_encode_varint (word_of_nat (length bs)))
        (\<lambda>s. if os_callback s = None then pb_write [] (length bs) s else ?items s)) s"
      using count lt by (auto simp: encode_array_def Let_def total cong: if_cong)
  qed
  have "delivers (write_then (pb_encode_varint (word_of_nat (length bs)))
        (\<lambda>s. if os_callback s = None then pb_write [] (length bs) s else ?items s)) (varint (length bs) @ bs)"
    using write_then_delivers [OF encode_varint_delivers sized_delivers [OF items len], of "word_of_nat (length bs)"] n by simp
  then show ?thesis unfolding eq length_delimited_def
    by (rule write_then_delivers [OF encode_tag_delivers [OF wt_small(3)]])
qed

lemma array_delivers:
  assumes "array_bytes m field data count value = Some bs"
    and func: "\<And>p b. value p = Some b \<Longrightarrow> delivers (func m field p) b"
    and fixed: "\<And>p b. value p = Some b \<Longrightarrow> (PB_LTYPE (pf_type field) = PB_LTYPE_FIXED32 \<longrightarrow> length b = 4) \<and>
      (PB_LTYPE (pf_type field) = PB_LTYPE_FIXED64 \<longrightarrow> length b = 8)"
  shows "delivers (encode_array m field data count func) bs"
proof -
  let ?sz = "unat (pf_data_size field)" and ?lt = "PB_LTYPE (pf_type field)"
  consider (none) "count = 0" "bs = []"
    | (packed) b where "count \<noteq> 0" "PB_ATYPE (pf_type field) = PB_ATYPE_POINTER \<or> count \<le> unat (pf_array_size field)"
        "?lt \<le> PB_LTYPE_LAST_PACKABLE" "item_values value ?sz data count = Some b" "length b < size_t_mod"
        "bs = key_bytes field PB_WT_STRING @ length_delimited b"
    | (unpacked) "count \<noteq> 0" "PB_ATYPE (pf_type field) = PB_ATYPE_POINTER \<or> count \<le> unat (pf_array_size field)"
        "\<not> ?lt \<le> PB_LTYPE_LAST_PACKABLE"
        "item_values (\<lambda>p. keyed field (value (if PB_ATYPE (pf_type field) = PB_ATYPE_POINTER \<and>
           (?lt = PB_LTYPE_STRING \<or> ?lt = PB_LTYPE_BYTES) then load_ptr m p else p))) ?sz data count = Some bs"
    using assms(1) by (auto simp: array_bytes_def Let_def split: if_splits option.splits)
  then show ?thesis
  proof cases
    case none
    have "encode_array m field data 0 func = (\<lambda>s. (True, s))" by (rule ext) (simp add: encode_array_def)
    then show ?thesis using none nothing_delivers by simp
  next
    case packed
    have "delivers (encode_items (func m field) ?sz data count) b"
      using encode_items_delivers [OF packed(4)] func by blast
    moreover have "length b = k * count" if "?lt = PB_LTYPE_FIXED32 \<and> k = 4 \<or> ?lt = PB_LTYPE_FIXED64 \<and> k = 8" for k
      using item_values_length [OF packed(4), of k] fixed that by blast
    ultimately show ?thesis unfolding packed(6) by (rule packed_delivers [OF _ packed(5) _ packed(1,2,3)])
  next
    case unpacked
    have "encode_array m field data count func =
        encode_items (\<lambda>p. write_then (pb_encode_tag_for_field field)
               (if PB_ATYPE (pf_type field) = PB_ATYPE_POINTER \<and> (?lt = PB_LTYPE_STRING \<or> ?lt = PB_LTYPE_BYTES)
                then func m field (load_ptr m p) else func m field p)) ?sz data count"
      using unpacked(1,2,3) by (intro ext) (auto simp: encode_array_def Let_def)
    moreover have "delivers (write_then (pb_encode_tag_for_field field)
               (if PB_ATYPE (pf_type field) = PB_ATYPE_POINTER \<and> (?lt = PB_LTYPE_STRING \<or> ?lt = PB_LTYPE_BYTES)
                then func m field (load_ptr m p) else func m field p)) b"
      if "keyed field (value (if PB_ATYPE (pf_type field) = PB_ATYPE_POINTER \<and>
           (?lt = PB_LTYPE_STRING \<or> ?lt = PB_LTYPE_BYTES) then load_ptr m p else p)) = Some b" for p b
      using keyed_delivers [OF that] func by (auto split: if_splits)
    ultimately show ?thesis using encode_items_delivers [OF unpacked(4)] by simp
  qed
qed

lemma value_bytes_fixed:
  "value_bytes sub m field p = Some b \<Longrightarrow> (PB_LTYPE (pf_type field) = PB_LTYPE_FIXED32 \<longrightarrow> length b = 4) \<and>
    (PB_LTYPE (pf_type field) = PB_LTYPE_FIXED64 \<longrightarrow> length b = 8)"
  by (auto simp: value_bytes_def pb_types)

lemma value_bytes_encoder:
  "value_bytes sub m field p = Some b \<Longrightarrow> \<exists>func. PB_ENCODERS encode (PB_LTYPE (pf_type field)) = Some func"
  by (auto simp: value_bytes_def PB_ENCODERS_def Let_def split: if_splits)

lemma basic_delivers:
  assumes "basic_bytes is_default sub m field data = Some bs"
    and sub: "\<And>ptr p b. sub ptr p = Some b \<Longrightarrow> delivers (encode ptr p) b"
  shows "delivers (encode_basic_field is_default encode m field data) bs"
proof -
  let ?ht = "PB_HTYPE (pf_type field)" and ?pointer = "PB_ATYPE (pf_type field) = PB_ATYPE_POINTER"
  let ?data = "if ?pointer then load_ptr m data else data" and ?psize = "at_offset data (pf_size_offset field)"
  let ?img = "\<lambda>p. value_bytes (sub (pf_ptr field) p) m field p"
  define func where "func = (case PB_ENCODERS encode (PB_LTYPE (pf_type field)) of Some f \<Rightarrow> f | None \<Rightarrow> null_encoder)"
  let ?one = "write_then (pb_encode_tag_for_field field) (func m field ?data)"
  have val: "delivers (func m field p) b" if v: "?img p = Some b" for p b
  proof -
    obtain f where "PB_ENCODERS encode (PB_LTYPE (pf_type field)) = Some f" using value_bytes_encoder [OF v] by blast
    then show ?thesis using value_delivers [OF _ v sub] by (simp add: func_def)
  qed
  have one: "delivers ?one b" if "keyed field (?img ?data) = Some b" for b
    by (rule keyed_delivers [OF that]) (rule val)
  have array: "delivers (encode_array m field ?data n func) b" if "array_bytes m field ?data n ?img = Some b" for n b
  proof (rule array_delivers [OF that])
    show "delivers (func m field p) b" if "?img p = Some b" for p b using that by (rule val)
    show "(PB_LTYPE (pf_type field) = PB_LTYPE_FIXED32 \<longrightarrow> length b = 4) \<and>
      (PB_LTYPE (pf_type field) = PB_LTYPE_FIXED64 \<longrightarrow> length b = 8)" if "?img p = Some b" for p b
      using that by (rule value_bytes_fixed)
  qed
  note [simp] = PB_HTYPE_REQUIRED_def PB_HTYPE_OPTIONAL_def PB_HTYPE_REPEATED_def PB_HTYPE_ONEOF_def
  consider (required) "?ht = PB_HTYPE_REQUIRED" | (optional) "?ht = PB_HTYPE_OPTIONAL"
    | (repeated) "?ht = PB_HTYPE_REPEATED" | (oneof) "?ht = PB_HTYPE_ONEOF"
    using assms(1) by (auto simp: basic_bytes_def Let_def split: if_splits)
  then show ?thesis
  proof cases
    case required
    then have "encode_basic_field is_default encode m field data = ?one" "keyed field (?img ?data) = Some bs"
      using assms(1) by (auto simp: func_def encode_basic_field_def basic_bytes_def Let_def fun_eq_iff split: if_splits)
    then show ?thesis using one by simp
  next
    case optional
    define has where "has = (if pf_size_offset field \<noteq> 0 then m ?psize \<noteq> 0 else if ?pointer then ?data \<noteq> 0 else \<not> is_default field data)"
    have "encode_basic_field is_default encode m field data = (if has then ?one else (\<lambda>s. (True, s)))"
      using optional by (auto simp: func_def encode_basic_field_def Let_def fun_eq_iff has_def safe_read_bool_def)
    moreover have "(if has then keyed field (?img ?data) else Some []) = Some bs"
      using assms(1) optional by (simp add: basic_bytes_def Let_def has_def)
    ultimately show ?thesis using one nothing_delivers by (cases has) simp_all
  next
    case repeated
    define n where "n = (if pf_size_offset field \<noteq> 0 then unat (load_word m ?psize 4 :: u32) else unat (pf_array_size field))"
    have "encode_basic_field is_default encode m field data = encode_array m field ?data n func"
      using repeated by (auto simp: func_def encode_basic_field_def Let_def fun_eq_iff n_def)
    moreover have "array_bytes m field ?data n ?img = Some bs"
      using assms(1) repeated by (simp add: basic_bytes_def Let_def n_def)
    ultimately show ?thesis using array by simp
  next
    case oneof
    define has where "has = (pf_size_offset field \<noteq> 0 \<and> load_word m ?psize 4 = pf_tag field)"
    have "encode_basic_field is_default encode m field data = (if has then ?one else (\<lambda>s. (True, s)))"
      using oneof by (auto simp: func_def encode_basic_field_def Let_def fun_eq_iff has_def)
    moreover have "(if has then keyed field (?img ?data) else Some []) = Some bs"
      using assms(1) oneof by (simp add: basic_bytes_def Let_def has_def)
    ultimately show ?thesis using one nothing_delivers by (cases has) simp_all
  qed
qed

end

text \<open>What is assumed of the callbacks of the application: they deliver what \<open>cb\<close> says.\<close>

context sink
begin

definition callbacks_deliver :: "'s pb_env \<Rightarrow> (nat \<Rightarrow> pb_field \<Rightarrow> nat \<Rightarrow> bytes option) \<Rightarrow> bool" where
  "callbacks_deliver env cb \<longleftrightarrow>
     (\<forall>f field arg bs. cb f field arg = Some bs \<longrightarrow> delivers (encode_callback env f field arg) bs)"

lemma callback_delivers:
  assumes "delivers (encode_callback env (load_ptr m data) field (data + 8)) bs" and "load_ptr m data \<noteq> 0"
  shows "delivers (encode_callback_field env m field data) bs"
proof -
  let ?w = "encode_callback env (load_ptr m data) field (data + 8)" and ?v = "encode_callback_field env m field data"
  have ok: "?v s = (True, s')" if "?w s = (True, s')" for s s'
    using that assms(2) by (simp add: encode_callback_field_def)
  have no: "\<exists>s'. ?v s = (False, s') \<and> refused s s'" if "?w s = (False, s1)" "refused s s1" for s s1
    using that assms(2) refused_error [of s1 "''callback error''"]
    by (simp add: encode_callback_field_def os_error_def refused_def)
  show ?thesis unfolding delivers_def
  proof (intro conjI allI impI)
    show "counts ?v (length bs)" using assms(1) ok by (simp add: delivers_def counts_def)
    show "rejects ?v (length bs)"
      unfolding rejects_def by (intro allI impI) (auto elim!: rejectsD [OF assms(1)] intro: no)
    show "\<exists>s'. ?v s = (True, s') \<and> delivered bs s s'" if "ready s \<and> bytes_written s + length bs \<le> max_size s" for s
      using that ok by (auto elim!: deliversD [OF assms(1)])
  qed
qed

lemma any_field_delivers:
  assumes "any_field_bytes cb is_default sub m field data = Some bs"
    and cb: "callbacks_deliver env cb"
    and sub: "\<And>ptr p b. sub ptr p = Some b \<Longrightarrow> delivers (encode ptr p) b"
  shows "delivers (if PB_LTYPE (pf_type field) = PB_LTYPE_EXTENSION
    then encode_extension_field env is_default encode m data
    else encode_field env is_default encode m field data) bs"
proof (cases "PB_LTYPE (pf_type field) = PB_LTYPE_EXTENSION")
  case True
  then have e: "load_ptr m data = 0" "bs = []"
    using assms(1) by (auto simp: any_field_bytes_def Let_def split: if_splits)
  have "encode_extension_field env is_default encode m data = (\<lambda>s. (True, s))"
    using e by (intro ext, cases "ext_limit env") (auto simp: encode_extension_field_def)
  then show ?thesis using True nothing_delivers e by simp
next
  case False
  consider (basic) "PB_ATYPE (pf_type field) = PB_ATYPE_STATIC \<or> PB_ATYPE (pf_type field) = PB_ATYPE_POINTER"
      "basic_bytes is_default sub m field data = Some bs"
    | (callback) "PB_ATYPE (pf_type field) = PB_ATYPE_CALLBACK" "load_ptr m data \<noteq> 0"
      "cb (load_ptr m data) field (data + 8) = Some bs"
    | (no_callback) "PB_ATYPE (pf_type field) = PB_ATYPE_CALLBACK" "load_ptr m data = 0" "bs = []"
    using assms(1) False by (auto simp: any_field_bytes_def Let_def split: if_splits)
  then show ?thesis
  proof cases
    case basic
    have ef: "encode_field env is_default encode m field data = encode_basic_field is_default encode m field data"
      using basic(1) by (auto simp: encode_field_def Let_def)
    then show ?thesis using basic_delivers [OF basic(2) sub] False by simp
  next
    case callback
    then have "encode_field env is_default encode m field data = encode_callback_field env m field data"
      by (simp add: encode_field_def pb_types)
    then show ?thesis using callback_delivers [of env m data field bs] callback cb False by (simp add: callbacks_deliver_def)
  next
    case no_callback
    then have "encode_field env is_default encode m field data = (\<lambda>s. (True, s))"
      by (intro ext) (simp add: encode_field_def encode_callback_field_def pb_types)
    then show ?thesis using no_callback False nothing_delivers by simp
  qed
qed

lemma iter_write_delivers:
  assumes "iter_bytes f it = Some bs" and "\<And>it b. f it = Some b \<Longrightarrow> delivers (body it) b"
  shows "delivers (iter_write body it) bs"
  using assms
proof (induction f it arbitrary: bs rule: iter_bytes.induct)
  case (1 f it)
  then obtain b where b: "f it = Some b" by (subst (asm) iter_bytes.simps) (auto split: option.splits)
  obtain ok it' where nxt: "pb_field_iter_next it = (ok, it')" by fastforce
  show ?case
  proof (cases ok)
    case True
    then obtain rest where rest: "iter_bytes f it' = Some rest" "bs = b @ rest"
      using 1(2) b nxt by (subst (asm) iter_bytes.simps) (auto split: option.splits)
    have "iter_write body it = write_then (body it) (iter_write body it')"
      using nxt True by (intro ext) (subst iter_write.simps, simp add: write_then_def split: prod.split bool.split)
    then show ?thesis
      using write_then_delivers [OF 1(3) [OF b] 1(1) [OF b nxt [symmetric] _ rest(1)]] 1(3) True rest(2) by simp
  next
    case False
    then have "bs = b" using 1(2) b nxt by (subst (asm) iter_bytes.simps) simp
    moreover have "iter_write body it = body it"
      using nxt False by (intro ext) (subst iter_write.simps, simp split: prod.split bool.split)
    ultimately show ?thesis using 1(3) [OF b] by simp
  qed
qed

lemma pb_encode_delivers:
  assumes "callbacks_deliver env cb"
  shows "message_bytes d env cb m fs src = Some bs \<Longrightarrow> delivers (pb_encode d env m fs src) bs"
proof (induction d arbitrary: fs src bs)
  case (Suc d)
  obtain ok it where start: "pb_field_iter_begin fs src = (ok, it)" by fastforce
  show ?case
  proof (cases ok)
    case True
    have "delivers (iter_write (\<lambda>it.
            if PB_LTYPE (pf_type (it_field it)) = PB_LTYPE_EXTENSION
            then encode_extension_field env (pb_check_proto3_default_value d env m)
              (\<lambda>ptr src. pb_encode d env m (fields_of env ptr) src) m (pData it)
            else encode_field env (pb_check_proto3_default_value d env m)
              (\<lambda>ptr src. pb_encode d env m (fields_of env ptr) src) m (it_field it) (pData it)) it) bs"
    proof (rule iter_write_delivers)
      show "iter_bytes (\<lambda>it. any_field_bytes cb (pb_check_proto3_default_value d env m)
            (\<lambda>ptr src. message_bytes d env cb m (fields_of env ptr) src) m (it_field it) (pData it)) it = Some bs"
        using Suc.prems start True by simp
    qed (erule any_field_delivers [OF _ assms Suc.IH])
    then show ?thesis using start True by simp
  next
    case False
    then show ?thesis using Suc.prems start nothing_delivers by simp
  qed
qed simp

end

section \<open>What comes out\<close>

text \<open>A writer that delivers more than a memory buffer holds fails, and the buffer keeps its length.\<close>

lemma delivers_too_large:
  assumes "buffer_sink.delivers w bs" and "length buf < length bs" and "length bs < 2 ^ 64"
  obtains s where "w (pb_ostream_from_buffer buf (length buf)) = (False, s)"
    and "os_errmsg s \<noteq> None" and "bytes_written s \<le> length buf"
    and "length (fst (os_state s)) = length buf"
proof -
  let ?s = "pb_ostream_from_buffer buf (length buf)"
  have r: "buffer_sink.ready ?s" using assms(2,3) by (intro from_buffer_ready) (simp add: size_t_mod_def)
  obtain s where s: "w ?s = (False, s)" "buffer_sink.refused ?s s"
    by (rule buffer_sink.rejectsD [OF assms(1) r]) (use assms(2,3) in \<open>simp_all add: pb_ostream_from_buffer_def size_t_mod_def\<close>)
  obtain out p where "os_state s = (out, p)" by fastforce
  then show ?thesis using s
    by (intro that [of s]) (auto simp: buffer_sink.refused_def buffer_sink.ready_def pb_ostream_from_buffer_def min_def split: if_splits)
qed

lemma below_size_t_mod [code_unfold]: "n < size_t_mod \<longleftrightarrow> int n < 18446744073709551616"
  by (simp add: size_t_mod_def nat_less_iff flip: zless_nat_eq_int_zless)

definition example_fields :: "pb_field list" where
  "example_fields =
     [\<lparr>pf_tag = 1, pf_type = 0x01, pf_data_offset = 0, pf_size_offset = 0, pf_data_size = 4, pf_array_size = 0, pf_ptr = 0\<rparr>,
      \<lparr>pf_tag = 2, pf_type = 0x07, pf_data_offset = 0, pf_size_offset = 0, pf_data_size = 4, pf_array_size = 0, pf_ptr = 0\<rparr>,
      \<lparr>pf_tag = 3, pf_type = 0x21, pf_data_offset = 4, pf_size_offset = - 4, pf_data_size = 4, pf_array_size = 2, pf_ptr = 0\<rparr>]"

definition example_mem :: mem where
  "example_mem = store 16 [150, 0, 0, 0,  104, 105, 0, 0,  2, 0, 0, 0,  1, 0, 0, 0,  2, 0, 0, 0] (\<lambda>_. 0)"

definition example_env :: "'s pb_env" where
  "example_env = \<lparr>fields_of = (\<lambda>_. []), encode_callback = (\<lambda>_ _ _ s. (False, s)), ext_encode = (\<lambda>_ _ s. (False, s)), ext_limit = 0\<rparr>"

definition example_encoding :: bytes where
  "example_encoding = [8, 150, 1, 18, 2, 104, 105, 26, 2, 1, 2]"

lemma example_length: "length example_encoding = 11" by (simp add: example_encoding_def)

lemma example_bytes:
  "message_bytes 1 example_env (\<lambda>_ _ _. None) example_mem example_fields 16 = Some example_encoding"
  by code_simp

lemma example_callbacks: "buffer_sink.callbacks_deliver env (\<lambda>_ _ _. None)"
  by (simp add: buffer_sink.callbacks_deliver_def)



text \<open>
  C23: Encoding a structure to a buffer that is too small for the bytes of the message fails
  with an error message, without a write behind the end of the buffer.
\<close>

theorem encode_message_too_large:
  assumes "buffer_sink.callbacks_deliver env cb" and "message_bytes d env cb m fs src = Some bs"
    and "length buf < length bs" and "length bs < 2 ^ 64"
  shows "\<exists>s. pb_encode d env m fs src (pb_ostream_from_buffer buf (length buf)) = (False, s) \<and>
    os_errmsg s \<noteq> None \<and> bytes_written s \<le> length buf \<and> length (fst (os_state s)) = length buf"
  by (auto intro: delivers_too_large [OF buffer_sink.pb_encode_delivers [OF assms(1,2)] assms(3,4)])

lemma encode_message_too_large_witness:
  "\<exists>s. pb_encode 1 example_env example_mem example_fields 16 (pb_ostream_from_buffer (replicate 10 0) 10) = (False, s) \<and>
    os_errmsg s \<noteq> None \<and> bytes_written s \<le> 10 \<and> length (fst (os_state s)) = 10"
  using encode_message_too_large [OF example_callbacks example_bytes, of "replicate 10 0"]
  by (simp add: example_length del: pb_encode.simps One_nat_def)

end
