(* ===== verification/Pb_decode.thy ===== *)
theory Pb_decode
  imports Pb_encode
begin

text \<open>
  Decoding whole messages by their field descriptors (\<open>pb_decode.c\<close>): static, pointer and
  callback fields, extensions, default values, the loop over the fields of a message with its
  check of required fields, and the release of what was allocated.
\<close>

section \<open>The environment of the decoder\<close>

text \<open>
  As for the encoder; besides the allocation functions of the C library, and where the local
  variable \<open>fixed_count_size\<close> of a call of \<open>pb_decode_noinit\<close> lies, by the depth of the call.
  \<open>round_limit\<close> bounds the loops over a list of extensions and over the calls of a callback,
  \<open>max_depth\<close> the nesting of the messages that are initialized or released.
\<close>

record 's pb_dec_env =
  dec_fields_of :: "nat \<Rightarrow> pb_field list"
  dec_realloc :: "nat \<Rightarrow> nat \<Rightarrow> mem \<Rightarrow> nat \<times> mem"
  dec_free :: "nat \<Rightarrow> mem \<Rightarrow> mem"
  decode_callback :: "nat \<Rightarrow> pb_field \<Rightarrow> nat \<Rightarrow> 's pb_state \<Rightarrow> bool \<times> 's pb_state"
  ext_decode :: "nat \<Rightarrow> nat \<Rightarrow> u32 \<Rightarrow> u32 \<Rightarrow> 's pb_state \<Rightarrow> bool \<times> 's pb_state"
  fixed_count_at :: "nat \<Rightarrow> nat"
  round_limit :: nat
  max_depth :: nat

text \<open>The loop \<open>do ... while (pb_field_iter_next(&iter))\<close> with an effect on a state.\<close>

function iter_fold :: "(pb_field_iter \<Rightarrow> 'a \<Rightarrow> 'a) \<Rightarrow> pb_field_iter \<Rightarrow> 'a \<Rightarrow> 'a" where
  "iter_fold f it x = (case pb_field_iter_next it of (True, it') \<Rightarrow> iter_fold f it' (f it x) | (False, _) \<Rightarrow> f it x)"
  by pat_completeness auto
termination
  by (relation "measure (\<lambda>(_, it, _). length (it_start it) - it_pos it)")
    (auto dest!: iter_next_advances [OF sym])

declare iter_fold.simps [simp del]

text \<open>The loop \<open>while (ext != NULL)\<close>; the next extension is read after the effect.\<close>

primrec ext_fold :: "nat \<Rightarrow> (nat \<Rightarrow> mem \<Rightarrow> mem) \<Rightarrow> nat \<Rightarrow> mem \<Rightarrow> mem" where
  "ext_fold 0 f ext m = m"
| "ext_fold (Suc n) f ext m =
     (if ext = 0 then m else (let m' = f ext m in ext_fold n f (load_ptr m' (ext + 16)) m'))"

definition pb_size_at :: "mem \<Rightarrow> nat \<Rightarrow> u32" where
  "pb_size_at m a = load_word m a 4"

definition set_pb_size :: "nat \<Rightarrow> u32 \<Rightarrow> mem \<Rightarrow> mem" where
  "set_pb_size a v = store a (le_bytes 4 v)"

definition memset0 :: "nat \<Rightarrow> nat \<Rightarrow> mem \<Rightarrow> mem" where
  "memset0 a n = store a (replicate n 0)"

definition iter_from_extension :: "'s pb_dec_env \<Rightarrow> mem \<Rightarrow> nat \<Rightarrow> pb_field_iter" where
  "iter_from_extension env m ext =
     (let fs = dec_fields_of env (load_ptr m (load_ptr m ext + 16)); dest = load_ptr m (ext + 8);
          it = snd (pb_field_iter_begin fs dest)
      in it\<lparr>pData := (if PB_ATYPE (pf_type (field_at fs 0)) = PB_ATYPE_POINTER then ext + 8 else dest),
            pSize := ext + 24\<rparr>)"

section \<open>Default values\<close>

definition static_field_default :: "(nat \<Rightarrow> nat \<Rightarrow> mem \<Rightarrow> mem) \<Rightarrow> pb_field_iter \<Rightarrow> mem \<Rightarrow> mem" where
  "static_field_default set_to_defaults it m =
     (let field = it_field it; ht = PB_HTYPE (pf_type field); sz = unat (pf_data_size field);
          init = (\<lambda>m.
            if PB_LTYPE (pf_type field) = PB_LTYPE_SUBMESSAGE then set_to_defaults (pf_ptr field) (pData it) m
            else if pf_ptr field \<noteq> 0 then store (pData it) (load m (pf_ptr field) sz) m
            else memset0 (pData it) sz m)
      in if ht = PB_HTYPE_OPTIONAL \<and> pSize it \<noteq> pData it then init (store (pSize it) [0] m)
         else if ht = PB_HTYPE_REPEATED \<or> ht = PB_HTYPE_ONEOF then set_pb_size (pSize it) 0 m
         else init m)"

text \<open>A submessage and an extension are one level deeper; \<open>d\<close> bounds the levels.\<close>

primrec pb_field_set_to_default :: "nat \<Rightarrow> 's pb_dec_env \<Rightarrow> pb_field_iter \<Rightarrow> mem \<Rightarrow> mem" where
  "pb_field_set_to_default 0 env it m = m"
| "pb_field_set_to_default (Suc d) env it m =
     (let field = it_field it; ht = PB_HTYPE (pf_type field); at = PB_ATYPE (pf_type field)
      in if PB_LTYPE (pf_type field) = PB_LTYPE_EXTENSION then
           ext_fold (round_limit env)
             (\<lambda>ext m. let m' = store (ext + 24) [0] m in pb_field_set_to_default d env (iter_from_extension env m' ext) m')
             (load_ptr m (pData it)) m
         else if at = PB_ATYPE_STATIC then
           static_field_default (\<lambda>ptr dest m.
             case pb_field_iter_begin (dec_fields_of env ptr) dest of
               (False, _) \<Rightarrow> m
             | (True, it) \<Rightarrow> iter_fold (pb_field_set_to_default d env) it m) it m
         else if at = PB_ATYPE_POINTER then
           (let m' = store_ptr (pData it) 0 m
            in if ht = PB_HTYPE_REPEATED \<or> ht = PB_HTYPE_ONEOF then set_pb_size (pSize it) 0 m' else m')
         else m)"

definition pb_message_set_to_defaults :: "nat \<Rightarrow> 's pb_dec_env \<Rightarrow> pb_field list \<Rightarrow> nat \<Rightarrow> mem \<Rightarrow> mem" where
  "pb_message_set_to_defaults d env fs dest m =
     (case pb_field_iter_begin fs dest of
        (False, _) \<Rightarrow> m
      | (True, it) \<Rightarrow> iter_fold (pb_field_set_to_default d env) it m)"

section \<open>Release\<close>

primrec release_items :: "(nat \<Rightarrow> mem \<Rightarrow> mem) \<Rightarrow> nat \<Rightarrow> nat \<Rightarrow> nat \<Rightarrow> mem \<Rightarrow> mem" where
  "release_items release sz p 0 m = m"
| "release_items release sz p (Suc n) m = release_items release sz (p + sz) n (release p m)"

definition release_pointer :: "'s pb_dec_env \<Rightarrow> pb_field_iter \<Rightarrow> mem \<Rightarrow> mem" where
  "release_pointer env it m =
     (let ty = pf_type (it_field it); ht = PB_HTYPE ty; lt = PB_LTYPE ty;
          m1 = (if ht = PB_HTYPE_REPEATED \<and> (lt = PB_LTYPE_STRING \<or> lt = PB_LTYPE_BYTES)
                then release_items (\<lambda>p m. store_ptr p 0 (dec_free env (load_ptr m p) m)) 8
                       (load_ptr m (pData it)) (unat (pb_size_at m (pSize it))) m
                else m);
          m2 = (if ht = PB_HTYPE_REPEATED then set_pb_size (pSize it) 0 m1 else m1)
      in store_ptr (pData it) 0 (dec_free env (load_ptr m2 (pData it)) m2))"

definition submessage_count :: "mem \<Rightarrow> pb_field_iter \<Rightarrow> u32" where
  "submessage_count m it =
     (let field = it_field it; static = (PB_ATYPE (pf_type field) = PB_ATYPE_STATIC);
          count = (if static \<and> pSize it = pData it then pf_array_size field else pb_size_at m (pSize it))
      in if PB_HTYPE (pf_type field) = PB_HTYPE_REPEATED
         then (if static \<and> count > pf_array_size field then pf_array_size field else count)
         else 1)"

primrec pb_release_single_field :: "nat \<Rightarrow> 's pb_dec_env \<Rightarrow> pb_field_iter \<Rightarrow> mem \<Rightarrow> mem" where
  "pb_release_single_field 0 env it m = m"
| "pb_release_single_field (Suc d) env it m =
     (let field = it_field it; ty = pf_type field; at = PB_ATYPE ty;
          release = (\<lambda>p m.
            if p = 0 then m
            else (case pb_field_iter_begin (dec_fields_of env (pf_ptr field)) p of
                    (False, _) \<Rightarrow> m
                  | (True, it') \<Rightarrow> iter_fold (pb_release_single_field d env) it' m));
          m1 = (if PB_LTYPE ty = PB_LTYPE_EXTENSION then
                  ext_fold (round_limit env) (\<lambda>ext m. pb_release_single_field d env (iter_from_extension env m ext) m)
                    (load_ptr m (pData it)) m
                else if PB_LTYPE ty = PB_LTYPE_SUBMESSAGE \<and> at \<noteq> PB_ATYPE_CALLBACK then
                  (let item = (if at = PB_ATYPE_POINTER then load_ptr m (pData it) else pData it)
                   in if item \<noteq> 0
                      then release_items release (unat (pf_data_size field)) item (unat (submessage_count m it)) m
                      else m)
                else m)
      in if PB_HTYPE ty = PB_HTYPE_ONEOF \<and> pb_size_at m (pSize it) \<noteq> pf_tag field then m
         else if at = PB_ATYPE_POINTER then release_pointer env it m1
         else m1)"

definition pb_release :: "nat \<Rightarrow> 's pb_dec_env \<Rightarrow> pb_field list \<Rightarrow> nat \<Rightarrow> mem \<Rightarrow> mem" where
  "pb_release d env fs dest m =
     (if dest = 0 then m
      else (case pb_field_iter_begin fs dest of
              (False, _) \<Rightarrow> m
            | (True, it) \<Rightarrow> iter_fold (pb_release_single_field d env) it m))"

text \<open>The iterator comes back to the field of the new tag.\<close>

definition pb_release_union_field ::
    "'s pb_dec_env \<Rightarrow> pb_field_iter \<Rightarrow> 's pb_state \<Rightarrow> bool \<times> pb_field_iter \<times> 's pb_state" where
  "pb_release_union_field env it st =
     (let old_tag = pb_size_at (snd st) (pSize it); new_tag = pf_tag (it_field it);
          fail = (\<lambda>msg it st. case st_error msg st of (ok, st') \<Rightarrow> (ok, it, st'))
      in if old_tag = 0 \<or> old_tag = new_tag then (True, it, st)
         else
           (case pb_field_iter_find it old_tag of
              (False, it1) \<Rightarrow> fail ''invalid union tag'' it1 st
            | (True, it1) \<Rightarrow>
                (let st1 = (fst st, pb_release_single_field (max_depth env) env it1 (snd st))
                 in (case pb_field_iter_find it1 new_tag of
                       (False, it2) \<Rightarrow> fail ''iterator error'' it2 st1
                     | (True, it2) \<Rightarrow> (True, it2, st1)))))"

section \<open>Decoding one field\<close>

text \<open>
  \<open>null_decoder\<close> stands for the call of a null entry of the table of decoders.  A packed array
  is decoded from a substream; \<open>fuel\<close> is the number of its bytes, and every item takes one at
  least.  The address of an item is a product of two 32-bit words from the start of the array.
\<close>

definition null_decoder :: "'s pb_decoder" where
  "null_decoder field dest st = (False, st)"

definition decoder_for :: "'s pb_dec_env \<Rightarrow> 's pb_decoder \<Rightarrow> pb_field \<Rightarrow> 's pb_decoder" where
  "decoder_for env dec_submessage field =
     (case PB_DECODERS (dec_realloc env) dec_submessage (PB_LTYPE (pf_type field)) of
        Some f \<Rightarrow> f | None \<Rightarrow> null_decoder)"

definition item_offset :: "pb_field \<Rightarrow> u32 \<Rightarrow> nat" where
  "item_offset field n = unat (pf_data_size field * n)"

primrec packed_items :: "nat \<Rightarrow> 's pb_decoder \<Rightarrow> pb_field_iter \<Rightarrow> 's pb_state \<Rightarrow> bool \<times> 's pb_state" where
  "packed_items 0 func it st = (True, st)"
| "packed_items (Suc fuel) func it st =
     (let size = pb_size_at (snd st) (pSize it)
      in if bytes_left (fst st) > 0 \<and> size < pf_array_size (it_field it) then
           (case func (it_field it) (pData it + item_offset (it_field it) size) st of
              (False, st') \<Rightarrow> (False, st')
            | (True, s', m') \<Rightarrow>
                packed_items fuel func it (s', set_pb_size (pSize it) (pb_size_at m' (pSize it) + 1) m'))
         else (True, st))"

text \<open>Closing the substream after its bytes have been decoded.\<close>

definition close_sub :: "bool \<times> 's pb_istream \<times> mem \<Rightarrow> 's pb_istream \<Rightarrow> bool \<times> 's pb_state" where
  "close_sub r s =
     (case r of (status, sub, m) \<Rightarrow>
        (case pb_close_string_substream sub s of
           (None, s') \<Rightarrow> (False, s', m)
         | (Some _, s') \<Rightarrow> (status, s', m)))"

definition decode_static_field ::
    "'s pb_dec_env \<Rightarrow> 's pb_decoder \<Rightarrow> u32 \<Rightarrow> pb_field_iter \<Rightarrow> 's pb_state \<Rightarrow> bool \<times> 's pb_state" where
  "decode_static_field env dec_submessage wire_type it st =
     (let field = it_field it; ht = PB_HTYPE (pf_type field); func = decoder_for env dec_submessage field
      in if ht = PB_HTYPE_REQUIRED then func field (pData it) st
         else if ht = PB_HTYPE_OPTIONAL then
           func field (pData it) (fst st, if pSize it \<noteq> pData it then store (pSize it) [1] (snd st) else snd st)
         else if ht = PB_HTYPE_REPEATED then
           (if wire_type = PB_WT_STRING \<and> PB_LTYPE (pf_type field) \<le> PB_LTYPE_LAST_PACKABLE then
              st_read pb_make_string_substream (\<lambda>sub st.
                case packed_items (bytes_left sub) func it (sub, snd st) of
                  (status, sub', m') \<Rightarrow>
                    if bytes_left sub' \<noteq> 0 then st_error ''array overflow'' (fst st, m')
                    else close_sub (status, sub', m') (fst st)) st
            else
              (let size = pb_size_at (snd st) (pSize it);
                   st' = (fst st, set_pb_size (pSize it) (size + 1) (snd st))
               in if size \<ge> pf_array_size field then st_error ''array overflow'' st'
                  else func field (pData it + item_offset field size) st'))
         else
           (let m1 = set_pb_size (pSize it) (pf_tag field) (snd st);
                m2 = (if PB_LTYPE (pf_type field) = PB_LTYPE_SUBMESSAGE
                      then pb_message_set_to_defaults (max_depth env) env (dec_fields_of env (pf_ptr field)) (pData it)
                             (memset0 (pData it) (unat (pf_data_size field)) m1)
                      else m1)
            in func field (pData it) (fst st, m2)))"

definition initialize_pointer_field :: "'s pb_dec_env \<Rightarrow> nat \<Rightarrow> pb_field_iter \<Rightarrow> mem \<Rightarrow> mem" where
  "initialize_pointer_field env item it m =
     (let field = it_field it; lt = PB_LTYPE (pf_type field)
      in if lt = PB_LTYPE_STRING \<or> lt = PB_LTYPE_BYTES then store_ptr item 0 m
         else if lt = PB_LTYPE_SUBMESSAGE then
           pb_message_set_to_defaults (max_depth env) env (dec_fields_of env (pf_ptr field)) item
             (memset0 item (unat (pf_data_size field)) m)
         else m)"

text \<open>
  The loop over the items of a packed pointer array.  \<open>s\<close> is the stream around the substream,
  of which only the error message is set; \<open>allocated\<close> is \<open>allocated_size\<close>.
\<close>

primrec pointer_items ::
    "nat \<Rightarrow> 's pb_dec_env \<Rightarrow> 's pb_decoder \<Rightarrow> pb_field_iter \<Rightarrow> nat \<Rightarrow> 's pb_istream \<Rightarrow> 's pb_state \<Rightarrow>
     (bool \<times> 's pb_state) \<times> 's pb_istream" where
  "pointer_items 0 env func it allocated s st = ((True, st), s)"
| "pointer_items (Suc fuel) env func it allocated s st =
     (let field = it_field it; size = pb_size_at (snd st) (pSize it);
          remain = (bytes_left (fst st) - 1) div unat (pf_data_size field) + 1;
          grow = (unat size + 1 > allocated);
          allocated' =
            (if grow then
               (if remain < (size_t_mod + unat PB_SIZE_MAX - allocated) mod size_t_mod
                then allocated + remain else allocated + 1)
             else allocated)
      in if bytes_left (fst st) = 0 then ((True, st), s)
         else if size = PB_SIZE_MAX then ((False, st), s\<lparr>is_errmsg := Some ''too many array entries''\<rparr>)
         else
           (case (if grow then allocate_field (dec_realloc env) (pData it) (unat (pf_data_size field)) allocated' st
                  else (True, st)) of
              (False, st') \<Rightarrow> ((False, st'), s)
            | (True, s1, m1) \<Rightarrow>
                (let item = load_ptr m1 (pData it) + item_offset field size
                 in (case func field item (s1, initialize_pointer_field env item it m1) of
                       (False, st') \<Rightarrow> ((False, st'), s)
                     | (True, s2, m2) \<Rightarrow>
                         pointer_items fuel env func it allocated' s
                           (s2, set_pb_size (pSize it) (pb_size_at m2 (pSize it) + 1) m2)))))"

definition decode_pointer_field ::
    "'s pb_dec_env \<Rightarrow> 's pb_decoder \<Rightarrow> u32 \<Rightarrow> pb_field_iter \<Rightarrow> 's pb_state \<Rightarrow> bool \<times> 's pb_state" where
  "decode_pointer_field env dec_submessage wire_type it st =
     (let field = it_field it; ht = PB_HTYPE (pf_type field); lt = PB_LTYPE (pf_type field);
          sz = unat (pf_data_size field); func = decoder_for env dec_submessage field
      in if ht = PB_HTYPE_REPEATED then
           (if wire_type = PB_WT_STRING \<and> lt \<le> PB_LTYPE_LAST_PACKABLE then
              st_read pb_make_string_substream (\<lambda>sub st.
                case pointer_items (bytes_left sub) env func it (unat (pb_size_at (snd st) (pSize it))) (fst st) (sub, snd st) of
                  (r, s) \<Rightarrow> close_sub r s) st
            else
              (let size = pb_size_at (snd st) (pSize it)
               in if size = PB_SIZE_MAX then st_error ''too many array entries'' st
                  else
                    (case allocate_field (dec_realloc env) (pData it) sz (unat (size + 1)) st of
                       (False, st') \<Rightarrow> (False, st')
                     | (True, s1, m1) \<Rightarrow>
                         (let item = load_ptr m1 (pData it) + item_offset field (pb_size_at m1 (pSize it));
                              m2 = set_pb_size (pSize it) (pb_size_at m1 (pSize it) + 1) m1
                          in func field item (s1, initialize_pointer_field env item it m2)))))
         else
           (let m1 = (if lt = PB_LTYPE_SUBMESSAGE \<and> load_ptr (snd st) (pData it) \<noteq> 0
                      then pb_release_single_field (max_depth env) env it (snd st) else snd st);
                m2 = (if ht = PB_HTYPE_ONEOF then set_pb_size (pSize it) (pf_tag field) m1 else m1)
            in if lt = PB_LTYPE_STRING \<or> lt = PB_LTYPE_BYTES then func field (pData it) (fst st, m2)
               else
                 (case allocate_field (dec_realloc env) (pData it) sz 1 (fst st, m2) of
                    (False, st') \<Rightarrow> (False, st')
                  | (True, s3, m3) \<Rightarrow>
                      (let m4 = initialize_pointer_field env (load_ptr m3 (pData it)) it m3
                       in func field (load_ptr m4 (pData it)) (s3, m4)))))"

text \<open>The callback is called until the substream is used up; \<open>n\<close> bounds the calls.\<close>

primrec callback_rounds :: "nat \<Rightarrow> ('s pb_state \<Rightarrow> bool \<times> 's pb_state) \<Rightarrow> 's pb_state \<Rightarrow> bool \<times> 's pb_state" where
  "callback_rounds 0 f st = (False, st)"
| "callback_rounds (Suc n) f st =
     (case f st of
        (False, st') \<Rightarrow> (False, st')
      | (True, st') \<Rightarrow> if bytes_left (fst st') \<noteq> 0 then callback_rounds n f st' else (True, st'))"

text \<open>In a \<open>pb_callback_t\<close> the function comes first, its argument eight bytes on.\<close>

definition decode_callback_field ::
    "'s pb_dec_env \<Rightarrow> u32 \<Rightarrow> pb_field_iter \<Rightarrow> 's pb_state \<Rightarrow> bool \<times> 's pb_state" where
  "decode_callback_field env wire_type it st =
     (let func = (if pData it = 0 then 0 else load_ptr (snd st) (pData it));
          call = (\<lambda>st. decode_callback env (load_ptr (snd st) (pData it)) (it_field it) (pData it + 8) st)
      in if func = 0 then st_read (pb_skip_field wire_type) (\<lambda>_ st. (True, st)) st
         else if wire_type = PB_WT_STRING then
           st_read pb_make_string_substream (\<lambda>sub st.
             case callback_rounds (round_limit env) call (sub, snd st) of
               (False, _, m') \<Rightarrow> st_error ''callback failed'' (fst st, m')
             | (True, sub', m') \<Rightarrow> close_sub (True, sub', m') (fst st)) st
         else
           st_read (read_raw_value wire_type 10) (\<lambda>buffer st.
             case call (pb_istream_from_buffer buffer (length buffer), snd st) of
               (status, _, m') \<Rightarrow> (status, fst st, m')) st)"

definition decode_field ::
    "'s pb_dec_env \<Rightarrow> 's pb_decoder \<Rightarrow> u32 \<Rightarrow> pb_field_iter \<Rightarrow> 's pb_state \<Rightarrow> bool \<times> pb_field_iter \<times> 's pb_state" where
  "decode_field env dec_submessage wire_type it st =
     (case (if PB_HTYPE (pf_type (it_field it)) = PB_HTYPE_ONEOF then pb_release_union_field env it st
            else (True, it, st)) of
        (False, it', st') \<Rightarrow> (False, it', st')
      | (True, it', st') \<Rightarrow>
          (let at = PB_ATYPE (pf_type (it_field it'))
           in (case (if at = PB_ATYPE_STATIC then decode_static_field env dec_submessage wire_type it' st'
                     else if at = PB_ATYPE_POINTER then decode_pointer_field env dec_submessage wire_type it' st'
                     else if at = PB_ATYPE_CALLBACK then decode_callback_field env wire_type it' st'
                     else st_error ''invalid field type'' st') of
                 (ok, st'') \<Rightarrow> (ok, it', st''))))"

definition default_extension_decoder ::
    "'s pb_dec_env \<Rightarrow> 's pb_decoder \<Rightarrow> nat \<Rightarrow> u32 \<Rightarrow> u32 \<Rightarrow> 's pb_state \<Rightarrow> bool \<times> 's pb_state" where
  "default_extension_decoder env dec_submessage ext tag wire_type st =
     (let field = field_at (dec_fields_of env (load_ptr (snd st) (load_ptr (snd st) ext + 16))) 0
      in if pf_tag field \<noteq> tag then (True, st)
         else
           (let it = iter_from_extension env (snd st) ext
            in (case decode_field env dec_submessage wire_type it (fst st, store (ext + 24) [1] (snd st)) of
                  (ok, _, st') \<Rightarrow> (ok, st'))))"

text \<open>\<open>pos\<close> is the number of bytes left at the start: the loop ends as soon as the stream has moved.\<close>

primrec decode_extensions ::
    "nat \<Rightarrow> 's pb_dec_env \<Rightarrow> 's pb_decoder \<Rightarrow> nat \<Rightarrow> u32 \<Rightarrow> u32 \<Rightarrow> nat \<Rightarrow> 's pb_state \<Rightarrow> bool \<times> 's pb_state" where
  "decode_extensions 0 env dec_submessage pos tag wire_type ext st = (True, st)"
| "decode_extensions (Suc n) env dec_submessage pos tag wire_type ext st =
     (if ext \<noteq> 0 \<and> pos = bytes_left (fst st) then
        (let handler = load_ptr (snd st) (load_ptr (snd st) ext)
         in (case (if handler \<noteq> 0 then ext_decode env handler ext tag wire_type st
                   else default_extension_decoder env dec_submessage ext tag wire_type st) of
               (False, st') \<Rightarrow> (False, st')
             | (True, st') \<Rightarrow>
                 decode_extensions n env dec_submessage pos tag wire_type (load_ptr (snd st') (ext + 16)) st'))
      else (True, st))"

definition decode_extension ::
    "'s pb_dec_env \<Rightarrow> 's pb_decoder \<Rightarrow> u32 \<Rightarrow> u32 \<Rightarrow> pb_field_iter \<Rightarrow> 's pb_state \<Rightarrow> bool \<times> 's pb_state" where
  "decode_extension env dec_submessage tag wire_type it st =
     decode_extensions (round_limit env) env dec_submessage (bytes_left (fst st)) tag wire_type
       (load_ptr (snd st) (pData it)) st"

text \<open>\<open>n\<close> is the number of descriptors: the iterator goes round once.\<close>

fun find_extension_loop :: "nat \<Rightarrow> nat \<Rightarrow> pb_field_iter \<Rightarrow> bool \<times> pb_field_iter" where
  "find_extension_loop n start it =
     (if PB_LTYPE (pf_type (it_field it)) = PB_LTYPE_EXTENSION then (True, it)
      else
        (let it' = snd (pb_field_iter_next it)
         in if it_pos it' = start \<or> n = 0 then (False, it') else find_extension_loop (n - 1) start it'))"

declare find_extension_loop.simps [simp del]

definition find_extension_field :: "pb_field_iter \<Rightarrow> bool \<times> pb_field_iter" where
  "find_extension_field it = find_extension_loop (length (it_start it)) (it_pos it) it"

section \<open>Decoding a message\<close>

definition PB_MAX_REQUIRED_FIELDS :: nat where
  "PB_MAX_REQUIRED_FIELDS = 64"

text \<open>
  The local variables of \<open>pb_decode_noinit\<close>; \<open>fixed_count_field\<close> is the position of the field,
  and the two words of \<open>fields_seen\<close> are a list.
\<close>

record noinit_locals =
  fields_seen :: "u32 list"
  extension_range_start :: u32
  nl_iter :: pb_field_iter
  fixed_count_field :: "nat option"

text \<open>The iterator when \<open>do {...} while (pb_field_iter_next(&iter))\<close> ends: the last one seen, and the next.\<close>

function iter_to_end :: "pb_field_iter \<Rightarrow> pb_field_iter \<times> pb_field_iter" where
  "iter_to_end it = (case pb_field_iter_next it of (True, it') \<Rightarrow> iter_to_end it' | (False, it') \<Rightarrow> (it, it'))"
  by pat_completeness auto
termination
  by (relation "measure (\<lambda>it. length (it_start it) - it_pos it)") (auto dest!: iter_next_advances [OF sym])

declare iter_to_end.simps [simp del]

text \<open>\<open>fields_seen\<close> has a bit for each of the first 64 required fields.\<close>

definition see_field :: "nat \<Rightarrow> u32 list \<Rightarrow> u32 list" where
  "see_field i seen = seen[drop_bit 5 i := seen ! drop_bit 5 i OR push_bit (i AND 31) 1]"

definition all_seen :: "nat \<Rightarrow> u32 list \<Rightarrow> bool" where
  "all_seen n seen \<longleftrightarrow>
     (\<forall>i < drop_bit 5 n. seen ! i = - 1) \<and>
     (n AND 31 \<noteq> 0 \<longrightarrow> seen ! drop_bit 5 n = drop_bit (32 - (n AND 31)) (- 1))"

definition required_count :: "pb_field_iter \<Rightarrow> nat" where
  "required_count it =
     (case iter_to_end it of
        (last_it, it') \<Rightarrow>
          min PB_MAX_REQUIRED_FIELDS
            (if PB_HTYPE (pf_type (it_field last_it)) = PB_HTYPE_REQUIRED \<and> pf_tag (it_field it') \<noteq> 0
             then Suc (required_field_index last_it) else required_field_index last_it))"

text \<open>The fixed count field: whether all of its items have come.\<close>

definition fixed_count_complete :: "nat \<Rightarrow> noinit_locals \<Rightarrow> mem \<Rightarrow> bool" where
  "fixed_count_complete loc l m =
     (case fixed_count_field l of
        None \<Rightarrow> True
      | Some pos \<Rightarrow> pb_size_at m loc = pf_array_size (field_at (it_start (nl_iter l)) pos))"

text \<open>
  A field whose tag no descriptor has: an extension may take it, otherwise it is skipped.
\<close>

definition decode_unknown ::
    "'s pb_dec_env \<Rightarrow> 's pb_decoder \<Rightarrow> u32 \<Rightarrow> u32 \<Rightarrow> noinit_locals \<Rightarrow> 's pb_state \<Rightarrow> (bool \<times> 's pb_state) \<times> noinit_locals" where
  "decode_unknown env dec_submessage tag wire_type l st =
     (let skip = (\<lambda>st. st_read (pb_skip_field wire_type) (\<lambda>_ st. (True, st)) st)
      in if tag \<ge> extension_range_start l then
           (case find_extension_field (nl_iter l) of
              (found, it) \<Rightarrow>
                (let start = (if found then pf_tag (it_field it) else - 1);
                     l' = l\<lparr>nl_iter := it, extension_range_start := start\<rparr>
                 in if tag \<ge> start then
                      (case decode_extension env dec_submessage tag wire_type it st of
                         (False, st') \<Rightarrow> ((False, st'), l')
                       | (True, st') \<Rightarrow> if bytes_left (fst st) \<noteq> bytes_left (fst st') then ((True, st'), l') else (skip st', l'))
                    else (skip st, l')))
         else (skip st, l))"

text \<open>A field that has been found: \<open>loc\<close> is the address of \<open>fixed_count_size\<close>.\<close>

definition decode_known ::
    "'s pb_dec_env \<Rightarrow> 's pb_decoder \<Rightarrow> nat \<Rightarrow> u32 \<Rightarrow> noinit_locals \<Rightarrow> 's pb_state \<Rightarrow> (bool \<times> 's pb_state) \<times> noinit_locals" where
  "decode_known env dec_submessage loc wire_type l st =
     (let it = nl_iter l; field = it_field it;
          fixed = (PB_HTYPE (pf_type field) = PB_HTYPE_REPEATED \<and> pSize it = pData it);
          new_field = (fixed \<and> fixed_count_field l \<noteq> Some (it_pos it));
          it' = (if fixed then it\<lparr>pSize := loc\<rparr> else it);
          seen = (if PB_HTYPE (pf_type field) = PB_HTYPE_REQUIRED \<and> required_field_index it < PB_MAX_REQUIRED_FIELDS
                  then see_field (required_field_index it) (fields_seen l) else fields_seen l);
          l' = l\<lparr>nl_iter := it', fields_seen := seen,
                  fixed_count_field := (if new_field then Some (it_pos it) else fixed_count_field l)\<rparr>
      in if new_field \<and> \<not> fixed_count_complete loc l (snd st)
         then (st_error ''wrong size for fixed count field'' st, l)
         else
           (case decode_field env dec_submessage wire_type it'
                   (fst st, if new_field then set_pb_size loc 0 (snd st) else snd st) of
              (ok, it'', st') \<Rightarrow> ((ok, st'), l'\<lparr>nl_iter := it''\<rparr>)))"

text \<open>
  The loop over the fields; every field takes a byte of the stream at least, and \<open>fuel\<close> is the
  number of its bytes.
\<close>

primrec noinit_loop ::
    "nat \<Rightarrow> 's pb_dec_env \<Rightarrow> 's pb_decoder \<Rightarrow> nat \<Rightarrow> noinit_locals \<Rightarrow> 's pb_state \<Rightarrow> (bool \<times> 's pb_state) \<times> noinit_locals" where
  "noinit_loop 0 env dec_submessage loc l st = ((True, st), l)"
| "noinit_loop (Suc fuel) env dec_submessage loc l st =
     (if bytes_left (fst st) = 0 then ((True, st), l)
      else
        (case pb_decode_tag (fst st) of
           ((None, s'), eof) \<Rightarrow> ((eof, s', snd st), l)
         | ((Some (wire_type, tag), s'), eof) \<Rightarrow>
             (case pb_field_iter_find (nl_iter l) tag of
                (found, it) \<Rightarrow>
                  (let l' = l\<lparr>nl_iter := it\<rparr>
                   in (case (if found then decode_known env dec_submessage loc wire_type l' (s', snd st)
                             else decode_unknown env dec_submessage tag wire_type l' (s', snd st)) of
                         ((False, st'), l'') \<Rightarrow> ((False, st'), l'')
                       | ((True, st'), l'') \<Rightarrow> noinit_loop fuel env dec_submessage loc l'' st')))))"

definition noinit_body ::
    "'s pb_dec_env \<Rightarrow> 's pb_decoder \<Rightarrow> nat \<Rightarrow> pb_field list \<Rightarrow> nat \<Rightarrow> 's pb_state \<Rightarrow> bool \<times> 's pb_state" where
  "noinit_body env dec_submessage loc fs dest st =
     (let l0 = \<lparr>fields_seen = [0, 0], extension_range_start = 0, nl_iter = snd (pb_field_iter_begin fs dest),
                fixed_count_field = None\<rparr>
      in (case noinit_loop (bytes_left (fst st)) env dec_submessage loc l0 (fst st, set_pb_size loc 0 (snd st)) of
            ((False, st'), l) \<Rightarrow> (False, st')
          | ((True, st'), l) \<Rightarrow>
              if \<not> fixed_count_complete loc l (snd st') then st_error ''wrong size for fixed count field'' st'
              else if \<not> all_seen (required_count (nl_iter l)) (fields_seen l) then st_error ''missing required field'' st'
              else (True, st')))"

definition decode_and_release ::
    "'s pb_dec_env \<Rightarrow> (pb_field list \<Rightarrow> nat \<Rightarrow> 's pb_state \<Rightarrow> bool \<times> 's pb_state) \<Rightarrow> pb_field list \<Rightarrow> nat \<Rightarrow> 's pb_state \<Rightarrow> bool \<times> 's pb_state" where
  "decode_and_release env noinit fs dest st =
     (case noinit fs dest (fst st, pb_message_set_to_defaults (max_depth env) env fs dest (snd st)) of
        (True, st') \<Rightarrow> (True, st')
      | (False, s', m') \<Rightarrow> (False, s', pb_release (max_depth env) env fs dest m'))"

text \<open>\<open>d\<close> bounds the depth of nested messages.\<close>

primrec pb_decode_noinit :: "nat \<Rightarrow> 's pb_dec_env \<Rightarrow> pb_field list \<Rightarrow> nat \<Rightarrow> 's pb_state \<Rightarrow> bool \<times> 's pb_state" where
  "pb_decode_noinit 0 env fs dest = st_error ''nested too deeply''"
| "pb_decode_noinit (Suc d) env fs dest =
     noinit_body env
       (pb_dec_submessage (\<lambda>ptr. decode_and_release env (pb_decode_noinit d env) (dec_fields_of env ptr))
          (\<lambda>ptr. pb_decode_noinit d env (dec_fields_of env ptr)))
       (fixed_count_at env d) fs dest"

definition pb_decode :: "nat \<Rightarrow> 's pb_dec_env \<Rightarrow> pb_field list \<Rightarrow> nat \<Rightarrow> 's pb_state \<Rightarrow> bool \<times> 's pb_state" where
  "pb_decode d env = decode_and_release env (pb_decode_noinit d env)"

definition pb_decode_delimited_noinit ::
    "nat \<Rightarrow> 's pb_dec_env \<Rightarrow> pb_field list \<Rightarrow> nat \<Rightarrow> 's pb_state \<Rightarrow> bool \<times> 's pb_state" where
  "pb_decode_delimited_noinit d env fs dest =
     st_read pb_make_string_substream (\<lambda>sub st. close_sub (pb_decode_noinit d env fs dest (sub, snd st)) (fst st))"

definition pb_decode_delimited :: "nat \<Rightarrow> 's pb_dec_env \<Rightarrow> pb_field list \<Rightarrow> nat \<Rightarrow> 's pb_state \<Rightarrow> bool \<times> 's pb_state" where
  "pb_decode_delimited d env fs dest =
     st_read pb_make_string_substream (\<lambda>sub st. close_sub (pb_decode d env fs dest (sub, snd st)) (fst st))"

definition pb_decode_nullterminated :: "nat \<Rightarrow> 's pb_dec_env \<Rightarrow> pb_field list \<Rightarrow> nat \<Rightarrow> 's pb_state \<Rightarrow> bool \<times> 's pb_state" where
  "pb_decode_nullterminated = pb_decode"

end
