(* ===== verification/Pb_message.thy ===== *)
theory Pb_message
  imports Pb_decode
begin

text \<open>
  Messages through the encoder and back: what \<open>pb_encode\<close> writes for a structure, \<open>pb_decode\<close>
  puts into another structure as it was.
\<close>

section \<open>Where the fields of a structure lie\<close>

text \<open>
  The messages considered have static fields, required or optional.  A field with the space in
  front of it, where the \<open>has\<close> flag of an optional field lies, is a segment of the structure.
\<close>

definition plain_field :: "pb_field \<Rightarrow> bool" where
  "plain_field f \<longleftrightarrow> pf_tag f \<noteq> 0 \<and> unat (pf_tag f) < 2 ^ 29 \<and> PB_ATYPE (pf_type f) = PB_ATYPE_STATIC \<and>
     (PB_HTYPE (pf_type f) = PB_HTYPE_REQUIRED \<or>
      PB_HTYPE (pf_type f) = PB_HTYPE_OPTIONAL \<and> sint (pf_size_offset f) < 0 \<and>
        - sint (pf_size_offset f) \<le> int (unat (pf_data_offset f)))"

definition is_required :: "pb_field \<Rightarrow> bool" where
  "is_required f \<longleftrightarrow> PB_HTYPE (pf_type f) = PB_HTYPE_REQUIRED"

definition segment_size :: "pb_field \<Rightarrow> nat" where
  "segment_size f = unat (pf_data_offset f) + unat (pf_data_size f)"

definition message_size :: "pb_field list \<Rightarrow> nat" where
  "message_size fs = sum_list (map segment_size fs)"

text \<open>The address of the data of the field at position \<open>k\<close>, in the structure at \<open>a\<close>.\<close>

definition data_at :: "pb_field list \<Rightarrow> nat \<Rightarrow> nat \<Rightarrow> nat" where
  "data_at fs a k = a + message_size (take k fs) + unat (pf_data_offset (fs ! k))"

definition iter_at :: "pb_field list \<Rightarrow> nat \<Rightarrow> nat \<Rightarrow> pb_field_iter" where
  "iter_at fs a k =
     \<lparr>it_start = fs, it_pos = k, required_field_index = length (filter is_required (take k fs)), it_dest_struct = a,
      pData = data_at fs a k, pSize = at_offset (data_at fs a k) (pf_size_offset (fs ! k))\<rparr>"

lemma iter_at_simps [simp]:
  "it_start (iter_at fs a k) = fs" "it_pos (iter_at fs a k) = k" "pData (iter_at fs a k) = data_at fs a k"
  "pSize (iter_at fs a k) = at_offset (data_at fs a k) (pf_size_offset (fs ! k))"
  "required_field_index (iter_at fs a k) = length (filter is_required (take k fs))"
  by (simp_all add: iter_at_def)

lemma it_field_iter_at [simp]: "k < length fs \<Longrightarrow> it_field (iter_at fs a k) = fs ! k"
  by (simp add: it_field_def field_at_def)

lemma iter_begin_at: "fs \<noteq> [] \<Longrightarrow> pb_field_iter_begin fs a = (pf_tag (fs ! 0) \<noteq> 0, iter_at fs a 0)"
  by (simp add: pb_field_iter_begin_def iter_at_def field_at_def data_at_def message_size_def Let_def)

lemma iter_next_at:
  assumes "\<forall>f \<in> set fs. plain_field f" and "k < length fs"
  shows "pb_field_iter_next (iter_at fs a k) =
    (if Suc k < length fs then (True, iter_at fs a (Suc k)) else (False, iter_at fs a 0))"
proof -
  have k: "plain_field (fs ! k)" using assms by simp
  then have prev: "pf_tag (fs ! k) \<noteq> 0" "PB_HTYPE (pf_type (fs ! k)) \<noteq> PB_HTYPE_ONEOF"
    "PB_HTYPE (pf_type (fs ! k)) \<noteq> PB_HTYPE_REPEATED" "PB_ATYPE (pf_type (fs ! k)) \<noteq> PB_ATYPE_POINTER"
    by (auto simp: plain_field_def pb_types)
  show ?thesis
  proof (cases "Suc k < length fs")
    case True
    then have "plain_field (fs ! Suc k)" using assms(1) by simp
    then have "pf_tag (fs ! Suc k) \<noteq> 0" by (simp add: plain_field_def)
    moreover have "take (Suc k) fs = take k fs @ [fs ! k]" using assms(2) by (rule take_Suc_conv_app_nth)
    ultimately show ?thesis using True prev assms(2)
      by (simp add: pb_field_iter_next_def Let_def field_at_def)
        (simp add: iter_at_def data_at_def message_size_def segment_size_def is_required_def ac_simps)
  next
    case False
    moreover have "fs \<noteq> []" using assms(2) by auto
    ultimately show ?thesis using prev assms(2)
      by (simp add: pb_field_iter_next_def Let_def field_at_def iter_begin_at)
        (simp add: PB_LAST_FIELD_def iter_begin_at iter_at_def)
  qed
qed

text \<open>The loops over the iterator are loops over the positions.\<close>

lemma iter_fold_at:
  assumes "\<forall>f \<in> set fs. plain_field f" and "k < length fs"
  shows "iter_fold g (iter_at fs a k) x = fold (\<lambda>i. g (iter_at fs a i)) [k..<length fs] x"
  using assms(2)
proof (induction "length fs - k" arbitrary: k x)
  case (Suc n)
  show ?case
  proof (cases "Suc k < length fs")
    case True
    then have "n = length fs - Suc k" using Suc(2) by simp
    then show ?thesis using Suc(1) [of "Suc k"] True Suc(3)
      by (subst iter_fold.simps) (simp add: iter_next_at [OF assms(1)] upt_conv_Cons [of k])
  next
    case False
    then have "[k..<length fs] = [k]" using Suc(3) by (simp add: upt_conv_Cons)
    then show ?thesis using False Suc(3) by (subst iter_fold.simps) (simp add: iter_next_at [OF assms(1)])
  qed
qed simp

fun concat_some :: "bytes option list \<Rightarrow> bytes option" where
  "concat_some [] = Some []"
| "concat_some (x # xs) =
     (case x of None \<Rightarrow> None | Some b \<Rightarrow> (case concat_some xs of None \<Rightarrow> None | Some bs \<Rightarrow> Some (b @ bs)))"

lemma iter_bytes_at:
  assumes "\<forall>f \<in> set fs. plain_field f" and "k < length fs"
  shows "iter_bytes g (iter_at fs a k) = concat_some (map (\<lambda>i. g (iter_at fs a i)) [k..<length fs])"
  using assms(2)
proof (induction "length fs - k" arbitrary: k)
  case (Suc n)
  show ?case
  proof (cases "Suc k < length fs")
    case True
    then have "n = length fs - Suc k" using Suc(2) by simp
    then show ?thesis using Suc(1) [of "Suc k"] True Suc(3)
      by (subst iter_bytes.simps) (cases "g (iter_at fs a k)", simp_all add: iter_next_at [OF assms(1)] upt_conv_Cons [of k])
  next
    case False
    then have "[k..<length fs] = [k]" using Suc(3) by (simp add: upt_conv_Cons)
    then show ?thesis using False Suc(3)
      by (subst iter_bytes.simps) (simp add: iter_next_at [OF assms(1)] split: option.split)
  qed
qed simp

lemma iter_to_end_at:
  assumes "\<forall>f \<in> set fs. plain_field f" and "k < length fs"
  shows "iter_to_end (iter_at fs a k) = (iter_at fs a (length fs - 1), iter_at fs a 0)"
  using assms(2)
proof (induction "length fs - k" arbitrary: k)
  case (Suc n)
  show ?case
  proof (cases "Suc k < length fs")
    case True
    then have "n = length fs - Suc k" using Suc(2) by simp
    then show ?thesis using Suc(1) [of "Suc k"] True Suc(3)
      by (subst iter_to_end.simps) (simp add: iter_next_at [OF assms(1)])
  next
    case False
    then have "k = length fs - 1" using Suc(3) by simp
    then show ?thesis using False Suc(3)
      by (subst iter_to_end.simps) (simp add: iter_next_at [OF assms(1)])
  qed
qed simp

text \<open>The iterator finds the field of a tag, from any position before it.\<close>

lemma find_at:
  assumes "\<forall>f \<in> set fs. plain_field f" and "distinct (map pf_tag fs)" and "j \<le> k" and "k < length fs"
    and "PB_LTYPE (pf_type (fs ! k)) \<noteq> PB_LTYPE_EXTENSION"
  shows "pb_field_iter_find (iter_at fs a j) (pf_tag (fs ! k)) = (True, iter_at fs a k)"
proof -
  have "iter_find_loop n start (pf_tag (fs ! k)) (iter_at fs a i) = (True, iter_at fs a k)"
    if "start \<le> i" "i \<le> k" "k - i \<le> n" for i n start
    using that
  proof (induction "k - i" arbitrary: i n)
    case 0
    then show ?case using assms by (subst iter_find_loop.simps) simp
  next
    case (Suc e)
    then have "i < k" by simp
    then have "pf_tag (fs ! i) \<noteq> pf_tag (fs ! k)"
      using assms(2,4) by (simp add: distinct_conv_nth)
    moreover have "iter_find_loop (n - 1) start (pf_tag (fs ! k)) (iter_at fs a (Suc i)) = (True, iter_at fs a k)"
      using Suc \<open>i < k\<close> by simp
    ultimately show ?case using Suc \<open>i < k\<close> assms(4)
      by (subst iter_find_loop.simps) (simp add: iter_next_at [OF assms(1)])
  qed
  from this [of j j "length fs"] assms(3,4) show ?thesis by (simp add: pb_field_iter_find_def)
qed

text \<open>When the first \<open>n\<close> required fields have been seen, the check of \<open>n\<close> fields is passed.\<close>

lemma div_mod_32: "drop_bit 5 n = n div 32" "n AND 31 = n mod 32" for n :: nat
proof -
  have "n AND 31 = take_bit 5 n" by (simp add: take_bit_eq_mask mask_eq_exp_minus_1)
  then show "n AND 31 = n mod 32" by (simp add: take_bit_eq_mod)
qed (simp add: drop_bit_eq_div)

definition seen_upto :: "nat \<Rightarrow> u32 list" where
  "seen_upto n = (if n \<le> 32 then [mask n, 0] else [- 1, mask (min n 64 - 32)])"

lemma see_next: "n < 64 \<Longrightarrow> see_field n (seen_upto n) = seen_upto (Suc n)"
proof -
  assume n: "n < 64"
  have grow: "mask k OR push_bit k 1 = (mask (Suc k) :: u32)" for k
    by (simp add: mask_Suc_exp or.commute push_bit_eq_mult)
  have full: "(mask 32 :: u32) = - 1" by (intro bit_word_eqI) (simp add: bit_simps)
  consider "n < 32" | "n = 32" | "32 < n" by linarith
  then show ?thesis
  proof cases
    case 1
    then show ?thesis using grow [of n] by (simp add: see_field_def seen_upto_def div_mod_32)
  next
    case 2
    then show ?thesis using grow [of 0] full by (simp add: see_field_def seen_upto_def div_mod_32)
  next
    case 3
    then have "n div 32 = 1" "n mod 32 = n - 32" "Suc (n - 32) = n - 31" using n by (auto simp: mod_if le_div_geq)
    then show ?thesis using grow [of "n - 32"] 3 n by (simp add: see_field_def seen_upto_def div_mod_32)
  qed
qed

lemma seen_all: "all_seen (min 64 n) (seen_upto n)"
proof -
  have rest: "drop_bit (32 - k) (- 1) = (mask k :: u32)" if "0 < k" "k < 32" for k
    using that by (intro bit_word_eqI) (auto simp: bit_simps)
  have full: "(mask 32 :: u32) = - 1" by (intro bit_word_eqI) (simp add: bit_simps)
  consider "n < 32" | "n = 32" | "32 < n" "n < 64" | "64 \<le> n" by linarith
  then show ?thesis
  proof cases
    case 1
    then show ?thesis using rest [of n] by (simp add: all_seen_def seen_upto_def div_mod_32)
  next
    case 2
    then show ?thesis using full by (simp add: all_seen_def seen_upto_def div_mod_32)
  next
    case 3
    then have "n div 32 = 1" "n mod 32 = n - 32" by (auto simp: mod_if le_div_geq)
    then show ?thesis using rest [of "n - 32"] 3 by (simp add: all_seen_def seen_upto_def div_mod_32)
  next
    case 4
    then show ?thesis using full by (auto simp: all_seen_def seen_upto_def div_mod_32 nth_Cons' less_2_cases_iff)
  qed
qed

section \<open>The value of a structure\<close>

text \<open>What a structure holds: of an optional field that is not present, nothing else matters.\<close>

datatype field_value = Absent | Scalar bytes | Message "field_value list"

definition has_at :: "pb_field \<Rightarrow> nat \<Rightarrow> nat" where
  "has_at f p = at_offset p (pf_size_offset f)"

definition present :: "mem \<Rightarrow> pb_field \<Rightarrow> nat \<Rightarrow> bool" where
  "present m f p \<longleftrightarrow> is_required f \<or> m (has_at f p) \<noteq> 0"

definition is_submessage :: "pb_field \<Rightarrow> bool" where
  "is_submessage f \<longleftrightarrow> PB_LTYPE (pf_type f) = PB_LTYPE_SUBMESSAGE"

text \<open>\<open>d\<close> bounds the depth of nested messages, \<open>descr\<close> gives the descriptors at an address.\<close>

primrec struct_value :: "nat \<Rightarrow> (nat \<Rightarrow> pb_field list) \<Rightarrow> mem \<Rightarrow> pb_field list \<Rightarrow> nat \<Rightarrow> field_value list" where
  "struct_value 0 descr m fs a = []"
| "struct_value (Suc d) descr m fs a =
     map (\<lambda>k. let f = fs ! k; p = data_at fs a k
              in if \<not> present m f p then Absent
                 else if is_submessage f then Message (struct_value d descr m (descr (pf_ptr f)) p)
                 else Scalar (value_image m f p)) [0..<length fs]"

text \<open>The message types considered, and the structures that hold values that can be encoded.\<close>

primrec message_wf :: "nat \<Rightarrow> (nat \<Rightarrow> pb_field list) \<Rightarrow> pb_field list \<Rightarrow> bool" where
  "message_wf 0 descr fs \<longleftrightarrow> False"
| "message_wf (Suc d) descr fs \<longleftrightarrow> distinct (map pf_tag fs) \<and>
     (\<forall>f \<in> set fs. plain_field f \<and> PB_LTYPE (pf_type f) \<noteq> PB_LTYPE_EXTENSION \<and>
        (is_submessage f \<longrightarrow> pf_ptr f \<noteq> 0 \<and> message_wf d descr (descr (pf_ptr f)) \<and>
           message_size (descr (pf_ptr f)) \<le> unat (pf_data_size f)))"

primrec struct_ok :: "nat \<Rightarrow> (nat \<Rightarrow> pb_field list) \<Rightarrow> mem \<Rightarrow> pb_field list \<Rightarrow> nat \<Rightarrow> bool" where
  "struct_ok 0 descr m fs a \<longleftrightarrow> True"
| "struct_ok (Suc d) descr m fs a \<longleftrightarrow>
     (\<forall>k < length fs. let f = fs ! k; p = data_at fs a k
        in present m f p \<longrightarrow> (if is_submessage f then struct_ok d descr m (descr (pf_ptr f)) p
           else value_ok m f p \<and> length (value_image m f p) \<le> unat (pf_data_size f)))"

text \<open>The values of a structure have come into another one; all optional fields are absent.\<close>

primrec copied :: "nat \<Rightarrow> (nat \<Rightarrow> pb_field list) \<Rightarrow> mem \<Rightarrow> pb_field list \<Rightarrow> nat \<Rightarrow> mem \<Rightarrow> nat \<Rightarrow> bool" where
  "copied 0 descr m fs a m' b \<longleftrightarrow> True"
| "copied (Suc d) descr m fs a m' b \<longleftrightarrow>
     (\<forall>k < length fs. let f = fs ! k; p = data_at fs a k; q = data_at fs b k
        in present m' f q = present m f p \<and>
          (present m f p \<longrightarrow>
             (if is_submessage f then copied d descr m (descr (pf_ptr f)) p m' q
              else load m' q (length (value_image m f p)) = value_image m f p)))"

primrec cleared :: "nat \<Rightarrow> (nat \<Rightarrow> pb_field list) \<Rightarrow> mem \<Rightarrow> pb_field list \<Rightarrow> nat \<Rightarrow> bool" where
  "cleared 0 descr m fs a \<longleftrightarrow> True"
| "cleared (Suc d) descr m fs a \<longleftrightarrow>
     (\<forall>k < length fs. let f = fs ! k; p = data_at fs a k
        in (\<not> is_required f \<longrightarrow> m (has_at f p) = 0) \<and>
           (is_submessage f \<longrightarrow> cleared d descr m (descr (pf_ptr f)) p))"

section \<open>What lies in a segment\<close>

lemma message_size_simps [simp]: "message_size [] = 0" "message_size (f # fs) = segment_size f + message_size fs"
  by (simp_all add: message_size_def)

lemma message_size_take_le: "message_size (take k fs) \<le> message_size fs"
proof -
  have "message_size fs = message_size (take k fs) + message_size (drop k fs)"
    by (simp add: message_size_def flip: sum_list_append map_append)
  then show ?thesis by simp
qed

lemma message_size_take_Suc:
  "k < length fs \<Longrightarrow> message_size (take (Suc k) fs) = message_size (take k fs) + segment_size (fs ! k)"
  by (simp add: take_Suc_conv_app_nth message_size_def)

lemma message_size_take_mono: "i \<le> k \<Longrightarrow> message_size (take i fs) \<le> message_size (take k fs)"
  using message_size_take_le [of i "take k fs"] by (simp add: min_absorb1)

text \<open>The segment at position \<open>k\<close>, and its data.\<close>

lemma data_in_segment:
  assumes "k < length fs"
  shows "data_at fs a k + unat (pf_data_size (fs ! k)) = a + message_size (take (Suc k) fs)"
    and "a + message_size (take (Suc k) fs) \<le> a + message_size fs"
    and "a + message_size (take k fs) \<le> data_at fs a k"
  using assms message_size_take_le [of "Suc k" fs] by (simp_all add: data_at_def message_size_take_Suc segment_size_def)

lemma has_in_segment:
  assumes "plain_field (fs ! k)" and "\<not> is_required (fs ! k)"
  shows "a + message_size (take k fs) \<le> has_at (fs ! k) (data_at fs a k)"
    and "has_at (fs ! k) (data_at fs a k) < data_at fs a k"
proof -
  let ?f = "fs ! k"
  have "sint (pf_size_offset ?f) < 0" "- sint (pf_size_offset ?f) \<le> int (unat (pf_data_offset ?f))"
    using assms by (auto simp: plain_field_def is_required_def)
  then show "a + message_size (take k fs) \<le> has_at ?f (data_at fs a k)" "has_at ?f (data_at fs a k) < data_at fs a k"
    unfolding has_at_def at_offset_def data_at_def by linarith+
qed

definition same_on :: "nat \<Rightarrow> nat \<Rightarrow> mem \<Rightarrow> mem \<Rightarrow> bool" where
  "same_on a n m m' \<longleftrightarrow> (\<forall>x. a \<le> x \<and> x < a + n \<longrightarrow> m' x = m x)"

lemma same_on_sub: "same_on a n m m' \<Longrightarrow> a \<le> b \<Longrightarrow> b + k \<le> a + n \<Longrightarrow> same_on b k m m'"
  by (auto simp: same_on_def)

lemma same_on_load: "same_on a n m m' \<Longrightarrow> k \<le> n \<Longrightarrow> load m' a k = load m a k"
  by (auto simp: same_on_def load_def)

lemma submessage_in_segment:
  assumes "k < length fs" and "message_size g \<le> unat (pf_data_size (fs ! k))" and "same_on a (message_size fs) m m'"
  shows "same_on (data_at fs a k) (message_size g) m m'"
  by (rule same_on_sub [OF assms(3)]) (use data_in_segment [OF assms(1), of a] assms(2) in simp_all)

text \<open>What \<open>copied\<close> and \<open>cleared\<close> say of a structure depends on its own bytes only.\<close>

lemma present_local:
  assumes "plain_field (fs ! k)" and "k < length fs" and "same_on a (message_size fs) m m'"
  shows "present m' (fs ! k) (data_at fs a k) = present m (fs ! k) (data_at fs a k)"
proof (cases "is_required (fs ! k)")
  case False
  then show ?thesis
    using has_in_segment [OF assms(1) False, of a] data_in_segment [OF assms(2), of a] assms(3)
    by (auto simp: present_def same_on_def)
qed (simp add: present_def)

lemma copied_local:
  "message_wf d descr fs \<Longrightarrow> struct_ok d descr m fs a \<Longrightarrow> copied d descr m fs a m' b \<Longrightarrow>
   same_on b (message_size fs) m' m'' \<Longrightarrow> copied d descr m fs a m'' b"
proof (induction d arbitrary: fs a b)
  case (Suc d)
  show ?case unfolding copied.simps Let_def
  proof (intro allI impI)
    fix k assume k: "k < length fs"
    let ?f = "fs ! k" and ?p = "data_at fs a k" and ?q = "data_at fs b k"
    have f: "plain_field ?f" and sub: "is_submessage ?f \<Longrightarrow>
        message_wf d descr (descr (pf_ptr ?f)) \<and> message_size (descr (pf_ptr ?f)) \<le> unat (pf_data_size ?f)"
      using Suc.prems(1) k by auto
    have old: "present m' ?f ?q = present m ?f ?p" "present m ?f ?p \<Longrightarrow>
          (if is_submessage ?f then copied d descr m (descr (pf_ptr ?f)) ?p m' ?q
           else load m' ?q (length (value_image m ?f ?p)) = value_image m ?f ?p)"
      using Suc.prems(3) k by (auto simp: Let_def)
    have ok: "present m ?f ?p \<Longrightarrow> (if is_submessage ?f then struct_ok d descr m (descr (pf_ptr ?f)) ?p
        else length (value_image m ?f ?p) \<le> unat (pf_data_size ?f))"
      using Suc.prems(2) k by (auto simp: Let_def)
    have data: "same_on ?q (unat (pf_data_size ?f)) m' m''"
      by (rule same_on_sub [OF Suc.prems(4)]) (use data_in_segment [OF k, of b] in simp_all)
    show "present m'' ?f ?q = present m ?f ?p \<and> (present m ?f ?p \<longrightarrow>
          (if is_submessage ?f then copied d descr m (descr (pf_ptr ?f)) ?p m'' ?q
           else load m'' ?q (length (value_image m ?f ?p)) = value_image m ?f ?p))"
    proof (intro conjI impI)
      show "present m'' ?f ?q = present m ?f ?p" using present_local [OF f k Suc.prems(4)] old(1) by simp
      assume here: "present m ?f ?p"
      show "if is_submessage ?f then copied d descr m (descr (pf_ptr ?f)) ?p m'' ?q
           else load m'' ?q (length (value_image m ?f ?p)) = value_image m ?f ?p"
      proof (cases "is_submessage ?f")
        case True
        then have "copied d descr m (descr (pf_ptr ?f)) ?p m'' ?q"
          using Suc.IH [of "descr (pf_ptr ?f)" ?p ?q] sub old(2) ok here submessage_in_segment [OF k _ Suc.prems(4)] by simp
        then show ?thesis using True by simp
      next
        case False
        then show ?thesis using old(2) ok here same_on_load [OF data] by simp
      qed
    qed
  qed
qed simp

lemma cleared_local:
  "message_wf d descr fs \<Longrightarrow> cleared d descr m fs a \<Longrightarrow> same_on a (message_size fs) m m' \<Longrightarrow> cleared d descr m' fs a"
proof (induction d arbitrary: fs a)
  case (Suc d)
  show ?case unfolding cleared.simps Let_def
  proof (intro allI impI conjI)
    fix k assume k: "k < length fs"
    let ?f = "fs ! k" and ?p = "data_at fs a k"
    have f: "plain_field ?f" and sub: "is_submessage ?f \<Longrightarrow>
        message_wf d descr (descr (pf_ptr ?f)) \<and> message_size (descr (pf_ptr ?f)) \<le> unat (pf_data_size ?f)"
      using Suc.prems(1) k by auto
    show "m' (has_at ?f ?p) = 0" if "\<not> is_required ?f"
      using present_local [OF f k Suc.prems(3)] Suc.prems(2) that k by (simp add: present_def Let_def)
    show "cleared d descr m' (descr (pf_ptr ?f)) ?p" if "is_submessage ?f"
      using Suc.IH [of "descr (pf_ptr ?f)" ?p] sub that submessage_in_segment [OF k _ Suc.prems(3)] Suc.prems(2) k
      by (simp add: Let_def)
  qed
qed simp

lemma string_size_copied:
  "load m' q (Suc (string_size m p n)) = load m p (Suc (string_size m p n)) \<Longrightarrow> string_size m p n < n \<Longrightarrow>
   string_size m' q n = string_size m p n"
proof (induction m p n arbitrary: q rule: string_size.induct)
  case (2 m p n)
  have h: "load m a (Suc k) = m a # load m (Suc a) k" for m a k
    using load_append [of m a 1 k] by (simp add: load_def)
  show ?case
  proof (cases "m p = 0")
    case False
    then show ?thesis using 2 by (simp add: h)
  qed (use 2 in \<open>simp add: h\<close>)
qed simp

lemma image_copied:
  assumes "value_ok m f p" and img: "load m' q (length (value_image m f p)) = value_image m f p"
  shows "value_image m' f q = value_image m f p"
proof -
  let ?lt = "PB_LTYPE (pf_type f)" and ?n = "unat (pf_data_size f)"
  consider (bool) "?lt = PB_LTYPE_BOOL" | (bytes) "?lt = PB_LTYPE_BYTES" | (string) "?lt = PB_LTYPE_STRING"
    | (other) "?lt \<noteq> PB_LTYPE_BOOL" "?lt \<noteq> PB_LTYPE_BYTES" "?lt \<noteq> PB_LTYPE_STRING" by blast
  then show ?thesis
  proof cases
    case bool
    then show ?thesis using img by (auto simp: value_image_def Let_def load_def)
  next
    case bytes
    define sz where "sz = (load_word m p 4 :: u32)"
    have im: "value_image m f p = load m p (4 + unat sz)" using bytes by (simp add: value_image_def pb_types sz_def)
    then have "load m' q (4 + unat sz) = load m p (4 + unat sz)" using img by simp
    then have "load m' q 4 = load m p 4" "load m' (q + 4) (unat sz) = load m (p + 4) (unat sz)"
      by (simp_all add: load_append)
    moreover from this have "(load_word m' q 4 :: u32) = sz" by (simp add: load_word_def sz_def)
    ultimately show ?thesis using bytes by (simp add: value_image_def pb_types sz_def load_append)
  next
    case string
    then have "value_image m f p = load m p (Suc (string_size m p ?n))" "string_size m p ?n < ?n"
      using assms(1) by (simp_all add: value_image_def value_ok_def pb_types)
    moreover from this have "string_size m' q ?n = string_size m p ?n" using img by (intro string_size_copied) simp_all
    ultimately show ?thesis using string img by (simp add: value_image_def pb_types)
  next
    case other
    then show ?thesis using img by (auto simp: value_image_def Let_def split: if_splits)
  qed
qed

text \<open>A structure that was copied has the value of the original.\<close>

lemma copied_value:
  "struct_ok d descr m fs a \<Longrightarrow> copied d descr m fs a m' b \<Longrightarrow> struct_value d descr m' fs b = struct_value d descr m fs a"
proof (induction d arbitrary: fs a b)
  case (Suc d)
  show ?case unfolding struct_value.simps Let_def
  proof (rule map_cong [OF refl])
    fix k assume "k \<in> set [0..<length fs]"
    then have k: "k < length fs" by simp
    let ?f = "fs ! k" and ?p = "data_at fs a k" and ?q = "data_at fs b k"
    have c: "present m' ?f ?q = present m ?f ?p" "present m ?f ?p \<Longrightarrow>
          (if is_submessage ?f then copied d descr m (descr (pf_ptr ?f)) ?p m' ?q
           else load m' ?q (length (value_image m ?f ?p)) = value_image m ?f ?p)"
      using Suc.prems(2) k by (auto simp: Let_def)
    have ok: "present m ?f ?p \<Longrightarrow> (if is_submessage ?f then struct_ok d descr m (descr (pf_ptr ?f)) ?p
        else value_ok m ?f ?p)"
      using Suc.prems(1) k by (auto simp: Let_def)
    show "(if \<not> present m' ?f ?q then Absent
           else if is_submessage ?f then Message (struct_value d descr m' (descr (pf_ptr ?f)) ?q)
           else Scalar (value_image m' ?f ?q)) =
          (if \<not> present m ?f ?p then Absent
           else if is_submessage ?f then Message (struct_value d descr m (descr (pf_ptr ?f)) ?p)
           else Scalar (value_image m ?f ?p))"
      using c ok Suc.IH [of "descr (pf_ptr ?f)" ?p ?q] image_copied [of m ?f ?p m' ?q] by auto
  qed
qed simp

section \<open>Default values clear a structure\<close>

text \<open>An effect on the memory that is confined to the \<open>n\<close> bytes at \<open>a\<close>.\<close>

definition unchanged_outside :: "nat \<Rightarrow> nat \<Rightarrow> mem \<Rightarrow> mem \<Rightarrow> bool" where
  "unchanged_outside a n m m' \<longleftrightarrow> (\<forall>x. x < a \<or> a + n \<le> x \<longrightarrow> m' x = m x)"

lemma unchanged_refl [simp]: "unchanged_outside a n m m"
  by (simp add: unchanged_outside_def)

lemma unchanged_trans:
  "unchanged_outside a n m m' \<Longrightarrow> unchanged_outside a n m' m'' \<Longrightarrow> unchanged_outside a n m m''"
  by (simp add: unchanged_outside_def)

lemma unchanged_wider:
  "unchanged_outside b k m m' \<Longrightarrow> a \<le> b \<Longrightarrow> b + k \<le> a + n \<Longrightarrow> unchanged_outside a n m m'"
  by (auto simp: unchanged_outside_def)

lemma unchanged_store: "a \<le> b \<Longrightarrow> b + length bs \<le> a + n \<Longrightarrow> unchanged_outside a n m (store b bs m)"
  by (auto simp: unchanged_outside_def store_def)

lemma unchanged_same: "unchanged_outside b k m m' \<Longrightarrow> a + n \<le> b \<or> b + k \<le> a \<Longrightarrow> same_on a n m m'"
  by (auto simp: unchanged_outside_def same_on_def)

lemma plain_field_default:
  assumes "plain_field f" and "PB_LTYPE (pf_type f) \<noteq> PB_LTYPE_EXTENSION" and "it_field it = f"
    and "\<not> is_required f \<Longrightarrow> pSize it \<noteq> pData it"
  shows "pb_field_set_to_default (Suc d) env it m =
    (let m1 = (if is_required f then m else store (pSize it) [0] m); sz = unat (pf_data_size f)
     in if is_submessage f then pb_message_set_to_defaults d env (dec_fields_of env (pf_ptr f)) (pData it) m1
        else store (pData it) (if pf_ptr f \<noteq> 0 then load m1 (pf_ptr f) sz else replicate sz 0) m1)"
  using assms
  by (auto simp: Let_def plain_field_def is_required_def is_submessage_def static_field_default_def memset0_def
      pb_message_set_to_defaults_def PB_HTYPE_REQUIRED_def PB_HTYPE_OPTIONAL_def PB_HTYPE_REPEATED_def PB_HTYPE_ONEOF_def)

text \<open>The state of one field after its default has been set.\<close>

definition field_cleared :: "nat \<Rightarrow> (nat \<Rightarrow> pb_field list) \<Rightarrow> mem \<Rightarrow> pb_field \<Rightarrow> nat \<Rightarrow> bool" where
  "field_cleared d descr m f p \<longleftrightarrow> (\<not> is_required f \<longrightarrow> m (has_at f p) = 0) \<and>
     (is_submessage f \<longrightarrow> cleared d descr m (descr (pf_ptr f)) p)"

lemma cleared_fields:
  "cleared (Suc d) descr m fs a \<longleftrightarrow> (\<forall>k < length fs. field_cleared d descr m (fs ! k) (data_at fs a k))"
  by (simp add: field_cleared_def Let_def)

declare cleared.simps(2) [simp del]

definition clears :: "nat \<Rightarrow> 's pb_dec_env \<Rightarrow> nat \<Rightarrow> pb_field list \<Rightarrow> bool" where
  "clears D env d fs \<longleftrightarrow> (\<forall>a m. let m' = pb_message_set_to_defaults D env fs a m
     in cleared d (dec_fields_of env) m' fs a \<and> unchanged_outside a (message_size fs) m m')"

lemma field_default_clears:
  fixes a :: nat and m :: mem
  assumes wf: "message_wf (Suc d) (dec_fields_of env) fs" and k: "k < length fs"
    and sub: "is_submessage (fs ! k) \<Longrightarrow> clears D env d (dec_fields_of env (pf_ptr (fs ! k)))"
  defines "m' \<equiv> pb_field_set_to_default (Suc D) env (iter_at fs a k) m"
  shows "field_cleared d (dec_fields_of env) m' (fs ! k) (data_at fs a k)"
    and "unchanged_outside (a + message_size (take k fs)) (segment_size (fs ! k)) m m'"
proof -
  let ?f = "fs ! k" and ?p = "data_at fs a k" and ?descr = "dec_fields_of env"
  let ?sz = "unat (pf_data_size ?f)" and ?a = "a + message_size (take k fs)"
  have f: "plain_field ?f" "PB_LTYPE (pf_type ?f) \<noteq> PB_LTYPE_EXTENSION"
    and size: "is_submessage ?f \<Longrightarrow> message_size (?descr (pf_ptr ?f)) \<le> ?sz" using wf k by auto
  note has = has_in_segment [OF f(1), of a]
  have len: "?a + segment_size ?f = ?p + ?sz" by (simp add: data_at_def segment_size_def)
  have p: "?a \<le> ?p" by (simp add: data_at_def)
  define m1 where "m1 = (if is_required ?f then m else store (has_at ?f ?p) [0] m)"
  have m': "m' = (if is_submessage ?f then pb_message_set_to_defaults D env (?descr (pf_ptr ?f)) ?p m1
      else store ?p (if pf_ptr ?f \<noteq> 0 then load m1 (pf_ptr ?f) ?sz else replicate ?sz 0) m1)"
    unfolding m'_def m1_def
    by (subst plain_field_default [OF f]) (use has k in \<open>auto simp: has_at_def Let_def\<close>)
  have one: "unchanged_outside ?a (segment_size ?f) m m1"
    using has p len by (auto simp: m1_def intro!: unchanged_store)
  have two: "unchanged_outside ?p ?sz m1 m'"
  proof (cases "is_submessage ?f")
    case True
    then have "unchanged_outside ?p (message_size (?descr (pf_ptr ?f))) m1 m'"
      using sub by (simp add: m' clears_def Let_def)
    then show ?thesis using size True by (auto intro: unchanged_wider)
  qed (simp add: m' unchanged_store)
  then show "unchanged_outside ?a (segment_size ?f) m m'"
    using unchanged_trans [OF one unchanged_wider [OF two]] p len by simp
  have "m' (has_at ?f ?p) = 0" if "\<not> is_required ?f"
    using two has that by (simp add: unchanged_outside_def m1_def store_def)
  moreover have "cleared d ?descr m' (?descr (pf_ptr ?f)) ?p" if "is_submessage ?f"
    using sub that by (simp add: m' clears_def Let_def)
  ultimately show "field_cleared d ?descr m' ?f ?p" by (simp add: field_cleared_def)
qed

text \<open>What happens in other segments does not matter to a field.\<close>

lemma field_cleared_local:
  assumes "message_wf (Suc d) descr fs" and "k < length fs" and "field_cleared d descr m (fs ! k) (data_at fs a k)"
    and same: "same_on (a + message_size (take k fs)) (segment_size (fs ! k)) m m'"
  shows "field_cleared d descr m' (fs ! k) (data_at fs a k)"
proof -
  let ?f = "fs ! k" and ?p = "data_at fs a k"
  have f: "plain_field ?f" and sub: "is_submessage ?f \<Longrightarrow> message_wf d descr (descr (pf_ptr ?f)) \<and>
      message_size (descr (pf_ptr ?f)) \<le> unat (pf_data_size ?f)" using assms(1,2) by auto
  have "m' (has_at ?f ?p) = 0" if "\<not> is_required ?f"
    using has_in_segment [OF f that, of a] same assms(3) that
    by (simp add: same_on_def field_cleared_def data_at_def segment_size_def)
  moreover have "cleared d descr m' (descr (pf_ptr ?f)) ?p" if s: "is_submessage ?f"
  proof (rule cleared_local)
    show "same_on ?p (message_size (descr (pf_ptr ?f))) m m'"
      by (rule same_on_sub [OF same]) (use sub [OF s] in \<open>simp_all add: data_at_def segment_size_def\<close>)
  qed (use sub [OF s] assms(3) s in \<open>simp_all add: field_cleared_def\<close>)
  ultimately show ?thesis by (simp add: field_cleared_def)
qed

lemma defaults_clear: "message_wf d (dec_fields_of env) fs \<Longrightarrow> d \<le> D \<Longrightarrow> clears D env d fs"
proof (induction d arbitrary: D fs)
  case (Suc d)
  then obtain D' where D: "D = Suc D'" "d \<le> D'" by (cases D) auto
  note wf = Suc.prems(1) and deeper = Suc.IH
  have plain: "\<forall>f \<in> set fs. plain_field f" using wf by simp
  show ?case unfolding clears_def Let_def
  proof (intro allI)
    fix a m
    let ?m = "\<lambda>n. fold (\<lambda>i. pb_field_set_to_default D env (iter_at fs a i)) [0..<n] m"
    have steps: "(\<forall>k < n. field_cleared d (dec_fields_of env) (?m n) (fs ! k) (data_at fs a k)) \<and>
        unchanged_outside a (message_size (take n fs)) m (?m n)" if "n \<le> length fs" for n
      using that
    proof (induction n)
      case (Suc n)
      then have n: "n < length fs" by simp
      have sub: "clears D' env d (dec_fields_of env (pf_ptr (fs ! n)))" if "is_submessage (fs ! n)"
        using that wf n D(2) by (intro deeper) auto
      note one = field_default_clears [OF wf n sub, of a "?m n", folded D(1)]
      have "field_cleared d (dec_fields_of env) (?m (Suc n)) (fs ! k) (data_at fs a k)" if "k < Suc n" for k
      proof (cases "k = n")
        case False
        then have k: "k < n" "k < length fs" using that n by auto
        have "message_size (take k fs) + segment_size (fs ! k) \<le> message_size (take n fs)"
          using message_size_take_mono [of "Suc k" n fs] k by (simp add: message_size_take_Suc)
        then have same: "same_on (a + message_size (take k fs)) (segment_size (fs ! k)) (?m n) (?m (Suc n))"
          using unchanged_same [OF one(2)] by simp
        have "field_cleared d (dec_fields_of env) (?m n) (fs ! k) (data_at fs a k)"
          using Suc.IH k n by simp
        from field_cleared_local [OF wf k(2) this same] show ?thesis .
      qed (use one(1) in simp)
      moreover have "unchanged_outside a (message_size (take (Suc n) fs)) m (?m (Suc n))"
      proof (rule unchanged_trans)
        show "unchanged_outside a (message_size (take (Suc n) fs)) m (?m n)"
          by (rule unchanged_wider [of a "message_size (take n fs)"]) (use Suc.IH n in \<open>simp_all add: message_size_take_Suc\<close>)
        show "unchanged_outside a (message_size (take (Suc n) fs)) (?m n) (?m (Suc n))"
          by (simp, rule unchanged_wider [OF one(2)]) (use n in \<open>simp_all add: message_size_take_Suc\<close>)
      qed
      ultimately show ?case by blast
    qed simp
    have "pb_message_set_to_defaults D env fs a m = ?m (length fs)"
    proof (cases "fs = []")
      case False
      then have "pf_tag (fs ! 0) \<noteq> 0" using plain by (auto simp: plain_field_def)
      then show ?thesis using False iter_fold_at [OF plain, of 0]
        by (simp add: pb_message_set_to_defaults_def iter_begin_at)
    qed (simp add: pb_message_set_to_defaults_def pb_field_iter_begin_def field_at_def PB_LAST_FIELD_def Let_def)
    then show "cleared (Suc d) (dec_fields_of env) (pb_message_set_to_defaults D env fs a m) fs a \<and>
        unchanged_outside a (message_size fs) m (pb_message_set_to_defaults D env fs a m)"
      using steps [of "length fs"] by (simp add: cleared_fields)
  qed
qed simp

section \<open>Decoding copies\<close>

text \<open>The local variables of the calls lie apart from the structure that is decoded into.\<close>

definition in_locals :: "'s pb_dec_env \<Rightarrow> nat \<Rightarrow> bool" where
  "in_locals env x \<longleftrightarrow> (\<exists>d. fixed_count_at env d \<le> x \<and> x < fixed_count_at env d + 4)"

definition apart :: "'s pb_dec_env \<Rightarrow> nat \<Rightarrow> nat \<Rightarrow> bool" where
  "apart env a n \<longleftrightarrow> (\<forall>x. a \<le> x \<and> x < a + n \<longrightarrow> \<not> in_locals env x)"

definition confined :: "'s pb_dec_env \<Rightarrow> nat \<Rightarrow> nat \<Rightarrow> mem \<Rightarrow> mem \<Rightarrow> bool" where
  "confined env a n m m' \<longleftrightarrow> (\<forall>x. (x < a \<or> a + n \<le> x) \<and> \<not> in_locals env x \<longrightarrow> m' x = m x)"

lemma confined_refl [simp]: "confined env a n m m"
  by (simp add: confined_def)

lemma confined_trans: "confined env a n m m' \<Longrightarrow> confined env a n m' m'' \<Longrightarrow> confined env a n m m''"
  by (simp add: confined_def)

lemma confined_wider: "confined env b k m m' \<Longrightarrow> a \<le> b \<Longrightarrow> b + k \<le> a + n \<Longrightarrow> confined env a n m m'"
  by (auto simp: confined_def)

lemma confined_unchanged: "unchanged_outside a n m m' \<Longrightarrow> confined env a n m m'"
  by (auto simp: unchanged_outside_def confined_def)

lemma confined_same: "confined env b k m m' \<Longrightarrow> apart env a n \<Longrightarrow> a + n \<le> b \<or> b + k \<le> a \<Longrightarrow> same_on a n m m'"
  by (auto simp: confined_def same_on_def apart_def)

lemma apart_sub: "apart env a n \<Longrightarrow> a \<le> b \<Longrightarrow> b + k \<le> a + n \<Longrightarrow> apart env b k"
  by (auto simp: apart_def)

lemma confined_local: "confined env a n m (set_pb_size (fixed_count_at env d) v m)"
  unfolding confined_def set_pb_size_def
proof (intro allI impI store_outside)
  fix x
  assume "(x < a \<or> a + n \<le> x) \<and> \<not> in_locals env x"
  then have "\<not> (fixed_count_at env d \<le> x \<and> x < fixed_count_at env d + 4)" by (auto simp: in_locals_def)
  then show "x < fixed_count_at env d \<or> fixed_count_at env d + length (le_bytes 4 v) \<le> x" by auto
qed

lemma apart_local: "apart env a n \<Longrightarrow> same_on a n m (set_pb_size (fixed_count_at env d) v m)"
  unfolding same_on_def set_pb_size_def
proof (intro allI impI store_outside)
  fix x
  assume "apart env a n" "a \<le> x \<and> x < a + n"
  then have "\<not> in_locals env x" by (simp add: apart_def)
  then have "\<not> (fixed_count_at env d \<le> x \<and> x < fixed_count_at env d + 4)" by (auto simp: in_locals_def)
  then show "x < fixed_count_at env d \<or> fixed_count_at env d + length (le_bytes 4 v) \<le> x" by auto
qed

definition sub_decoder :: "'s pb_dec_env \<Rightarrow> nat \<Rightarrow> 's pb_decoder" where
  "sub_decoder env d =
     pb_dec_submessage (\<lambda>ptr. decode_and_release env (pb_decode_noinit d env) (dec_fields_of env ptr))
       (\<lambda>ptr. pb_decode_noinit d env (dec_fields_of env ptr))"

definition field_copied :: "nat \<Rightarrow> (nat \<Rightarrow> pb_field list) \<Rightarrow> mem \<Rightarrow> pb_field \<Rightarrow> nat \<Rightarrow> mem \<Rightarrow> nat \<Rightarrow> bool" where
  "field_copied d descr m f p m' q \<longleftrightarrow> present m' f q = present m f p \<and>
     (present m f p \<longrightarrow>
       (if is_submessage f then copied d descr m (descr (pf_ptr f)) p m' q
        else load m' q (length (value_image m f p)) = value_image m f p))"

lemma copied_fields:
  "copied (Suc d) descr m fs a m' b \<longleftrightarrow>
   (\<forall>k < length fs. field_copied d descr m (fs ! k) (data_at fs a k) m' (data_at fs b k))"
  by (simp add: field_copied_def Let_def)

declare copied.simps(2) [simp del]

lemma value_bytes_scalar: "\<not> is_submessage f \<Longrightarrow> value_bytes sub m f p = value_bytes None m f p"
  by (simp add: value_bytes_def is_submessage_def Let_def pb_types)

lemma value_bytes_submessage:
  assumes "is_submessage f" and "value_bytes sub m f p = Some b"
  obtains b' where "sub = Some b'" and "b = length_delimited b'" and "pf_ptr f \<noteq> 0"
  using assms by (auto simp: value_bytes_def is_submessage_def Let_def pb_types split: option.splits if_splits)

lemma decoder_for_submessage: "is_submessage f \<Longrightarrow> decoder_for env dec f = dec"
  by (simp add: decoder_for_def PB_DECODERS_def is_submessage_def pb_types)

context feed
begin

definition copies :: "'s pb_dec_env \<Rightarrow> nat \<Rightarrow> pb_field list \<Rightarrow> mem \<Rightarrow> nat \<Rightarrow> bytes \<Rightarrow> bool" where
  "copies env d fs m src bs \<longleftrightarrow> (\<forall>s beyond dst m0.
     feeds s bs beyond \<and> cleared d (dec_fields_of env) m0 fs dst \<and> apart env dst (message_size fs) \<longrightarrow>
     (\<exists>s' m'. pb_decode_noinit d env fs dst (s, m0) = (True, s', m') \<and> feeds s' [] beyond \<and>
        copied d (dec_fields_of env) m fs src m' dst \<and> confined env dst (message_size fs) m0 m'))"

lemma reads_intoD:
  "reads_into dec q img b \<Longrightarrow> feeds s (b @ r) beyond \<Longrightarrow> \<exists>s'. dec (s, m) = (True, s', store q img m) \<and> feeds s' r beyond"
  by (simp add: reads_into_def)

lemma copiesD:
  assumes "copies env d fs m src bs" and "feeds s bs beyond" and "cleared d (dec_fields_of env) m0 fs dst"
    and "apart env dst (message_size fs)"
  obtains s' m' where "pb_decode_noinit d env fs dst (s, m0) = (True, s', m')" and "feeds s' [] beyond"
    and "copied d (dec_fields_of env) m fs src m' dst" and "confined env dst (message_size fs) m0 m'"
proof -
  have "\<exists>s' m'. pb_decode_noinit d env fs dst (s, m0) = (True, s', m') \<and> feeds s' [] beyond \<and>
      copied d (dec_fields_of env) m fs src m' dst \<and> confined env dst (message_size fs) m0 m'"
    using assms(2-4) by (intro assms(1) [unfolded copies_def, rule_format] conjI)
  then show ?thesis by (elim exE conjE) (rule that)
qed

text \<open>The decoder of a field puts the value where it belongs.\<close>

lemma value_copies:
  assumes v: "value_bytes sub m f p = Some b" and f: "plain_field f" and short: "length b < 2 ^ 32"
    and scalar: "\<not> is_submessage f \<Longrightarrow> value_ok m f p \<and> length (value_image m f p) \<le> unat (pf_data_size f)"
    and nested: "\<And>b'. is_submessage f \<Longrightarrow> sub = Some b' \<Longrightarrow> length b' < 2 ^ 32 \<Longrightarrow> copies env d (dec_fields_of env (pf_ptr f)) m p b'"
    and size: "is_submessage f \<Longrightarrow> message_size (dec_fields_of env (pf_ptr f)) \<le> unat (pf_data_size f)"
    and s: "feeds s (b @ r) beyond" and apart: "apart env q (unat (pf_data_size f))"
    and clear: "is_submessage f \<Longrightarrow> cleared d (dec_fields_of env) m1 (dec_fields_of env (pf_ptr f)) q"
  shows "\<exists>s' m2. decoder_for env (sub_decoder env d) f f q (s, m1) = (True, s', m2) \<and> feeds s' r beyond \<and>
    (if is_submessage f then copied d (dec_fields_of env) m (dec_fields_of env (pf_ptr f)) p m2 q
     else load m2 q (length (value_image m f p)) = value_image m f p) \<and>
    confined env q (unat (pf_data_size f)) m1 m2"
proof (cases "is_submessage f")
  case True
  then obtain b' where b': "sub = Some b'" "b = length_delimited b'" "pf_ptr f \<noteq> 0" by (rule value_bytes_submessage [OF _ v])
  let ?fs = "dec_fields_of env (pf_ptr f)"
  have len: "length b' < 2 ^ 32" using short b'(2) by (simp add: length_delimited_def)
  have "feeds s ((varint (length b') @ b') @ r) beyond" using s b'(2) by (simp add: length_delimited_def)
  then obtain sub' s1 where sub: "pb_make_string_substream s = (Some sub', s1)" "feeds sub' b' (r @ beyond)"
      "bytes_left s1 = length r"
    by (rule make_substream_feeds [OF _ len])
  have "apart env q (message_size ?fs)" using apart_sub [OF apart] size [OF True] by simp
  then obtain sub2 m2 where dec: "pb_decode_noinit d env ?fs q (sub', m1) = (True, sub2, m2)"
      "feeds sub2 [] (r @ beyond)" "copied d (dec_fields_of env) m ?fs p m2 q" "confined env q (message_size ?fs) m1 m2"
    by (rule copiesD [OF nested [OF True b'(1) len] sub(2) clear [OF True]])
  obtain s2 where s2: "pb_close_string_substream sub2 s1 = (Some (), s2)" "feeds s2 r beyond"
    using close_substream_feeds [OF dec(2) sub(3)] by (elim exE conjE) (rule that)
  have "PB_HTYPE (pf_type f) \<noteq> PB_HTYPE_REPEATED" using f by (auto simp: plain_field_def pb_types)
  then have "sub_decoder env d f q (s, m1) = (True, s2, m2)"
    by (simp add: sub_decoder_def pb_dec_submessage_def st_read_def sub(1) dec(1) s2(1) b'(3))
  moreover have "confined env q (unat (pf_data_size f)) m1 m2"
    by (rule confined_wider [OF dec(4)]) (use size [OF True] in simp_all)
  ultimately show ?thesis using True dec(3) s2(2) by (simp add: decoder_for_submessage)
next
  case False
  then have none: "value_bytes None m f p = Some b" using v value_bytes_scalar [of f sub m p] by simp
  have ok: "value_ok m f p" "length (value_image m f p) \<le> unat (pf_data_size f)" using scalar [OF False] by auto
  have "\<exists>dec. PB_DECODERS (dec_realloc env) (sub_decoder env d) (PB_LTYPE (pf_type f)) = Some dec \<and>
      reads_into (dec f q) q (value_image m f p) b"
    by (rule value_into [OF none ok(1)])
  then obtain dec where dec: "PB_DECODERS (dec_realloc env) (sub_decoder env d) (PB_LTYPE (pf_type f)) = Some dec"
      "reads_into (dec f q) q (value_image m f p) b"
    by (elim exE conjE) (rule that)
  then obtain s' where "dec f q (s, m1) = (True, s', store q (value_image m f p) m1)" "feeds s' r beyond"
    using reads_intoD [OF dec(2) s] by auto
  moreover have "confined env q (unat (pf_data_size f)) m1 (store q (value_image m f p) m1)"
    by (rule confined_unchanged, rule unchanged_store) (use ok in simp_all)
  ultimately show ?thesis using False dec(1) by (simp add: decoder_for_def load_store)
qed

end

lemma plain_bytes:
  assumes "any_field_bytes cb is_default sub m f p = Some b" and "plain_field f"
    and "PB_LTYPE (pf_type f) \<noteq> PB_LTYPE_EXTENSION"
  shows "if present m f p then keyed f (value_bytes (sub (pf_ptr f) p) m f p) = Some b else b = []"
proof -
  have "pf_size_offset f \<noteq> 0" if "\<not> is_required f"
    using assms(2) that by (auto simp: plain_field_def is_required_def)
  then show ?thesis
    using assms
    by (auto simp: any_field_bytes_def basic_bytes_def Let_def plain_field_def present_def is_required_def has_at_def
        PB_ATYPE_STATIC_def PB_ATYPE_POINTER_def PB_ATYPE_CALLBACK_def PB_HTYPE_REQUIRED_def PB_HTYPE_OPTIONAL_def
        split: if_splits)
qed

lemma keyed_Some:
  assumes "keyed f v = Some b" and "plain_field f"
  obtains i b' where "v = Some b'" and "field_ok (pf_tag f, i)" and "b = varint (field_key (pf_tag f, i)) @ b'"
proof -
  obtain wt b' where wt: "field_wiretype f = Some wt" "v = Some b'" "b = key_bytes f wt @ b'"
    using assms(1) by (auto simp: keyed_def split: option.splits)
  consider "wt = PB_WT_VARINT" | "wt = PB_WT_64BIT" | "wt = PB_WT_STRING" | "wt = PB_WT_32BIT"
    using field_wiretype_cases [OF wt(1)] by auto
  then have "\<exists>i. item_wiretype i = wt \<and> item_ok i"
  proof cases
    case 1 then show ?thesis by (intro exI [of _ "Varint 0"]) simp
  next
    case 2 then show ?thesis by (intro exI [of _ "Fixed64 0"]) simp
  next
    case 3 then show ?thesis by (intro exI [of _ "String []"]) simp
  next
    case 4 then show ?thesis by (intro exI [of _ "Fixed32 0"]) simp
  qed
  then obtain i where "item_wiretype i = wt" "item_ok i" by blast
  then show ?thesis using wt(2,3) assms(2)
    by (intro that [of b' i]) (auto simp: field_ok_def field_key_def key_bytes_def plain_field_def unat_gt_0)
qed

lemma concat_some_Cons:
  assumes "concat_some (x # xs) = Some bs"
  obtains b rest where "x = Some b" and "concat_some xs = Some rest" and "bs = b @ rest"
  using assms by (auto split: option.splits)

text \<open>A field that the iterator has found is decoded into its place.\<close>

lemma decode_known_plain:
  assumes f: "plain_field (fs ! k)" and k: "k < length fs" and l: "nl_iter l = iter_at fs dst k"
    and dec: "decoder_for env dec (fs ! k) (fs ! k) (data_at fs dst k)
        (s, if is_required (fs ! k) then m else store (has_at (fs ! k) (data_at fs dst k)) [1] m) = (True, s', m')"
  shows "decode_known env dec loc wt l (s, m) = ((True, s', m'),
    l\<lparr>fields_seen := (if is_required (fs ! k) \<and> length (filter is_required (take k fs)) < 64
        then see_field (length (filter is_required (take k fs))) (fields_seen l) else fields_seen l)\<rparr>)"
proof -
  let ?f = "fs ! k" and ?p = "data_at fs dst k"
  have types: "PB_HTYPE (pf_type ?f) \<noteq> PB_HTYPE_REPEATED" "PB_HTYPE (pf_type ?f) \<noteq> PB_HTYPE_ONEOF"
    "PB_ATYPE (pf_type ?f) = PB_ATYPE_STATIC" "PB_HTYPE (pf_type ?f) = PB_HTYPE_REQUIRED \<longleftrightarrow> is_required ?f"
    "\<not> is_required ?f \<Longrightarrow> PB_HTYPE (pf_type ?f) = PB_HTYPE_OPTIONAL"
    using f by (auto simp: plain_field_def pb_types is_required_def)
  have "at_offset ?p (pf_size_offset ?f) \<noteq> ?p" if "\<not> is_required ?f"
    using has_in_segment(2) [OF f that, of dst] by (simp add: has_at_def)
  then have "decode_static_field env dec wt (iter_at fs dst k) (s, m) = (True, s', m')"
    using dec types k by (auto simp: decode_static_field_def Let_def has_at_def)
  then have "decode_field env dec wt (iter_at fs dst k) (s, m) = (True, iter_at fs dst k, s', m')"
    using types k by (simp add: decode_field_def)
  then show ?thesis
    using types k l by (cases l) (simp add: decode_known_def Let_def PB_MAX_REQUIRED_FIELDS_def)
qed

lemma seen_step:
  "(if n < 64 then see_field n (seen_upto n) else seen_upto n) = seen_upto (Suc n)"
  by (cases "n < 64") (simp_all add: see_next, simp add: seen_upto_def)

lemma field_copied_local:
  assumes wf: "message_wf (Suc d) descr fs" and ok: "struct_ok (Suc d) descr m fs a" and k: "k < length fs"
    and old: "field_copied d descr m (fs ! k) (data_at fs a k) m' (data_at fs b k)"
    and same: "same_on (b + message_size (take k fs)) (segment_size (fs ! k)) m' m''"
  shows "field_copied d descr m (fs ! k) (data_at fs a k) m'' (data_at fs b k)"
proof -
  let ?f = "fs ! k" and ?p = "data_at fs a k" and ?q = "data_at fs b k"
  have f: "plain_field ?f" and sub: "is_submessage ?f \<Longrightarrow> message_wf d descr (descr (pf_ptr ?f)) \<and>
      message_size (descr (pf_ptr ?f)) \<le> unat (pf_data_size ?f)" using wf k by auto
  have ok_k: "present m ?f ?p \<Longrightarrow> (if is_submessage ?f then struct_ok d descr m (descr (pf_ptr ?f)) ?p
      else length (value_image m ?f ?p) \<le> unat (pf_data_size ?f))"
    using ok k by (auto simp: Let_def)
  have data: "same_on ?q (unat (pf_data_size ?f)) m' m''"
    by (rule same_on_sub [OF same]) (simp_all add: data_at_def segment_size_def)
  have pres: "present m'' ?f ?q = present m' ?f ?q"
  proof (cases "is_required ?f")
    case False
    then show ?thesis using has_in_segment [OF f False, of b] same
      by (auto simp: present_def same_on_def data_at_def segment_size_def)
  qed (simp add: present_def)
  show ?thesis unfolding field_copied_def
  proof (intro conjI impI)
    show "present m'' ?f ?q = present m ?f ?p" using pres old by (simp add: field_copied_def)
    assume here: "present m ?f ?p"
    show "if is_submessage ?f then copied d descr m (descr (pf_ptr ?f)) ?p m'' ?q
           else load m'' ?q (length (value_image m ?f ?p)) = value_image m ?f ?p"
    proof (cases "is_submessage ?f")
      case True
      have "same_on ?q (message_size (descr (pf_ptr ?f))) m' m''"
        by (rule same_on_sub [OF data]) (use sub [OF True] in simp_all)
      then have "copied d descr m (descr (pf_ptr ?f)) ?p m'' ?q"
        using True here old ok_k sub by (intro copied_local [of d descr _ m ?p m' ?q m'']) (simp_all add: field_copied_def)
      then show ?thesis using True by simp
    next
      case False
      then show ?thesis using old here ok_k same_on_load [OF data] by (simp add: field_copied_def)
    qed
  qed
qed

text \<open>The state of the structure when the fields before position \<open>k\<close> have been decoded.\<close>

definition progress ::
    "'s pb_dec_env \<Rightarrow> nat \<Rightarrow> pb_field list \<Rightarrow> mem \<Rightarrow> nat \<Rightarrow> mem \<Rightarrow> nat \<Rightarrow> nat \<Rightarrow> mem \<Rightarrow> bool" where
  "progress env d fs m src m0 dst k m' \<longleftrightarrow>
     (\<forall>i < k. field_copied d (dec_fields_of env) m (fs ! i) (data_at fs src i) m' (data_at fs dst i)) \<and>
     (\<forall>i. k \<le> i \<and> i < length fs \<longrightarrow> field_cleared d (dec_fields_of env) m' (fs ! i) (data_at fs dst i)) \<and>
     confined env dst (message_size fs) m0 m'"

lemma progress_step:
  assumes wf: "message_wf (Suc d) (dec_fields_of env) fs" and ok: "struct_ok (Suc d) (dec_fields_of env) m fs src"
    and apart: "apart env dst (message_size fs)" and k: "k < length fs"
    and p: "progress env d fs m src m0 dst k m1"
    and here: "field_copied d (dec_fields_of env) m (fs ! k) (data_at fs src k) m2 (data_at fs dst k)"
    and c: "confined env (dst + message_size (take k fs)) (segment_size (fs ! k)) m1 m2"
  shows "progress env d fs m src m0 dst (Suc k) m2"
proof -
  have same: "same_on (dst + message_size (take i fs)) (segment_size (fs ! i)) m1 m2" if i: "i < length fs" "i \<noteq> k" for i
  proof (rule confined_same [OF c])
    show "apart env (dst + message_size (take i fs)) (segment_size (fs ! i))"
      by (rule apart_sub [OF apart]) (use data_in_segment(2) [OF i(1), of 0] i(1) in \<open>simp_all add: message_size_take_Suc\<close>)
    show "dst + message_size (take i fs) + segment_size (fs ! i) \<le> dst + message_size (take k fs) \<or>
        dst + message_size (take k fs) + segment_size (fs ! k) \<le> dst + message_size (take i fs)"
      using message_size_take_mono [of "Suc i" k fs] message_size_take_mono [of "Suc k" i fs] i k
      by (cases "i < k") (simp_all add: message_size_take_Suc)
  qed
  have "field_copied d (dec_fields_of env) m (fs ! i) (data_at fs src i) m2 (data_at fs dst i)" if i: "i < Suc k" for i
  proof (cases "i = k")
    case False
    then have "i < length fs" "field_copied d (dec_fields_of env) m (fs ! i) (data_at fs src i) m1 (data_at fs dst i)"
      using i k p by (auto simp: progress_def)
    with field_copied_local [OF wf ok this same] False show ?thesis by simp
  qed (use here in simp)
  moreover have "field_cleared d (dec_fields_of env) m2 (fs ! i) (data_at fs dst i)" if i: "Suc k \<le> i" "i < length fs" for i
  proof -
    have "field_cleared d (dec_fields_of env) m1 (fs ! i) (data_at fs dst i)" using i p by (simp add: progress_def)
    with field_cleared_local [OF wf i(2) this same] i show ?thesis by simp
  qed
  moreover have "confined env dst (message_size fs) m1 m2"
    by (rule confined_wider [OF c]) (use data_in_segment(2) [OF k, of 0] k in \<open>simp_all add: message_size_take_Suc\<close>)
  then have "confined env dst (message_size fs) m0 m2" using p confined_trans by (auto simp: progress_def)
  ultimately show ?thesis by (simp add: progress_def)
qed

definition required_upto :: "pb_field list \<Rightarrow> nat \<Rightarrow> nat" where
  "required_upto fs k = length (filter is_required (take k fs))"

lemma required_upto_Suc:
  "k < length fs \<Longrightarrow> required_upto fs (Suc k) = (if is_required (fs ! k) then Suc (required_upto fs k) else required_upto fs k)"
  by (simp add: required_upto_def take_Suc_conv_app_nth)

lemma required_count_at:
  assumes "\<forall>f \<in> set fs. plain_field f" and "j < length fs" and "it = iter_at fs a j"
  shows "required_count it = min 64 (required_upto fs (length fs))"
proof -
  have "fs \<noteq> []" using assms(2) by auto
  then show ?thesis
    using iter_to_end_at [OF assms(1,2), of a] assms required_upto_Suc [of "length fs - 1" fs]
    by (auto simp: required_count_def PB_MAX_REQUIRED_FIELDS_def is_required_def required_upto_def plain_field_def)
qed

text \<open>The local variables when the fields before position \<open>k\<close> have been decoded.\<close>

definition locals_at :: "pb_field list \<Rightarrow> nat \<Rightarrow> nat \<Rightarrow> noinit_locals \<Rightarrow> bool" where
  "locals_at fs dst k l \<longleftrightarrow> (\<exists>j \<le> k. j < length fs \<and> nl_iter l = iter_at fs dst j) \<and>
     fields_seen l = seen_upto (required_upto fs k) \<and> fixed_count_field l = None"

context feed
begin

definition submessages_copied :: "'s pb_dec_env \<Rightarrow> nat \<Rightarrow> mem \<Rightarrow> (nat \<Rightarrow> nat \<Rightarrow> bytes option) \<Rightarrow> bool" where
  "submessages_copied env d m sub \<longleftrightarrow> (\<forall>ptr p b.
     message_wf d (dec_fields_of env) (dec_fields_of env ptr) \<longrightarrow> struct_ok d (dec_fields_of env) m (dec_fields_of env ptr) p \<longrightarrow>
     sub ptr p = Some b \<longrightarrow> length b < 2 ^ 32 \<longrightarrow> copies env d (dec_fields_of env ptr) m p b)"

text \<open>One field of the input takes the decoder from one position to the next.\<close>

lemma loop_step:
  assumes wf: "message_wf (Suc d) (dec_fields_of env) fs" and ok: "struct_ok (Suc d) (dec_fields_of env) m fs src"
    and apart: "apart env dst (message_size fs)" and k: "k < length fs"
    and nested: "submessages_copied env d m sub"
    and b: "keyed (fs ! k) (value_bytes (sub (pf_ptr (fs ! k)) (data_at fs src k)) m (fs ! k) (data_at fs src k)) = Some b"
    and here: "present m (fs ! k) (data_at fs src k)" and short: "length b < 2 ^ 32"
    and s: "feeds s (b @ rest) beyond"
    and p: "progress env d fs m src m0 dst k m1" and l: "locals_at fs dst k l"
  obtains s' m2 l' where "noinit_loop (Suc fuel) env (sub_decoder env d) loc l (s, m1) =
      noinit_loop fuel env (sub_decoder env d) loc l' (s', m2)"
    and "feeds s' rest beyond" and "progress env d fs m src m0 dst (Suc k) m2" and "locals_at fs dst (Suc k) l'" and "b \<noteq> []"
proof -
  let ?f = "fs ! k" and ?p = "data_at fs src k" and ?q = "data_at fs dst k" and ?descr = "dec_fields_of env"
  have f: "plain_field ?f" "PB_LTYPE (pf_type ?f) \<noteq> PB_LTYPE_EXTENSION" and plain: "\<forall>f \<in> set fs. plain_field f"
    and sub: "is_submessage ?f \<Longrightarrow> message_wf d ?descr (?descr (pf_ptr ?f)) \<and> message_size (?descr (pf_ptr ?f)) \<le> unat (pf_data_size ?f)"
    and dist: "distinct (map pf_tag fs)"
    using wf k by auto
  have ok_k: "if is_submessage ?f then struct_ok d ?descr m (?descr (pf_ptr ?f)) ?p
      else value_ok m ?f ?p \<and> length (value_image m ?f ?p) \<le> unat (pf_data_size ?f)"
    using ok k here by (auto simp: Let_def)
  obtain i b' where b': "value_bytes (sub (pf_ptr ?f) ?p) m ?f ?p = Some b'" "field_ok (pf_tag ?f, i)"
      "b = varint (field_key (pf_tag ?f, i)) @ b'"
    by (rule keyed_Some [OF b f(1)])
  have "feeds s (varint (field_key (pf_tag ?f, i)) @ b' @ rest) beyond" using s b'(3) by simp
  then obtain s1 where s1: "fst (pb_decode_tag s) = (Some (item_wiretype i, pf_tag ?f), s1)" "feeds s1 (b' @ rest) beyond"
    by (rule readsD [OF tag_reads [OF b'(2)], unfolded fst_conv snd_conv])
  have seg: "apart env ?q (unat (pf_data_size ?f))"
    by (rule apart_sub [OF apart]) (use data_in_segment [OF k, of dst] in simp_all)
  define m1' where "m1' = (if is_required ?f then m1 else store (has_at ?f ?q) [1] m1)"
  have has: "unchanged_outside (dst + message_size (take k fs)) (segment_size ?f) m1 m1'"
    using has_in_segment [OF f(1), of dst] by (auto simp: m1'_def data_at_def segment_size_def intro!: unchanged_store)
  have clear: "cleared d ?descr m1' (?descr (pf_ptr ?f)) ?q" if sm: "is_submessage ?f"
  proof (rule cleared_local)
    show "cleared d ?descr m1 (?descr (pf_ptr ?f)) ?q" using p k sm by (simp add: progress_def field_cleared_def)
    show "same_on ?q (message_size (?descr (pf_ptr ?f))) m1 m1'"
      using has_in_segment [OF f(1), of dst] by (auto simp: m1'_def same_on_def store_def)
  qed (use sub [OF sm] in simp)
  have "\<exists>s2 m2. decoder_for env (sub_decoder env d) ?f ?f ?q (s1, m1') = (True, s2, m2) \<and> feeds s2 rest beyond \<and>
      (if is_submessage ?f then copied d ?descr m (?descr (pf_ptr ?f)) ?p m2 ?q
       else load m2 ?q (length (value_image m ?f ?p)) = value_image m ?f ?p) \<and>
      confined env ?q (unat (pf_data_size ?f)) m1' m2"
  proof (rule value_copies [OF b'(1) f(1) _ _ _ _ s1(2) seg])
    show "length b' < 2 ^ 32" using short b'(3) by simp
    show "copies env d (?descr (pf_ptr ?f)) m ?p b''"
      if "is_submessage ?f" "sub (pf_ptr ?f) ?p = Some b''" "length b'' < 2 ^ 32" for b''
      using nested sub ok_k that by (simp add: submessages_copied_def)
  qed (use ok_k sub clear in simp_all)
  then obtain s2 m2 where dec: "decoder_for env (sub_decoder env d) ?f ?f ?q (s1, m1') = (True, s2, m2)" "feeds s2 rest beyond"
      "if is_submessage ?f then copied d ?descr m (?descr (pf_ptr ?f)) ?p m2 ?q
       else load m2 ?q (length (value_image m ?f ?p)) = value_image m ?f ?p"
      "confined env ?q (unat (pf_data_size ?f)) m1' m2"
    by (elim exE conjE) (rule that)
  have apart_seg: "apart env (dst + message_size (take k fs)) (segment_size ?f)"
    by (rule apart_sub [OF apart]) (use data_in_segment(2) [OF k, of 0] k in \<open>simp_all add: message_size_take_Suc\<close>)
  have pres: "present m2 ?f ?q"
  proof (cases "is_required ?f")
    case False
    note h = has_in_segment [OF f(1) False, of dst]
    then have "\<not> in_locals env (has_at ?f ?q)" using apart_seg by (auto simp: apart_def data_at_def segment_size_def)
    then have "m2 (has_at ?f ?q) = m1' (has_at ?f ?q)" using dec(4) h by (simp add: confined_def)
    then show ?thesis using False by (simp add: present_def m1'_def store_def)
  qed (simp add: present_def)
  have "field_copied d ?descr m ?f ?p m2 ?q" using pres here dec(3) by (simp add: field_copied_def)
  moreover have "confined env (dst + message_size (take k fs)) (segment_size ?f) m1 m2"
    by (rule confined_trans [OF confined_unchanged [OF has] confined_wider [OF dec(4)]])
      (simp_all add: data_at_def segment_size_def)
  ultimately have p': "progress env d fs m src m0 dst (Suc k) m2" by (rule progress_step [OF wf ok apart k p])
  obtain j where j: "j \<le> k" "nl_iter l = iter_at fs dst j" using l by (auto simp: locals_at_def)
  have found: "pb_field_iter_find (nl_iter l) (pf_tag ?f) = (True, iter_at fs dst k)"
    using find_at [OF plain dist j(1) k f(2), of dst] j(2) by simp
  define l' where "l' = l\<lparr>nl_iter := iter_at fs dst k, fields_seen := seen_upto (required_upto fs (Suc k))\<rparr>"
  have known: "decode_known env (sub_decoder env d) loc (item_wiretype i) (l\<lparr>nl_iter := iter_at fs dst k\<rparr>) (s1, m1) =
      ((True, s2, m2), l')"
    using decode_known_plain [OF f(1) k, of "l\<lparr>nl_iter := iter_at fs dst k\<rparr>" dst env "sub_decoder env d" s1 m1 s2 m2]
      dec(1) l seen_step [of "required_upto fs k"]
    by (auto simp: m1'_def l'_def locals_at_def required_upto_Suc [OF k] simp flip: required_upto_def)
  obtain eof where tag: "pb_decode_tag s = ((Some (item_wiretype i, pf_tag ?f), s1), eof)"
    using s1(1) by (cases "pb_decode_tag s") auto
  have "bytes_left s \<noteq> 0" using s b'(3) by (simp add: feeds_def)
  then have "noinit_loop (Suc fuel) env (sub_decoder env d) loc l (s, m1) =
      noinit_loop fuel env (sub_decoder env d) loc l' (s2, m2)"
    by (simp add: tag found known)
  moreover have "locals_at fs dst (Suc k) l'" using l k by (auto simp: locals_at_def l'_def intro: exI [of _ k])
  ultimately show ?thesis using dec(2) p' b'(3) by (intro that) simp_all
qed

end

context feed
begin

lemma loop_copies:
  assumes wf: "message_wf (Suc d) (dec_fields_of env) fs" and ok: "struct_ok (Suc d) (dec_fields_of env) m fs src"
    and apart: "apart env dst (message_size fs)"
    and nested: "submessages_copied env d m sub"
  shows "k \<le> length fs \<Longrightarrow>
    concat_some (map (\<lambda>i. any_field_bytes cb is_default sub m (fs ! i) (data_at fs src i)) [k..<length fs]) = Some bs \<Longrightarrow>
    feeds s bs beyond \<Longrightarrow> length bs \<le> fuel \<Longrightarrow> length bs < 2 ^ 32 \<Longrightarrow>
    progress env d fs m src m0 dst k m1 \<Longrightarrow> locals_at fs dst k l \<Longrightarrow>
    \<exists>s' m2 l'. noinit_loop fuel env (sub_decoder env d) loc l (s, m1) = ((True, s', m2), l') \<and> feeds s' [] beyond \<and>
      progress env d fs m src m0 dst (length fs) m2 \<and> locals_at fs dst (length fs) l'"
proof (induction "length fs - k" arbitrary: k bs s fuel m1 l)
  case 0
  then have "k = length fs" "bs = []" by simp_all
  moreover have "noinit_loop fuel env (sub_decoder env d) loc l (s, m1) = ((True, s, m1), l)"
    using 0 by (cases fuel) (simp_all add: feeds_def)
  ultimately show ?case using 0 by simp
next
  case (Suc n)
  then have k: "k < length fs" by simp
  then have f: "plain_field (fs ! k)" "PB_LTYPE (pf_type (fs ! k)) \<noteq> PB_LTYPE_EXTENSION" using wf by auto
  have "[k..<length fs] = k # [Suc k..<length fs]" using k by (simp add: upt_conv_Cons)
  with Suc.prems(2) have "concat_some (any_field_bytes cb is_default sub m (fs ! k) (data_at fs src k) #
      map (\<lambda>i. any_field_bytes cb is_default sub m (fs ! i) (data_at fs src i)) [Suc k..<length fs]) = Some bs"
    by (simp only: list.map)
  then obtain b rest where b: "any_field_bytes cb is_default sub m (fs ! k) (data_at fs src k) = Some b"
      "concat_some (map (\<lambda>i. any_field_bytes cb is_default sub m (fs ! i) (data_at fs src i)) [Suc k..<length fs]) = Some rest"
      "bs = b @ rest"
    by (rule concat_some_Cons)
  note bytes = plain_bytes [OF b(1) f]
  show ?case
  proof (cases "present m (fs ! k) (data_at fs src k)")
    case True
    have keyed: "keyed (fs ! k) (value_bytes (sub (pf_ptr (fs ! k)) (data_at fs src k)) m (fs ! k) (data_at fs src k)) = Some b"
      using bytes True by simp
    have short: "length b < 2 ^ 32" and s: "feeds s (b @ rest) beyond" using Suc.prems b(3) by simp_all
    show ?thesis
    proof (cases fuel)
      case 0
      then have "b = []" using Suc.prems(4) b(3) by simp
      then show ?thesis using keyed_Some [OF keyed f(1)] by (auto simp: varint_nonempty)
    next
      case (Suc fuel')
      obtain s' m2 l' where step: "noinit_loop fuel env (sub_decoder env d) loc l (s, m1) =
            noinit_loop fuel' env (sub_decoder env d) loc l' (s', m2)"
          "feeds s' rest beyond" "progress env d fs m src m0 dst (Suc k) m2" "locals_at fs dst (Suc k) l'" "b \<noteq> []"
        unfolding Suc by (rule loop_step [OF wf ok apart k nested keyed True short s Suc.prems(6,7)])
      then have "length rest \<le> fuel'" using Suc.prems(4) b(3) Suc by (cases b) simp_all
      then show ?thesis
        unfolding step(1) using Suc.prems(5) b(3) k Suc.hyps(2)
        by (intro Suc.hyps(1) [OF _ _ b(2) step(2) _ _ step(3,4)]) simp_all
    qed
  next
    case False
    have r: "\<not> is_required (fs ! k)" using False by (simp add: present_def)
    have "field_copied d (dec_fields_of env) m (fs ! k) (data_at fs src k) m1 (data_at fs dst k)"
      using Suc.prems(6) k False r by (simp add: field_copied_def present_def progress_def field_cleared_def)
    then have "progress env d fs m src m0 dst (Suc k) m1"
      using Suc.prems(6) by (auto simp: progress_def less_Suc_eq)
    moreover have "locals_at fs dst (Suc k) l"
      using Suc.prems(7) r k by (auto simp: locals_at_def required_upto_Suc intro: le_SucI)
    moreover have "bs = rest" using bytes False b(3) by simp
    ultimately show ?thesis
      using Suc.prems Suc.hyps(2) b(2) k by (intro Suc.hyps(1)) simp_all
  qed
qed

lemma noinit_empty:
  assumes "feeds s [] beyond"
  shows "pb_decode_noinit (Suc d) env [] dst (s, m0) = (True, s, set_pb_size (fixed_count_at env d) 0 m0)"
proof -
  have none: "pb_field_iter_begin [] dst = (False, iter_at [] dst 0)" "\<not> pf_tag PB_LAST_FIELD \<noteq> 0"
    if "iter_at [] dst 0 = snd (pb_field_iter_begin [] dst)"
    using that by (simp_all add: pb_field_iter_begin_def field_at_def PB_LAST_FIELD_def Let_def)
  let ?it = "snd (pb_field_iter_begin [] dst)"
  have field: "pf_tag (it_field ?it) = 0" "required_field_index ?it = 0"
    by (simp_all add: pb_field_iter_begin_def it_field_def field_at_def PB_LAST_FIELD_def Let_def)
  then have "pb_field_iter_next ?it = (False, ?it)" by (simp add: pb_field_iter_next_def Let_def)
  then have "iter_to_end ?it = (?it, ?it)" by (subst iter_to_end.simps) simp
  then have "required_count ?it = 0" using field by (simp add: required_count_def)
  moreover have "all_seen 0 [0, 0]" by (simp add: all_seen_def)
  ultimately show ?thesis using assms by (simp add: noinit_body_def feeds_def fixed_count_complete_def)
qed

lemma decode_copies:
  "message_wf d (dec_fields_of env) fs \<Longrightarrow> struct_ok d (dec_fields_of env) m fs src \<Longrightarrow> fields_of enc = dec_fields_of env \<Longrightarrow>
   message_bytes d enc cb m fs src = Some bs \<Longrightarrow> length bs < 2 ^ 32 \<Longrightarrow> copies env d fs m src bs"
proof (induction d arbitrary: fs src bs)
  case (Suc d)
  let ?descr = "dec_fields_of env"
  note wf = Suc.prems(1) and ok = Suc.prems(2)
  have plain: "\<forall>f \<in> set fs. plain_field f" using wf by simp
  show ?case unfolding copies_def
  proof (intro allI impI, elim conjE)
    fix s beyond dst m0
    assume s: "feeds s bs beyond" and clear: "cleared (Suc d) ?descr m0 fs dst" and apart: "apart env dst (message_size fs)"
    let ?m1 = "set_pb_size (fixed_count_at env d) 0 m0"
    have c1: "confined env dst (message_size fs) m0 ?m1" by (rule confined_local)
    show "\<exists>s' m'. pb_decode_noinit (Suc d) env fs dst (s, m0) = (True, s', m') \<and> feeds s' [] beyond \<and>
        copied (Suc d) ?descr m fs src m' dst \<and> confined env dst (message_size fs) m0 m'"
    proof (cases "fs = []")
      case True
      then have "bs = []" using Suc.prems(4)
        by (simp add: pb_field_iter_begin_def field_at_def PB_LAST_FIELD_def Let_def)
      then show ?thesis using True noinit_empty [of s beyond d env dst m0] s c1 by (simp add: copied_fields)
    next
      case False
      then have begin_at: "pb_field_iter_begin fs a = (True, iter_at fs a 0)" for a
        using plain by (auto simp: iter_begin_at plain_field_def)
      have len: "0 < length fs" using False by simp
      let ?sub = "\<lambda>ptr src. message_bytes d enc cb m (?descr ptr) src"
      have fields_at: "map (\<lambda>i. g (it_field (iter_at fs a i)) i) [0..<length fs] = map (\<lambda>i. g (fs ! i) i) [0..<length fs]"
        for g :: "pb_field \<Rightarrow> nat \<Rightarrow> bytes option" and a
        by (rule map_cong) simp_all
      have bytes: "concat_some (map (\<lambda>i. any_field_bytes cb (pb_check_proto3_default_value d enc m) ?sub m (fs ! i)
          (data_at fs src i)) [0..<length fs]) = Some bs"
        using Suc.prems(3,4) iter_bytes_at [OF plain len]
        by (simp add: begin_at fields_at [of "\<lambda>f i. any_field_bytes cb (pb_check_proto3_default_value d enc m) ?sub m f (data_at fs src i)"])
      let ?l = "\<lparr>fields_seen = [0, 0], extension_range_start = 0, nl_iter = iter_at fs dst 0, fixed_count_field = None\<rparr>"
      have "cleared (Suc d) ?descr ?m1 fs dst" by (rule cleared_local [OF wf clear apart_local [OF apart]])
      then have p: "progress env d fs m src m0 dst 0 ?m1" using c1 by (simp add: progress_def cleared_fields)
      have l: "locals_at fs dst 0 ?l" using len by (simp add: locals_at_def required_upto_def seen_upto_def)
      have nested: "submessages_copied env d m ?sub"
        unfolding submessages_copied_def by (intro allI impI) (rule Suc.IH [OF _ _ Suc.prems(3)])
      have "bytes_left s = length bs" using s by (simp add: feeds_def)
      then have "\<exists>s' m2 l'. noinit_loop (bytes_left s) env (sub_decoder env d) (fixed_count_at env d) ?l (s, ?m1) = ((True, s', m2), l') \<and>
          feeds s' [] beyond \<and> progress env d fs m src m0 dst (length fs) m2 \<and> locals_at fs dst (length fs) l'"
        by (intro loop_copies [OF wf ok apart nested _ bytes s _ Suc.prems(5) p l]) simp_all
      then obtain s' m2 l' where res: "noinit_loop (bytes_left s) env (sub_decoder env d) (fixed_count_at env d) ?l (s, ?m1) = ((True, s', m2), l')"
          "feeds s' [] beyond" "progress env d fs m src m0 dst (length fs) m2" "locals_at fs dst (length fs) l'"
        by (elim exE conjE) (rule that)
      obtain j where j: "j < length fs" "nl_iter l' = iter_at fs dst j" using res(4) by (auto simp: locals_at_def)
      have "required_count (nl_iter l') = min 64 (required_upto fs (length fs))"
        by (rule required_count_at [OF plain j])
      then have "all_seen (required_count (nl_iter l')) (fields_seen l')"
        using res(4) seen_all by (simp add: locals_at_def)
      moreover have "fixed_count_complete (fixed_count_at env d) l' m2"
        using res(4) by (simp add: locals_at_def fixed_count_complete_def)
      ultimately have "pb_decode_noinit (Suc d) env fs dst (s, m0) = (True, s', m2)"
        using res(1) by (simp add: noinit_body_def begin_at flip: sub_decoder_def)
      then show ?thesis using res(2,3) by (simp add: progress_def copied_fields)
    qed
  qed
qed simp

end

section \<open>Properties\<close>

text \<open>
  C24: A structure that is encoded to a buffer and decoded into another structure arrives with
  the same value: every field that is present, of whatever scalar type, and nested messages to
  any depth; optional fields that are absent stay absent, whatever the other structure held
  before. The input is used up, and nothing but that structure (and local variables) changes.
\<close>

theorem message_round_trip:
  fixes denv :: "'s pb_dec_env" and env :: "(bytes \<times> nat) pb_env"
  assumes "message_wf d (fields_of env) fs" and "struct_ok d (fields_of env) m fs src"
    and "dec_fields_of denv = fields_of env" and "d \<le> max_depth denv" and "apart denv dst (message_size fs)"
    and "message_bytes d env (\<lambda>_ _ _. None) m fs src = Some bs"
    and "length bs \<le> length buf" and "length buf < 2 ^ 32"
  shows "\<exists>s s' m''. pb_encode d env m fs src (pb_ostream_from_buffer buf (length buf)) = (True, s) \<and>
    pb_decode d denv fs dst (pb_istream_from_buffer (fst (os_state s)) (bytes_written s), m') = (True, s', m'') \<and>
    struct_value d (fields_of env) m'' fs dst = struct_value d (fields_of env) m fs src \<and>
    bytes_left s' = 0 \<and> confined denv dst (message_size fs) m' m''"
proof -
  have cb: "buffer_sink.callbacks_deliver env (\<lambda>_ _ _. None)" by (simp add: buffer_sink.callbacks_deliver_def)
  have d: "buffer_sink.delivers (pb_encode d env m fs src) bs" by (rule buffer_sink.pb_encode_delivers [OF cb assms(6)])
  have buf: "length buf < 2 ^ 64" using assms(8) by simp
  obtain s out where s: "pb_encode d env m fs src (pb_ostream_from_buffer buf (length buf)) = (True, s)"
      "fst (os_state s) = out" "bytes_written s = length bs" "take (length bs) out = bs" "length bs \<le> length out"
    by (rule delivers_to_buffer [OF d assms(7) buf])
  let ?i = "pb_istream_from_buffer out (length bs) :: 's pb_istream" and ?rest = "drop (length bs) out"
  have i: "memory_feed.feeds ?i bs ?rest" using from_buffer_feeds [OF s(5)] s(4) by simp
  have copies: "memory_feed.copies denv d fs m src bs"
    by (rule memory_feed.decode_copies [OF _ _ _ assms(6)]) (use assms in simp_all)
  let ?m0 = "pb_message_set_to_defaults (max_depth denv) denv fs dst m'"
  have "clears (max_depth denv) denv d fs" using assms by (intro defaults_clear) simp_all
  then have clear: "cleared d (dec_fields_of denv) ?m0 fs dst" "unchanged_outside dst (message_size fs) m' ?m0"
    by (simp_all add: clears_def Let_def)
  obtain s' m'' where dec: "pb_decode_noinit d denv fs dst (?i, ?m0) = (True, s', m'')" "memory_feed.feeds s' [] ?rest"
      "copied d (dec_fields_of denv) m fs src m'' dst" "confined denv dst (message_size fs) ?m0 m''"
    by (rule memory_feed.copiesD [OF copies i clear(1) assms(5)])
  have "pb_decode d denv fs dst (?i, m') = (True, s', m'')"
    using dec(1) by (simp add: pb_decode_def decode_and_release_def)
  moreover have "struct_value d (fields_of env) m'' fs dst = struct_value d (fields_of env) m fs src"
    by (rule copied_value) (use assms dec(3) in simp_all)
  moreover have "confined denv dst (message_size fs) m' m''"
    by (rule confined_trans [OF confined_unchanged [OF clear(2)] dec(4)])
  ultimately show ?thesis using s(1,2,3) dec(2) by (auto simp: memory_feed.feeds_def)
qed

text \<open>A message of a number, an absent optional number and a nested message of a string.\<close>

definition inner_fields :: "pb_field list" where
  "inner_fields = [\<lparr>pf_tag = 1, pf_type = 0x07, pf_data_offset = 0, pf_size_offset = 0, pf_data_size = 8, pf_array_size = 0, pf_ptr = 0\<rparr>]"

definition outer_fields :: "pb_field list" where
  "outer_fields =
     [\<lparr>pf_tag = 1, pf_type = 0x03, pf_data_offset = 0, pf_size_offset = 0, pf_data_size = 2, pf_array_size = 0, pf_ptr = 0\<rparr>,
      \<lparr>pf_tag = 5, pf_type = 0x14, pf_data_offset = 2, pf_size_offset = - 2, pf_data_size = 4, pf_array_size = 0, pf_ptr = 0\<rparr>,
      \<lparr>pf_tag = 6, pf_type = 0x18, pf_data_offset = 4, pf_size_offset = - 4, pf_data_size = 8, pf_array_size = 0, pf_ptr = 7\<rparr>]"

definition outer_env :: "'s pb_env" where
  "outer_env = example_env\<lparr>fields_of := (\<lambda>a. if a = 7 then inner_fields else [])\<rparr>"

definition outer_dec_env :: "'s pb_dec_env" where
  "outer_dec_env =
     \<lparr>dec_fields_of = (\<lambda>a. if a = 7 then inner_fields else []), dec_realloc = (\<lambda>_ _ m. (0, m)), dec_free = (\<lambda>_ m. m),
      decode_callback = (\<lambda>_ _ _ st. (False, st)), ext_decode = (\<lambda>_ _ _ _ st. (False, st)), fixed_count_at = (\<lambda>_. 8),
      round_limit = 0, max_depth = 2\<rparr>"

definition outer_mem :: mem where
  "outer_mem = store 64 [0xfd, 0xff,  0, 0,  9, 9, 9, 9,  1, 0, 0, 0,  104, 105, 0, 0, 0, 0, 0, 0] (\<lambda>_. 0)"

definition outer_encoding :: bytes where
  "outer_encoding = [8, 5, 50, 4, 10, 2, 104, 105]"

lemma outer_apart: "apart outer_dec_env 100 (message_size outer_fields)"
  by (simp add: apart_def in_locals_def outer_dec_env_def)

lemma message_round_trip_witness:
  "\<exists>s s' m''. pb_encode 2 outer_env outer_mem outer_fields 64 (pb_ostream_from_buffer (replicate 8 0) 8) = (True, s) \<and>
    pb_decode 2 (outer_dec_env :: unit pb_dec_env) outer_fields 100
      (pb_istream_from_buffer (fst (os_state s)) (bytes_written s), \<lambda>_. 0xff) = (True, s', m'') \<and>
    struct_value 2 (fields_of (outer_env :: (bytes \<times> nat) pb_env)) m'' outer_fields 100 =
      [Scalar [0xfd, 0xff], Absent, Message [Scalar [104, 105, 0]]] \<and>
    bytes_left s' = 0 \<and> confined (outer_dec_env :: unit pb_dec_env) 100 (message_size outer_fields) (\<lambda>_. 0xff) m''"
proof -
  have v: "struct_value 2 (fields_of (outer_env :: (bytes \<times> nat) pb_env)) outer_mem outer_fields 64 =
      [Scalar [0xfd, 0xff], Absent, Message [Scalar [104, 105, 0]]]" by code_simp
  have b: "message_bytes 2 (outer_env :: (bytes \<times> nat) pb_env) (\<lambda>_ _ _. None) outer_mem outer_fields 64 = Some outer_encoding"
    by code_simp
  have "message_wf (Suc (Suc 0)) (fields_of (outer_env :: (bytes \<times> nat) pb_env)) outer_fields"
    by (simp add: outer_env_def outer_fields_def inner_fields_def plain_field_def segment_size_def
        is_submessage_def pb_types PB_LTYPE_def PB_HTYPE_def PB_ATYPE_def)
  then have wf: "message_wf 2 (fields_of (outer_env :: (bytes \<times> nat) pb_env)) outer_fields" by (simp only: numeral_2_eq_2)
  have ok: "struct_ok 2 (fields_of (outer_env :: (bytes \<times> nat) pb_env)) outer_mem outer_fields 64"
    by code_simp
  show ?thesis unfolding v [symmetric]
    by (rule message_round_trip [OF wf ok _ _ outer_apart b, of "replicate 8 0", unfolded length_replicate])
      (simp_all add: outer_env_def outer_dec_env_def outer_encoding_def)
qed

section \<open>Unknown and missing fields\<close>

text \<open>A search that fails leaves the iterator at some position.\<close>

lemma find_at_fails:
  assumes "\<forall>f \<in> set fs. plain_field f" and "tag \<notin> pf_tag ` set fs" and "j < length fs"
  shows "\<exists>j' < length fs. pb_field_iter_find (iter_at fs a j) tag = (False, iter_at fs a j')"
proof -
  have "\<exists>j' < length fs. iter_find_loop n start tag (iter_at fs a i) = (False, iter_at fs a j')" if "i < length fs" for n start i
    using that
  proof (induction n arbitrary: i)
    case 0
    then have "0 < length fs" by linarith
    with 0 show ?case using assms(2) by (subst iter_find_loop.simps) (auto simp: iter_next_at [OF assms(1)])
  next
    case (Suc n)
    define i' where "i' = (if Suc i < length fs then Suc i else 0)"
    have "snd (pb_field_iter_next (iter_at fs a i)) = iter_at fs a i'" "i' < length fs"
      using Suc.prems by (auto simp: iter_next_at [OF assms(1)] i'_def)
    moreover have "pf_tag (fs ! i) \<noteq> tag" using Suc.prems assms(2) by auto
    ultimately show ?case using Suc by (subst iter_find_loop.simps) (auto simp: Let_def)
  qed
  then show ?thesis using assms(3) by (simp add: pb_field_iter_find_def)
qed

lemma find_extension_at_fails:
  assumes "\<forall>f \<in> set fs. plain_field f \<and> PB_LTYPE (pf_type f) \<noteq> PB_LTYPE_EXTENSION" and "j < length fs"
  shows "\<exists>j' < length fs. find_extension_field (iter_at fs a j) = (False, iter_at fs a j')"
proof -
  have plain: "\<forall>f \<in> set fs. plain_field f" using assms(1) by simp
  have "\<exists>j' < length fs. find_extension_loop n start (iter_at fs a i) = (False, iter_at fs a j')" if "i < length fs" for n start i
    using that
  proof (induction n arbitrary: i)
    case 0
    then have "0 < length fs" by linarith
    with 0 show ?case using assms(1) by (subst find_extension_loop.simps) (auto simp: iter_next_at [OF plain])
  next
    case (Suc n)
    define i' where "i' = (if Suc i < length fs then Suc i else 0)"
    have "snd (pb_field_iter_next (iter_at fs a i)) = iter_at fs a i'" "i' < length fs"
      using Suc.prems by (auto simp: iter_next_at [OF plain] i'_def)
    moreover have "PB_LTYPE (pf_type (fs ! i)) \<noteq> PB_LTYPE_EXTENSION" using Suc.prems assms(1) by auto
    ultimately show ?case using Suc by (subst find_extension_loop.simps) (auto simp: Let_def)
  qed
  then show ?thesis using assms(2) by (simp add: find_extension_field_def)
qed

text \<open>The local variables while no field has been found.\<close>

definition nothing_found :: "pb_field list \<Rightarrow> nat \<Rightarrow> noinit_locals \<Rightarrow> bool" where
  "nothing_found fs dst l \<longleftrightarrow> (\<exists>j < length fs. nl_iter l = iter_at fs dst j) \<and> fields_seen l = [0, 0] \<and>
     fixed_count_field l = None \<and> extension_range_start l \<in> {0, - 1}"

lemma tag_below_max: "unat (t :: u32) < 2 ^ 29 \<Longrightarrow> \<not> - 1 \<le> t"
proof
  assume t: "unat t < 2 ^ 29" "- 1 \<le> t"
  have "(0x20000000 :: u32) \<le> - 1" by simp
  then have "0x20000000 \<le> t" using t(2) by (rule order_trans)
  then show False using t(1) by (simp add: word_le_nat_alt)
qed

context feed
begin

lemma unknown_loop:
  assumes fs: "\<forall>f \<in> set fs. plain_field f \<and> PB_LTYPE (pf_type f) \<noteq> PB_LTYPE_EXTENSION"
  shows "\<forall>u \<in> set us. field_ok u \<and> fst u \<notin> pf_tag ` set fs \<Longrightarrow> feeds s (concat (map field_bytes us)) beyond \<Longrightarrow>
    length (concat (map field_bytes us)) \<le> fuel \<Longrightarrow> nothing_found fs dst l \<Longrightarrow>
    \<exists>s' l'. noinit_loop fuel env dec loc l (s, m) = ((True, s', m), l') \<and> feeds s' [] beyond \<and>
      nothing_found fs dst l'"
proof (induction us arbitrary: s fuel l)
  case Nil
  then have "bytes_left s = 0" by (simp add: feeds_def)
  then have "noinit_loop fuel env dec loc l (s, m) = ((True, s, m), l)" by (cases fuel) simp_all
  then show ?case using Nil by simp
next
  case (Cons u us)
  have plain: "\<forall>f \<in> set fs. plain_field f" using fs by simp
  obtain tag i where u: "u = (tag, i)" by fastforce
  have ok: "field_ok (tag, i)" "item_ok i" "tag \<notin> pf_tag ` set fs" "unat tag < 2 ^ 29"
    using Cons.prems(1) u by (auto simp: field_ok_def)
  let ?us = "concat (map field_bytes us)"
  have "feeds s (varint (field_key (tag, i)) @ item_bytes i @ ?us) beyond"
    using Cons.prems(2) u by (simp add: field_bytes_def [of "(tag, i)"])
  then obtain s1 where s1: "fst (pb_decode_tag s) = (Some (item_wiretype i, tag), s1)" "feeds s1 (item_bytes i @ ?us) beyond"
    by (rule readsD [OF tag_reads [OF ok(1)], unfolded fst_conv snd_conv])
  then obtain s2 where s2: "pb_skip_field (item_wiretype i) s1 = (Some (), s2)" "feeds s2 ?us beyond"
    by (auto elim: readsD [OF skip_item_reads [OF ok(2)]])
  obtain eof where tag: "pb_decode_tag s = ((Some (item_wiretype i, tag), s1), eof)"
    using s1(1) by (cases "pb_decode_tag s") auto
  have "0 < length (field_bytes u)" by (simp add: field_bytes_def)
  then obtain fuel' where fuel: "fuel = Suc fuel'" "length ?us \<le> fuel'" using Cons.prems(3) by (cases fuel; cases "field_bytes u") auto
  obtain j where j: "j < length fs" "nl_iter l = iter_at fs dst j" using Cons.prems(4) by (auto simp: nothing_found_def)
  obtain j1 where j1: "j1 < length fs" "pb_field_iter_find (nl_iter l) tag = (False, iter_at fs dst j1)"
    using find_at_fails [OF plain ok(3) j(1), of dst] j(2) by auto
  obtain j2 where j2: "j2 < length fs" "find_extension_field (iter_at fs dst j1) = (False, iter_at fs dst j2)"
    using find_extension_at_fails [OF fs j1(1), of dst] by auto
  define l' where "l' = (if extension_range_start l = 0
    then l\<lparr>nl_iter := iter_at fs dst j2, extension_range_start := - 1\<rparr> else l\<lparr>nl_iter := iter_at fs dst j1\<rparr>)"
  have "nothing_found fs dst (l\<lparr>nl_iter := iter_at fs dst j2, extension_range_start := - 1\<rparr>)"
    using Cons.prems(4) j2(1) by (auto simp: nothing_found_def intro: exI [of _ j2])
  moreover have "nothing_found fs dst (l\<lparr>nl_iter := iter_at fs dst j1\<rparr>)"
    using Cons.prems(4) j1(1) by (auto simp: nothing_found_def intro: exI [of _ j1])
  moreover have "decode_unknown env dec tag (item_wiretype i) (l\<lparr>nl_iter := iter_at fs dst j1\<rparr>) (s1, m) = ((True, s2, m), l')"
    using Cons.prems(4) tag_below_max [OF ok(4)] j2
    by (auto simp: nothing_found_def decode_unknown_def st_read_def s2(1) l'_def)
  ultimately have l': "decode_unknown env dec tag (item_wiretype i) (l\<lparr>nl_iter := iter_at fs dst j1\<rparr>) (s1, m) = ((True, s2, m), l')"
      "nothing_found fs dst l'" by (auto simp: l'_def)
  have "bytes_left s \<noteq> 0" using Cons.prems(2) u by (simp add: feeds_def field_bytes_def)
  then have "noinit_loop fuel env dec loc l (s, m) = noinit_loop fuel' env dec loc l' (s2, m)"
    by (simp add: fuel(1) tag j1(2) l'(1))
  then show ?case using Cons.IH [OF _ s2(2) fuel(2) l'(2)] Cons.prems(1) by simp
qed

end

lemma not_all_seen: "0 < n \<Longrightarrow> n \<le> 64 \<Longrightarrow> \<not> all_seen n [0, 0]"
proof (cases "32 \<le> n")
  case True
  assume "n \<le> 64"
  then show ?thesis using True by (auto simp: all_seen_def div_mod_32 intro: exI [of _ 0])
next
  case False
  moreover assume "0 < n"
  moreover have "drop_bit (32 - n) (- 1) \<noteq> (0 :: u32)"
  proof
    assume "drop_bit (32 - n) (- 1) = (0 :: u32)"
    then have "\<not> bit (drop_bit (32 - n) (- 1 :: u32)) 0" by simp
    then show False using \<open>0 < n\<close> False by (simp add: bit_simps)
  qed
  ultimately show ?thesis by (auto simp: all_seen_def div_mod_32)
qed

text \<open>
  C25: An input of fields that the message does not know is skipped, field by field, and the
  structure stays as it is; it is accepted exactly if the message has no required field, and
  otherwise refused with an error message.
\<close>

theorem unknown_fields_only:
  fixes denv :: "'s pb_dec_env"
  assumes "\<forall>f \<in> set fs. plain_field f \<and> PB_LTYPE (pf_type f) \<noteq> PB_LTYPE_EXTENSION" and "fs \<noteq> []"
    and "\<forall>u \<in> set us. field_ok u \<and> fst u \<notin> pf_tag ` set fs" and "bs = concat (map field_bytes us)"
  shows "\<exists>s'. pb_decode_noinit (Suc d) denv fs dst (pb_istream_from_buffer bs (length bs), m) =
      (\<forall>f \<in> set fs. \<not> is_required f, s', set_pb_size (fixed_count_at denv d) 0 m) \<and>
    bytes_left s' = 0 \<and> ((\<exists>f \<in> set fs. is_required f) \<longrightarrow> is_errmsg s' \<noteq> None)"
proof -
  let ?i = "pb_istream_from_buffer bs (length bs) :: 's pb_istream" and ?m = "set_pb_size (fixed_count_at denv d) 0 m"
  let ?l = "\<lparr>fields_seen = [0, 0], extension_range_start = 0, nl_iter = iter_at fs dst 0, fixed_count_field = None\<rparr>"
  have plain: "\<forall>f \<in> set fs. plain_field f" and len: "0 < length fs" using assms(1,2) by auto
  then have begin_at: "pb_field_iter_begin fs dst = (True, iter_at fs dst 0)"
    by (auto simp: iter_begin_at plain_field_def)
  have i: "memory_feed.feeds ?i (concat (map field_bytes us)) []" using from_buffer_feeds [of "length bs" bs] assms(4) by simp
  have l: "nothing_found fs dst ?l" using len by (auto simp: nothing_found_def)
  obtain s' l' where loop: "noinit_loop (length bs) denv (sub_decoder denv d) (fixed_count_at denv d) ?l (?i, ?m) = ((True, s', ?m), l')"
      "memory_feed.feeds s' [] []" "nothing_found fs dst l'"
    using memory_feed.unknown_loop [OF assms(1,3) i _ l, of "length bs" denv "sub_decoder denv d" "fixed_count_at denv d" ?m] assms(4)
    by auto
  then obtain j where j: "j < length fs" "nl_iter l' = iter_at fs dst j" "fields_seen l' = [0, 0]" "fixed_count_field l' = None"
    by (auto simp: nothing_found_def)
  have count: "required_count (nl_iter l') = min 64 (required_upto fs (length fs))"
    by (rule required_count_at [OF plain j(1,2)])
  have "required_upto fs (length fs) = 0 \<longleftrightarrow> (\<forall>f \<in> set fs. \<not> is_required f)"
    by (auto simp: required_upto_def filter_empty_conv)
  then have seen: "all_seen (required_count (nl_iter l')) [0, 0] \<longleftrightarrow> (\<forall>f \<in> set fs. \<not> is_required f)"
    using not_all_seen [of "min 64 (required_upto fs (length fs))"]
    by (cases "required_upto fs (length fs) = 0") (auto simp: count all_seen_def div_mod_32)
  have "pb_decode_noinit (Suc d) denv fs dst (?i, m) =
      (if \<forall>f \<in> set fs. \<not> is_required f then (True, s', ?m) else st_error ''missing required field'' (s', ?m))"
    using loop(1) j seen
    by (simp add: noinit_body_def begin_at fixed_count_complete_def pb_istream_from_buffer_def flip: sub_decoder_def)
  then show ?thesis using loop(2)
    by (auto simp: st_error_def is_error_def PB_SET_ERROR_def memory_feed.feeds_def split: option.split)
qed

lemma unknown_fields_only_witness:
  "\<exists>s'. pb_decode_noinit (Suc 1) (outer_dec_env :: unit pb_dec_env) outer_fields 100
      (pb_istream_from_buffer [16, 7, 26, 1, 9] (length [16, 7, 26, 1, 9 :: u8]), \<lambda>_. 3) =
      (\<forall>f \<in> set outer_fields. \<not> is_required f, s', set_pb_size (fixed_count_at (outer_dec_env :: unit pb_dec_env) 1) 0 (\<lambda>_. 3)) \<and>
    bytes_left s' = 0 \<and> ((\<exists>f \<in> set outer_fields. is_required f) \<longrightarrow> is_errmsg s' \<noteq> None)"
proof (rule unknown_fields_only)
  show "\<forall>f \<in> set outer_fields. plain_field f \<and> PB_LTYPE (pf_type f) \<noteq> PB_LTYPE_EXTENSION"
    by (simp add: outer_fields_def plain_field_def pb_types PB_LTYPE_def PB_HTYPE_def PB_ATYPE_def)
  show "[16, 7, 26, 1, 9] = concat (map field_bytes [(2, Varint 7), (3, String [9])])"
    by (simp add: field_bytes_def field_key_def varint.simps PB_WT_STRING_def PB_WT_VARINT_def)
qed (simp_all add: outer_fields_def field_ok_def)

end
