(* ===== verification/Pb_ends.thy ===== *)
theory Pb_ends
  imports Pb_message
begin

text \<open>
  The decoding loops of \<open>pb_decode.c\<close> end: no decoder gives bytes back to the stream, and every
  field takes one at least.  So the number of bytes in the stream is fuel enough.
\<close>

section \<open>Readers take bytes\<close>

named_theorems taking "readers and decoders that give no bytes back"

definition taking_reader :: "('s, 'a) pb_reader \<Rightarrow> bool" where
  "taking_reader m \<longleftrightarrow> (\<forall>s. bytes_left (snd (m s)) \<le> bytes_left s)"

lemma taking_readerD: "taking_reader m \<Longrightarrow> m s = (r, s') \<Longrightarrow> bytes_left s' \<le> bytes_left s"
  by (metis snd_conv taking_reader_def)

lemma taking_error [taking]: "taking_reader (is_error msg)"
  by (simp add: taking_reader_def is_error_def)

lemma taking_return [taking]: "taking_reader (\<lambda>s. (x, s))"
  by (simp add: taking_reader_def)

lemma taking_then [taking]: "taking_reader m \<Longrightarrow> (\<And>x. taking_reader (f x)) \<Longrightarrow> taking_reader (read_then m f)"
  unfolding taking_reader_def
proof
  fix s
  assume m: "\<forall>s. bytes_left (snd (m s)) \<le> bytes_left s" and f: "\<And>x. \<forall>s. bytes_left (snd (f x s)) \<le> bytes_left s"
  obtain r s1 where r: "m s = (r, s1)" by fastforce
  then have "bytes_left s1 \<le> bytes_left s" using m by (metis snd_conv)
  moreover have "bytes_left (snd (f x s1)) \<le> bytes_left s1" for x using f by blast
  ultimately show "bytes_left (snd (read_then m f s)) \<le> bytes_left s"
    using r by (auto simp: read_then_def split: option.split intro: order_trans)
qed

lemma taking_if [taking]: "taking_reader m \<Longrightarrow> taking_reader m' \<Longrightarrow> taking_reader (if b then m else m')"
  by simp

lemma taking_read [taking]: "taking_reader (pb_read n)"
  by (auto simp: taking_reader_def pb_read_def is_error_def split: prod.split option.split)

lemma taking_readbyte [taking]: "taking_reader pb_readbyte"
  by (auto simp: taking_reader_def pb_readbyte_def is_error_def split: prod.split option.split)

lemma taking_skip_blocks [taking]: "taking_reader (skip_blocks n)"
proof (induction n rule: less_induct)
  case (less n)
  then show ?case
    by (subst skip_blocks.simps) (cases "16 < n", auto intro!: taking)
qed

lemma taking_skip [taking]: "taking_reader (pb_skip n)"
  unfolding taking_reader_def
proof
  fix s
  have "taking_reader (read_then (skip_blocks n) (\<lambda>_ s'. (Some (), s')))" "taking_reader (read_then (pb_read n) (\<lambda>_ s'. (Some (), s')))"
    by (intro taking)+
  then show "bytes_left (snd (pb_skip n s)) \<le> bytes_left s"
    by (cases "is_source s") (auto simp: pb_skip_def taking_reader_def)
qed


lemma taking_varint64_loop [taking]: "taking_reader (varint64_loop p acc)"
  unfolding taking_reader_def
proof
  fix s show "bytes_left (snd (varint64_loop p acc s)) \<le> bytes_left s"
  proof (induction p acc s rule: varint64_loop.induct)
    case (1 p acc s)
    obtain r s1 where r: "pb_readbyte s = (r, s1)" by fastforce
    then have "bytes_left s1 \<le> bytes_left s" by (rule taking_readerD [OF taking_readbyte])
    then show ?case using 1 [OF _ r [symmetric]] r
      by (subst varint64_loop.simps) (fastforce simp: is_error_def Let_def split: option.split)
  qed
qed

lemma taking_skip_varint [taking]: "taking_reader pb_skip_varint"
  unfolding taking_reader_def
proof
  fix s :: "'s pb_istream" show "bytes_left (snd (pb_skip_varint s)) \<le> bytes_left s"
  proof (induction s rule: pb_skip_varint.induct)
    case (1 s)
    obtain r s1 where r: "pb_read 1 s = (r, s1)" by fastforce
    then have "bytes_left s1 \<le> bytes_left s" by (rule taking_readerD [OF taking_read])
    then show ?case using 1 [OF r [symmetric]] r
      by (subst pb_skip_varint.simps) (fastforce split: option.split)
  qed
qed

lemma taking_raw_varint [taking]: "taking_reader (raw_varint n acc)"
  unfolding taking_reader_def
proof
  fix s show "bytes_left (snd (raw_varint n acc s)) \<le> bytes_left s"
  proof (induction n acc s rule: raw_varint.induct)
    case (1 n acc s)
    obtain r s1 where r: "pb_read 1 s = (r, s1)" by fastforce
    then have "bytes_left s1 \<le> bytes_left s" by (rule taking_readerD [OF taking_read])
    then show ?case using 1 [OF _ r [symmetric]] r
      by (subst raw_varint.simps) (fastforce split: option.split)
  qed
qed




lemma taking_varint [taking]: "taking_reader pb_decode_varint"
  unfolding pb_decode_varint_def by (rule taking)

lemma taking_svarint [taking]: "taking_reader pb_decode_svarint"
  unfolding pb_decode_svarint_def by (intro taking)

lemma taking_fixed [taking]: "taking_reader pb_decode_fixed32" "taking_reader pb_decode_fixed64"
  unfolding pb_decode_fixed32_def pb_decode_fixed64_def by (intro taking)+





section \<open>Decoders take bytes\<close>

definition taking_step :: "('s pb_state \<Rightarrow> bool \<times> 's pb_state) \<Rightarrow> bool" where
  "taking_step f \<longleftrightarrow> (\<forall>st. bytes_left (fst (snd (f st))) \<le> bytes_left (fst st))"


lemma error_left [simp]: "bytes_left (fst (snd (st_error msg st))) = bytes_left (fst st)"
  by (simp add: st_error_def is_error_def)

lemma taking_st_error [taking]: "taking_step (st_error msg)"
  by (simp add: taking_step_def)

lemma taking_st_return [taking]: "taking_step (\<lambda>st. (ok, st))"
  by (simp add: taking_step_def)

lemma taking_st_store [taking]: "taking_step (\<lambda>(s, m). (ok, s, g m))"
  by (simp add: taking_step_def split_def)

lemma taking_st_if [taking]: "taking_step f \<Longrightarrow> taking_step g \<Longrightarrow> taking_step (if b then f else g)"
  by simp



lemma taking_clamped [taking]: "taking_step (store_clamped c v dest)"
  by (auto simp: taking_step_def store_clamped_def Let_def split: option.split)














section \<open>Fields take bytes\<close>














end
