(* ===== verification/Stack.thy ===== *)
theory Stack
  imports Mem Qsort
begin

text \<open>
  The stacks of \<open>crypto/stack/stack.c\<close>: growing arrays of pointers with an optional order.
  A pointer is an address, the null pointer is 0.
\<close>

section \<open>State and operations\<close>

text \<open>
  \<open>st_data\<close> is the allocated array, \<open>st_comp\<close> the address of the comparison function or 0.
  A pointer to a stack is an option.  What a comparison function says of two elements is the
  argument \<open>cmp\<close> of the operations, which stands for \<open>call_cmp_func\<close>; the elements do not
  change while a stack refers to them.
\<close>

record stack =
  st_num :: nat
  st_data :: "nat list"
  st_sorted :: bool
  st_num_alloc :: nat
  st_comp :: nat

definition kMinSize :: nat where
  "kMinSize = 4"

text \<open>Blocks of pointers; \<open>alloc\<close> says which requests the C library serves.\<close>

definition malloc_ptrs :: "(nat \<Rightarrow> bool) \<Rightarrow> nat \<Rightarrow> nat list option" where
  "malloc_ptrs alloc n = map_option (\<lambda>_. replicate n 0) (OPENSSL_malloc alloc (8 * n))"

definition realloc_ptrs :: "(nat \<Rightarrow> bool) \<Rightarrow> nat list \<Rightarrow> nat \<Rightarrow> nat list option" where
  "realloc_ptrs alloc old n = map_option (\<lambda>new. take n old @ drop (length old) new) (malloc_ptrs alloc n)"

definition sizeof_STACK :: nat where
  "sizeof_STACK = 40"

definition sk_new :: "(nat \<Rightarrow> bool) \<Rightarrow> nat \<Rightarrow> stack option" where
  "sk_new alloc cmp_func =
     (case OPENSSL_malloc alloc sizeof_STACK of
        None \<Rightarrow> None
      | Some _ \<Rightarrow>
          (case malloc_ptrs alloc kMinSize of
             None \<Rightarrow> None
           | Some _ \<Rightarrow> Some \<lparr>st_num = 0, st_data = replicate kMinSize 0, st_sorted = False, st_num_alloc = kMinSize,
                            st_comp = cmp_func\<rparr>))"

definition sk_new_null :: "(nat \<Rightarrow> bool) \<Rightarrow> stack option" where
  "sk_new_null alloc = sk_new alloc 0"

definition sk_num :: "stack option \<Rightarrow> nat" where
  "sk_num sk = (case sk of None \<Rightarrow> 0 | Some s \<Rightarrow> st_num s)"

definition sk_zero :: "stack option \<Rightarrow> stack option" where
  "sk_zero sk =
     (case sk of
        None \<Rightarrow> None
      | Some s \<Rightarrow>
          if st_num s = 0 then Some s
          else Some (s\<lparr>st_data := replicate (st_num s) 0 @ drop (st_num s) (st_data s), st_num := 0, st_sorted := False\<rparr>))"

definition sk_value :: "stack option \<Rightarrow> nat \<Rightarrow> nat" where
  "sk_value sk i = (case sk of None \<Rightarrow> 0 | Some s \<Rightarrow> if i \<ge> st_num s then 0 else st_data s ! i)"


text \<open>What happens to the elements is the effect of \<open>free\<close> on a state of the application.\<close>

definition sk_pop_free_ex :: "(nat \<Rightarrow> 'w \<Rightarrow> 'w) \<Rightarrow> stack option \<Rightarrow> 'w \<Rightarrow> 'w" where
  "sk_pop_free_ex free sk w =
     (case sk of
        None \<Rightarrow> w
      | Some s \<Rightarrow> fold (\<lambda>i w. if st_data s ! i \<noteq> 0 then free (st_data s ! i) w else w) [0..<st_num s] w)"

definition sk_pop_free :: "(nat \<Rightarrow> 'w \<Rightarrow> 'w) \<Rightarrow> stack option \<Rightarrow> 'w \<Rightarrow> 'w" where
  "sk_pop_free free = sk_pop_free_ex free"

text \<open>The block is doubled, or made longer by one; sums and products are of \<open>size_t\<close>.\<close>

definition sk_new_alloc :: "nat \<Rightarrow> nat option" where
  "sk_new_alloc num_alloc =
     (let bad = (\<lambda>n. n < num_alloc \<or> (n * 8 mod size_t_mod) div 8 \<noteq> n);
          double = 2 * num_alloc mod size_t_mod;
          new_alloc = (if bad double then (num_alloc + 1) mod size_t_mod else double)
      in if bad new_alloc then None else Some new_alloc)"

definition sk_grow :: "(nat \<Rightarrow> bool) \<Rightarrow> stack \<Rightarrow> stack option" where
  "sk_grow alloc s =
     (if st_num_alloc s \<le> st_num s + 1 then
        (case sk_new_alloc (st_num_alloc s) of
           None \<Rightarrow> None
         | Some n \<Rightarrow>
             (case realloc_ptrs alloc (st_data s) n of
                None \<Rightarrow> None
              | Some data \<Rightarrow> Some (s\<lparr>st_data := data, st_num_alloc := n\<rparr>)))
      else Some s)"

definition sk_insert :: "(nat \<Rightarrow> bool) \<Rightarrow> stack option \<Rightarrow> nat \<Rightarrow> nat \<Rightarrow> nat \<times> stack option" where
  "sk_insert alloc sk p wh =
     (case sk of
        None \<Rightarrow> (0, None)
      | Some s0 \<Rightarrow>
          (case sk_grow alloc s0 of
             None \<Rightarrow> (0, Some s0)
           | Some s \<Rightarrow>
               (let n = st_num s; d = st_data s;
                    data = (if wh \<ge> n then d[n := p]
                            else (take (wh + 1) d @ take (n - wh) (drop wh d) @ drop (n + 1) d)[wh := p])
                in (n + 1, Some (s\<lparr>st_data := data, st_num := n + 1, st_sorted := False\<rparr>)))))"

definition sk_delete :: "stack option \<Rightarrow> nat \<Rightarrow> nat \<times> stack option" where
  "sk_delete sk wh =
     (case sk of
        None \<Rightarrow> (0, None)
      | Some s \<Rightarrow>
          if wh \<ge> st_num s then (0, Some s)
          else
            (let n = st_num s; d = st_data s;
                 data = (if wh \<noteq> n - 1
                         then take wh d @ take (n - wh - 1) (drop (wh + 1) d) @ drop (n - 1) d else d)
             in (d ! wh, Some (s\<lparr>st_data := data, st_num := n - 1\<rparr>))))"

text \<open>The first index below \<open>num\<close> whose element satisfies \<open>P\<close>: the linear searches.\<close>

fun first_index :: "(nat \<Rightarrow> bool) \<Rightarrow> nat list \<Rightarrow> nat \<Rightarrow> nat \<Rightarrow> nat option" where
  "first_index P d i 0 = None"
| "first_index P d i (Suc n) = (if P (d ! i) then Some i else first_index P d (Suc i) n)"

definition sk_delete_ptr :: "stack option \<Rightarrow> nat \<Rightarrow> nat \<times> stack option" where
  "sk_delete_ptr sk p =
     (case sk of
        None \<Rightarrow> (0, None)
      | Some s \<Rightarrow>
          (case first_index (\<lambda>x. x = p) (st_data s) 0 (st_num s) of
             Some i \<Rightarrow> sk_delete sk i
           | None \<Rightarrow> (0, sk)))"





definition sk_shift :: "stack option \<Rightarrow> nat \<times> stack option" where
  "sk_shift sk =
     (case sk of None \<Rightarrow> (0, None) | Some s \<Rightarrow> if st_num s = 0 then (0, Some s) else sk_delete sk 0)"

definition sk_push :: "(nat \<Rightarrow> bool) \<Rightarrow> stack option \<Rightarrow> nat \<Rightarrow> nat \<times> stack option" where
  "sk_push alloc sk p = sk_insert alloc sk p (sk_num sk)"

definition sk_pop :: "stack option \<Rightarrow> nat \<times> stack option" where
  "sk_pop sk =
     (case sk of None \<Rightarrow> (0, None) | Some s \<Rightarrow> if st_num s = 0 then (0, Some s) else sk_delete sk (st_num s - 1))"

definition sk_dup :: "(nat \<Rightarrow> bool) \<Rightarrow> stack option \<Rightarrow> stack option" where
  "sk_dup alloc sk =
     (case sk of
        None \<Rightarrow> None
      | Some s \<Rightarrow>
          (case sk_new alloc (st_comp s) of
             None \<Rightarrow> None
           | Some ret \<Rightarrow>
               (case realloc_ptrs alloc (st_data ret) (st_num_alloc s) of
                  None \<Rightarrow> None
                | Some d \<Rightarrow>
                    Some (ret\<lparr>st_data := take (st_num s) (st_data s) @ drop (st_num s) d, st_num := st_num s,
                              st_sorted := st_sorted s, st_num_alloc := st_num_alloc s, st_comp := st_comp s\<rparr>))))"

definition sk_sort :: "(nat \<Rightarrow> nat \<Rightarrow> nat \<Rightarrow> int) \<Rightarrow> stack option \<Rightarrow> stack option" where
  "sk_sort cmp sk =
     (case sk of
        None \<Rightarrow> None
      | Some s \<Rightarrow>
          if st_comp s = 0 \<or> st_sorted s then Some s
          else Some (s\<lparr>st_data := (if st_num s \<ge> 2 then qsort (cmp (st_comp s)) (take (st_num s) (st_data s)) @
                                    drop (st_num s) (st_data s) else st_data s),
                        st_sorted := True\<rparr>))"

definition sk_set_cmp_func :: "stack \<Rightarrow> nat \<Rightarrow> nat \<times> stack" where
  "sk_set_cmp_func s cmp_func =
     (st_comp s, s\<lparr>st_sorted := (if st_comp s \<noteq> cmp_func then False else st_sorted s), st_comp := cmp_func\<rparr>)"

text \<open>The loop of \<open>sk_deep_copy\<close>; on failure the copies made so far are freed.\<close>

primrec deep_copy_loop ::
    "(nat \<Rightarrow> 'w \<Rightarrow> nat \<times> 'w) \<Rightarrow> (nat \<Rightarrow> 'w \<Rightarrow> 'w) \<Rightarrow> nat \<Rightarrow> nat \<Rightarrow> nat list \<Rightarrow> 'w \<Rightarrow> nat list option \<times> 'w" where
  "deep_copy_loop copy free 0 i d w = (Some d, w)"
| "deep_copy_loop copy free (Suc n) i d w =
     (if d ! i = 0 then deep_copy_loop copy free n (Suc i) d w
      else
        (case copy (d ! i) w of
           (q, w') \<Rightarrow>
             if q = 0 then (None, fold (\<lambda>j w. if d ! j \<noteq> 0 then free (d ! j) w else w) [0..<i] w')
             else deep_copy_loop copy free n (Suc i) (d[i := q]) w'))"

definition sk_deep_copy ::
    "(nat \<Rightarrow> bool) \<Rightarrow> (nat \<Rightarrow> 'w \<Rightarrow> nat \<times> 'w) \<Rightarrow> (nat \<Rightarrow> 'w \<Rightarrow> 'w) \<Rightarrow> stack option \<Rightarrow> 'w \<Rightarrow> stack option \<times> 'w" where
  "sk_deep_copy alloc copy free sk w =
     (case sk_dup alloc sk of
        None \<Rightarrow> (None, w)
      | Some ret \<Rightarrow>
          (case deep_copy_loop copy free (st_num ret) 0 (st_data ret) w of
             (None, w') \<Rightarrow> (None, w')
           | (Some d, w') \<Rightarrow> (Some (ret\<lparr>st_data := d\<rparr>), w')))"

section \<open>Stacks as lists\<close>

definition elems :: "stack \<Rightarrow> nat list" where
  "elems s = take (st_num s) (st_data s)"

definition stack_wf :: "stack \<Rightarrow> bool" where
  "stack_wf s \<longleftrightarrow> length (st_data s) = st_num_alloc s \<and> st_num s < st_num_alloc s"

lemma length_elems: "stack_wf s \<Longrightarrow> length (elems s) = st_num s"
  by (simp add: elems_def stack_wf_def)

text \<open>The new size is greater, and its size in bytes is a \<open>size_t\<close>.\<close>

lemma new_alloc_grows:
  assumes "sk_new_alloc a = Some n" and "0 < a"
  shows "a < n" and "8 * n < size_t_mod"
proof -
  have n: "a \<le> n" "(n * 8 mod size_t_mod) div 8 = n" "n = 2 * a mod size_t_mod \<or> n = (a + 1) mod size_t_mod"
    using assms(1) by (auto simp: sk_new_alloc_def Let_def split: if_splits)
  have "n < size_t_mod" using n(3) by (auto simp: size_t_mod_def)
  then have a: "a < size_t_mod" using n(1) by simp
  show "a < n"
  proof (rule ccontr)
    assume "\<not> a < n"
    then have "n = a" using n(1) by simp
    then consider "2 * a mod size_t_mod = a" | "(a + 1) mod size_t_mod = a" using n(3) by auto
    then show False
    proof cases
      case 1
      moreover have "2 * a mod size_t_mod = 2 * a - size_t_mod" if "size_t_mod \<le> 2 * a"
        using that a by (simp add: le_mod_geq)
      ultimately show ?thesis using a assms(2) by (cases "2 * a < size_t_mod") auto
    next
      case 2
      then show ?thesis using a by (cases "a + 1 < size_t_mod") (auto simp: mod_if size_t_mod_def split: if_splits)
    qed
  qed
  have "n * 8 mod size_t_mod \<le> size_t_mod - 1" by (simp add: size_t_mod_def less_Suc_eq_le [symmetric])
  then have "n \<le> (size_t_mod - 1) div 8" using n(2) div_le_mono by metis
  then show "8 * n < size_t_mod" by (simp add: size_t_mod_def)
qed

lemma grow_elems:
  assumes "sk_grow alloc s = Some s'" and "stack_wf s"
  shows "elems s' = elems s" and "st_num s' = st_num s" and "st_num s + 1 < st_num_alloc s'"
    and "length (st_data s') = st_num_alloc s'" and "st_comp s' = st_comp s" and "st_sorted s' = st_sorted s"
proof -
  have "elems s' = elems s \<and> st_num s' = st_num s \<and> st_num s + 1 < st_num_alloc s' \<and>
      length (st_data s') = st_num_alloc s' \<and> st_comp s' = st_comp s \<and> st_sorted s' = st_sorted s"
  proof (cases "st_num_alloc s \<le> st_num s + 1")
    case True
    obtain n data where n: "sk_new_alloc (st_num_alloc s) = Some n" "realloc_ptrs alloc (st_data s) n = Some data"
        "s' = s\<lparr>st_data := data, st_num_alloc := n\<rparr>"
      using assms(1) True by (auto simp: sk_grow_def split: option.splits)
    have a: "length (st_data s) = st_num_alloc s" "st_num s < st_num_alloc s" using assms(2) by (simp_all add: stack_wf_def)
    then have "st_num_alloc s < n" using new_alloc_grows(1) [OF n(1)] by simp
    moreover have "data = st_data s @ replicate (n - length (st_data s)) 0"
      using n(2) a \<open>st_num_alloc s < n\<close> by (auto simp: realloc_ptrs_def malloc_ptrs_def)
    ultimately show ?thesis using a n(3) by (simp add: elems_def)
  next
    case False
    then show ?thesis using assms by (simp add: sk_grow_def stack_wf_def)
  qed
  then show "elems s' = elems s" and "st_num s' = st_num s" and "st_num s + 1 < st_num_alloc s'"
    and "length (st_data s') = st_num_alloc s'" and "st_comp s' = st_comp s" and "st_sorted s' = st_sorted s" by blast+
qed

text \<open>Inserting at a position: behind all elements if there is no such position.\<close>

definition insert_at :: "nat \<Rightarrow> 'a \<Rightarrow> 'a list \<Rightarrow> 'a list" where
  "insert_at i x xs = take i xs @ x # drop i xs"

definition delete_at :: "nat \<Rightarrow> 'a list \<Rightarrow> 'a list" where
  "delete_at i xs = take i xs @ drop (Suc i) xs"

lemma insert_elems:
  assumes "stack_wf s" and "sk_insert alloc (Some s) p i = (n, Some s')"
  shows "stack_wf s' \<and> st_comp s' = st_comp s \<and>
    (if sk_grow alloc s = None then n = 0 \<and> s' = s
     else n = Suc (st_num s) \<and> elems s' = insert_at i p (elems s) \<and> \<not> st_sorted s')"
proof (cases "sk_grow alloc s")
  case None
  then show ?thesis using assms by (auto simp: sk_insert_def)
next
  case (Some s1)
  note g = grow_elems [OF Some assms(1)]
  let ?n = "st_num s" and ?d = "st_data s1"
  define data where "data = (if i \<ge> ?n then ?d[?n := p]
      else (take (i + 1) ?d @ take (?n - i) (drop i ?d) @ drop (?n + 1) ?d)[i := p])"
  have s': "n = Suc ?n" "s' = s1\<lparr>st_data := data, st_num := ?n + 1, st_sorted := False\<rparr>"
    using assms(2) Some g(2) by (auto simp: sk_insert_def data_def Let_def)
  have len: "?n + 1 < length ?d" using g(3,4) by simp
  have "length data = length ?d" using len by (auto simp: data_def)
  moreover have "take (?n + 1) data = insert_at i p (take ?n ?d)"
  proof (cases "i \<ge> ?n")
    case True
    then show ?thesis using len by (simp add: data_def insert_at_def take_Suc_conv_app_nth)
  next
    case False
    then have i: "i < ?n" by simp
    then have "data = (take (i + 1) ?d)[i := p] @ take (?n - i) (drop i ?d) @ drop (?n + 1) ?d"
      using len by (simp add: data_def list_update_append)
    moreover have "(take (i + 1) ?d)[i := p] = take i ?d @ [p]"
      using i len by (simp add: take_Suc_conv_app_nth list_update_append)
    moreover have "take (?n - i) (drop i ?d) = drop i (take ?n ?d)" by (simp add: drop_take)
    ultimately have data: "data = (take i ?d @ p # drop i (take ?n ?d)) @ drop (?n + 1) ?d" by simp
    have "length (take i ?d @ p # drop i (take ?n ?d)) = ?n + 1" using i len by simp
    then have "take (?n + 1) data = take i ?d @ p # drop i (take ?n ?d)"
      unfolding data by (metis append_eq_conv_conj)
    then show ?thesis using i by (simp add: insert_at_def min_absorb1)
  qed
  moreover have "take ?n ?d = elems s" using g(1,2) by (simp add: elems_def)
  ultimately show ?thesis using s' Some g by (simp add: stack_wf_def elems_def)
qed

lemma delete_elems:
  assumes "stack_wf s" and "i < st_num s"
  obtains s' where "sk_delete (Some s) i = (elems s ! i, Some s')" and "stack_wf s'"
    and "elems s' = delete_at i (elems s)" and "st_comp s' = st_comp s" and "st_sorted s' = st_sorted s"
proof -
  let ?n = "st_num s" and ?d = "st_data s"
  define data where "data = (if i \<noteq> ?n - 1 then take i ?d @ take (?n - i - 1) (drop (i + 1) ?d) @ drop (?n - 1) ?d else ?d)"
  have len: "?n < length ?d" using assms(1) by (simp add: stack_wf_def)
  have "length data = length ?d" using len assms(2) by (auto simp: data_def)
  moreover have "take (?n - 1) data = delete_at i (take ?n ?d)"
  proof (cases "i = ?n - 1")
    case True
    then show ?thesis using len assms(2) by (simp add: data_def delete_at_def)
  next
    case False
    have eq: "take (?n - i - 1) (drop (i + 1) ?d) = drop (Suc i) (take ?n ?d)" by (simp add: drop_take)
    have data: "data = (take i ?d @ drop (Suc i) (take ?n ?d)) @ drop (?n - 1) ?d"
      using False by (simp add: data_def flip: eq)
    have "length (take i ?d @ drop (Suc i) (take ?n ?d)) = ?n - 1" using len assms(2) by simp
    then have "take (?n - 1) data = take i ?d @ drop (Suc i) (take ?n ?d)"
      unfolding data by (metis append_eq_conv_conj)
    then show ?thesis using assms(2) by (simp add: delete_at_def min_absorb1)
  qed
  moreover have "sk_delete (Some s) i = (elems s ! i, Some (s\<lparr>st_data := data, st_num := ?n - 1\<rparr>))"
    using assms(2) by (simp add: sk_delete_def Let_def data_def elems_def)
  ultimately show ?thesis
    using assms by (intro that [of "s\<lparr>st_data := data, st_num := ?n - 1\<rparr>"]) (auto simp: stack_wf_def elems_def)
qed

section \<open>Searching\<close>








section \<open>The stacks a program can build\<close>

text \<open>
  A step is a call of an operation on a stack, with any result of the allocator.  \<open>sk_set\<close> and
  \<open>sk_deep_copy\<close>, which replace elements, are not among them: see below.
\<close>

inductive stack_step :: "(nat \<Rightarrow> nat \<Rightarrow> nat \<Rightarrow> int) \<Rightarrow> stack \<Rightarrow> stack \<Rightarrow> bool" for cmp where
  step_zero: "sk_zero (Some s) = Some s' \<Longrightarrow> stack_step cmp s s'"
| step_insert: "sk_insert alloc (Some s) p i = (n, Some s') \<Longrightarrow> stack_step cmp s s'"
| step_push: "sk_push alloc (Some s) p = (n, Some s') \<Longrightarrow> stack_step cmp s s'"
| step_delete: "sk_delete (Some s) i = (p, Some s') \<Longrightarrow> stack_step cmp s s'"
| step_delete_ptr: "sk_delete_ptr (Some s) q = (p, Some s') \<Longrightarrow> stack_step cmp s s'"
| step_shift: "sk_shift (Some s) = (p, Some s') \<Longrightarrow> stack_step cmp s s'"
| step_pop: "sk_pop (Some s) = (p, Some s') \<Longrightarrow> stack_step cmp s s'"
| step_dup: "sk_dup alloc (Some s) = Some s' \<Longrightarrow> stack_step cmp s s'"
| step_sort: "sk_sort cmp (Some s) = Some s' \<Longrightarrow> stack_step cmp s s'"
| step_set_cmp: "sk_set_cmp_func s f = (old, s') \<Longrightarrow> stack_step cmp s s'"

inductive stack_reachable :: "(nat \<Rightarrow> nat \<Rightarrow> nat \<Rightarrow> int) \<Rightarrow> stack \<Rightarrow> bool" for cmp where
  reach_new: "sk_new alloc f = Some s \<Longrightarrow> stack_reachable cmp s"
| reach_step: "stack_reachable cmp s \<Longrightarrow> stack_step cmp s s' \<Longrightarrow> stack_reachable cmp s'"

text \<open>The invariant: the block is large enough, and the flag \<open>sorted\<close> tells the truth.\<close>

definition stack_inv :: "(nat \<Rightarrow> nat \<Rightarrow> nat \<Rightarrow> int) \<Rightarrow> stack \<Rightarrow> bool" where
  "stack_inv cmp s \<longleftrightarrow> stack_wf s \<and> (st_sorted s \<longrightarrow> ascending (cmp (st_comp s)) (elems s))"

lemma new_inv: "sk_new alloc f = Some s \<Longrightarrow> stack_inv cmp s"
  by (auto simp: sk_new_def stack_inv_def stack_wf_def kMinSize_def split: option.splits)

lemma insert_inv: "stack_inv cmp s \<Longrightarrow> sk_insert alloc (Some s) p i = (n, Some s') \<Longrightarrow> stack_inv cmp s'"
  using insert_elems [of s alloc p i n s'] by (auto simp: stack_inv_def split: if_splits)

lemma sorted_delete_at: "sorted_wrt R xs \<Longrightarrow> sorted_wrt R (delete_at i xs)"
proof (induction xs arbitrary: i)
  case (Cons x xs)
  then show ?case by (cases i) (auto simp: delete_at_def dest: in_set_takeD in_set_dropD)
qed (simp add: delete_at_def)

lemma delete_inv: "stack_inv cmp s \<Longrightarrow> sk_delete (Some s) i = (p, Some s') \<Longrightarrow> stack_inv cmp s'"
proof (cases "i < st_num s")
  case True
  assume inv: "stack_inv cmp s" and del: "sk_delete (Some s) i = (p, Some s')"
  obtain s2 where s2: "sk_delete (Some s) i = (elems s ! i, Some s2)" "stack_wf s2" "elems s2 = delete_at i (elems s)"
      "st_comp s2 = st_comp s" "st_sorted s2 = st_sorted s"
    using delete_elems [OF _ True] inv by (auto simp: stack_inv_def)
  then show ?thesis using inv del by (auto simp: stack_inv_def ascending_def sorted_delete_at)
qed (auto simp: sk_delete_def)

lemma sort_inv:
  assumes c: "\<And>f. comparison (cmp f)" and inv: "stack_inv cmp s" and s': "sk_sort cmp (Some s) = Some s'"
  shows "stack_inv cmp s'" and "mset (elems s') = mset (elems s)"
proof -
  have wf: "st_num s \<le> length (st_data s)" "length (st_data s) = st_num_alloc s" "st_num s < st_num_alloc s"
    using inv by (auto simp: stack_inv_def stack_wf_def)
  have short: "ascending r (elems s)" if "st_num s < 2" for r
    using that wf(1) by (cases "st_data s"; cases "st_num s") (auto simp: elems_def ascending_def less_Suc_eq)
  have "stack_inv cmp s' \<and> mset (elems s') = mset (elems s)"
  proof (cases "st_comp s = 0 \<or> st_sorted s")
    case True
    then show ?thesis using s' inv by (auto simp: sk_sort_def)
  next
    case False
    show ?thesis
    proof (cases "st_num s \<ge> 2")
      case True
      then have "s' = s\<lparr>st_data := qsort (cmp (st_comp s)) (elems s) @ drop (st_num s) (st_data s), st_sorted := True\<rparr>"
        using s' False by (simp add: sk_sort_def elems_def)
      then have "stack_wf s'" "elems s' = qsort (cmp (st_comp s)) (elems s)" "st_comp s' = st_comp s"
        using wf by (simp_all add: stack_wf_def elems_def)
      then show ?thesis using qsort_ascending [OF c] by (simp add: stack_inv_def qsort_mset)
    next
      case 2: False
      then have "s' = s\<lparr>st_sorted := True\<rparr>" using s' False by (simp add: sk_sort_def)
      then have "stack_wf s'" "elems s' = elems s" "st_comp s' = st_comp s" using wf by (simp_all add: stack_wf_def elems_def)
      then show ?thesis using short 2 by (simp add: stack_inv_def)
    qed
  qed
  then show "stack_inv cmp s'" and "mset (elems s') = mset (elems s)" by blast+
qed

lemma dup_inv:
  assumes inv: "stack_inv cmp s" and s': "sk_dup alloc (Some s) = Some s'"
  shows "stack_inv cmp s'" and "elems s' = elems s"
proof -
  have wf: "length (st_data s) = st_num_alloc s" "st_num s < st_num_alloc s"
    using inv by (auto simp: stack_inv_def stack_wf_def)
  obtain ret d where ret: "sk_new alloc (st_comp s) = Some ret" "realloc_ptrs alloc (st_data ret) (st_num_alloc s) = Some d"
      "s' = ret\<lparr>st_data := take (st_num s) (st_data s) @ drop (st_num s) d, st_num := st_num s,
                st_sorted := st_sorted s, st_num_alloc := st_num_alloc s, st_comp := st_comp s\<rparr>"
    using s' by (auto simp: sk_dup_def split: option.splits)
  have "length d = st_num_alloc s" using ret(2) by (auto simp: realloc_ptrs_def malloc_ptrs_def)
  then have "stack_wf s'" "elems s' = elems s" "st_comp s' = st_comp s" "st_sorted s' = st_sorted s"
    using ret(3) wf by (simp_all add: stack_wf_def elems_def)
  then show "stack_inv cmp s'" and "elems s' = elems s" using inv by (simp_all add: stack_inv_def)
qed

lemma step_inv:
  assumes c: "\<And>f. comparison (cmp f)" and "stack_step cmp s s'" and inv: "stack_inv cmp s"
  shows "stack_inv cmp s'"
  using assms(2)
proof (cases rule: stack_step.cases)
  case step_zero
  then have "s' = (if st_num s = 0 then s
      else s\<lparr>st_data := replicate (st_num s) 0 @ drop (st_num s) (st_data s), st_num := 0, st_sorted := False\<rparr>)"
    by (auto simp: sk_zero_def split: if_splits)
  then show ?thesis using inv by (simp add: stack_inv_def stack_wf_def)
next
  case (step_delete_ptr q p)
  then show ?thesis using inv delete_inv by (auto simp: sk_delete_ptr_def split: option.splits)
next
  case step_set_cmp
  then show ?thesis using inv by (auto simp: sk_set_cmp_func_def stack_inv_def stack_wf_def elems_def split: if_splits)
next
  case step_insert
  then show ?thesis by (rule insert_inv [OF inv])
next
  case step_push
  then show ?thesis unfolding sk_push_def by (rule insert_inv [OF inv])
next
  case step_delete
  then show ?thesis by (rule delete_inv [OF inv])
next
  case step_shift
  then show ?thesis using inv delete_inv [OF inv] by (auto simp: sk_shift_def split: if_splits)
next
  case step_pop
  then show ?thesis using inv delete_inv [OF inv] by (auto simp: sk_pop_def split: if_splits)
next
  case step_dup
  then show ?thesis by (rule dup_inv [OF inv])
next
  case step_sort
  then show ?thesis by (rule sort_inv [OF c inv])
qed



definition by_address :: "nat \<Rightarrow> nat \<Rightarrow> nat \<Rightarrow> int" where
  "by_address f x y = int x - int y"

lemma by_address_comparison: "comparison (by_address f)"
  by (simp add: comparison_def by_address_def)

definition three_elements :: stack where
  "three_elements = \<lparr>st_num = 3, st_data = [10, 10, 20, 0], st_sorted = True, st_num_alloc = 4, st_comp = 7\<rparr>"

lemma three_elements_reachable: "stack_reachable by_address three_elements"
proof -
  let ?s = "\<lambda>n d sorted. \<lparr>st_num = n, st_data = d, st_sorted = sorted, st_num_alloc = 4, st_comp = 7\<rparr>"
  have "stack_reachable by_address (?s 0 [0, 0, 0, 0] False)"
    by (rule reach_new [of "\<lambda>_. True" 7]) (simp add: sk_new_def OPENSSL_malloc_def malloc_ptrs_def kMinSize_def numeral_eq_Suc)
  then have "stack_reachable by_address (?s 1 [20, 0, 0, 0] False)"
    by (rule reach_step, intro step_push [of "\<lambda>_. True" _ 20 1]) (simp add: sk_push_def sk_num_def sk_insert_def sk_grow_def)
  then have "stack_reachable by_address (?s 2 [20, 10, 0, 0] False)"
    by (rule reach_step, intro step_push [of "\<lambda>_. True" _ 10 2]) (simp add: sk_push_def sk_num_def sk_insert_def sk_grow_def)
  then have "stack_reachable by_address (?s 3 [10, 20, 10, 0] False)"
    by (rule reach_step, intro step_insert [of "\<lambda>_. True" _ 10 0 3])
      (simp add: sk_num_def sk_insert_def sk_grow_def numeral_eq_Suc)
  then have "stack_reachable by_address (?s 3 [10, 10, 20, 0] True)"
    by (rule reach_step, intro step_sort) (simp add: sk_sort_def qsort_def by_address_def numeral_eq_Suc)
  then show ?thesis by (simp add: three_elements_def)
qed




text \<open>
  C29: On the elements, \<open>sk_insert\<close> and \<open>sk_delete\<close> are insertion in and deletion from a list, at
  the end if the position is too great; inserting fails only when the array cannot grow, and
  then nothing has changed.
\<close>

theorem stack_refines_list:
  assumes "\<And>f. comparison (cmp f)" and "stack_reachable cmp s"
  shows "(\<exists>s'. sk_insert alloc (Some s) p i =
        (if sk_grow alloc s = None then 0 else Suc (sk_num (Some s)), Some s') \<and>
      elems s' = (if sk_grow alloc s = None then elems s else insert_at i p (elems s))) \<and>
    (\<exists>s'. sk_delete (Some s) i = (sk_value (Some s) i, Some s') \<and>
      elems s' = (if i < sk_num (Some s) then delete_at i (elems s) else elems s))"
proof -
  have "stack_inv cmp s" using assms(2) by induction (auto intro: new_inv step_inv [OF assms(1)])
  then have wf: "stack_wf s" by (simp add: stack_inv_def)
  have "\<exists>s'. sk_insert alloc (Some s) p i = (if sk_grow alloc s = None then 0 else Suc (sk_num (Some s)), Some s') \<and>
      elems s' = (if sk_grow alloc s = None then elems s else insert_at i p (elems s))"
  proof -
    obtain n s' where "sk_insert alloc (Some s) p i = (n, Some s')"
      by (cases "sk_grow alloc s") (auto simp: sk_insert_def Let_def)
    then show ?thesis using insert_elems [OF wf, of alloc p i n s'] by (auto simp: sk_num_def split: if_splits)
  qed
  moreover have "\<exists>s'. sk_delete (Some s) i = (sk_value (Some s) i, Some s') \<and>
      elems s' = (if i < sk_num (Some s) then delete_at i (elems s) else elems s)"
  proof (cases "i < st_num s")
    case True
    obtain s' where "sk_delete (Some s) i = (elems s ! i, Some s')" "elems s' = delete_at i (elems s)"
      by (rule delete_elems [OF wf True])
    then show ?thesis using True by (simp add: sk_num_def sk_value_def elems_def)
  next
    case False
    then show ?thesis by (simp add: sk_delete_def sk_num_def sk_value_def)
  qed
  ultimately show ?thesis by blast
qed

lemma stack_refines_list_witness:
  "(\<exists>s'. sk_insert (\<lambda>_. False) (Some three_elements) 15 2 = (0, Some s') \<and> elems s' = [10, 10, 20]) \<and>
    (\<exists>s'. sk_delete (Some three_elements) 1 = (10, Some s') \<and> elems s' = [10, 20])"
proof -
  have grow: "sk_grow (\<lambda>_. False) three_elements = None"
    by (simp add: three_elements_def sk_grow_def realloc_ptrs_def malloc_ptrs_def OPENSSL_malloc_def split: option.split)
  have "elems three_elements = [10, 10, 20]" "sk_num (Some three_elements) = 3" "sk_value (Some three_elements) 1 = 10"
    by code_simp+
  then show ?thesis
    using stack_refines_list [OF by_address_comparison three_elements_reachable, of "\<lambda>_. False" 15 2]
      stack_refines_list [OF by_address_comparison three_elements_reachable, of "\<lambda>_. False" 15 1] grow
    by (auto simp: delete_at_def)
qed

end
