(* ===== verification/Lhash.thy ===== *)
theory Lhash
  imports Mem "HOL-Library.Multiset"
begin

text \<open>
  The hash tables of \<open>crypto/lhash/lhash.c\<close>: chains of items in an array of buckets that is
  resized with the number of items.  A pointer to an element is an address; \<open>None\<close> is the null
  pointer, which is no element.
\<close>

section \<open>State and operations\<close>

text \<open>
  A chain of \<open>LHASH_ITEM\<close>s is the list of its elements with their hash values.  \<open>hash\<close> and
  \<open>eq\<close> stand for the functions of the caller: the hash value, and whether the comparison of
  two elements gives 0.  \<open>alloc\<close> says which requests the C library serves.
\<close>

type_synonym chain = "(nat \<times> u32) list"

record lhash =
  num_items :: nat
  buckets :: "chain list"
  num_buckets :: nat
  callback_depth :: u32

definition kMinNumBuckets :: nat where "kMinNumBuckets = 16"
definition kMaxAverageChainLength :: nat where "kMaxAverageChainLength = 2"
definition kMinAverageChainLength :: nat where "kMinAverageChainLength = 1"

definition sizeof_LHASH :: nat where "sizeof_LHASH = 48"
definition sizeof_LHASH_ITEM :: nat where "sizeof_LHASH_ITEM = 24"

definition lh_new :: "(nat \<Rightarrow> bool) \<Rightarrow> lhash option" where
  "lh_new alloc =
     (if OPENSSL_malloc alloc sizeof_LHASH = None \<or> OPENSSL_malloc alloc (8 * kMinNumBuckets) = None then None
      else Some \<lparr>num_items = 0, buckets = replicate kMinNumBuckets [], num_buckets = kMinNumBuckets, callback_depth = 0\<rparr>)"

definition lh_num_items :: "lhash \<Rightarrow> nat" where
  "lh_num_items lh = num_items lh"

text \<open>The place of an element: its bucket, and where in the chain the item is or ends.\<close>

definition get_next_ptr_and_hash :: "(nat \<Rightarrow> u32) \<Rightarrow> (nat \<Rightarrow> nat \<Rightarrow> bool) \<Rightarrow> lhash \<Rightarrow> nat \<Rightarrow> u32 \<times> nat \<times> nat" where
  "get_next_ptr_and_hash hash eq lh data =
     (let h = hash data; b = unat h mod num_buckets lh
      in (h, b, length (takeWhile (\<lambda>item. \<not> eq (fst item) data) (buckets lh ! b))))"

definition get_next_ptr_by_key :: "lhash \<Rightarrow> u32 \<Rightarrow> (nat \<Rightarrow> bool) \<Rightarrow> nat \<times> nat" where
  "get_next_ptr_by_key lh key_hash cmp_key =
     (let b = unat key_hash mod num_buckets lh
      in (b, length (takeWhile (\<lambda>item. \<not> cmp_key (fst item)) (buckets lh ! b))))"

text \<open>\<open>*next_ptr\<close> is \<open>NULL\<close> at the end of the chain.\<close>

definition item_at :: "lhash \<Rightarrow> nat \<times> nat \<Rightarrow> (nat \<times> u32) option" where
  "item_at lh ptr = (case ptr of (b, i) \<Rightarrow> if i < length (buckets lh ! b) then Some (buckets lh ! b ! i) else None)"

definition lh_retrieve :: "(nat \<Rightarrow> u32) \<Rightarrow> (nat \<Rightarrow> nat \<Rightarrow> bool) \<Rightarrow> lhash \<Rightarrow> nat \<Rightarrow> nat option" where
  "lh_retrieve hash eq lh data =
     (case get_next_ptr_and_hash hash eq lh data of (h, ptr) \<Rightarrow> map_option fst (item_at lh ptr))"

definition lh_retrieve_key :: "lhash \<Rightarrow> u32 \<Rightarrow> (nat \<Rightarrow> bool) \<Rightarrow> nat option" where
  "lh_retrieve_key lh key_hash cmp_key = map_option fst (item_at lh (get_next_ptr_by_key lh key_hash cmp_key))"

text \<open>Every item is put at the head of its new chain.\<close>

definition rebucket_item :: "nat \<Rightarrow> nat \<times> u32 \<Rightarrow> chain list \<Rightarrow> chain list" where
  "rebucket_item n item new_buckets =
     (let b = unat (snd item) mod n in new_buckets[b := item # new_buckets ! b])"

definition lh_rebucket :: "(nat \<Rightarrow> bool) \<Rightarrow> lhash \<Rightarrow> nat \<Rightarrow> lhash" where
  "lh_rebucket alloc lh n =
     (let alloc_size = 8 * n mod size_t_mod
      in if alloc_size div 8 \<noteq> n then lh
         else if OPENSSL_malloc alloc alloc_size = None then lh
         else lh\<lparr>num_buckets := n,
                 buckets := fold (fold (rebucket_item n)) (buckets lh) (replicate n [])\<rparr>)"

definition lh_maybe_resize :: "(nat \<Rightarrow> bool) \<Rightarrow> lhash \<Rightarrow> lhash" where
  "lh_maybe_resize alloc lh =
     (if callback_depth lh > 0 then lh
      else
        (let avg_chain_length = num_items lh div num_buckets lh
         in if avg_chain_length > kMaxAverageChainLength then
              (let n = num_buckets lh * 2 mod size_t_mod in if n > num_buckets lh then lh_rebucket alloc lh n else lh)
            else if avg_chain_length < kMinAverageChainLength \<and> num_buckets lh > kMinNumBuckets then
              (let n = num_buckets lh div 2 in lh_rebucket alloc lh (if n < kMinNumBuckets then kMinNumBuckets else n))
            else lh))"

text \<open>The result, and \<open>*old_data\<close>.\<close>

definition lh_insert ::
    "(nat \<Rightarrow> bool) \<Rightarrow> (nat \<Rightarrow> u32) \<Rightarrow> (nat \<Rightarrow> nat \<Rightarrow> bool) \<Rightarrow> lhash \<Rightarrow> nat \<Rightarrow> bool \<times> nat option \<times> lhash" where
  "lh_insert alloc hash eq lh data =
     (case get_next_ptr_and_hash hash eq lh data of
        (h, b, i) \<Rightarrow>
          (case item_at lh (b, i) of
             Some (old, h') \<Rightarrow>
               (True, Some old, lh\<lparr>buckets := (buckets lh)[b := (buckets lh ! b)[i := (data, h')]]\<rparr>)
           | None \<Rightarrow>
               if OPENSSL_malloc alloc sizeof_LHASH_ITEM = None then (False, None, lh)
               else (True, None, lh_maybe_resize alloc
                      (lh\<lparr>buckets := (buckets lh)[b := buckets lh ! b @ [(data, h)]], num_items := num_items lh + 1\<rparr>))))"

definition lh_delete ::
    "(nat \<Rightarrow> bool) \<Rightarrow> (nat \<Rightarrow> u32) \<Rightarrow> (nat \<Rightarrow> nat \<Rightarrow> bool) \<Rightarrow> lhash \<Rightarrow> nat \<Rightarrow> nat option \<times> lhash" where
  "lh_delete alloc hash eq lh data =
     (case get_next_ptr_and_hash hash eq lh data of
        (h, b, i) \<Rightarrow>
          (case item_at lh (b, i) of
             None \<Rightarrow> (None, lh)
           | Some item \<Rightarrow>
               (Some (fst item), lh_maybe_resize alloc
                 (lh\<lparr>buckets := (buckets lh)[b := take i (buckets lh ! b) @ drop (Suc i) (buckets lh ! b)],
                     num_items := num_items lh - 1\<rparr>))))"

text \<open>
  \<open>func\<close> acts on a state of the application; that it may change the table itself is not
  modelled, so that the counter \<open>callback_depth\<close> is back where it was when the table is resized.
\<close>

definition lh_doall_arg :: "(nat \<Rightarrow> bool) \<Rightarrow> (nat \<Rightarrow> 'w \<Rightarrow> 'w) \<Rightarrow> lhash option \<Rightarrow> 'w \<Rightarrow> lhash option \<times> 'w" where
  "lh_doall_arg alloc func lh w =
     (case lh of
        None \<Rightarrow> (None, w)
      | Some l \<Rightarrow>
          (let depth = (if callback_depth l < - 1 then callback_depth l + 1 else callback_depth l);
               w' = fold (fold (\<lambda>item. func (fst item))) (buckets l) w;
               depth' = (if depth < - 1 then depth - 1 else depth)
           in (Some (lh_maybe_resize alloc (l\<lparr>callback_depth := depth'\<rparr>)), w')))"

definition lh_strhash :: "bytes option \<Rightarrow> u32" where
  "lh_strhash c = (case c of None \<Rightarrow> 0 | Some s \<Rightarrow> OPENSSL_hash32 s (strlen s))"

section \<open>The table as a set\<close>

definition items :: "lhash \<Rightarrow> (nat \<times> u32) list" where
  "items lh = concat (buckets lh)"

definition elements :: "lhash \<Rightarrow> nat set" where
  "elements lh = fst ` set (items lh)"

text \<open>The contract of the caller's functions: an equivalence, and equal elements hash alike.\<close>

definition hash_ok :: "(nat \<Rightarrow> u32) \<Rightarrow> (nat \<Rightarrow> nat \<Rightarrow> bool) \<Rightarrow> bool" where
  "hash_ok hash eq \<longleftrightarrow> (\<forall>x. eq x x) \<and> (\<forall>x y. eq x y \<longrightarrow> eq y x) \<and> (\<forall>x y z. eq x y \<longrightarrow> eq y z \<longrightarrow> eq x z) \<and>
     (\<forall>x y. eq x y \<longrightarrow> hash x = hash y)"

definition in_bucket :: "(nat \<Rightarrow> u32) \<Rightarrow> nat \<Rightarrow> nat \<Rightarrow> nat \<times> u32 \<Rightarrow> bool" where
  "in_bucket hash n b item \<longleftrightarrow> snd item = hash (fst item) \<and> unat (snd item) mod n = b"

definition placed :: "(nat \<Rightarrow> u32) \<Rightarrow> nat \<Rightarrow> chain list \<Rightarrow> bool" where
  "placed hash n bs \<longleftrightarrow> length bs = n \<and>
     (\<forall>b < n. \<forall>item \<in> set (bs ! b). in_bucket hash n b item)"

definition no_equals :: "(nat \<Rightarrow> nat \<Rightarrow> bool) \<Rightarrow> (nat \<times> u32) list \<Rightarrow> bool" where
  "no_equals eq xs \<longleftrightarrow> distinct xs \<and> (\<forall>x \<in> set xs. \<forall>y \<in> set xs. eq (fst x) (fst y) \<longrightarrow> x = y)"

definition lh_inv :: "(nat \<Rightarrow> u32) \<Rightarrow> (nat \<Rightarrow> nat \<Rightarrow> bool) \<Rightarrow> lhash \<Rightarrow> bool" where
  "lh_inv hash eq lh \<longleftrightarrow> kMinNumBuckets \<le> num_buckets lh \<and> placed hash (num_buckets lh) (buckets lh) \<and>
     num_items lh = length (items lh) \<and> no_equals eq (items lh)"

lemma no_equals_perm: "mset xs = mset ys \<Longrightarrow> no_equals eq xs = no_equals eq ys"
  unfolding no_equals_def using mset_eq_setD [of xs ys] mset_eq_imp_distinct_iff [of xs ys] by auto

text \<open>Replacing one chain.\<close>

lemma replace_chain:
  assumes "b < length bs"
  shows "mset (concat (bs[b := ys])) + mset (bs ! b) = mset (concat bs) + mset ys"
proof -
  have "concat bs = concat (take b bs) @ bs ! b @ concat (drop (Suc b) bs)"
    using id_take_nth_drop [OF assms] by (metis concat.simps(2) concat_append)
  moreover have "concat (bs[b := ys]) = concat (take b bs) @ ys @ concat (drop (Suc b) bs)"
    using assms by (simp add: upd_conv_take_nth_drop)
  ultimately show ?thesis by simp
qed

lemma placed_update:
  assumes "placed hash n bs" and "b < n" and "\<forall>item \<in> set ys. in_bucket hash n b item"
  shows "placed hash n (bs[b := ys])"
  unfolding placed_def
proof (intro conjI allI impI)
  show "length (bs[b := ys]) = n" using assms(1) by (simp add: placed_def)
  fix b' assume "b' < n"
  then show "\<forall>item \<in> set (bs[b := ys] ! b'). in_bucket hash n b' item"
    using assms by (cases "b' = b") (simp_all add: placed_def)
qed

section \<open>Resizing\<close>

lemma fold_chains: "fold (fold f) bs x = fold f (concat bs) x"
  by (induction bs arbitrary: x) auto

lemma rebucket_items:
  assumes "0 < n" and "\<forall>item \<in> set xs. snd item = hash (fst item)" and "placed hash n bs"
  shows "placed hash n (fold (rebucket_item n) xs bs) \<and>
    mset (concat (fold (rebucket_item n) xs bs)) = mset xs + mset (concat bs)"
  using assms(2,3)
proof (induction xs arbitrary: bs)
  case (Cons item xs)
  let ?b = "unat (snd item) mod n" and ?bs = "rebucket_item n item bs"
  have b: "?b < length bs" "?b < n" using assms(1) Cons.prems(2) by (auto simp: placed_def)
  have "placed hash n ?bs"
    unfolding rebucket_item_def Let_def
    by (rule placed_update) (use Cons.prems b in \<open>auto simp: placed_def in_bucket_def [of _ _ _ item]\<close>)
  moreover have "mset (concat ?bs) = add_mset item (mset (concat bs))"
    using replace_chain [OF b(1), of "item # bs ! ?b"] by (simp add: rebucket_item_def Let_def)
  ultimately show ?case using Cons by simp
qed simp

lemma concat_empty_chains: "concat (replicate n []) = []"
  by (induction n) auto

lemma rebucket_inv:
  assumes "lh_inv hash eq lh" and "kMinNumBuckets \<le> n"
  shows "lh_inv hash eq (lh_rebucket alloc lh n)" and "mset (items (lh_rebucket alloc lh n)) = mset (items lh)"
proof -
  let ?bs = "fold (fold (rebucket_item n)) (buckets lh) (replicate n [])"
  have hashes: "\<forall>item \<in> set (concat (buckets lh)). snd item = hash (fst item)"
  proof
    fix item assume "item \<in> set (concat (buckets lh))"
    then obtain b where "b < length (buckets lh)" "item \<in> set (buckets lh ! b)" by (auto simp: set_conv_nth [of "buckets lh"])
    then show "snd item = hash (fst item)" using assms(1) by (simp add: lh_inv_def placed_def in_bucket_def)
  qed
  have new: "placed hash n ?bs" "mset (concat ?bs) = mset (items lh)"
    using rebucket_items [OF _ hashes, of n "replicate n []"] assms(2)
    by (auto simp: fold_chains placed_def kMinNumBuckets_def items_def concat_empty_chains)
  have "mset (items (lh_rebucket alloc lh n)) = mset (items lh) \<and> lh_inv hash eq (lh_rebucket alloc lh n)"
  proof (cases "(8 * n mod size_t_mod) div 8 \<noteq> n \<or> OPENSSL_malloc alloc (8 * n mod size_t_mod) = None")
    case True
    then show ?thesis using assms(1) by (auto simp: lh_rebucket_def Let_def)
  next
    case False
    then have eq: "lh_rebucket alloc lh n = lh\<lparr>num_buckets := n, buckets := ?bs\<rparr>"
      by (auto simp: lh_rebucket_def Let_def)
    have "length (concat ?bs) = length (items lh)" using new(2) by (metis size_mset)
    then show ?thesis using assms new no_equals_perm [OF new(2)] unfolding eq by (simp add: lh_inv_def items_def)
  qed
  then show "lh_inv hash eq (lh_rebucket alloc lh n)" and "mset (items (lh_rebucket alloc lh n)) = mset (items lh)" by blast+
qed

lemma resize_inv:
  assumes "lh_inv hash eq lh"
  shows "lh_inv hash eq (lh_maybe_resize alloc lh)" and "mset (items (lh_maybe_resize alloc lh)) = mset (items lh)"
proof -
  have "kMinNumBuckets \<le> num_buckets lh" using assms by (simp add: lh_inv_def)
  then have "lh_inv hash eq (lh_maybe_resize alloc lh) \<and> mset (items (lh_maybe_resize alloc lh)) = mset (items lh)"
    using assms rebucket_inv [OF assms] by (auto simp: lh_maybe_resize_def Let_def)
  then show "lh_inv hash eq (lh_maybe_resize alloc lh)" and "mset (items (lh_maybe_resize alloc lh)) = mset (items lh)" by blast+
qed

lemma elements_perm: "mset (items lh) = mset (items lh') \<Longrightarrow> elements lh = elements lh'"
  unfolding elements_def by (metis set_mset_mset)

section \<open>Finding, inserting and deleting\<close>

lemma find_item:
  assumes inv: "lh_inv hash eq lh" and ok: "hash_ok hash eq" and ptr: "get_next_ptr_and_hash hash eq lh k = (h, b, i)"
  shows "h = hash k" and "b = unat (hash k) mod num_buckets lh" and "b < length (buckets lh)"
    and "item_at lh (b, i) = Some it \<Longrightarrow> it \<in> set (items lh) \<and> eq (fst it) k \<and> i < length (buckets lh ! b) \<and> buckets lh ! b ! i = it"
    and "item_at lh (b, i) = None \<Longrightarrow> \<forall>x \<in> elements lh. \<not> eq x k"
proof -
  show h: "h = hash k" and b: "b = unat (hash k) mod num_buckets lh"
    using ptr by (auto simp: get_next_ptr_and_hash_def Let_def)
  have i: "i = length (takeWhile (\<lambda>item. \<not> eq (fst item) k) (buckets lh ! b))"
    using ptr b by (auto simp: get_next_ptr_and_hash_def Let_def)
  have bl: "b < num_buckets lh" using b inv by (simp add: lh_inv_def kMinNumBuckets_def)
  then show lt: "b < length (buckets lh)" using inv by (simp add: lh_inv_def placed_def)
  show "it \<in> set (items lh) \<and> eq (fst it) k \<and> i < length (buckets lh ! b) \<and> buckets lh ! b ! i = it"
    if it: "item_at lh (b, i) = Some it"
  proof -
    have at: "i < length (buckets lh ! b)" "buckets lh ! b ! i = it" using it by (auto simp: item_at_def split: if_splits)
    have "eq (fst it) k"
      using nth_length_takeWhile [of "\<lambda>item. \<not> eq (fst item) k" "buckets lh ! b"] at unfolding i by simp
    moreover have "it \<in> set (items lh)"
      unfolding items_def set_concat using nth_mem [OF lt] nth_mem [OF at(1)] unfolding at(2) by (rule UN_I)
    ultimately show ?thesis using at by simp
  qed
  show "\<forall>x \<in> elements lh. \<not> eq x k" if none: "item_at lh (b, i) = None"
  proof (intro ballI notI)
    fix x assume "x \<in> elements lh" and x: "eq x k"
    then obtain item chain where "chain \<in> set (buckets lh)" and in_chain: "item \<in> set chain" "fst item = x"
      unfolding elements_def items_def by auto
    then obtain b' where "b' < length (buckets lh)" "buckets lh ! b' = chain"
      unfolding in_set_conv_nth by (elim exE conjE)
    then have item: "b' < length (buckets lh)" "item \<in> set (buckets lh ! b')" "fst item = x"
      using in_chain by simp_all
    then have "in_bucket hash (num_buckets lh) b' item" using inv by (simp add: lh_inv_def placed_def)
    moreover have "hash x = hash k" using ok x unfolding hash_ok_def by blast
    ultimately have "b' = b" unfolding b in_bucket_def item(3) by metis
    moreover have "takeWhile (\<lambda>item. \<not> eq (fst item) k) (buckets lh ! b) = buckets lh ! b"
    proof -
      have "length (takeWhile (\<lambda>item. \<not> eq (fst item) k) (buckets lh ! b)) = length (buckets lh ! b)"
        using none i length_takeWhile_le [of "\<lambda>item. \<not> eq (fst item) k" "buckets lh ! b"]
        by (auto simp: item_at_def split: if_splits)
      then show ?thesis by (metis takeWhile_dropWhile_id append_eq_conv_conj take_all order_refl)
    qed
    ultimately have "item \<in> set (takeWhile (\<lambda>item. \<not> eq (fst item) k) (buckets lh ! b))" using item(2) by metis
    from set_takeWhileD [OF this] show False using item(3) x by simp
  qed
qed

lemma no_equals_Cons:
  "hash_ok hash eq \<Longrightarrow> no_equals eq (x # xs) \<longleftrightarrow> no_equals eq xs \<and> (\<forall>y \<in> set xs. \<not> eq (fst x) (fst y))"
proof -
  assume ok: "hash_ok hash eq"
  have refl: "\<And>x. eq x x" using ok unfolding hash_ok_def by blast
  have sym: "\<And>x y. eq x y \<Longrightarrow> eq y x" using ok unfolding hash_ok_def by blast
  show ?thesis
  proof
    assume a: "no_equals eq (x # xs)"
    have "\<not> eq (fst x) (fst y)" if "y \<in> set xs" for y
    proof
      assume "eq (fst x) (fst y)"
      then have "x = y" using a that unfolding no_equals_def by simp
      then show False using a that unfolding no_equals_def by simp
    qed
    then show "no_equals eq xs \<and> (\<forall>y \<in> set xs. \<not> eq (fst x) (fst y))" using a unfolding no_equals_def by simp
  next
    assume a: "no_equals eq xs \<and> (\<forall>y \<in> set xs. \<not> eq (fst x) (fst y))"
    then have "x \<notin> set xs" using refl by blast
    moreover have "\<forall>y \<in> set xs. \<not> eq (fst y) (fst x)" using a sym by blast
    ultimately show "no_equals eq (x # xs)" using a unfolding no_equals_def by simp
  qed
qed

lemma remove_item:
  assumes "b < length bs" and "i < length (bs ! b)"
  shows "mset (concat bs) = add_mset (bs ! b ! i) (mset (concat (bs[b := take i (bs ! b) @ drop (Suc i) (bs ! b)])))"
proof -
  have "mset (bs ! b) = add_mset (bs ! b ! i) (mset (take i (bs ! b) @ drop (Suc i) (bs ! b)))"
    using id_take_nth_drop [OF assms(2)] by (metis mset.simps(2) mset_append union_mset_add_mset_right)
  then show ?thesis using replace_chain [OF assms(1), of "take i (bs ! b) @ drop (Suc i) (bs ! b)"] by simp
qed

lemma retrieve_spec:
  assumes inv: "lh_inv hash eq lh" and ok: "hash_ok hash eq"
  shows "lh_retrieve hash eq lh k = Some x \<longleftrightarrow> x \<in> elements lh \<and> eq x k"
proof -
  obtain h b i where ptr: "get_next_ptr_and_hash hash eq lh k = (h, b, i)" by (metis prod_cases3)
  note f = find_item [OF inv ok ptr]
  show ?thesis
  proof (cases "item_at lh (b, i)")
    case None
    then show ?thesis using f(5) ptr by (auto simp: lh_retrieve_def)
  next
    case (Some it)
    then have it: "it \<in> set (items lh)" "eq (fst it) k" using f(4) [OF Some] by simp_all
    have "x = fst it" if x: "x \<in> elements lh" "eq x k"
    proof -
      obtain y where y: "y \<in> set (items lh)" "fst y = x" using x(1) unfolding elements_def by auto
      have "eq (fst it) (fst y)" using ok it(2) x(2) y(2) unfolding hash_ok_def by blast
      then have "it = y" using inv it(1) y(1) unfolding lh_inv_def no_equals_def by blast
      then show ?thesis using y(2) by simp
    qed
    moreover have "lh_retrieve hash eq lh k = Some (fst it)" using Some ptr by (simp add: lh_retrieve_def)
    moreover have "fst it \<in> elements lh" using it(1) by (simp add: elements_def)
    ultimately show ?thesis using it(2) by (metis option.inject)
  qed
qed

lemma insert_spec:
  assumes inv: "lh_inv hash eq lh" and ok: "hash_ok hash eq" and ins: "lh_insert alloc hash eq lh d = (done, old, lh')"
  shows "lh_inv hash eq lh' \<and> (if done then elements lh' = insert d {x \<in> elements lh. \<not> eq x d} else lh' = lh) \<and>
    old = (if done then lh_retrieve hash eq lh d else None) \<and>
    (\<not> done \<longrightarrow> lh_retrieve hash eq lh d = None \<and> OPENSSL_malloc alloc sizeof_LHASH_ITEM = None)"
proof -
  obtain h b i where ptr: "get_next_ptr_and_hash hash eq lh d = (h, b, i)" by (metis prod_cases3)
  note f = find_item [OF inv ok ptr]
  have pl: "placed hash (num_buckets lh) (buckets lh)" "b < num_buckets lh" using inv f(3) by (auto simp: lh_inv_def placed_def)
  show ?thesis
  proof (cases "item_at lh (b, i)")
    case (Some it)
    obtain x h' where it: "it = (x, h')" by fastforce
    have x: "it \<in> set (items lh)" "eq x d" "i < length (buckets lh ! b)" "buckets lh ! b ! i = it" using f(4) [OF Some] it by auto
    let ?rest = "(buckets lh)[b := take i (buckets lh ! b) @ drop (Suc i) (buckets lh ! b)]"
    let ?new = "(buckets lh)[b := (buckets lh ! b)[i := (d, h')]]"
    have res: "done" "old = Some x" "lh' = lh\<lparr>buckets := ?new\<rparr>"
      using ins Some it ptr by (auto simp: lh_insert_def)
    have old_items: "mset (items lh) = mset (it # concat ?rest)"
      using remove_item [OF f(3) x(3)] x(4) by (simp add: items_def)
    have new_items: "mset (items lh') = mset ((d, h') # concat ?rest)"
      using remove_item [of b ?new i] f(3) x(3) res(3) by (simp add: items_def)
    have same_hash: "hash x = hash d" using ok x(2) unfolding hash_ok_def by blast
    have "no_equals eq (it # concat ?rest)" using no_equals_perm [OF old_items] inv by (simp add: lh_inv_def)
    then have rest: "no_equals eq (concat ?rest)" "\<forall>y \<in> set (concat ?rest). \<not> eq x (fst y)"
      using no_equals_Cons [OF ok] it by auto
    then have other: "\<forall>y \<in> set (concat ?rest). \<not> eq (fst y) d" "\<forall>y \<in> set (concat ?rest). \<not> eq d (fst y)"
      using ok x(2) unfolding hash_ok_def by blast+
    then have "no_equals eq ((d, h') # concat ?rest)" using rest(1) no_equals_Cons [OF ok] by simp
    then have "no_equals eq (items lh')" using no_equals_perm [OF new_items] by simp
    moreover have "length (items lh') = length (items lh)" using old_items new_items by (metis length_Cons size_mset)
    moreover have "placed hash (num_buckets lh) ?new"
    proof (rule placed_update [OF pl], intro ballI)
      fix item assume "item \<in> set ((buckets lh ! b)[i := (d, h')])"
      then have "item \<in> set (buckets lh ! b) \<or> item = (d, h')" by (meson insertE set_update_subset_insert subsetD)
      moreover have "in_bucket hash (num_buckets lh) b it" using pl nth_mem [OF x(3)] unfolding x(4) placed_def by blast
      then have "in_bucket hash (num_buckets lh) b (d, h')" unfolding in_bucket_def it fst_conv snd_conv same_hash .
      ultimately show "in_bucket hash (num_buckets lh) b item" using pl unfolding placed_def by blast
    qed
    ultimately have "lh_inv hash eq lh'" using inv res(3) by (simp add: lh_inv_def)
    moreover have "elements lh = insert x (fst ` set (concat ?rest))"
      unfolding elements_def mset_eq_setD [OF old_items] using it by simp
    moreover have "elements lh' = insert d (fst ` set (concat ?rest))"
      unfolding elements_def mset_eq_setD [OF new_items] by simp
    moreover have "lh_retrieve hash eq lh d = Some x" using Some it ptr by (simp add: lh_retrieve_def)
    ultimately show ?thesis using res x(2) other(1) by auto
  next
    case None
    have none: "lh_retrieve hash eq lh d = None" using None ptr by (simp add: lh_retrieve_def)
    show ?thesis
    proof (cases "OPENSSL_malloc alloc sizeof_LHASH_ITEM = None")
      case True
      then show ?thesis using None none ins ptr inv by (auto simp: lh_insert_def)
    next
      case False
      let ?lh = "lh\<lparr>buckets := (buckets lh)[b := buckets lh ! b @ [(d, h)]], num_items := num_items lh + 1\<rparr>"
      have res: "done" "old = None" "lh' = lh_maybe_resize alloc ?lh" using None False ins ptr by (auto simp: lh_insert_def)
      have new_items: "mset (items ?lh) = mset ((d, h) # items lh)"
        using replace_chain [OF f(3), of "buckets lh ! b @ [(d, h)]"] by (simp add: items_def)
      have "\<forall>y \<in> set (items lh). \<not> eq (fst y) d" using f(5) [OF None] by (simp add: elements_def)
      then have "\<forall>y \<in> set (items lh). \<not> eq d (fst y)" using ok unfolding hash_ok_def by blast
      then have "no_equals eq ((d, h) # items lh)" using inv no_equals_Cons [OF ok] by (simp add: lh_inv_def)
      then have "no_equals eq (items ?lh)" using no_equals_perm [OF new_items] by simp
      moreover have "length (items ?lh) = Suc (length (items lh))" using new_items by (metis length_Cons size_mset)
      moreover have "placed hash (num_buckets lh) (buckets ?lh)"
      proof -
        have "in_bucket hash (num_buckets lh) b (d, h)" using f(1,2) by (simp add: in_bucket_def)
        moreover have "\<forall>item \<in> set (buckets lh ! b). in_bucket hash (num_buckets lh) b item"
          using pl unfolding placed_def by blast
        ultimately show ?thesis using placed_update [OF pl, of "buckets lh ! b @ [(d, h)]"] by simp
      qed
      ultimately have "lh_inv hash eq ?lh" using inv by (simp add: lh_inv_def)
      note resized = resize_inv [OF this, of alloc]
      have "elements lh' = insert d (elements lh)"
        unfolding res(3) elements_perm [OF resized(2)] unfolding elements_def mset_eq_setD [OF new_items] by simp
      then show ?thesis using res resized(1) f(5) [OF None] none by auto
    qed
  qed
qed

lemma delete_spec:
  assumes inv: "lh_inv hash eq lh" and ok: "hash_ok hash eq" and del: "lh_delete alloc hash eq lh d = (old, lh')"
  shows "lh_inv hash eq lh' \<and> elements lh' = {x \<in> elements lh. \<not> eq x d} \<and> old = lh_retrieve hash eq lh d"
proof -
  obtain h b i where ptr: "get_next_ptr_and_hash hash eq lh d = (h, b, i)" by (metis prod_cases3)
  note f = find_item [OF inv ok ptr]
  have pl: "placed hash (num_buckets lh) (buckets lh)" "b < num_buckets lh" using inv f(3) by (auto simp: lh_inv_def placed_def)
  show ?thesis
  proof (cases "item_at lh (b, i)")
    case None
    then show ?thesis using del ptr inv f(5) by (auto simp: lh_delete_def lh_retrieve_def)
  next
    case (Some it)
    have x: "it \<in> set (items lh)" "eq (fst it) d" "i < length (buckets lh ! b)" "buckets lh ! b ! i = it" using f(4) [OF Some] by auto
    let ?rest = "(buckets lh)[b := take i (buckets lh ! b) @ drop (Suc i) (buckets lh ! b)]"
    let ?lh = "lh\<lparr>buckets := ?rest, num_items := num_items lh - 1\<rparr>"
    have res: "old = Some (fst it)" "lh' = lh_maybe_resize alloc ?lh"
      using del Some ptr by (auto simp: lh_delete_def)
    have old_items: "mset (items lh) = mset (it # concat ?rest)"
      using remove_item [OF f(3) x(3)] x(4) by (simp add: items_def)
    have "no_equals eq (it # concat ?rest)" using no_equals_perm [OF old_items] inv by (simp add: lh_inv_def)
    then have rest: "no_equals eq (concat ?rest)" "\<forall>y \<in> set (concat ?rest). \<not> eq (fst it) (fst y)"
      using no_equals_Cons [OF ok] by auto
    have len: "length (items lh) = Suc (length (concat ?rest))" using old_items by (metis length_Cons size_mset)
    have new: "items ?lh = concat ?rest" by (simp add: items_def)
    have "placed hash (num_buckets lh) ?rest"
      by (rule placed_update [OF pl]) (use pl in \<open>auto simp: placed_def dest: in_set_takeD in_set_dropD\<close>)
    then have "lh_inv hash eq ?lh" using inv rest(1) len unfolding lh_inv_def new by simp
    note resized = resize_inv [OF this, of alloc]
    have "\<forall>y \<in> fst ` set (concat ?rest). \<not> eq y d" using rest(2) ok x(2) unfolding hash_ok_def by blast
    moreover have "elements lh = insert (fst it) (fst ` set (concat ?rest))"
      unfolding elements_def mset_eq_setD [OF old_items] by simp
    moreover have "elements lh' = fst ` set (concat ?rest)"
      unfolding res(2) elements_perm [OF resized(2)] unfolding elements_def new ..
    ultimately have "elements lh' = {x \<in> elements lh. \<not> eq x d}" using x(2) by auto
    then show ?thesis using res resized(1) Some ptr by (simp add: lh_retrieve_def)
  qed
qed

section \<open>Every table that can be built\<close>

text \<open>
  The tables that the application can reach with functions \<open>hash\<close> and \<open>eq\<close>: the C library may
  serve or refuse each request for memory anew.
\<close>

inductive lhash_reachable :: "(nat \<Rightarrow> u32) \<Rightarrow> (nat \<Rightarrow> nat \<Rightarrow> bool) \<Rightarrow> lhash \<Rightarrow> bool" for hash eq where
  reach_new: "lh_new alloc = Some lh \<Longrightarrow> lhash_reachable hash eq lh"
| reach_insert: "lhash_reachable hash eq lh \<Longrightarrow> lh_insert alloc hash eq lh d = (done, old, lh') \<Longrightarrow>
    lhash_reachable hash eq lh'"
| reach_delete: "lhash_reachable hash eq lh \<Longrightarrow> lh_delete alloc hash eq lh d = (old, lh') \<Longrightarrow>
    lhash_reachable hash eq lh'"
| reach_doall: "lhash_reachable hash eq lh \<Longrightarrow> lh_doall_arg alloc func (Some lh) (w :: nat) = (Some lh', w') \<Longrightarrow>
    lhash_reachable hash eq lh'"

lemma set_concat_replicate_empty: "set (concat (replicate n [])) = {}"
  by (simp add: concat_empty_chains)

lemma lh_new_inv: "lh_new alloc = Some lh \<Longrightarrow> lh_inv hash eq lh \<and> elements lh = {} \<and> callback_depth lh = 0"
  by (auto simp: lh_new_def lh_inv_def placed_def items_def no_equals_def elements_def concat_empty_chains split: if_splits)

lemma doall_inv:
  assumes "lh_inv hash eq lh" and "lh_doall_arg alloc func (Some lh) w = (Some lh', w')"
  shows "lh_inv hash eq lh' \<and> elements lh' = elements lh"
proof -
  obtain depth where lh': "lh' = lh_maybe_resize alloc (lh\<lparr>callback_depth := depth\<rparr>)"
    using assms(2) by (auto simp: lh_doall_arg_def Let_def)
  have "lh_inv hash eq (lh\<lparr>callback_depth := depth\<rparr>)" using assms(1) by (simp add: lh_inv_def items_def)
  note resized = resize_inv [OF this, of alloc]
  have "elements lh' = elements (lh\<lparr>callback_depth := depth\<rparr>)" unfolding lh' by (rule elements_perm [OF resized(2)])
  then show ?thesis using resized(1) lh' by (simp add: elements_def items_def)
qed

lemma reachable_inv:
  assumes "lhash_reachable hash eq lh" and "hash_ok hash eq"
  shows "lh_inv hash eq lh"
  using assms
proof induction
  case (reach_new alloc lh)
  then show ?case using lh_new_inv by blast
next
  case (reach_insert lh alloc d "done" old lh')
  then show ?case using insert_spec by blast
next
  case (reach_delete lh alloc d old lh')
  then show ?case using delete_spec by blast
next
  case (reach_doall lh alloc func w lh' w')
  from doall_inv [OF reach_doall(3) [OF reach_doall(4)] reach_doall(2)] show ?case by (rule conjunct1)
qed

text \<open>
  C31: In every table that can be reached, each item is in the bucket that its hash value
  selects, the array has \<open>num_buckets\<close> buckets, at least \<open>kMinNumBuckets\<close>, no two elements are
  equal, and \<open>num_items\<close> is the number of elements.
\<close>

theorem lhash_invariant:
  assumes "lhash_reachable hash eq lh" and "hash_ok hash eq"
  shows "length (buckets lh) = num_buckets lh \<and> kMinNumBuckets \<le> num_buckets lh \<and>
    (\<forall>b x h. b < num_buckets lh \<longrightarrow> (x, h) \<in> set (buckets lh ! b) \<longrightarrow> h = hash x \<and> b = unat h mod num_buckets lh) \<and>
    (\<forall>x y. x \<in> elements lh \<longrightarrow> y \<in> elements lh \<longrightarrow> eq x y \<longrightarrow> x = y) \<and>
    lh_num_items lh = card (elements lh)"
proof -
  have inv: "lh_inv hash eq lh" by (rule reachable_inv [OF assms])
  have refl: "eq x x" for x using assms(2) by (simp add: hash_ok_def)
  have uniq: "x = y" if "x \<in> set (items lh)" "y \<in> set (items lh)" "eq (fst x) (fst y)" for x y
    using inv that unfolding lh_inv_def no_equals_def by blast
  have "inj_on fst (set (items lh))" using uniq refl by (metis inj_onI)
  then have "card (elements lh) = num_items lh"
    using inv unfolding elements_def by (simp add: card_image distinct_card lh_inv_def no_equals_def)
  moreover have "\<forall>x y. x \<in> elements lh \<longrightarrow> y \<in> elements lh \<longrightarrow> eq x y \<longrightarrow> x = y"
    unfolding elements_def using uniq by blast
  moreover have "\<forall>b x h. b < num_buckets lh \<longrightarrow> (x, h) \<in> set (buckets lh ! b) \<longrightarrow> h = hash x \<and> b = unat h mod num_buckets lh"
  proof (intro allI impI)
    fix b x h assume "b < num_buckets lh" "(x, h) \<in> set (buckets lh ! b)"
    then have "in_bucket hash (num_buckets lh) b (x, h)" using inv unfolding lh_inv_def placed_def by blast
    then show "h = hash x \<and> b = unat h mod num_buckets lh" unfolding in_bucket_def by auto
  qed
  ultimately show ?thesis using inv by (simp add: lh_inv_def placed_def lh_num_items_def)
qed

text \<open>
  C32: On the set of its elements such a table is a set up to \<open>eq\<close>: \<open>lh_retrieve\<close> finds the
  element equal to the key, \<open>lh_insert\<close> replaces an equal element by the new one and returns it,
  or fails leaving the table as it was when an item cannot be allocated, \<open>lh_delete\<close> takes the
  equal element out and returns it, and visiting all elements changes none, however the table
  is resized on the way.
\<close>

theorem lhash_refines_set:
  assumes "lhash_reachable hash eq lh" and "hash_ok hash eq"
  shows "(\<forall>k x. lh_retrieve hash eq lh k = Some x \<longleftrightarrow> x \<in> elements lh \<and> eq x k) \<and>
    (case lh_insert alloc hash eq lh d of (done, old, lh') \<Rightarrow>
       old = (if done then lh_retrieve hash eq lh d else None) \<and>
       (if done then elements lh' = insert d {x \<in> elements lh. \<not> eq x d} else lh' = lh) \<and>
       (done \<or> OPENSSL_malloc alloc sizeof_LHASH_ITEM = None \<and> lh_retrieve hash eq lh d = None)) \<and>
    (case lh_delete alloc' hash eq lh d' of (old, lh') \<Rightarrow>
       old = lh_retrieve hash eq lh d' \<and> elements lh' = {x \<in> elements lh. \<not> eq x d'}) \<and>
    (case lh_doall_arg alloc'' func (Some lh) (w :: nat) of (lh', w') \<Rightarrow> map_option elements lh' = Some (elements lh))"
proof (intro conjI)
  have inv: "lh_inv hash eq lh" by (rule reachable_inv [OF assms])
  show "\<forall>k x. lh_retrieve hash eq lh k = Some x \<longleftrightarrow> x \<in> elements lh \<and> eq x k"
    using retrieve_spec [OF inv assms(2)] by blast
  obtain "done" old lh' where ins: "lh_insert alloc hash eq lh d = (done, old, lh')" by (rule prod_cases3)
  show "case lh_insert alloc hash eq lh d of (done, old, lh') \<Rightarrow>
       old = (if done then lh_retrieve hash eq lh d else None) \<and>
       (if done then elements lh' = insert d {x \<in> elements lh. \<not> eq x d} else lh' = lh) \<and>
       (done \<or> OPENSSL_malloc alloc sizeof_LHASH_ITEM = None \<and> lh_retrieve hash eq lh d = None)"
    using insert_spec [OF inv assms(2) ins] unfolding ins by (cases "done") simp_all
  obtain old2 lh2 where del: "lh_delete alloc' hash eq lh d' = (old2, lh2)" by (rule prod.exhaust)
  show "case lh_delete alloc' hash eq lh d' of (old, lh') \<Rightarrow>
       old = lh_retrieve hash eq lh d' \<and> elements lh' = {x \<in> elements lh. \<not> eq x d'}"
    using delete_spec [OF inv assms(2) del] unfolding del by simp
  obtain lh3 w3 where all: "lh_doall_arg alloc'' func (Some lh) w = (Some lh3, w3)" by (simp add: lh_doall_arg_def Let_def)
  show "case lh_doall_arg alloc'' func (Some lh) w of (lh', w') \<Rightarrow> map_option elements lh' = Some (elements lh)"
    using doall_inv [OF inv all] unfolding all by simp
qed

section \<open>The length of the chains\<close>

definition loaded :: "lhash \<Rightarrow> bool" where
  "loaded lh \<longleftrightarrow> num_items lh < 3 * num_buckets lh \<and> (num_buckets lh = kMinNumBuckets \<or> num_buckets lh \<le> num_items lh)"

lemma rebucket_total:
  "n \<le> 2 ^ 59 \<Longrightarrow> num_buckets (lh_rebucket alloc_total lh n) = n \<and> num_items (lh_rebucket alloc_total lh n) = num_items lh"
  by (simp add: lh_rebucket_def Let_def size_t_mod_def OPENSSL_malloc_def alloc_total_def OPENSSL_MALLOC_PREFIX_def)

lemma maybe_resize_loaded:
  assumes "kMinNumBuckets \<le> num_buckets lh" and "callback_depth lh = 0" and "num_items lh \<le> 2 ^ 58"
    and "num_items lh \<le> 3 * num_buckets lh" and "num_buckets lh = kMinNumBuckets \<or> num_buckets lh \<le> Suc (num_items lh)"
  shows "loaded (lh_maybe_resize alloc_total lh)"
proof -
  let ?n = "num_buckets lh"
  consider (grow) "num_items lh = 3 * ?n" | (shrink) "num_items lh < ?n" "kMinNumBuckets < ?n"
    | (keep) "num_items lh < 3 * ?n" "?n \<le> num_items lh \<or> ?n = kMinNumBuckets"
    using assms by linarith
  then show ?thesis
  proof cases
    case grow
    then have "num_items lh div ?n = 3" "?n * 2 mod size_t_mod = 2 * ?n" "2 * ?n \<le> 2 ^ 59"
      using assms by (simp_all add: kMinNumBuckets_def size_t_mod_def)
    then show ?thesis using grow assms rebucket_total [of "2 * ?n" lh]
      by (simp add: lh_maybe_resize_def loaded_def kMaxAverageChainLength_def kMinNumBuckets_def Let_def)
  next
    case shrink
    let ?m = "if ?n div 2 < kMinNumBuckets then kMinNumBuckets else ?n div 2"
    have n: "?n = Suc (num_items lh)" using shrink assms by auto
    then have "num_items lh div ?n = 0" "?m \<le> 2 ^ 59" using shrink assms by (auto simp: kMinNumBuckets_def)
    then have "lh_maybe_resize alloc_total lh = lh_rebucket alloc_total lh ?m"
      using shrink assms(2)
      by (simp add: lh_maybe_resize_def kMaxAverageChainLength_def kMinAverageChainLength_def Let_def)
    moreover have "num_items lh < 3 * ?m" "?m = kMinNumBuckets \<or> ?m \<le> num_items lh"
      using n by (auto simp: kMinNumBuckets_def not_less; linarith)+
    ultimately show ?thesis using rebucket_total [OF \<open>?m \<le> 2 ^ 59\<close>, of lh] unfolding loaded_def by metis
  next
    case keep
    have le: "\<not> num_items lh div ?n > 2" using keep(1) by (simp add: not_less div_less_iff_less_mult less_Suc_eq_le [symmetric])
    have "\<not> (num_items lh div ?n < 1 \<and> ?n > kMinNumBuckets)" using keep(2) assms(1) by (auto simp: kMinNumBuckets_def div_eq_0_iff)
    then have "lh_maybe_resize alloc_total lh = lh"
      using le by (auto simp: lh_maybe_resize_def kMaxAverageChainLength_def kMinAverageChainLength_def Let_def)
    then show ?thesis using keep by (auto simp: loaded_def)
  qed
qed

text \<open>
  C33: While memory lasts and no visit is under way, inserting in and deleting from a table
  whose buckets hold fewer than three items on average leaves it so, and leaves at most one
  bucket for each item beyond the least number of buckets; a new table is such a table.
\<close>

theorem lhash_load:
  assumes "lhash_reachable hash eq lh" and "hash_ok hash eq" and "callback_depth lh = 0" and "num_items lh < 2 ^ 58"
  shows "map_option loaded (lh_new alloc_total) = Some True \<and>
    (loaded lh \<longrightarrow> loaded (snd (snd (lh_insert alloc_total hash eq lh d))) \<and> loaded (snd (lh_delete alloc_total hash eq lh d)))"
proof (intro conjI impI)
  show "map_option loaded (lh_new alloc_total) = Some True"
    by (simp add: lh_new_def loaded_def OPENSSL_malloc_def alloc_total_def Let_def kMinNumBuckets_def
      OPENSSL_MALLOC_PREFIX_def sizeof_LHASH_def size_t_mod_def)
  assume load: "loaded lh"
  have inv: "lh_inv hash eq lh" by (rule reachable_inv [OF assms(1,2)])
  then have n: "kMinNumBuckets \<le> num_buckets lh" by (simp add: lh_inv_def)
  obtain h b i where ptr: "get_next_ptr_and_hash hash eq lh d = (h, b, i)" by (rule prod_cases3)
  have ins: "loaded (lh_maybe_resize alloc_total (lh\<lparr>buckets := bs, num_items := Suc (num_items lh)\<rparr>))" for bs
    by (rule maybe_resize_loaded) (use load n assms in \<open>auto simp: loaded_def\<close>)
  have del: "loaded (lh_maybe_resize alloc_total (lh\<lparr>buckets := bs, num_items := num_items lh - 1\<rparr>))" for bs
    by (rule maybe_resize_loaded) (use load n assms in \<open>auto simp: loaded_def\<close>)
  have "loaded (lh\<lparr>buckets := bs\<rparr>)" for bs using load by (simp add: loaded_def)
  then show "loaded (snd (snd (lh_insert alloc_total hash eq lh d)))"
    using ins load unfolding lh_insert_def ptr by (simp split: option.split)
  show "loaded (snd (lh_delete alloc_total hash eq lh d))"
    using del load unfolding lh_delete_def ptr by (simp split: option.split)
qed

section \<open>A table in use\<close>

text \<open>Addresses are equal when they are in the same block of 16 bytes.\<close>

definition block_hash :: "nat \<Rightarrow> u32" where "block_hash x = word_of_nat (x div 16)"
definition same_block :: "nat \<Rightarrow> nat \<Rightarrow> bool" where "same_block x y \<longleftrightarrow> x div 16 = y div 16"

lemma block_hash_ok: "hash_ok block_hash same_block"
  by (simp add: hash_ok_def block_hash_def same_block_def)

definition three_items :: lhash where
  "three_items = \<lparr>num_items = 3, buckets = [[], [(16, 1), (272, 17)], [(35, 2)]] @ replicate 13 [], num_buckets = 16,
    callback_depth = 0\<rparr>"

lemma three_items_reachable: "lhash_reachable block_hash same_block three_items"
proof -
  let ?lh = "\<lambda>n bs. \<lparr>num_items = n, buckets = bs @ replicate 13 [], num_buckets = 16, callback_depth = 0\<rparr>"
  note insert_defs = lh_insert_def get_next_ptr_and_hash_def item_at_def block_hash_def same_block_def lh_maybe_resize_def
    kMaxAverageChainLength_def kMinAverageChainLength_def kMinNumBuckets_def OPENSSL_malloc_def Let_def nth_append
    list_update_append
  have "lh_new (\<lambda>n. True) = Some (?lh 0 [[], [], []])"
    by (simp add: lh_new_def OPENSSL_malloc_def Let_def kMinNumBuckets_def numeral_eq_Suc)
  then have "lhash_reachable block_hash same_block (?lh 0 [[], [], []])" by (rule reach_new)
  moreover have "lh_insert (\<lambda>n. True) block_hash same_block (?lh 0 [[], [], []]) 16 = (True, None, ?lh 1 [[], [(16, 1)], []])"
    by (simp add: insert_defs)
  ultimately have "lhash_reachable block_hash same_block (?lh 1 [[], [(16, 1)], []])" by (rule reach_insert)
  moreover have "lh_insert (\<lambda>n. True) block_hash same_block (?lh 1 [[], [(16, 1)], []]) 272 =
      (True, None, ?lh 2 [[], [(16, 1), (272, 17)], []])"
    by (simp add: insert_defs)
  ultimately have "lhash_reachable block_hash same_block (?lh 2 [[], [(16, 1), (272, 17)], []])" by (rule reach_insert)
  moreover have "lh_insert (\<lambda>n. True) block_hash same_block (?lh 2 [[], [(16, 1), (272, 17)], []]) 35 =
      (True, None, ?lh 3 [[], [(16, 1), (272, 17)], [(35, 2)]])"
    by (simp add: insert_defs)
  ultimately have "lhash_reachable block_hash same_block (?lh 3 [[], [(16, 1), (272, 17)], [(35, 2)]])" by (rule reach_insert)
  then show ?thesis by (simp add: three_items_def)
qed

lemma lhash_invariant_witness:
  "length (buckets three_items) = num_buckets three_items \<and> lh_num_items three_items = card (elements three_items)"
  using lhash_invariant [OF three_items_reachable block_hash_ok] by simp

lemma lhash_refines_set_witness:
  "lh_retrieve block_hash same_block three_items 40 = Some 35 \<and> elements three_items = {16, 272, 35} \<and>
    elements (snd (lh_delete alloc_total block_hash same_block three_items 20)) = {272, 35}"
proof -
  have elems: "elements three_items = {16, 272, 35}" by (auto simp: elements_def items_def three_items_def)
  have rest: "{x \<in> {16, 272, 35}. \<not> same_block x 20} = {272, 35}" by (auto simp: same_block_def)
  note refined = lhash_refines_set [OF three_items_reachable block_hash_ok, where alloc = alloc_total and
      alloc' = alloc_total and alloc'' = alloc_total and d = 16 and d' = 20 and func = "\<lambda>x w. w" and w = 0, unfolded elems]
  have "lh_retrieve block_hash same_block three_items 40 = Some 35"
    using conjunct1 [OF refined] by (simp add: same_block_def)
  moreover have "elements (snd (lh_delete alloc_total block_hash same_block three_items 20)) = {272, 35}"
    using conjunct1 [OF conjunct2 [OF conjunct2 [OF refined]]] rest
    by (cases "lh_delete alloc_total block_hash same_block three_items 20") simp
  ultimately show ?thesis using elems by simp
qed

lemma lhash_load_witness:
  "loaded (snd (snd (lh_insert alloc_total block_hash same_block three_items 60))) \<and>
    loaded (snd (lh_delete alloc_total block_hash same_block three_items 16))"
  using lhash_load [OF three_items_reachable block_hash_ok, of 60] lhash_load [OF three_items_reachable block_hash_ok, of 16]
  by (simp add: three_items_def loaded_def kMinNumBuckets_def)

end
