(* ===== verification/Modes.thy ===== *)
theory Modes
  imports Memory
begin

text \<open>
  The modes of operation of \<open>crypto/fipsmodule/modes\<close> (\<open>cbc.c\<close>, \<open>ctr.c\<close>, \<open>ofb.c\<close>, \<open>cfb.c\<close>).  The
  input and the output lie in memory and may overlap; \<open>ivec\<close>, \<open>ecount_buf\<close> and local buffers are
  arrays of their own.  \<open>block\<close> stands for the block function with its key: the 16 bytes it
  writes for the 16 bytes it reads.
\<close>

section \<open>Words\<close>

definition load_word_le :: "mem \<Rightarrow> nat \<Rightarrow> u64" where
  "load_word_le m a = load_word m a 8"

definition store_word_le :: "nat \<Rightarrow> u64 \<Rightarrow> mem \<Rightarrow> mem" where
  "store_word_le a v m = store a (le_bytes 8 v) m"

text \<open>The same on an array, at a position in it.\<close>

definition array_word :: "bytes \<Rightarrow> nat \<Rightarrow> u64" where
  "array_word xs n = le_word (take 8 (drop n xs))"

definition array_put_word :: "nat \<Rightarrow> u64 \<Rightarrow> bytes \<Rightarrow> bytes" where
  "array_put_word n v xs = take n xs @ le_bytes 8 v @ drop (n + 8) xs"

definition GETU32 :: "bytes \<Rightarrow> nat \<Rightarrow> u32" where
  "GETU32 xs n = be_word (take 4 (drop n xs))"

definition PUTU32 :: "nat \<Rightarrow> u32 \<Rightarrow> bytes \<Rightarrow> bytes" where
  "PUTU32 n v xs = take n xs @ be_bytes 4 v @ drop (n + 4) xs"

text \<open>The positions of the loops \<open>for (; n < 16; n += sizeof(size_t))\<close>.\<close>

function word_positions :: "nat \<Rightarrow> nat list" where
  "word_positions n = (if n < 16 then n # word_positions (n + 8) else [])"
  by pat_completeness auto
termination by (relation "measure (\<lambda>n. 16 - n)") auto

declare word_positions.simps [simp del]

section \<open>CBC\<close>

text \<open>The pointer \<open>iv\<close>: to \<open>ivec\<close>, or to a block of the input or output.\<close>

datatype iv_ptr = Ivec | At nat

primrec iv_bytes :: "mem \<Rightarrow> bytes \<Rightarrow> iv_ptr \<Rightarrow> bytes" where
  "iv_bytes m ivec Ivec = ivec"
| "iv_bytes m ivec (At a) = load m a 16"

function cbc_encrypt_blocks ::
    "(bytes \<Rightarrow> bytes) \<Rightarrow> bytes \<Rightarrow> nat \<Rightarrow> nat \<Rightarrow> nat \<Rightarrow> iv_ptr \<Rightarrow> mem \<Rightarrow> nat \<times> nat \<times> nat \<times> iv_ptr \<times> mem" where
  "cbc_encrypt_blocks block ivec src dst len iv m =
     (if 16 \<le> len then
        (let m1 = fold (\<lambda>n m. store_word_le (dst + n) (load_word_le m (src + n) XOR array_word (iv_bytes m ivec iv) n) m)
                    (word_positions 0) m;
             m2 = store dst (block (load m1 dst 16)) m1
         in cbc_encrypt_blocks block ivec (src + 16) (dst + 16) (len - 16) (At dst) m2)
      else (src, dst, len, iv, m))"
  by pat_completeness auto
termination by (relation "measure (\<lambda>(block, ivec, src, dst, len, iv, m). len)") auto

function cbc_encrypt_rest ::
    "(bytes \<Rightarrow> bytes) \<Rightarrow> bytes \<Rightarrow> nat \<Rightarrow> nat \<Rightarrow> nat \<Rightarrow> iv_ptr \<Rightarrow> mem \<Rightarrow> iv_ptr \<times> mem" where
  "cbc_encrypt_rest block ivec src dst len iv m =
     (if len = 0 then (iv, m)
      else
        (let n = min 16 len;
             m1 = fold (\<lambda>n m. store (dst + n) [m (src + n) XOR iv_bytes m ivec iv ! n] m) [0..<n] m;
             m2 = fold (\<lambda>n m. store (dst + n) [iv_bytes m ivec iv ! n] m) [n..<16] m1;
             m3 = store dst (block (load m2 dst 16)) m2
         in if len \<le> 16 then (At dst, m3)
            else cbc_encrypt_rest block ivec (src + 16) (dst + 16) (len - 16) (At dst) m3))"
  by pat_completeness auto
termination by (relation "measure (\<lambda>(block, ivec, src, dst, len, iv, m). len)") auto

declare cbc_encrypt_blocks.simps [simp del] cbc_encrypt_rest.simps [simp del]

definition CRYPTO_cbc128_encrypt :: "(bytes \<Rightarrow> bytes) \<Rightarrow> nat \<Rightarrow> nat \<Rightarrow> nat \<Rightarrow> bytes \<Rightarrow> mem \<Rightarrow> bytes \<times> mem" where
  "CRYPTO_cbc128_encrypt block src dst len ivec m =
     (case cbc_encrypt_blocks block ivec src dst len Ivec m of
        (src, dst, len, iv, m) \<Rightarrow>
          (case cbc_encrypt_rest block ivec src dst len iv m of (iv, m) \<Rightarrow> (iv_bytes m ivec iv, m)))"

text \<open>Decrypting straight into the output, when it is far enough from the input.\<close>

function cbc_decrypt_direct ::
    "(bytes \<Rightarrow> bytes) \<Rightarrow> bytes \<Rightarrow> nat \<Rightarrow> nat \<Rightarrow> nat \<Rightarrow> iv_ptr \<Rightarrow> mem \<Rightarrow> nat \<times> nat \<times> nat \<times> bytes \<times> mem" where
  "cbc_decrypt_direct block ivec src dst len iv m =
     (if 16 \<le> len then
        (let m1 = store dst (block (load m src 16)) m;
             m2 = fold (\<lambda>n m. store_word_le (dst + n) (load_word_le m (dst + n) XOR array_word (iv_bytes m ivec iv) n) m)
                    (word_positions 0) m1
         in cbc_decrypt_direct block ivec (src + 16) (dst + 16) (len - 16) (At src) m2)
      else (src, dst, len, iv_bytes m ivec iv, m))"
  by pat_completeness auto
termination by (relation "measure (\<lambda>(block, ivec, src, dst, len, iv, m). len)") auto

text \<open>Decrypting by way of \<open>tmp\<close>.\<close>

function cbc_decrypt_buffered ::
    "(bytes \<Rightarrow> bytes) \<Rightarrow> bytes \<Rightarrow> nat \<Rightarrow> nat \<Rightarrow> nat \<Rightarrow> mem \<Rightarrow> nat \<times> nat \<times> nat \<times> bytes \<times> mem" where
  "cbc_decrypt_buffered block ivec src dst len m =
     (if 16 \<le> len then
        (let tmp = block (load m src 16);
             (ivec', m') = fold (\<lambda>n (ivec, m).
                 let c = load_word_le m (src + n);
                     m' = store_word_le (dst + n) (array_word tmp n XOR array_word ivec n) m
                 in (array_put_word n c ivec, m')) (word_positions 0) (ivec, m)
         in cbc_decrypt_buffered block ivec' (src + 16) (dst + 16) (len - 16) m')
      else (src, dst, len, ivec, m))"
  by pat_completeness auto
termination by (relation "measure (\<lambda>(block, ivec, src, dst, len, m). len)") auto

function cbc_decrypt_rest ::
    "(bytes \<Rightarrow> bytes) \<Rightarrow> bytes \<Rightarrow> nat \<Rightarrow> nat \<Rightarrow> nat \<Rightarrow> mem \<Rightarrow> bytes \<times> mem" where
  "cbc_decrypt_rest block ivec src dst len m =
     (if len = 0 then (ivec, m)
      else
        (let tmp = block (load m src 16);
             n = min 16 len;
             (ivec1, m1) = fold (\<lambda>n (ivec, m). let c = m (src + n)
                 in (ivec[n := c], store (dst + n) [tmp ! n XOR ivec ! n] m)) [0..<n] (ivec, m)
         in if len \<le> 16 then (fold (\<lambda>n ivec. ivec[n := m1 (src + n)]) [n..<16] ivec1, m1)
            else cbc_decrypt_rest block ivec1 (src + 16) (dst + 16) (len - 16) m1))"
  by pat_completeness auto
termination by (relation "measure (\<lambda>(block, ivec, src, dst, len, m). len)") auto

declare cbc_decrypt_direct.simps [simp del] cbc_decrypt_buffered.simps [simp del] cbc_decrypt_rest.simps [simp del]

definition CRYPTO_cbc128_decrypt :: "(bytes \<Rightarrow> bytes) \<Rightarrow> nat \<Rightarrow> nat \<Rightarrow> nat \<Rightarrow> bytes \<Rightarrow> mem \<Rightarrow> bytes \<times> mem" where
  "CRYPTO_cbc128_decrypt block src dst len ivec m =
     (case (if 32 \<le> src \<and> dst \<le> src - 32 \<or> src < dst
            then cbc_decrypt_direct block ivec src dst len Ivec m
            else cbc_decrypt_buffered block ivec src dst len m) of
        (src, dst, len, ivec, m) \<Rightarrow> cbc_decrypt_rest block ivec src dst len m)"

section \<open>CTR\<close>

text \<open>Adding 1 to the number in the first \<open>n\<close> bytes: \<open>c\<close> is the sum and then the carry.\<close>

primrec counter_inc :: "nat \<Rightarrow> u32 \<Rightarrow> bytes \<Rightarrow> bytes" where
  "counter_inc 0 c counter = counter"
| "counter_inc (Suc n) c counter =
     (let c' = c + ucast (counter ! n) in counter_inc n (drop_bit 8 c') (counter[n := ucast c']))"

definition ctr128_inc :: "bytes \<Rightarrow> bytes" where
  "ctr128_inc counter = counter_inc 16 1 counter"

definition ctr96_inc :: "bytes \<Rightarrow> bytes" where
  "ctr96_inc counter = counter_inc 12 1 counter"

text \<open>Using up what is left of the encrypted counter.\<close>

function xor_pending :: "bytes \<Rightarrow> nat \<Rightarrow> nat \<Rightarrow> nat \<Rightarrow> nat \<Rightarrow> mem \<Rightarrow> nat \<times> nat \<times> nat \<times> nat \<times> mem" where
  "xor_pending ecount src dst len n m =
     (if n \<noteq> 0 \<and> len \<noteq> 0 then
        xor_pending ecount (src + 1) (dst + 1) (len - 1) ((n + 1) mod 16) (store dst [m src XOR ecount ! n] m)
      else (src, dst, len, n, m))"
  by pat_completeness auto
termination by (relation "measure (\<lambda>(ecount, src, dst, len, n, m). len)") auto

function xor_rest :: "bytes \<Rightarrow> nat \<Rightarrow> nat \<Rightarrow> nat \<Rightarrow> nat \<Rightarrow> mem \<Rightarrow> nat \<times> mem" where
  "xor_rest ecount src dst len n m =
     (if len = 0 then (n, m)
      else xor_rest ecount src dst (len - 1) (n + 1) (store (dst + n) [m (src + n) XOR ecount ! n] m))"
  by pat_completeness auto
termination by (relation "measure (\<lambda>(ecount, src, dst, len, n, m). len)") auto

definition xor_block :: "nat \<Rightarrow> nat \<Rightarrow> nat \<Rightarrow> bytes \<Rightarrow> mem \<Rightarrow> mem" where
  "xor_block n src dst ks m =
     fold (\<lambda>n m. store_word_le (dst + n) (load_word_le m (src + n) XOR array_word ks n) m) (word_positions n) m"

function ctr_blocks ::
    "(bytes \<Rightarrow> bytes) \<Rightarrow> nat \<Rightarrow> nat \<Rightarrow> nat \<Rightarrow> bytes \<Rightarrow> bytes \<Rightarrow> nat \<Rightarrow> mem \<Rightarrow> nat \<times> nat \<times> nat \<times> bytes \<times> bytes \<times> nat \<times> mem" where
  "ctr_blocks block src dst len ivec ecount n m =
     (if 16 \<le> len then
        (let ecount' = block ivec;
             m' = xor_block 0 src dst ecount' m
         in ctr_blocks block (src + 16) (dst + 16) (len - 16) (ctr128_inc ivec) ecount' 0 m')
      else (src, dst, len, ivec, ecount, n, m))"
  by pat_completeness auto
termination by (relation "measure (\<lambda>(block, src, dst, len, ivec, ecount, n, m). len)") auto

declare xor_pending.simps [simp del] xor_rest.simps [simp del] ctr_blocks.simps [simp del]

text \<open>The results: \<open>ivec\<close>, \<open>ecount_buf\<close>, \<open>*num\<close> and memory.\<close>

definition CRYPTO_ctr128_encrypt ::
    "(bytes \<Rightarrow> bytes) \<Rightarrow> nat \<Rightarrow> nat \<Rightarrow> nat \<Rightarrow> bytes \<times> bytes \<times> nat \<Rightarrow> mem \<Rightarrow> (bytes \<times> bytes \<times> nat) \<times> mem" where
  "CRYPTO_ctr128_encrypt block src dst len st m =
     (case st of (ivec, ecount, num) \<Rightarrow>
        (case xor_pending ecount src dst len num m of
           (src, dst, len, n, m) \<Rightarrow>
             (case ctr_blocks block src dst len ivec ecount n m of
                (src, dst, len, ivec, ecount, n, m) \<Rightarrow>
                  if len = 0 then ((ivec, ecount, n), m)
                  else (let ecount' = block ivec
                        in case xor_rest ecount' src dst len n m of (n, m) \<Rightarrow> ((ctr128_inc ivec, ecount', n), m)))))"

text \<open>
  The variant with a function that encrypts many blocks and only counts in the low 32 bits:
  \<open>func\<close> is what it writes for the bytes it reads, the number of blocks and \<open>ivec\<close>.
\<close>

definition ctr32_blocks :: "u32 \<Rightarrow> nat \<Rightarrow> nat \<times> u32" where
  "ctr32_blocks ctr32 len =
     (let blocks = len div 16;
          blocks = (if blocks > 2 ^ 28 then 2 ^ 28 else blocks);
          ctr32' = ctr32 + word_of_nat blocks
      in if unat ctr32' < blocks then (blocks - unat ctr32', 0) else (blocks, ctr32'))"

lemma ctr32_blocks_progress:
  assumes "16 \<le> len" and "ctr32_blocks c len = (blocks, c')"
  shows "0 < blocks \<and> 16 * blocks \<le> len"
proof -
  let ?b = "if len div 16 > 2 ^ 28 then 2 ^ 28 else len div 16"
  have b: "0 < ?b" "?b \<le> 2 ^ 28" "16 * ?b \<le> len" using assms(1) by auto
  have "unat (word_of_nat ?b :: u32) = ?b" using b(2) by (simp add: unat_of_nat)
  then have "unat (c + word_of_nat ?b) = (unat c + ?b) mod 2 ^ 32" by (simp add: unat_word_ariths)
  then have "0 < blocks \<and> blocks \<le> ?b" using assms(2) b unfolding ctr32_blocks_def Let_def by (auto split: if_splits)
  then show ?thesis using b(3) by linarith
qed

function ctr32_loop ::
    "(bytes \<Rightarrow> nat \<Rightarrow> bytes \<Rightarrow> bytes) \<Rightarrow> nat \<Rightarrow> nat \<Rightarrow> nat \<Rightarrow> bytes \<Rightarrow> u32 \<Rightarrow> mem \<Rightarrow> nat \<times> nat \<times> nat \<times> bytes \<times> u32 \<times> mem" where
  "ctr32_loop func src dst len ivec ctr32 m =
     (if 16 \<le> len then
        (case ctr32_blocks ctr32 len of
           (blocks, ctr32') \<Rightarrow>
             (let m' = store dst (func (load m src (16 * blocks)) blocks ivec) m;
                  ivec' = PUTU32 12 ctr32' ivec;
                  ivec'' = (if ctr32' = 0 then ctr96_inc ivec' else ivec')
              in ctr32_loop func (src + 16 * blocks) (dst + 16 * blocks) (len - 16 * blocks) ivec'' ctr32' m'))
      else (src, dst, len, ivec, ctr32, m))"
  by pat_completeness auto
termination
  by (relation "measure (\<lambda>(func, src, dst, len, ivec, ctr32, m). len)") (auto dest!: ctr32_blocks_progress [OF _ sym])

declare ctr32_loop.simps [simp del]

definition CRYPTO_ctr128_encrypt_ctr32 ::
    "(bytes \<Rightarrow> nat \<Rightarrow> bytes \<Rightarrow> bytes) \<Rightarrow> nat \<Rightarrow> nat \<Rightarrow> nat \<Rightarrow> bytes \<times> bytes \<times> nat \<Rightarrow> mem \<Rightarrow> (bytes \<times> bytes \<times> nat) \<times> mem" where
  "CRYPTO_ctr128_encrypt_ctr32 func src dst len st m =
     (case st of (ivec, ecount, num) \<Rightarrow>
        (case xor_pending ecount src dst len num m of
           (src, dst, len, n, m) \<Rightarrow>
             (case ctr32_loop func src dst len ivec (GETU32 ivec 12) m of
                (src, dst, len, ivec, ctr32, m) \<Rightarrow>
                  if len = 0 then ((ivec, ecount, n), m)
                  else (let ecount' = func (replicate 16 0) 1 ivec;
                            ctr32' = ctr32 + 1;
                            ivec' = PUTU32 12 ctr32' ivec;
                            ivec'' = (if ctr32' = 0 then ctr96_inc ivec' else ivec')
                        in case xor_rest ecount' src dst len n m of (n, m) \<Rightarrow> ((ivec'', ecount', n), m)))))"

section \<open>OFB\<close>

text \<open>The loops over single bytes are those of CTR, with \<open>ivec\<close> for \<open>ecount_buf\<close>.\<close>

function ofb_blocks ::
    "(bytes \<Rightarrow> bytes) \<Rightarrow> nat \<Rightarrow> nat \<Rightarrow> nat \<Rightarrow> bytes \<Rightarrow> nat \<Rightarrow> mem \<Rightarrow> nat \<times> nat \<times> nat \<times> bytes \<times> nat \<times> mem" where
  "ofb_blocks block src dst len ivec n m =
     (if 16 \<le> len then
        (let ivec' = block ivec;
             m' = xor_block n src dst ivec' m
         in ofb_blocks block (src + 16) (dst + 16) (len - 16) ivec' 0 m')
      else (src, dst, len, ivec, n, m))"
  by pat_completeness auto
termination by (relation "measure (\<lambda>(block, src, dst, len, ivec, n, m). len)") auto

declare ofb_blocks.simps [simp del]

definition CRYPTO_ofb128_encrypt ::
    "(bytes \<Rightarrow> bytes) \<Rightarrow> nat \<Rightarrow> nat \<Rightarrow> nat \<Rightarrow> bytes \<times> nat \<Rightarrow> mem \<Rightarrow> (bytes \<times> nat) \<times> mem" where
  "CRYPTO_ofb128_encrypt block src dst len st m =
     (case st of (ivec, num) \<Rightarrow>
        (case xor_pending ivec src dst len num m of
           (src, dst, len, n, m) \<Rightarrow>
             (case ofb_blocks block src dst len ivec n m of
                (src, dst, len, ivec, n, m) \<Rightarrow>
                  if len = 0 then ((ivec, n), m)
                  else (let ivec' = block ivec
                        in case xor_rest ivec' src dst len n m of (n, m) \<Rightarrow> ((ivec', n), m)))))"

section \<open>CFB\<close>

function cfb_pending ::
    "bool \<Rightarrow> bytes \<Rightarrow> nat \<Rightarrow> nat \<Rightarrow> nat \<Rightarrow> nat \<Rightarrow> mem \<Rightarrow> nat \<times> nat \<times> nat \<times> bytes \<times> nat \<times> mem" where
  "cfb_pending enc ivec src dst len n m =
     (if n \<noteq> 0 \<and> len \<noteq> 0 then
        (let c = m src; y = ivec ! n XOR c
         in cfb_pending enc (ivec[n := if enc then y else c]) (src + 1) (dst + 1) (len - 1) ((n + 1) mod 16) (store dst [y] m))
      else (src, dst, len, ivec, n, m))"
  by pat_completeness auto
termination by (relation "measure (\<lambda>(enc, ivec, src, dst, len, n, m). len)") auto

definition cfb_block :: "bool \<Rightarrow> nat \<Rightarrow> nat \<Rightarrow> nat \<Rightarrow> bytes \<Rightarrow> mem \<Rightarrow> bytes \<times> mem" where
  "cfb_block enc n src dst ivec m =
     fold (\<lambda>n (ivec, m).
         let t = load_word_le m (src + n); y = array_word ivec n XOR t
         in (array_put_word n (if enc then y else t) ivec, store_word_le (dst + n) y m)) (word_positions n) (ivec, m)"

function cfb_blocks ::
    "bool \<Rightarrow> (bytes \<Rightarrow> bytes) \<Rightarrow> nat \<Rightarrow> nat \<Rightarrow> nat \<Rightarrow> bytes \<Rightarrow> nat \<Rightarrow> mem \<Rightarrow> nat \<times> nat \<times> nat \<times> bytes \<times> nat \<times> mem" where
  "cfb_blocks enc block src dst len ivec n m =
     (if 16 \<le> len then
        (case cfb_block enc n src dst (block ivec) m of
           (ivec', m') \<Rightarrow> cfb_blocks enc block (src + 16) (dst + 16) (len - 16) ivec' 0 m')
      else (src, dst, len, ivec, n, m))"
  by pat_completeness auto
termination by (relation "measure (\<lambda>(enc, block, src, dst, len, ivec, n, m). len)") auto

function cfb_rest :: "bool \<Rightarrow> bytes \<Rightarrow> nat \<Rightarrow> nat \<Rightarrow> nat \<Rightarrow> nat \<Rightarrow> mem \<Rightarrow> bytes \<times> nat \<times> mem" where
  "cfb_rest enc ivec src dst len n m =
     (if len = 0 then (ivec, n, m)
      else
        (let c = m (src + n); y = ivec ! n XOR c
         in cfb_rest enc (ivec[n := if enc then y else c]) src dst (len - 1) (n + 1) (store (dst + n) [y] m)))"
  by pat_completeness auto
termination by (relation "measure (\<lambda>(enc, ivec, src, dst, len, n, m). len)") auto

declare cfb_pending.simps [simp del] cfb_blocks.simps [simp del] cfb_rest.simps [simp del]

definition CRYPTO_cfb128_encrypt ::
    "bool \<Rightarrow> (bytes \<Rightarrow> bytes) \<Rightarrow> nat \<Rightarrow> nat \<Rightarrow> nat \<Rightarrow> bytes \<times> nat \<Rightarrow> mem \<Rightarrow> (bytes \<times> nat) \<times> mem" where
  "CRYPTO_cfb128_encrypt enc block src dst len st m =
     (case st of (ivec, num) \<Rightarrow>
        (case cfb_pending enc ivec src dst len num m of
           (src, dst, len, ivec, n, m) \<Rightarrow>
             (case cfb_blocks enc block src dst len ivec n m of
                (src, dst, len, ivec, n, m) \<Rightarrow>
                  if len = 0 then ((ivec, n), m)
                  else (case cfb_rest enc (block ivec) src dst len n m of (ivec, n, m) \<Rightarrow> ((ivec, n), m)))))"

text \<open>
  CFB of one to 128 bits: \<open>ovec\<close> holds the old \<open>ivec\<close> and then the cipher text, and is shifted.
  Its last bytes, which the code leaves uninitialised and does not use, are 0 here.
\<close>

definition cfbr_encrypt_block ::
    "bool \<Rightarrow> (bytes \<Rightarrow> bytes) \<Rightarrow> nat \<Rightarrow> nat \<Rightarrow> nat \<Rightarrow> bytes \<Rightarrow> mem \<Rightarrow> bytes \<times> mem" where
  "cfbr_encrypt_block enc block src dst nbits ivec m =
     (if nbits = 0 \<or> nbits > 128 then (ivec, m)
      else
        (let ovec = ivec @ replicate 17 0;
             ivec1 = block ivec;
             num = (nbits + 7) div 8;
             (ovec1, m1) = fold (\<lambda>n (ovec, m).
                 let c = m (src + n); y = c XOR ivec1 ! n
                 in (ovec[16 + n := if enc then y else c], store (dst + n) [y] m)) [0..<num] (ovec, m);
             rem = nbits mod 8;
             num = nbits div 8
         in if rem = 0 then (take 16 (drop num ovec1), m1)
            else (map (\<lambda>n. push_bit rem (ovec1 ! (n + num)) OR drop_bit (8 - rem) (ovec1 ! (n + num + 1))) [0..<16], m1)))"

text \<open>The arrays \<open>c\<close> and \<open>d\<close> of one byte are memory of their own.\<close>

definition cfb1_step :: "bool \<Rightarrow> (bytes \<Rightarrow> bytes) \<Rightarrow> nat \<Rightarrow> nat \<Rightarrow> nat \<Rightarrow> bytes \<times> mem \<Rightarrow> bytes \<times> mem" where
  "cfb1_step enc block src dst n st =
     (case st of (ivec, m) \<Rightarrow>
        (let c = (if m (src + n div 8) AND push_bit (7 - n mod 8) 1 \<noteq> 0 then 0x80 else 0);
             (ivec', cd) = cfbr_encrypt_block enc block 0 1 1 ivec ((\<lambda>x. 0)(0 := c));
             d = cd 1
         in (ivec', store (dst + n div 8)
               [(m (dst + n div 8) AND NOT (push_bit (7 - n mod 8) 1)) OR drop_bit (n mod 8) (d AND 0x80)] m)))"

definition CRYPTO_cfb128_1_encrypt ::
    "bool \<Rightarrow> (bytes \<Rightarrow> bytes) \<Rightarrow> nat \<Rightarrow> nat \<Rightarrow> nat \<Rightarrow> bytes \<Rightarrow> mem \<Rightarrow> bytes \<times> mem" where
  "CRYPTO_cfb128_1_encrypt enc block src dst bits ivec m = fold (cfb1_step enc block src dst) [0..<bits] (ivec, m)"

definition CRYPTO_cfb128_8_encrypt ::
    "bool \<Rightarrow> (bytes \<Rightarrow> bytes) \<Rightarrow> nat \<Rightarrow> nat \<Rightarrow> nat \<Rightarrow> bytes \<Rightarrow> mem \<Rightarrow> bytes \<times> mem" where
  "CRYPTO_cfb128_8_encrypt enc block src dst len ivec m =
     fold (\<lambda>n (ivec, m). cfbr_encrypt_block enc block (src + n) (dst + n) 8 ivec m) [0..<len] (ivec, m)"

section \<open>Whole blocks\<close>

definition xor_bytes :: "bytes \<Rightarrow> bytes \<Rightarrow> bytes" where
  "xor_bytes xs ys = map2 (XOR) xs ys"

lemma length_xor_bytes [simp]: "length (xor_bytes xs ys) = min (length xs) (length ys)"
  by (simp add: xor_bytes_def)

lemma xor_bytes_Nil [simp]: "xor_bytes [] ys = []" "xor_bytes xs [] = []"
  by (simp_all add: xor_bytes_def)

lemma xor_bytes_append:
  "length xs = length us \<Longrightarrow> xor_bytes (xs @ ys) (us @ vs) = xor_bytes xs us @ xor_bytes ys vs"
  by (simp add: xor_bytes_def)

lemma xor_bytes_cancel: "length xs \<le> length ks \<Longrightarrow> xor_bytes (xor_bytes xs ks) ks = xs"
  by (rule nth_equalityI) (simp_all add: xor_bytes_def xor.assoc)

lemma xor_bytes_commute: "xor_bytes xs ys = xor_bytes ys xs"
  by (rule nth_equalityI) (simp_all add: xor_bytes_def xor.commute)

text \<open>The input is ahead of the output, or the output begins behind the end of the input.\<close>

definition ahead :: "nat \<Rightarrow> nat \<Rightarrow> nat \<Rightarrow> bool" where
  "ahead src dst len \<longleftrightarrow> dst \<le> src \<or> src + len \<le> dst"

lemma word_positions_0 [simp]: "word_positions 0 = [0, 8]"
  by (simp add: word_positions.simps)

lemma le_bytes_xor: "le_bytes n (v XOR w) = xor_bytes (le_bytes n v) (le_bytes n w)"
  by (induction n arbitrary: v w) (simp_all add: xor_bytes_def drop_bit_xor unsigned_xor_eq take_bit_xor)

lemma le_bytes_array: "length xs = 8 \<Longrightarrow> le_bytes 8 (le_word xs :: u64) = xs"
  using le_nat_less [of xs] by (intro le_nat_inj) (simp_all add: le_nat_le_bytes unat_le_word)

lemma le_bytes_array_word: "n + 8 \<le> length xs \<Longrightarrow> le_bytes 8 (array_word xs n) = take 8 (drop n xs)"
  unfolding array_word_def by (rule le_bytes_array) simp

lemma le_bytes_load_word_le: "le_bytes 8 (load_word_le m a) = load m a 8"
  unfolding load_word_le_def by (rule le_bytes_load_word [of 8 8]) simp_all

lemma halves: "length xs = 16 \<Longrightarrow> take 8 (drop 0 xs) @ take 8 (drop 8 xs) = xs"
  by (simp add: take_add [symmetric])

lemma load_halves: "load m a 8 @ load m (a + 8) 8 = load m a 16"
  using load_append [of m a 8 8] by simp

text \<open>A block moved in two halves, if the input is ahead.\<close>

lemma load_ahead: "ahead src dst (k + n) \<Longrightarrow> length A = k \<Longrightarrow> load (store dst A m) (src + k) n = load m (src + k) n"
  by (rule load_store_other) (auto simp: ahead_def)

lemma store_halves: "length A = 8 \<Longrightarrow> store (dst + 8) B (store dst A m) = store dst (A @ B) m"
  using store_append [of dst A B m] by simp

lemma xor_block_eq:
  assumes "ahead src dst 16" and "length ks = 16"
  shows "xor_block 0 src dst ks m = store dst (xor_bytes (load m src 16) ks) m"
proof -
  let ?A = "xor_bytes (load m src 8) (take 8 (drop 0 ks))" and ?B = "xor_bytes (load m (src + 8) 8) (take 8 (drop 8 ks))"
  have A: "length ?A = 8" using assms(2) by simp
  have "xor_block 0 src dst ks m = store (dst + 8) ?B (store dst ?A m)"
    using assms load_ahead [of src dst 8 8 ?A m] A
    by (simp add: xor_block_def store_word_le_def le_bytes_xor le_bytes_load_word_le le_bytes_array_word)
  also have "\<dots> = store dst (?A @ ?B) m" by (rule store_halves [OF A])
  also have "?A @ ?B = xor_bytes (load m src 8 @ load m (src + 8) 8) (take 8 (drop 0 ks) @ take 8 (drop 8 ks))"
    using assms(2) by (intro xor_bytes_append [symmetric]) simp
  finally show ?thesis by (simp only: halves [OF assms(2)] load_halves)
qed

section \<open>Byte by byte\<close>

text \<open>
  The reference: a machine that turns one byte after the other into a byte of the output.
\<close>

primrec mealy :: "('s \<Rightarrow> u8 \<Rightarrow> u8 \<times> 's) \<Rightarrow> 's \<Rightarrow> bytes \<Rightarrow> bytes \<times> 's" where
  "mealy step st [] = ([], st)"
| "mealy step st (x # xs) =
     (case step st x of (y, st') \<Rightarrow> (case mealy step st' xs of (ys, st'') \<Rightarrow> (y # ys, st'')))"

lemma mealy_append:
  "mealy step st (xs @ ys) =
   (case mealy step st xs of (us, st') \<Rightarrow> (case mealy step st' ys of (vs, st'') \<Rightarrow> (us @ vs, st'')))"
  by (induction xs arbitrary: st) (simp_all split: prod.split)

lemma length_mealy [simp]: "length (fst (mealy step st xs)) = length xs"
proof (induction xs arbitrary: st)
  case (Cons x xs)
  obtain y st' where "step st x = (y, st')" by (rule prod.exhaust)
  moreover obtain ys st2 where "mealy step st' xs = (ys, st2)" by (rule prod.exhaust)
  ultimately show ?case using Cons [of st'] by simp
qed simp

text \<open>What a routine does that runs such a machine over \<open>k\<close> bytes of memory.\<close>

definition moved :: "('s \<Rightarrow> u8 \<Rightarrow> u8 \<times> 's) \<Rightarrow> nat \<Rightarrow> nat \<Rightarrow> nat \<Rightarrow> 's \<times> mem \<Rightarrow> 's \<times> mem \<Rightarrow> bool" where
  "moved step src dst k before after \<longleftrightarrow>
     (case mealy step (fst before) (load (snd before) src k) of (ys, st') \<Rightarrow> after = (st', store dst ys (snd before)))"

lemma store_Nil [simp]: "store a [] m = m"
  by (rule ext) (auto simp: store_def)

lemma moved_0: "moved step src dst 0 (st, m) (st, m)"
  by (simp add: moved_def)

lemma moved_1: "step st (m src) = (y, st') \<Longrightarrow> moved step src dst 1 (st, m) (st', store dst [y] m)"
  by (simp add: moved_def load_def)

lemma moved_trans:
  assumes "moved step src dst k (st, m) (st1, m1)" and "moved step (src + k) (dst + k) j (st1, m1) (st2, m2)"
    and "ahead src dst (k + j)"
  shows "moved step src dst (k + j) (st, m) (st2, m2)"
proof -
  obtain ys where ys: "mealy step st (load m src k) = (ys, st1)" "m1 = store dst ys m"
    using assms(1) by (auto simp: moved_def split: prod.splits)
  obtain zs where zs: "mealy step st1 (load m1 (src + k) j) = (zs, st2)" "m2 = store (dst + k) zs m1"
    using assms(2) by (auto simp: moved_def split: prod.splits)
  have len: "length ys = k" using length_mealy [of step st "load m src k"] ys(1) by simp
  have "load m1 (src + k) j = load m (src + k) j" unfolding ys(2) by (rule load_ahead [OF assms(3) len])
  moreover have "m2 = store dst (ys @ zs) m" using zs(2) store_append [of dst ys zs m] len ys(2) by simp
  ultimately show ?thesis using ys zs by (simp add: moved_def load_append mealy_append)
qed

lemma ahead_mono: "ahead src dst len \<Longrightarrow> k + n \<le> len \<Longrightarrow> ahead (src + k) (dst + k) n"
  by (auto simp: ahead_def)

lemma ahead_less: "ahead src dst len \<Longrightarrow> n \<le> len \<Longrightarrow> ahead src dst n"
  by (auto simp: ahead_def)

section \<open>CTR and OFB byte by byte\<close>

text \<open>
  A machine that, after its first byte, takes its key bytes one after the other from \<open>ks\<close>: in
  \<open>f n\<close> the first \<open>n\<close> of them have been used.
\<close>

definition uses :: "('s \<Rightarrow> u8 \<Rightarrow> u8 \<times> 's) \<Rightarrow> bytes \<Rightarrow> (nat \<Rightarrow> 's) \<Rightarrow> bool" where
  "uses step ks f \<longleftrightarrow> length ks = 16 \<and> (\<forall>n x. 0 < n \<longrightarrow> n < 16 \<longrightarrow> step (f n) x = (x XOR ks ! n, f ((n + 1) mod 16)))"

lemma mealy_uses:
  "uses step ks f \<Longrightarrow> 0 < n \<Longrightarrow> n + length xs \<le> 16 \<Longrightarrow>
   mealy step (f n) xs = (xor_bytes xs (drop n ks), f (if xs = [] then n else (n + length xs) mod 16))"
proof (induction xs arbitrary: n)
  case (Cons x xs)
  have step: "step (f n) x = (x XOR ks ! n, f ((n + 1) mod 16))" and len: "length ks = 16"
    using Cons.prems by (simp_all add: uses_def)
  have drop: "drop n ks = ks ! n # drop (Suc n) ks"
    using Cons.prems len by (simp add: Cons_nth_drop_Suc)
  show ?case
  proof (cases "xs = []")
    case True
    then show ?thesis using step drop by (simp add: xor_bytes_def)
  next
    case False
    then have "(n + 1) mod 16 = Suc n" using Cons.prems by (cases xs) auto
    then show ?thesis using Cons.IH [of "Suc n"] Cons.prems False step drop by (simp add: xor_bytes_def)
  qed
qed (simp add: xor_bytes_def)

lemma mealy_block:
  assumes "uses step ks f" and "\<And>x. step s x = (x XOR ks ! 0, f 1)" and "xs \<noteq> []" and "length xs \<le> 16"
  shows "mealy step s xs = (xor_bytes xs ks, f (length xs mod 16))"
proof -
  obtain y ys where xs: "xs = y # ys" using assms(3) by (cases xs) auto
  obtain k ks' where ks: "ks = k # ks'" using assms(1) by (cases ks) (auto simp: uses_def)
  show ?thesis using mealy_uses [OF assms(1), of 1 ys] assms(2,4) by (simp add: xs ks xor_bytes_def)
qed

lemma xor_pending_moved:
  assumes "uses step ks f" and "ahead src dst len" and "n < 16" and "xor_pending ks src dst len n m = (src', dst', len', n', m')"
  shows "\<exists>k \<le> len. src' = src + k \<and> dst' = dst + k \<and> len' = len - k \<and> n' < 16 \<and> (n' = 0 \<or> len' = 0) \<and>
    moved step src dst k (f n, m) (f n', m')"
  using assms
proof (induction ks src dst len n m rule: xor_pending.induct)
  case (1 ks src dst len n m)
  show ?case
  proof (cases "n \<noteq> 0 \<and> len \<noteq> 0")
    case True
    let ?n = "(n + 1) mod 16" and ?m = "store dst [m src XOR ks ! n] m"
    have step: "moved step src dst 1 (f n, m) (f ?n, ?m)"
      by (rule moved_1) (use 1 True in \<open>simp add: uses_def\<close>)
    have rec: "xor_pending ks (src + 1) (dst + 1) (len - 1) ?n ?m = (src', dst', len', n', m')"
      using 1 True by (simp add: xor_pending.simps [of ks src])
    have ahead: "ahead (src + 1) (dst + 1) (len - 1)" by (rule ahead_mono [OF 1(3)]) (use True in simp)
    obtain k where k: "k \<le> len - 1" "src' = src + 1 + k" "dst' = dst + 1 + k" "len' = len - 1 - k" "n' < 16" "n' = 0 \<or> len' = 0"
        "moved step (src + 1) (dst + 1) k (f ?n, ?m) (f n', m')"
      using 1(1) [OF True 1(2) ahead _ rec] by auto
    have "moved step src dst (1 + k) (f n, m) (f n', m')"
      by (rule moved_trans [OF step k(7) ahead_less [OF 1(3)]]) (use k True in linarith)
    then show ?thesis using k True by (intro exI [of _ "1 + k"]) auto
  next
    case False
    then show ?thesis using 1 moved_0 by (intro exI [of _ 0]) (auto simp: xor_pending.simps [of ks src])
  qed
qed

lemma xor_rest_eq:
  "length ks = 16 \<Longrightarrow> n + len \<le> 16 \<Longrightarrow> ahead (src + n) (dst + n) len \<Longrightarrow>
   xor_rest ks src dst len n m = (n + len, store (dst + n) (xor_bytes (load m (src + n) len) (drop n ks)) m)"
proof (induction ks src dst len n m rule: xor_rest.induct)
  case (1 ks src dst len n m)
  show ?case
  proof (cases "len = 0")
    case True
    then show ?thesis by (simp add: xor_rest.simps [of ks src])
  next
    case False
    let ?A = "[m (src + n) XOR ks ! n]"
    have drop: "drop n ks = ks ! n # drop (Suc n) ks" using 1 False by (simp add: Cons_nth_drop_Suc)
    have load: "load m (src + n) len = m (src + n) # load m (src + n + 1) (len - 1)"
      using load_append [of m "src + n" 1 "len - 1"] False by (simp add: load_def)
    have "load (store (dst + n) ?A m) (src + n + 1) (len - 1) = load m (src + n + 1) (len - 1)"
      by (rule load_ahead) (use 1 False in simp_all)
    moreover have "ahead (src + (n + 1)) (dst + (n + 1)) (len - 1)"
      using ahead_mono [OF 1(4), of 1 "len - 1"] False by (simp add: add.assoc)
    ultimately show ?thesis
      using 1(1) [OF False 1(2)] 1(3) False store_append [of "dst + n" ?A]
      by (simp add: xor_rest.simps [of ks src] drop load xor_bytes_def add.assoc)
  qed
qed

text \<open>One byte of CTR, OFB and CFB: the array is renewed when its bytes are used up.\<close>

definition ctr_step :: "(bytes \<Rightarrow> bytes) \<Rightarrow> bytes \<times> bytes \<times> nat \<Rightarrow> u8 \<Rightarrow> u8 \<times> bytes \<times> bytes \<times> nat" where
  "ctr_step block st x =
     (case st of (ivec, ecount, n) \<Rightarrow>
        if n = 0 then (let ks = block ivec in (x XOR ks ! 0, ctr128_inc ivec, ks, 1))
        else (x XOR ecount ! n, ivec, ecount, (n + 1) mod 16))"

definition ofb_step :: "(bytes \<Rightarrow> bytes) \<Rightarrow> bytes \<times> nat \<Rightarrow> u8 \<Rightarrow> u8 \<times> bytes \<times> nat" where
  "ofb_step block st x =
     (case st of (ivec, n) \<Rightarrow> (let ks = (if n = 0 then block ivec else ivec) in (x XOR ks ! n, ks, (n + 1) mod 16)))"

definition cfb_step :: "bool \<Rightarrow> (bytes \<Rightarrow> bytes) \<Rightarrow> bytes \<times> nat \<Rightarrow> u8 \<Rightarrow> u8 \<times> bytes \<times> nat" where
  "cfb_step enc block st x =
     (case st of (ivec, n) \<Rightarrow>
        (let ks = (if n = 0 then block ivec else ivec); y = ks ! n XOR x
         in (y, ks[n := if enc then y else x], (n + 1) mod 16)))"

text \<open>The block function takes and gives 16 bytes.\<close>

definition block_ok :: "(bytes \<Rightarrow> bytes) \<Rightarrow> bool" where
  "block_ok block \<longleftrightarrow> (\<forall>b. length b = 16 \<longrightarrow> length (block b) = 16)"

lemma length_counter_inc [simp]: "length (counter_inc n c xs) = length xs"
  by (induction n arbitrary: c xs) (simp_all add: Let_def)

lemma length_ctr128_inc [simp]: "length (ctr128_inc xs) = length xs"
  by (simp add: ctr128_inc_def)

lemma ctr_uses: "length ecount = 16 \<Longrightarrow> uses (ctr_step block) ecount (\<lambda>n. (ivec, ecount, n))"
  by (simp add: uses_def ctr_step_def)

lemma ofb_uses: "length ivec = 16 \<Longrightarrow> uses (ofb_step block) ivec (\<lambda>n. (ivec, n))"
  by (simp add: uses_def ofb_step_def)

text \<open>A block or the rest of one by the machine.\<close>

lemma moved_xor:
  assumes "uses step ks f" and "\<And>x. step s x = (x XOR ks ! 0, f 1)" and "0 < k" and "k \<le> 16"
  shows "moved step src dst k (s, m) (f (k mod 16), store dst (xor_bytes (load m src k) ks) m)"
proof -
  have "load m src k \<noteq> []" using assms(3) length_load [of m src k] by (metis list.size(3) less_irrefl)
  from mealy_block [OF assms(1,2) this] show ?thesis using assms(4) by (simp add: moved_def)
qed

lemma ctr_blocks_moved:
  assumes "block_ok block" and "length ivec = 16" and "length ecount = 16" and "ahead src dst len" and "16 \<le> len \<longrightarrow> n = 0"
    and "ctr_blocks block src dst len ivec ecount n m = (src', dst', len', ivec', ecount', n', m')"
  shows "\<exists>k \<le> len. src' = src + k \<and> dst' = dst + k \<and> len' = len - k \<and> len' < 16 \<and> n' = n \<and> length ivec' = 16 \<and>
    length ecount' = 16 \<and> moved (ctr_step block) src dst k ((ivec, ecount, n), m) ((ivec', ecount', n'), m')"
  using assms
proof (induction block src dst len ivec ecount n m rule: ctr_blocks.induct)
  case (1 block src dst len ivec ecount n m)
  show ?case
  proof (cases "16 \<le> len")
    case True
    let ?ks = "block ivec"
    let ?m = "xor_block 0 src dst ?ks m"
    have n: "n = 0" and ks: "length ?ks = 16" using 1(2,3,6) True by (simp_all add: block_ok_def)
    have "uses (ctr_step block) ?ks (\<lambda>n. (ctr128_inc ivec, ?ks, n))" by (rule ctr_uses [OF ks])
    from moved_xor [OF this, of "(ivec, ecount, n)" 16 src dst m]
    have block: "moved (ctr_step block) src dst 16 ((ivec, ecount, n), m) ((ctr128_inc ivec, ?ks, 0), ?m)"
      unfolding xor_block_eq [OF ahead_less [OF 1(5) True] ks] n by (simp add: ctr_step_def Let_def)
    have rec: "ctr_blocks block (src + 16) (dst + 16) (len - 16) (ctr128_inc ivec) ?ks 0 ?m = (src', dst', len', ivec', ecount', n', m')"
      using 1(7) True by (simp add: ctr_blocks.simps [of block src] Let_def)
    have ahead: "ahead (src + 16) (dst + 16) (len - 16)" by (rule ahead_mono [OF 1(5)]) (use True in simp)
    obtain k where k: "k \<le> len - 16" "src' = src + 16 + k" "dst' = dst + 16 + k" "len' = len - 16 - k" "len' < 16" "n' = 0"
        "length ivec' = 16" "length ecount' = 16"
        "moved (ctr_step block) (src + 16) (dst + 16) k ((ctr128_inc ivec, ?ks, 0), ?m) ((ivec', ecount', n'), m')"
      using 1(1) [OF True refl refl 1(2) _ ks ahead _ rec] 1(3) by auto
    have "moved (ctr_step block) src dst (16 + k) ((ivec, ecount, n), m) ((ivec', ecount', n'), m')"
      by (rule moved_trans [OF block k(9) ahead_less [OF 1(5)]]) (use k True in linarith)
    then show ?thesis using k True n by (intro exI [of _ "16 + k"]) auto
  next
    case False
    then show ?thesis using 1 moved_0 by (intro exI [of _ 0]) (auto simp: ctr_blocks.simps [of block src])
  qed
qed

lemma ofb_blocks_moved:
  assumes "block_ok block" and "length ivec = 16" and "ahead src dst len" and "16 \<le> len \<longrightarrow> n = 0"
    and "ofb_blocks block src dst len ivec n m = (src', dst', len', ivec', n', m')"
  shows "\<exists>k \<le> len. src' = src + k \<and> dst' = dst + k \<and> len' = len - k \<and> len' < 16 \<and> n' = n \<and> length ivec' = 16 \<and>
    moved (ofb_step block) src dst k ((ivec, n), m) ((ivec', n'), m')"
  using assms
proof (induction block src dst len ivec n m rule: ofb_blocks.induct)
  case (1 block src dst len ivec n m)
  show ?case
  proof (cases "16 \<le> len")
    case True
    let ?ks = "block ivec"
    let ?m = "xor_block n src dst ?ks m"
    have n: "n = 0" and ks: "length ?ks = 16" using 1(2,3,5) True by (simp_all add: block_ok_def)
    have "uses (ofb_step block) ?ks (\<lambda>n. (?ks, n))" by (rule ofb_uses [OF ks])
    from moved_xor [OF this, of "(ivec, n)" 16 src dst m]
    have block: "moved (ofb_step block) src dst 16 ((ivec, n), m) ((?ks, 0), ?m)"
      unfolding n xor_block_eq [OF ahead_less [OF 1(4) True] ks] by (simp add: ofb_step_def Let_def)
    have rec: "ofb_blocks block (src + 16) (dst + 16) (len - 16) ?ks 0 ?m = (src', dst', len', ivec', n', m')"
      using 1(6) True by (simp add: ofb_blocks.simps [of block src] Let_def)
    have ahead: "ahead (src + 16) (dst + 16) (len - 16)" by (rule ahead_mono [OF 1(4)]) (use True in simp)
    obtain k where k: "k \<le> len - 16" "src' = src + 16 + k" "dst' = dst + 16 + k" "len' = len - 16 - k" "len' < 16" "n' = 0"
        "length ivec' = 16" "moved (ofb_step block) (src + 16) (dst + 16) k ((?ks, 0), ?m) ((ivec', n'), m')"
      using 1(1) [OF True refl refl 1(2) ks ahead _ rec] by auto
    have "moved (ofb_step block) src dst (16 + k) ((ivec, n), m) ((ivec', n'), m')"
      by (rule moved_trans [OF block k(8) ahead_less [OF 1(4)]]) (use k True in linarith)
    then show ?thesis using k True n by (intro exI [of _ "16 + k"]) auto
  next
    case False
    then show ?thesis using 1 moved_0 by (intro exI [of _ 0]) (auto simp: ofb_blocks.simps [of block src])
  qed
qed

lemma ctr_moved:
  assumes "block_ok block" and "length ivec = 16" and "length ecount = 16" and "n < 16" and "ahead src dst len"
  shows "moved (ctr_step block) src dst len ((ivec, ecount, n), m) (CRYPTO_ctr128_encrypt block src dst len (ivec, ecount, n) m)"
proof -
  obtain src1 dst1 len1 n1 m1 where p: "xor_pending ecount src dst len n m = (src1, dst1, len1, n1, m1)" by (metis prod_cases5)
  obtain k where k: "k \<le> len" "src1 = src + k" "dst1 = dst + k" "len1 = len - k" "n1 = 0 \<or> len1 = 0"
      "moved (ctr_step block) src dst k ((ivec, ecount, n), m) ((ivec, ecount, n1), m1)"
    using xor_pending_moved [OF ctr_uses [OF assms(3)] assms(5,4) p] by blast
  have ahead1: "ahead src1 dst1 len1" unfolding k(2,3) by (rule ahead_mono [OF assms(5)]) (use k in simp)
  have full: "16 \<le> len1 \<longrightarrow> n1 = 0" using k(5) by auto
  obtain src2 dst2 len2 ivec2 ecount2 n2 m2
    where b: "ctr_blocks block src1 dst1 len1 ivec ecount n1 m1 = (src2, dst2, len2, ivec2, ecount2, n2, m2)" by (metis prod_cases7)
  obtain j where j: "j \<le> len1" "src2 = src1 + j" "dst2 = dst1 + j" "len2 = len1 - j" "len2 < 16" "n2 = n1" "length ivec2 = 16"
      "length ecount2 = 16" "moved (ctr_step block) src1 dst1 j ((ivec, ecount, n1), m1) ((ivec2, ecount2, n2), m2)"
    using ctr_blocks_moved [OF assms(1,2,3) ahead1 full b] by blast
  have two: "moved (ctr_step block) src dst (k + j) ((ivec, ecount, n), m) ((ivec2, ecount2, n2), m2)"
    by (rule moved_trans [OF k(6) j(9) [unfolded k(2,3)] ahead_less [OF assms(5)]]) (use k j in linarith)
  show ?thesis
  proof (cases "len2 = 0")
    case True
    then have "k + j = len" using k j by linarith
    then show ?thesis using two True p b by (simp add: CRYPTO_ctr128_encrypt_def)
  next
    case False
    let ?ks = "block ivec2"
    have n2: "n2 = 0" using False j k by auto
    have ks: "length ?ks = 16" using assms(1) j(7) by (simp add: block_ok_def)
    have "moved (ctr_step block) src2 dst2 len2 ((ivec2, ecount2, n2), m2)
        ((ctr128_inc ivec2, ?ks, len2 mod 16), store dst2 (xor_bytes (load m2 src2 len2) ?ks) m2)"
      by (rule moved_xor [OF ctr_uses [OF ks]]) (use False j(5) n2 in \<open>simp_all add: ctr_step_def Let_def\<close>)
    moreover have "ahead src2 dst2 len2" unfolding j(2,3) by (rule ahead_mono [OF ahead1]) (use j in simp)
    then have "xor_rest ?ks src2 dst2 len2 n2 m2 = (len2, store dst2 (xor_bytes (load m2 src2 len2) ?ks) m2)"
      using xor_rest_eq [OF ks, of n2 len2 src2 dst2 m2] n2 j(5) by simp
    ultimately have last: "moved (ctr_step block) (src + (k + j)) (dst + (k + j)) len2 ((ivec2, ecount2, n2), m2)
        (CRYPTO_ctr128_encrypt block src dst len (ivec, ecount, n) m)"
      using False p b j k by (simp add: CRYPTO_ctr128_encrypt_def Let_def add.assoc)
    obtain st' m' where res: "CRYPTO_ctr128_encrypt block src dst len (ivec, ecount, n) m = (st', m')" by (rule prod.exhaust)
    have "k + j + len2 = len" using j k by linarith
    then show ?thesis using moved_trans [OF two last [unfolded res]] assms(5) res by simp
  qed
qed

lemma ofb_moved:
  assumes "block_ok block" and "length ivec = 16" and "n < 16" and "ahead src dst len"
  shows "moved (ofb_step block) src dst len ((ivec, n), m) (CRYPTO_ofb128_encrypt block src dst len (ivec, n) m)"
proof -
  obtain src1 dst1 len1 n1 m1 where p: "xor_pending ivec src dst len n m = (src1, dst1, len1, n1, m1)" by (metis prod_cases5)
  obtain k where k: "k \<le> len" "src1 = src + k" "dst1 = dst + k" "len1 = len - k" "n1 = 0 \<or> len1 = 0"
      "moved (ofb_step block) src dst k ((ivec, n), m) ((ivec, n1), m1)"
    using xor_pending_moved [OF ofb_uses [OF assms(2)] assms(4,3) p] by blast
  have ahead1: "ahead src1 dst1 len1" unfolding k(2,3) by (rule ahead_mono [OF assms(4)]) (use k in simp)
  have full: "16 \<le> len1 \<longrightarrow> n1 = 0" using k(5) by auto
  obtain src2 dst2 len2 ivec2 n2 m2
    where b: "ofb_blocks block src1 dst1 len1 ivec n1 m1 = (src2, dst2, len2, ivec2, n2, m2)" by (metis prod_cases6)
  obtain j where j: "j \<le> len1" "src2 = src1 + j" "dst2 = dst1 + j" "len2 = len1 - j" "len2 < 16" "n2 = n1" "length ivec2 = 16"
      "moved (ofb_step block) src1 dst1 j ((ivec, n1), m1) ((ivec2, n2), m2)"
    using ofb_blocks_moved [OF assms(1,2) ahead1 full b] by blast
  have two: "moved (ofb_step block) src dst (k + j) ((ivec, n), m) ((ivec2, n2), m2)"
    by (rule moved_trans [OF k(6) j(8) [unfolded k(2,3)] ahead_less [OF assms(4)]]) (use k j in linarith)
  show ?thesis
  proof (cases "len2 = 0")
    case True
    then have "k + j = len" using k j by linarith
    then show ?thesis using two True p b by (simp add: CRYPTO_ofb128_encrypt_def)
  next
    case False
    let ?ks = "block ivec2"
    have n2: "n2 = 0" using False j k by auto
    have ks: "length ?ks = 16" using assms(1) j(7) by (simp add: block_ok_def)
    have "moved (ofb_step block) src2 dst2 len2 ((ivec2, n2), m2)
        ((?ks, len2 mod 16), store dst2 (xor_bytes (load m2 src2 len2) ?ks) m2)"
      by (rule moved_xor [OF ofb_uses [OF ks]]) (use False j(5) n2 in \<open>simp_all add: ofb_step_def Let_def\<close>)
    moreover have "ahead src2 dst2 len2" unfolding j(2,3) by (rule ahead_mono [OF ahead1]) (use j in simp)
    then have "xor_rest ?ks src2 dst2 len2 n2 m2 = (len2, store dst2 (xor_bytes (load m2 src2 len2) ?ks) m2)"
      using xor_rest_eq [OF ks, of n2 len2 src2 dst2 m2] n2 j(5) by simp
    ultimately have last: "moved (ofb_step block) (src + (k + j)) (dst + (k + j)) len2 ((ivec2, n2), m2)
        (CRYPTO_ofb128_encrypt block src dst len (ivec, n) m)"
      using False p b j k by (simp add: CRYPTO_ofb128_encrypt_def Let_def add.assoc)
    obtain st' m' where res: "CRYPTO_ofb128_encrypt block src dst len (ivec, n) m = (st', m')" by (rule prod.exhaust)
    have "k + j + len2 = len" using j k by linarith
    then show ?thesis using moved_trans [OF two last [unfolded res]] assms(4) res by simp
  qed
qed

section \<open>CFB byte by byte\<close>

definition overwrite :: "nat \<Rightarrow> bytes \<Rightarrow> bytes \<Rightarrow> bytes" where
  "overwrite n zs xs = take n xs @ zs @ drop (n + length zs) xs"

lemma overwrite_Nil [simp]: "overwrite n [] xs = xs"
  by (simp add: overwrite_def)

lemma length_overwrite [simp]: "n + length zs \<le> length xs \<Longrightarrow> length (overwrite n zs xs) = length xs"
  by (simp add: overwrite_def)

lemma overwrite_Cons:
  assumes "n + length zs < length xs"
  shows "overwrite (Suc n) zs (xs[n := z]) = overwrite n (z # zs) xs"
  using assms by (simp add: overwrite_def take_Suc_conv_app_nth drop_update_swap)

lemma drop_head: "n < length xs \<Longrightarrow> drop n xs = xs ! n # drop (Suc n) xs"
  by (simp add: Cons_nth_drop_Suc)

lemma mealy_cfb:
  "length ivec = 16 \<Longrightarrow> 0 < n \<Longrightarrow> n + length xs \<le> 16 \<Longrightarrow>
   mealy (cfb_step enc block) (ivec, n) xs =
     (let ys = xor_bytes (drop n ivec) xs
      in (ys, overwrite n (if enc then ys else xs) ivec, if xs = [] then n else (n + length xs) mod 16))"
proof (induction xs arbitrary: n ivec)
  case (Cons x xs)
  let ?y = "ivec ! n XOR x"
  let ?ivec = "ivec[n := if enc then ?y else x]"
  have step: "cfb_step enc block (ivec, n) x = (?y, ?ivec, (n + 1) mod 16)" using Cons.prems by (simp add: cfb_step_def Let_def)
  show ?case
  proof (cases "xs = []")
    case True
    then show ?thesis
      using step Cons.prems overwrite_Cons [of n "[]" ivec "if enc then ?y else x"]
      by (simp add: xor_bytes_def drop_head [of n ivec] Let_def)
  next
    case False
    then have mod: "Suc n mod 16 = Suc n" using Cons.prems by (cases xs) auto
    have rest: "xor_bytes (drop n ivec) (x # xs) = ?y # xor_bytes (drop (Suc n) ?ivec) xs"
      using Cons.prems by (simp add: xor_bytes_def drop_head [of n ivec])
    show ?thesis
      using Cons.IH [of ?ivec "Suc n"] Cons.prems False step
        overwrite_Cons [of n "if enc then xor_bytes (drop (Suc n) ?ivec) xs else xs" ivec "if enc then ?y else x"]
      by (simp add: Let_def rest mod del: drop_update_cancel)
  qed
qed (simp add: Let_def)

lemma mealy_cfb_block:
  assumes "length (block ivec) = 16" and "xs \<noteq> []" and "length xs \<le> 16"
  shows "mealy (cfb_step enc block) (ivec, 0) xs =
    (let ys = xor_bytes (block ivec) xs in (ys, overwrite 0 (if enc then ys else xs) (block ivec), length xs mod 16))"
proof -
  obtain y ys where xs: "xs = y # ys" using assms(2) by (cases xs) auto
  obtain k ks where ks: "block ivec = k # ks" using assms(1) by (cases "block ivec") auto
  let ?z = "if enc then k XOR y else y"
  have "cfb_step enc block (ivec, 0) y = (k XOR y, ?z # ks, 1)" by (simp add: cfb_step_def ks Let_def)
  moreover have "length (?z # ks) = 16" using assms(1) ks by simp
  ultimately show ?thesis
    using mealy_cfb [of "?z # ks" 1 ys enc block] assms(3) by (simp add: xs ks xor_bytes_def overwrite_def Let_def)
qed

lemma cfb_pending_moved:
  assumes "length ivec = 16" and "ahead src dst len" and "n < 16"
    and "cfb_pending enc ivec src dst len n m = (src', dst', len', ivec', n', m')"
  shows "\<exists>k \<le> len. src' = src + k \<and> dst' = dst + k \<and> len' = len - k \<and> n' < 16 \<and> (n' = 0 \<or> len' = 0) \<and> length ivec' = 16 \<and>
    moved (cfb_step enc block) src dst k ((ivec, n), m) ((ivec', n'), m')"
  using assms
proof (induction enc ivec src dst len n m rule: cfb_pending.induct)
  case (1 enc ivec src dst len n m)
  show ?case
  proof (cases "n \<noteq> 0 \<and> len \<noteq> 0")
    case True
    let ?y = "ivec ! n XOR m src"
    let ?ivec = "ivec[n := if enc then ?y else m src]" and ?n = "(n + 1) mod 16" and ?m = "store dst [?y] m"
    have step: "moved (cfb_step enc block) src dst 1 ((ivec, n), m) ((?ivec, ?n), ?m)"
      by (rule moved_1) (use True in \<open>simp add: cfb_step_def Let_def\<close>)
    have rec: "cfb_pending enc ?ivec (src + 1) (dst + 1) (len - 1) ?n ?m = (src', dst', len', ivec', n', m')"
      using 1(5) True by (simp add: cfb_pending.simps [of enc ivec] Let_def)
    have ahead: "ahead (src + 1) (dst + 1) (len - 1)" by (rule ahead_mono [OF 1(3)]) (use True in simp)
    have len: "length ?ivec = 16" using 1(2) by simp
    obtain k where k: "k \<le> len - 1" "src' = src + 1 + k" "dst' = dst + 1 + k" "len' = len - 1 - k" "n' < 16" "n' = 0 \<or> len' = 0"
        "length ivec' = 16" "moved (cfb_step enc block) (src + 1) (dst + 1) k ((?ivec, ?n), ?m) ((ivec', n'), m')"
      using 1(1) [OF True refl refl len ahead _ rec] by auto
    have "moved (cfb_step enc block) src dst (1 + k) ((ivec, n), m) ((ivec', n'), m')"
      by (rule moved_trans [OF step k(8) ahead_less [OF 1(3)]]) (use k True in linarith)
    then show ?thesis using k True by (intro exI [of _ "1 + k"]) auto
  next
    case False
    then show ?thesis using 1 moved_0 by (intro exI [of _ 0]) (auto simp: cfb_pending.simps [of enc ivec])
  qed
qed

lemma cfb_block_eq:
  assumes "ahead src dst 16" and "length ks = 16"
  shows "cfb_block enc 0 src dst ks m =
    (let ys = xor_bytes ks (load m src 16) in (if enc then ys else load m src 16, store dst ys m))"
proof -
  let ?x1 = "load m src 8" and ?x2 = "load m (src + 8) 8"
  let ?y1 = "xor_bytes (take 8 ks) ?x1" and ?y2 = "xor_bytes (drop 8 ks) ?x2"
  have len: "length ?y1 = 8" using assms(2) by simp
  have w1: "le_bytes 8 (array_word ks 0) = take 8 ks" using assms(2) by (simp add: le_bytes_array_word)
  have w2: "le_bytes 8 (array_word (zs @ drop 8 ks) 8) = drop 8 ks" if "length zs = 8" for zs
    using assms(2) that by (simp add: le_bytes_array_word)
  have "cfb_block enc 0 src dst ks m = ((if enc then ?y1 else ?x1) @ (if enc then ?y2 else ?x2), store (dst + 8) ?y2 (store dst ?y1 m))"
    using load_ahead [of src dst 8 8 ?y1 m] len assms w1 w2
    by (simp add: cfb_block_def Let_def array_put_word_def store_word_le_def le_bytes_xor le_bytes_load_word_le
        if_distrib [of "le_bytes 8"] if_distrib [of "\<lambda>x. x @ _"])
  moreover have "?y1 @ ?y2 = xor_bytes ks (load m src 16)"
    using xor_bytes_append [of "take 8 ks" ?x1 "drop 8 ks" ?x2] assms(2) by (simp add: load_halves)
  ultimately show ?thesis using store_halves [OF len] by (simp add: load_halves Let_def)
qed

lemma cfb_rest_eq:
  "length ivec = 16 \<Longrightarrow> n + len \<le> 16 \<Longrightarrow> ahead (src + n) (dst + n) len \<Longrightarrow>
   cfb_rest enc ivec src dst len n m =
     (let xs = load m (src + n) len; ys = xor_bytes (drop n ivec) xs
      in (overwrite n (if enc then ys else xs) ivec, n + len, store (dst + n) ys m))"
proof (induction enc ivec src dst len n m rule: cfb_rest.induct)
  case (1 enc ivec src dst len n m)
  show ?case
  proof (cases "len = 0")
    case True
    then show ?thesis by (simp add: cfb_rest.simps [of enc ivec] Let_def)
  next
    case False
    let ?y = "ivec ! n XOR m (src + n)"
    let ?z = "if enc then ?y else m (src + n)"
    let ?xs = "load m (src + Suc n) (len - 1)"
    have load: "load m (src + n) len = m (src + n) # ?xs"
      using load_append [of m "src + n" 1 "len - 1"] False by (simp add: load_def)
    have same: "load (store (dst + n) [?y] m) (src + Suc n) (len - 1) = ?xs"
      using load_ahead [of "src + n" "dst + n" 1 "len - 1" "[?y]" m] 1 False by simp
    have "ahead (src + (n + 1)) (dst + (n + 1)) (len - 1)"
      using ahead_mono [OF 1(4), of 1 "len - 1"] False by (simp add: add.assoc)
    moreover have "cfb_rest enc ivec src dst len n m = cfb_rest enc (ivec[n := ?z]) src dst (len - 1) (n + 1) (store (dst + n) [?y] m)"
      using False by (simp add: cfb_rest.simps [of enc ivec] Let_def)
    ultimately have step: "cfb_rest enc ivec src dst len n m =
        (let ys = xor_bytes (drop (Suc n) (ivec[n := ?z])) ?xs
         in (overwrite (Suc n) (if enc then ys else ?xs) (ivec[n := ?z]), n + len, store (dst + Suc n) ys (store (dst + n) [?y] m)))"
      using 1(1) [OF False refl refl] 1(2,3) False same by (simp add: Let_def)
    have all: "xor_bytes (drop n ivec) (load m (src + n) len) = ?y # xor_bytes (drop (Suc n) (ivec[n := ?z])) ?xs"
      using 1(2,3) False by (simp add: load xor_bytes_def drop_head [of n ivec])
    let ?YS = "xor_bytes (drop (Suc n) (ivec[n := ?z])) ?xs"
    have len: "n + length (if enc then ?YS else ?xs) < length ivec" using 1(2,3) False by simp
    have "overwrite (Suc n) (if enc then ?YS else ?xs) (ivec[n := ?z]) =
        overwrite n (if enc then ?y # ?YS else load m (src + n) len) ivec"
      unfolding overwrite_Cons [OF len] load by simp
    moreover have "store (dst + Suc n) ?YS (store (dst + n) [?y] m) = store (dst + n) (?y # ?YS) m"
      using store_append [of "dst + n" "[?y]" ?YS m] by simp
    ultimately show ?thesis unfolding step Let_def all by simp
  qed
qed

lemma moved_cfb:
  assumes "block_ok block" and "length ivec = 16" and "0 < k" and "k \<le> 16"
  shows "moved (cfb_step enc block) src dst k ((ivec, 0), m)
    (let ys = xor_bytes (block ivec) (load m src k)
     in ((overwrite 0 (if enc then ys else load m src k) (block ivec), k mod 16), store dst ys m))"
proof -
  have "load m src k \<noteq> []" using assms(3) length_load [of m src k] by (metis list.size(3) less_irrefl)
  moreover have "length (block ivec) = 16" using assms(1,2) by (simp add: block_ok_def)
  ultimately show ?thesis using mealy_cfb_block [of block ivec "load m src k" enc] assms(4) by (simp add: moved_def Let_def)
qed

lemma cfb_blocks_moved:
  assumes "block_ok block" and "length ivec = 16" and "ahead src dst len" and "16 \<le> len \<longrightarrow> n = 0"
    and "cfb_blocks enc block src dst len ivec n m = (src', dst', len', ivec', n', m')"
  shows "\<exists>k \<le> len. src' = src + k \<and> dst' = dst + k \<and> len' = len - k \<and> len' < 16 \<and> n' = n \<and> length ivec' = 16 \<and>
    moved (cfb_step enc block) src dst k ((ivec, n), m) ((ivec', n'), m')"
  using assms
proof (induction enc block src dst len ivec n m rule: cfb_blocks.induct)
  case (1 enc block src dst len ivec n m)
  show ?case
  proof (cases "16 \<le> len")
    case True
    let ?xs = "load m src 16"
    let ?ys = "xor_bytes (block ivec) ?xs"
    let ?ivec = "if enc then ?ys else ?xs" and ?m = "store dst ?ys m"
    have n: "n = 0" and ks: "length (block ivec) = 16" using 1(2,3,5) True by (simp_all add: block_ok_def)
    have ivec: "length ?ivec = 16" using ks by simp
    have blk: "cfb_block enc n src dst (block ivec) m = (?ivec, ?m)"
      unfolding n cfb_block_eq [OF ahead_less [OF 1(4) True] ks] by (simp add: Let_def)
    have block: "moved (cfb_step enc block) src dst 16 ((ivec, n), m) ((?ivec, 0), ?m)"
      using moved_cfb [OF 1(2,3), of 16 enc src dst m] ks n by (simp add: Let_def overwrite_def if_distrib [of length])
    have rec: "cfb_blocks enc block (src + 16) (dst + 16) (len - 16) ?ivec 0 ?m = (src', dst', len', ivec', n', m')"
      using 1(6) True blk by (simp add: cfb_blocks.simps [of enc block src])
    have ahead: "ahead (src + 16) (dst + 16) (len - 16)" by (rule ahead_mono [OF 1(4)]) (use True in simp)
    obtain k where k: "k \<le> len - 16" "src' = src + 16 + k" "dst' = dst + 16 + k" "len' = len - 16 - k" "len' < 16" "n' = 0"
        "length ivec' = 16" "moved (cfb_step enc block) (src + 16) (dst + 16) k ((?ivec, 0), ?m) ((ivec', n'), m')"
      using 1(1) [OF True blk [symmetric] 1(2) ivec ahead _ rec] by auto
    have "moved (cfb_step enc block) src dst (16 + k) ((ivec, n), m) ((ivec', n'), m')"
      by (rule moved_trans [OF block k(8) ahead_less [OF 1(4)]]) (use k True in linarith)
    then show ?thesis using k True n by (intro exI [of _ "16 + k"]) auto
  next
    case False
    then show ?thesis using 1 moved_0 by (intro exI [of _ 0]) (auto simp: cfb_blocks.simps [of enc block src])
  qed
qed

lemma cfb_moved:
  assumes "block_ok block" and "length ivec = 16" and "n < 16" and "ahead src dst len"
  shows "moved (cfb_step enc block) src dst len ((ivec, n), m) (CRYPTO_cfb128_encrypt enc block src dst len (ivec, n) m)"
proof -
  obtain src1 dst1 len1 ivec1 n1 m1
    where p: "cfb_pending enc ivec src dst len n m = (src1, dst1, len1, ivec1, n1, m1)" by (metis prod_cases6)
  obtain k where k: "k \<le> len" "src1 = src + k" "dst1 = dst + k" "len1 = len - k" "n1 = 0 \<or> len1 = 0" "length ivec1 = 16"
      "moved (cfb_step enc block) src dst k ((ivec, n), m) ((ivec1, n1), m1)"
    using cfb_pending_moved [OF assms(2,4,3) p] by blast
  have ahead1: "ahead src1 dst1 len1" unfolding k(2,3) by (rule ahead_mono [OF assms(4)]) (use k in simp)
  have full: "16 \<le> len1 \<longrightarrow> n1 = 0" using k(5) by auto
  obtain src2 dst2 len2 ivec2 n2 m2
    where b: "cfb_blocks enc block src1 dst1 len1 ivec1 n1 m1 = (src2, dst2, len2, ivec2, n2, m2)" by (metis prod_cases6)
  obtain j where j: "j \<le> len1" "src2 = src1 + j" "dst2 = dst1 + j" "len2 = len1 - j" "len2 < 16" "n2 = n1" "length ivec2 = 16"
      "moved (cfb_step enc block) src1 dst1 j ((ivec1, n1), m1) ((ivec2, n2), m2)"
    using cfb_blocks_moved [OF assms(1) k(6) ahead1 full b] by blast
  have two: "moved (cfb_step enc block) src dst (k + j) ((ivec, n), m) ((ivec2, n2), m2)"
    by (rule moved_trans [OF k(7) j(8) [unfolded k(2,3)] ahead_less [OF assms(4)]]) (use k j in linarith)
  show ?thesis
  proof (cases "len2 = 0")
    case True
    then have "k + j = len" using k j by linarith
    then show ?thesis using two True p b by (simp add: CRYPTO_cfb128_encrypt_def)
  next
    case False
    have n2: "n2 = 0" using False j k by auto
    have ks: "length (block ivec2) = 16" using assms(1) j(7) by (simp add: block_ok_def)
    have ahead2: "ahead (src2 + 0) (dst2 + 0) len2" unfolding j(2,3) using ahead_mono [OF ahead1, of j] j by simp
    have "CRYPTO_cfb128_encrypt enc block src dst len (ivec, n) m =
        (let ys = xor_bytes (block ivec2) (load m2 src2 len2)
         in ((overwrite 0 (if enc then ys else load m2 src2 len2) (block ivec2), len2 mod 16), store dst2 ys m2))"
      using cfb_rest_eq [OF ks _ ahead2, of enc m2] False p b j(5) n2 by (simp add: CRYPTO_cfb128_encrypt_def Let_def)
    then have "moved (cfb_step enc block) src2 dst2 len2 ((ivec2, n2), m2) (CRYPTO_cfb128_encrypt enc block src dst len (ivec, n) m)"
      using moved_cfb [OF assms(1) j(7), of len2 enc src2 dst2 m2] False j(5) n2 by simp
    then have last: "moved (cfb_step enc block) (src + (k + j)) (dst + (k + j)) len2 ((ivec2, n2), m2)
        (CRYPTO_cfb128_encrypt enc block src dst len (ivec, n) m)"
      unfolding j(2,3) k(2,3) by (simp only: add.assoc)
    obtain st' m' where res: "CRYPTO_cfb128_encrypt enc block src dst len (ivec, n) m = (st', m')" by (rule prod.exhaust)
    have "k + j + len2 = len" using j k by linarith
    then show ?thesis using moved_trans [OF two last [unfolded res]] assms(4) res by simp
  qed
qed

section \<open>Properties of the stream modes\<close>

lemma moved_eq: "moved step src dst k (st, m) after \<longleftrightarrow>
    after = (snd (mealy step st (load m src k)), store dst (fst (mealy step st (load m src k))) m)"
  by (cases "mealy step st (load m src k)") (simp add: moved_def)

text \<open>
  C37: CTR, OFB and CFB, with their whole words and blocks and the bytes before and behind them,
  read, write and keep exactly what the byte by byte machines do, on input and output that are
  the same, apart, or overlap with the input ahead.
\<close>

theorem stream_modes_bytewise:
  assumes "block_ok block" and "length ivec = 16" and "length ecount = 16" and "n < 16" and "ahead src dst len"
  shows "CRYPTO_ctr128_encrypt block src dst len (ivec, ecount, n) m =
      (case mealy (ctr_step block) (ivec, ecount, n) (load m src len) of (out, st) \<Rightarrow> (st, store dst out m)) \<and>
    CRYPTO_ofb128_encrypt block src dst len (ivec, n) m =
      (case mealy (ofb_step block) (ivec, n) (load m src len) of (out, st) \<Rightarrow> (st, store dst out m)) \<and>
    CRYPTO_cfb128_encrypt enc block src dst len (ivec, n) m =
      (case mealy (cfb_step enc block) (ivec, n) (load m src len) of (out, st) \<Rightarrow> (st, store dst out m))"
  using ctr_moved [OF assms, of m] ofb_moved [OF assms(1,2,4,5), of m] cfb_moved [OF assms(1,2,4,5), of enc m]
  unfolding moved_eq by (auto split: prod.split)

text \<open>A machine that undoes another, and working on the spot in two pieces.\<close>

definition undoes :: "('s \<Rightarrow> u8 \<Rightarrow> u8 \<times> 's) \<Rightarrow> ('s \<Rightarrow> u8 \<Rightarrow> u8 \<times> 's) \<Rightarrow> bool" where
  "undoes dec enc \<longleftrightarrow> (\<forall>st x. dec st (fst (enc st x)) = (x, snd (enc st x)))"

lemma mealy_undoes: "undoes dec enc \<Longrightarrow> mealy dec st (fst (mealy enc st xs)) = (xs, snd (mealy enc st xs))"
proof (induction xs arbitrary: st)
  case (Cons x xs)
  obtain y st' where y: "enc st x = (y, st')" by (rule prod.exhaust)
  obtain ys st2 where ys: "mealy enc st' xs = (ys, st2)" by (rule prod.exhaust)
  have "dec st y = (x, st')" using Cons.prems y unfolding undoes_def by (metis fst_conv snd_conv)
  then show ?case using Cons.IH [OF Cons.prems, of st'] y ys by simp
qed simp

lemma ctr_undoes: "undoes (ctr_step block) (ctr_step block)"
  by (auto simp: undoes_def ctr_step_def Let_def xor.assoc split: prod.split)

lemma ofb_undoes: "undoes (ofb_step block) (ofb_step block)"
  by (auto simp: undoes_def ofb_step_def Let_def xor.assoc split: prod.split)

lemma cfb_undoes: "undoes (cfb_step False block) (cfb_step True block)"
  by (auto simp: undoes_def cfb_step_def Let_def xor.assoc [symmetric] split: prod.split)

lemma ahead_same [simp]: "ahead a a n"
  by (simp add: ahead_def)

lemma store_load: "store a (load m a n) m = m"
  by (rule ext) (auto simp: store_def load_def)

lemma moved_back:
  assumes "undoes dec enc" and "moved enc a a k (st, m) (st1, m1)" and "moved enc (a + k) (a + k) j (st1, m1) (st2, m2)"
    and "moved dec a a (k + j) (st, m2) after"
  shows "after = (st2, m)"
proof -
  let ?xs = "load m a (k + j)"
  have whole: "st2 = snd (mealy enc st ?xs)" "m2 = store a (fst (mealy enc st ?xs)) m"
    using moved_trans [OF assms(2,3)] unfolding moved_eq by simp_all
  have "load m2 a (k + j) = fst (mealy enc st ?xs)" unfolding whole(2) using load_store_take [of "k + j" "fst (mealy enc st ?xs)" a m] by simp
  then have "after = (st2, store a ?xs m2)" using assms(4) mealy_undoes [OF assms(1), of st ?xs] whole(1) unfolding moved_eq by simp
  moreover have "store a ?xs m2 = store a ?xs m" unfolding whole(2) by (rule ext) (simp add: store_def)
  ultimately show ?thesis by (simp add: store_load)
qed

lemma mealy_keeps: "(\<And>s x. P s \<Longrightarrow> P (snd (step s x))) \<Longrightarrow> P s \<Longrightarrow> P (snd (mealy step s xs))"
proof (induction xs arbitrary: s)
  case (Cons x xs)
  obtain y s' where y: "step s x = (y, s')" by (rule prod.exhaust)
  obtain ys s'' where ys: "mealy step s' xs = (ys, s'')" by (rule prod.exhaust)
  have "P s'" using Cons.prems(1) [OF Cons.prems(2), of x] y by simp
  then show ?case using Cons.IH [OF Cons.prems(1), of s'] y ys by simp
qed simp

definition ctr_ok :: "bytes \<times> bytes \<times> nat \<Rightarrow> bool" where
  "ctr_ok st \<longleftrightarrow> length (fst st) = 16 \<and> length (fst (snd st)) = 16 \<and> snd (snd st) < 16"

definition cfb_ok :: "bytes \<times> nat \<Rightarrow> bool" where
  "cfb_ok st \<longleftrightarrow> length (fst st) = 16 \<and> snd st < 16"

lemma ctr_step_ok: "block_ok block \<Longrightarrow> ctr_ok s \<Longrightarrow> ctr_ok (snd (ctr_step block s x))"
  by (cases s) (simp add: ctr_ok_def ctr_step_def block_ok_def Let_def)

lemma cfb_step_ok: "block_ok block \<Longrightarrow> cfb_ok s \<Longrightarrow> cfb_ok (snd (cfb_step enc block s x))"
  by (cases s) (simp add: cfb_ok_def cfb_step_def block_ok_def Let_def)

text \<open>
  C38: Data encrypted on the spot in two pieces, cut at any place, is decrypted by one call
  from the first state, in CTR as in CFB, and the decryption ends in the state in which the
  encryption ended.
\<close>

theorem stream_modes_round_trip:
  assumes "block_ok block" and "length ivec = 16" and "length ecount = 16" and "n < 16"
  shows "(case CRYPTO_ctr128_encrypt block a a k (ivec, ecount, n) m of (st1, m1) \<Rightarrow>
      (case CRYPTO_ctr128_encrypt block (a + k) (a + k) j st1 m1 of (st2, m2) \<Rightarrow>
         CRYPTO_ctr128_encrypt block a a (k + j) (ivec, ecount, n) m2 = (st2, m))) \<and>
    (case CRYPTO_cfb128_encrypt True block a a k (ivec, n) m of (st1, m1) \<Rightarrow>
      (case CRYPTO_cfb128_encrypt True block (a + k) (a + k) j st1 m1 of (st2, m2) \<Rightarrow>
         CRYPTO_cfb128_encrypt False block a a (k + j) (ivec, n) m2 = (st2, m)))"
proof
  obtain ivec1 ecount1 n1 m1 where one: "CRYPTO_ctr128_encrypt block a a k (ivec, ecount, n) m = ((ivec1, ecount1, n1), m1)"
    by (metis prod_cases3 surj_pair)
  obtain st2 m2 where two: "CRYPTO_ctr128_encrypt block (a + k) (a + k) j (ivec1, ecount1, n1) m1 = (st2, m2)" by (rule prod.exhaust)
  note first = ctr_moved [OF assms ahead_same, of a k m, unfolded one]
  have st: "snd (mealy (ctr_step block) (ivec, ecount, n) (load m a k)) = (ivec1, ecount1, n1)"
    using first unfolding moved_eq by auto
  have "length ivec1 = 16 \<and> length ecount1 = 16 \<and> n1 < 16"
    using mealy_keeps [of ctr_ok "ctr_step block", OF ctr_step_ok [OF assms(1)], of "(ivec, ecount, n)" "load m a k"] assms
    unfolding st by (simp add: ctr_ok_def)
  then have "moved (ctr_step block) (a + k) (a + k) j ((ivec1, ecount1, n1), m1) (st2, m2)"
    using ctr_moved [OF assms(1) _ _ _ ahead_same] two by metis
  from moved_back [OF ctr_undoes first this ctr_moved [OF assms ahead_same]]
  show "case CRYPTO_ctr128_encrypt block a a k (ivec, ecount, n) m of (st1, m1) \<Rightarrow>
      (case CRYPTO_ctr128_encrypt block (a + k) (a + k) j st1 m1 of (st2, m2) \<Rightarrow>
         CRYPTO_ctr128_encrypt block a a (k + j) (ivec, ecount, n) m2 = (st2, m))"
    unfolding one using two by simp
next
  obtain ivec1 n1 m1 where one: "CRYPTO_cfb128_encrypt True block a a k (ivec, n) m = ((ivec1, n1), m1)"
    by (metis surj_pair)
  obtain st2 m2 where two: "CRYPTO_cfb128_encrypt True block (a + k) (a + k) j (ivec1, n1) m1 = (st2, m2)" by (rule prod.exhaust)
  note first = cfb_moved [OF assms(1,2,4) ahead_same, of True a k m, unfolded one]
  have st: "snd (mealy (cfb_step True block) (ivec, n) (load m a k)) = (ivec1, n1)"
    using first unfolding moved_eq by auto
  have "length ivec1 = 16 \<and> n1 < 16"
    using mealy_keeps [of cfb_ok "cfb_step True block", OF cfb_step_ok [OF assms(1)], of "(ivec, n)" "load m a k"] assms
    unfolding st by (simp add: cfb_ok_def)
  then have "moved (cfb_step True block) (a + k) (a + k) j ((ivec1, n1), m1) (st2, m2)"
    using cfb_moved [OF assms(1) _ _ ahead_same] two by metis
  from moved_back [OF cfb_undoes first this cfb_moved [OF assms(1,2,4) ahead_same]]
  show "case CRYPTO_cfb128_encrypt True block a a k (ivec, n) m of (st1, m1) \<Rightarrow>
      (case CRYPTO_cfb128_encrypt True block (a + k) (a + k) j st1 m1 of (st2, m2) \<Rightarrow>
         CRYPTO_cfb128_encrypt False block a a (k + j) (ivec, n) m2 = (st2, m))"
    unfolding one using two by simp
qed

section \<open>The counter\<close>

lemma be_nat_append: "be_nat (xs @ ys) = be_nat xs * 256 ^ length ys + be_nat ys"
  by (simp add: be_nat_def le_nat_append)

lemma counter_inc_value:
  "n \<le> length xs \<Longrightarrow> unat c \<le> 1 \<Longrightarrow>
   be_nat (take n (counter_inc n c xs)) = (be_nat (take n xs) + unat c) mod 256 ^ n \<and> drop n (counter_inc n c xs) = drop n xs"
proof (induction n arbitrary: c xs)
  case (Suc n)
  let ?c = "c + ucast (xs ! n)"
  let ?xs = "xs[n := ucast ?c]"
  let ?r = "counter_inc n (drop_bit 8 ?c) ?xs"
  let ?B = "be_nat (take n xs)"
  have "unat (ucast (xs ! n) :: u32) = unat (xs ! n)" by (simp add: unat_ucast_up)
  moreover have byte: "unat (xs ! n) < 256" using unsigned_less [of "xs ! n", where ?'a = nat] by simp
  then have "unat c + unat (xs ! n) < 4294967296" using Suc.prems(2) by linarith
  ultimately have c: "unat ?c = unat c + unat (xs ! n)" using mod_less by (simp add: unat_word_ariths)
  have carry: "unat (drop_bit 8 ?c) = unat ?c div 256" by (simp add: word_nat)
  have "unat ?c < 2 * 256" using c Suc.prems(2) byte by linarith
  then have "unat ?c div 256 \<le> 1" using less_mult_imp_div_less [of "unat ?c" 2 256] by linarith
  then have IH: "be_nat (take n ?r) = (?B + unat ?c div 256) mod 256 ^ n" "drop n ?r = drop n ?xs"
    using Suc.IH [of ?xs "drop_bit 8 ?c"] Suc.prems(1) carry by simp_all
  have len: "length ?r = length xs" by simp
  then have last: "?r ! n = ucast ?c"
    using IH(2) Suc.prems(1) by (metis Cons_nth_drop_Suc Suc_le_eq length_list_update list.inject nth_list_update_eq)
  have "take (Suc n) ?r = take n ?r @ [ucast ?c]" using Suc.prems(1) last len by (simp add: take_Suc_conv_app_nth)
  then have "be_nat (take (Suc n) ?r) = 256 * ((?B + unat ?c div 256) mod 256 ^ n) + unat ?c mod 256"
    using IH(1) by (simp add: be_nat_snoc word_nat)
  also have "\<dots> = (256 * ?B + unat ?c) mod 256 ^ Suc n"
    using mod_mult2_eq [of "256 * ?B + unat ?c" 256 "256 ^ n"] by simp
  also have "256 * ?B + unat ?c = be_nat (take (Suc n) xs) + unat c"
    using Suc.prems(1) c by (simp add: take_Suc_conv_app_nth be_nat_snoc)
  finally have "be_nat (take (Suc n) ?r) = (be_nat (take (Suc n) xs) + unat c) mod 256 ^ Suc n" .
  moreover have "drop (Suc n) ?r = drop (Suc n) xs"
    using IH(2) by (metis drop_Suc drop_tl drop_update_cancel lessI tl_drop)
  ultimately show ?case by (simp add: Let_def)
qed (simp add: take_bit_eq_mod)

lemma length_PUTU32 [simp]: "n + 4 \<le> length xs \<Longrightarrow> length (PUTU32 n v xs) = length xs"
  by (simp add: PUTU32_def)

lemma GETU32_PUTU32 [simp]: "length xs = 16 \<Longrightarrow> GETU32 (PUTU32 12 v xs) 12 = v"
  using unsigned_less [of v, where ?'a = nat] by (simp add: GETU32_def PUTU32_def be_word_be_bytes)

lemma PUTU32_twice [simp]: "length xs = 16 \<Longrightarrow> PUTU32 12 v (PUTU32 12 w xs) = PUTU32 12 v xs"
  by (simp add: PUTU32_def)

lemma PUTU32_GETU32: "length xs = 16 \<Longrightarrow> PUTU32 12 (GETU32 xs 12) xs = xs"
  by (simp add: PUTU32_def GETU32_def be_bytes_be_word take_add [symmetric])

lemma counter_split:
  assumes "length iv = 16"
  shows "be_nat iv = be_nat (take 12 iv) * 2 ^ 32 + unat (GETU32 iv 12)"
proof -
  have "unat (GETU32 iv 12) = be_nat (drop 12 iv)"
    using assms by (simp add: GETU32_def unat_be_word)
  then show ?thesis using be_nat_append [of "take 12 iv" "drop 12 iv"] assms by simp
qed

text \<open>Counting in the low 32 bits, and carrying into the others on overflow.\<close>

lemma ctr128_inc_32:
  assumes iv: "length iv = 16"
  shows "ctr128_inc iv =
    (let ctr32 = GETU32 iv 12 + 1; iv' = PUTU32 12 ctr32 iv in if ctr32 = 0 then ctr96_inc iv' else iv')"
proof -
  let ?H = "be_nat (take 12 iv)" and ?lo = "GETU32 iv 12"
  let ?iv = "PUTU32 12 (?lo + 1) iv"
  have value128: "be_nat (ctr128_inc iv) = (?H * 2 ^ 32 + unat ?lo + 1) mod 2 ^ 128"
    using counter_inc_value [of 16 iv 1] iv counter_split [OF iv] by (simp add: ctr128_inc_def)
  have H: "?H < 2 ^ 96" using be_nat_less [of "take 12 iv"] iv by simp
  have len: "length ?iv = 16" using iv by simp
  have head: "take 12 ?iv = take 12 iv" using iv by (simp add: PUTU32_def)
  show ?thesis
  proof (cases "?lo + 1 = 0")
    case True
    then have zero: "(unat ?lo + 1) mod 2 ^ 32 = 0" using unat_word_ariths(1) [of ?lo 1] by simp
    have "unat ?lo = 2 ^ 32 - 1"
    proof (rule ccontr)
      assume "unat ?lo \<noteq> 2 ^ 32 - 1"
      then have "unat ?lo + 1 < 2 ^ 32" using unsigned_less [of ?lo, where ?'a = nat] by simp
      from mod_less [OF this] zero show False by linarith
    qed
    moreover have "be_nat (ctr96_inc ?iv) = ((?H + 1) mod 2 ^ 96) * 2 ^ 32"
      using counter_inc_value [of 12 ?iv 1] counter_split [of "ctr96_inc ?iv"] len head iv True
      by (simp add: ctr96_inc_def GETU32_def PUTU32_def be_word_be_bytes)
    ultimately have "be_nat (ctr128_inc iv) = be_nat (ctr96_inc ?iv)"
      unfolding value128 using mult_mod_left [of "?H + 1" "2 ^ 96" "2 ^ 32 :: nat"] by simp
    then show ?thesis using True len iv by (simp add: Let_def be_nat_inj ctr96_inc_def)
  next
    case False
    have sum: "unat (?lo + 1) = (unat ?lo + 1) mod 2 ^ 32" using unat_word_ariths(1) [of ?lo 1] by simp
    have small: "unat ?lo + 1 < 2 ^ 32"
    proof (rule ccontr)
      assume "\<not> unat ?lo + 1 < 2 ^ 32"
      moreover have "unat ?lo < 2 ^ 32" using unsigned_less [of ?lo, where ?'a = nat] by simp
      ultimately have "unat ?lo + 1 = 2 ^ 32" by linarith
      then have "unat (?lo + 1) = 0" unfolding sum by simp
      then show False using False by (simp add: unat_eq_0)
    qed
    have "?H * 2 ^ 32 + unat ?lo + 1 < 2 ^ 128" using H small by simp
    moreover have "unat (?lo + 1) = unat ?lo + 1" unfolding sum by (rule mod_less [OF small])
    ultimately have "be_nat (ctr128_inc iv) = be_nat ?iv"
      unfolding value128 counter_split [OF len] head GETU32_PUTU32 [OF iv] by (simp only: mod_less add.assoc)
    then show ?thesis using False len iv by (simp add: Let_def be_nat_inj)
  qed
qed

section \<open>CTR by a function that counts in 32 bits\<close>

text \<open>
  What \<open>func\<close> promises: CTR mode on whole blocks that only deals with the lower 32 bits of the
  counter, which is read from \<open>ivec\<close>.
\<close>

definition ctr32_ok :: "(bytes \<Rightarrow> bytes) \<Rightarrow> (bytes \<Rightarrow> nat \<Rightarrow> bytes \<Rightarrow> bytes) \<Rightarrow> bool" where
  "ctr32_ok block func \<longleftrightarrow> (\<forall>xs k ivec. length ivec = 16 \<longrightarrow> length xs = 16 * k \<longrightarrow>
     func xs k ivec = xor_bytes xs (concat (map (\<lambda>i. block (PUTU32 12 (GETU32 ivec 12 + word_of_nat i) ivec)) [0..<k])))"

lemma GETU32_ctr96_inc: "length iv = 16 \<Longrightarrow> GETU32 (ctr96_inc iv) 12 = GETU32 iv 12"
  using counter_inc_value [of 12 iv 1] by (simp add: GETU32_def ctr96_inc_def)

lemma length_ctr96_inc [simp]: "length (ctr96_inc xs) = length xs"
  by (simp add: ctr96_inc_def)

text \<open>Before the overflow, counting on is counting in the low 32 bits.\<close>

lemma ctr128_inc_times:
  assumes "length iv = 16" and "unat (GETU32 iv 12) + i < 2 ^ 32"
  shows "(ctr128_inc ^^ i) iv = PUTU32 12 (GETU32 iv 12 + word_of_nat i) iv"
  using assms(2)
proof (induction i)
  case 0
  then show ?case using assms(1) by (simp add: PUTU32_GETU32)
next
  case (Suc i)
  let ?v = "GETU32 iv 12 + word_of_nat i"
  have len: "length (PUTU32 12 ?v iv) = 16" using assms(1) by simp
  have next_v: "?v + 1 = GETU32 iv 12 + word_of_nat (Suc i)" by simp
  have "unat (word_of_nat (Suc i) :: u32) = Suc i" using Suc.prems by (simp add: unat_of_nat del: of_nat_Suc)
  then have "unat (?v + 1) = unat (GETU32 iv 12) + Suc i" unfolding next_v using Suc.prems by (simp add: unat_word_ariths del: of_nat_Suc)
  then have "?v + 1 \<noteq> 0" by (metis add_is_0 nat.simps(3) unat_0)
  moreover have "(ctr128_inc ^^ Suc i) iv = ctr128_inc (PUTU32 12 ?v iv)" using Suc by simp
  ultimately show ?case unfolding ctr128_inc_32 [OF len] GETU32_PUTU32 [OF assms(1)] Let_def
    using assms(1) next_v by simp
qed

lemma length_times [simp]: "length ((ctr128_inc ^^ i) iv) = length iv"
  by (induction i) simp_all

text \<open>A run of blocks ends at the overflow at the latest; the carry makes up for it.\<close>

lemma over_less: "(a :: nat) < n \<Longrightarrow> 0 < b \<Longrightarrow> a + b - n < b"
  by linarith

lemma over_rest: "(a :: nat) < n \<Longrightarrow> \<not> a + b < n \<Longrightarrow> a + (b - (a + b - n)) = n"
  by linarith

lemma ctr32_blocks_bound:
  assumes "16 \<le> len" and "ctr32_blocks c len = (blocks, c')"
  shows "unat c + blocks \<le> 2 ^ 32" and "c' = c + word_of_nat blocks"
proof -
  define b where "b = (if len div 16 > 2 ^ 28 then 2 ^ 28 else len div 16)"
  have b: "0 < b" "b \<le> 2 ^ 28" using assms(1) by (auto simp: b_def)
  have res: "(if unat (c + word_of_nat b) < b then (b - unat (c + word_of_nat b), 0) else (b, c + word_of_nat b)) = (blocks, c')"
    using assms(2) by (simp only: ctr32_blocks_def Let_def b_def)
  have c: "unat c < 2 ^ 32" using unsigned_less [of c, where ?'a = nat] by simp
  have "unat (word_of_nat b :: u32) = b" using b(2) by (simp add: unat_of_nat)
  then have sum: "unat (c + word_of_nat b) = (unat c + b) mod 2 ^ 32" by (simp add: unat_word_ariths)
  have "unat c + blocks \<le> 2 ^ 32 \<and> c' = c + word_of_nat blocks"
  proof (cases "unat c + b < 2 ^ 32")
    case True
    then have "\<not> unat (c + word_of_nat b) < b" unfolding sum by simp
    then have "blocks = b" "c' = c + word_of_nat b" using res by auto
    then show ?thesis using True by simp
  next
    case False
    then have over: "unat (c + word_of_nat b) = unat c + b - 2 ^ 32" using c b(2) unfolding sum by (simp add: mod_if)
    then have "unat (c + word_of_nat b) < b" using over_less [OF c b(1)] by simp
    then have wrapped: "blocks = b - (unat c + b - 2 ^ 32)" "c' = 0"
      using res over by auto
    have full: "unat c + blocks = 2 ^ 32" unfolding wrapped(1) by (rule over_rest [OF c False])
    have "c + word_of_nat blocks = word_of_nat (unat c + blocks)" by simp
    then have "c + word_of_nat blocks = 0" unfolding full by simp
    then show ?thesis using full wrapped(2) by simp
  qed
  then show "unat c + blocks \<le> 2 ^ 32" and "c' = c + word_of_nat blocks" by blast+
qed

lemma counter_after_blocks:
  assumes "length iv = 16" and "0 < k" and "unat (GETU32 iv 12) + k \<le> 2 ^ 32"
  shows "(ctr128_inc ^^ k) iv =
    (let ctr32 = GETU32 iv 12 + word_of_nat k; iv' = PUTU32 12 ctr32 iv in if ctr32 = 0 then ctr96_inc iv' else iv')"
proof -
  obtain i where k: "k = Suc i" using assms(2) by (cases k) auto
  let ?v = "GETU32 iv 12 + word_of_nat i"
  have len: "length (PUTU32 12 ?v iv) = 16" using assms(1) by simp
  have "(ctr128_inc ^^ i) iv = PUTU32 12 ?v iv" by (rule ctr128_inc_times [OF assms(1)]) (use assms(3) k in simp)
  then have last: "(ctr128_inc ^^ k) iv = ctr128_inc (PUTU32 12 ?v iv)" by (simp add: k)
  have sum: "?v + 1 = GETU32 iv 12 + word_of_nat k" by (simp add: k)
  show ?thesis unfolding last ctr128_inc_32 [OF len] GETU32_PUTU32 [OF assms(1)] Let_def sum PUTU32_twice [OF assms(1)] ..
qed

lemma func_blocks:
  assumes "ctr32_ok block func" and "length iv = 16" and "unat (GETU32 iv 12) + k \<le> 2 ^ 32" and "length xs = 16 * k"
  shows "func xs k iv = xor_bytes xs (concat (map (\<lambda>i. block ((ctr128_inc ^^ i) iv)) [0..<k]))"
proof -
  have "map (\<lambda>i. block (PUTU32 12 (GETU32 iv 12 + word_of_nat i) iv)) [0..<k] = map (\<lambda>i. block ((ctr128_inc ^^ i) iv)) [0..<k]"
    using ctr128_inc_times [OF assms(2)] assms(3) by (intro map_cong refl arg_cong [of _ _ block]) simp
  then show ?thesis using assms unfolding ctr32_ok_def by metis
qed

text \<open>The machine over whole blocks.\<close>

lemma mealy_ctr_blocks:
  assumes "block_ok block" and "length iv = 16" and "length xs = 16 * k"
  shows "mealy (ctr_step block) (iv, e, 0) xs =
    (xor_bytes xs (concat (map (\<lambda>i. block ((ctr128_inc ^^ i) iv)) [0..<k])),
     (ctr128_inc ^^ k) iv, if k = 0 then e else block ((ctr128_inc ^^ (k - 1)) iv), 0)"
  using assms(2,3)
proof (induction k arbitrary: iv e xs)
  case (Suc k)
  let ?ks = "block iv" and ?xs = "take 16 xs"
  have ks: "length ?ks = 16" using assms(1) Suc.prems(1) by (simp add: block_ok_def)
  have "mealy (ctr_step block) (iv, e, 0) ?xs = (xor_bytes ?xs ?ks, (ctr128_inc iv, ?ks, length ?xs mod 16))"
    by (rule mealy_block [OF ctr_uses [OF ks]]) (use Suc.prems in \<open>auto simp: ctr_step_def Let_def\<close>)
  then have one: "mealy (ctr_step block) (iv, e, 0) ?xs = (xor_bytes ?xs ?ks, (ctr128_inc iv, ?ks, 0))"
    using Suc.prems by simp
  have shift: "map (\<lambda>i. block ((ctr128_inc ^^ i) iv)) [0..<Suc k] = ?ks # map (\<lambda>i. block ((ctr128_inc ^^ i) (ctr128_inc iv))) [0..<k]"
    by (simp add: upt_conv_Cons map_Suc_upt [symmetric] funpow_swap1 del: upt_Suc)
  have "xor_bytes xs (?ks @ zs) = xor_bytes ?xs ?ks @ xor_bytes (drop 16 xs) zs" for zs
    using xor_bytes_append [of ?xs ?ks "drop 16 xs" zs] ks Suc.prems by simp
  moreover have "(if k = 0 then ?ks else block ((ctr128_inc ^^ (k - 1)) (ctr128_inc iv))) = block ((ctr128_inc ^^ k) iv)"
    by (cases k) (simp_all add: funpow_swap1)
  ultimately show ?case
    using Suc.IH [of "ctr128_inc iv" "drop 16 xs" ?ks] Suc.prems one mealy_append [of "ctr_step block" "(iv, e, 0)" ?xs "drop 16 xs"]
    by (simp add: shift funpow_swap1 del: upt_Suc)
qed simp

text \<open>
  States that differ in \<open>ecount_buf\<close> only, all of whose bytes have been used, cannot be told
  apart: \<open>CRYPTO_ctr128_encrypt_ctr32\<close> does not write \<open>ecount_buf\<close> for whole blocks.
\<close>

definition same_ctr :: "bytes \<times> bytes \<times> nat \<Rightarrow> bytes \<times> bytes \<times> nat \<Rightarrow> bool" where
  "same_ctr st st' \<longleftrightarrow> fst st = fst st' \<and> snd (snd st) = snd (snd st') \<and> (snd (snd st) \<noteq> 0 \<longrightarrow> fst (snd st) = fst (snd st'))"

lemma same_ctr_step:
  "same_ctr s t \<Longrightarrow> fst (ctr_step block s x) = fst (ctr_step block t x) \<and> same_ctr (snd (ctr_step block s x)) (snd (ctr_step block t x))"
  by (cases s; cases t) (auto simp: same_ctr_def ctr_step_def Let_def)

lemma same_ctr_mealy:
  "same_ctr s t \<Longrightarrow> fst (mealy (ctr_step block) s xs) = fst (mealy (ctr_step block) t xs) \<and>
    same_ctr (snd (mealy (ctr_step block) s xs)) (snd (mealy (ctr_step block) t xs))"
proof (induction xs arbitrary: s t)
  case (Cons x xs)
  obtain y s' where s': "ctr_step block s x = (y, s')" by (rule prod.exhaust)
  obtain z t' where t': "ctr_step block t x = (z, t')" by (rule prod.exhaust)
  have "y = z" "same_ctr s' t'" using same_ctr_step [OF Cons.prems, of block x] s' t' by simp_all
  then show ?case using Cons.IH [of s' t'] s' t' by (simp add: case_prod_unfold)
qed simp

definition moved_alike :: "(bytes \<Rightarrow> bytes) \<Rightarrow> nat \<Rightarrow> nat \<Rightarrow> nat \<Rightarrow> (bytes \<times> bytes \<times> nat) \<times> mem \<Rightarrow> (bytes \<times> bytes \<times> nat) \<times> mem \<Rightarrow> bool" where
  "moved_alike block src dst k before after \<longleftrightarrow>
     (\<exists>st. moved (ctr_step block) src dst k before (st, snd after) \<and> same_ctr st (fst after))"

lemma same_ctr_refl [simp]: "same_ctr st st"
  by (simp add: same_ctr_def)

lemma same_ctr_trans: "same_ctr a b \<Longrightarrow> same_ctr b c \<Longrightarrow> same_ctr a c"
  by (auto simp: same_ctr_def)

lemma moved_alike: "moved (ctr_step block) src dst k before after \<Longrightarrow> moved_alike block src dst k before after"
  unfolding moved_alike_def by (rule exI [of _ "fst after"]) simp

lemma moved_alike_trans:
  assumes "moved_alike block src dst k (st, m) (st1, m1)" and "moved_alike block (src + k) (dst + k) j (st1, m1) (st2, m2)"
    and "ahead src dst (k + j)"
  shows "moved_alike block src dst (k + j) (st, m) (st2, m2)"
proof -
  obtain s1 where s1: "moved (ctr_step block) src dst k (st, m) (s1, m1)" "same_ctr s1 st1"
    using assms(1) by (auto simp: moved_alike_def)
  obtain s2 where s2: "moved (ctr_step block) (src + k) (dst + k) j (st1, m1) (s2, m2)" "same_ctr s2 st2"
    using assms(2) by (auto simp: moved_alike_def)
  let ?xs = "load m1 (src + k) j"
  let ?s3 = "snd (mealy (ctr_step block) s1 ?xs)"
  have "moved (ctr_step block) (src + k) (dst + k) j (s1, m1) (?s3, m2)"
    using s2(1) same_ctr_mealy [OF s1(2), of block ?xs] unfolding moved_eq by simp
  from moved_trans [OF s1(1) this assms(3)] have "moved (ctr_step block) src dst (k + j) (st, m) (?s3, m2)" .
  moreover have "same_ctr ?s3 st2"
    using same_ctr_trans [OF conjunct2 [OF same_ctr_mealy [OF s1(2), of block ?xs]], of st2] s2 unfolding moved_eq by simp
  ultimately show ?thesis unfolding moved_alike_def fst_conv snd_conv by blast
qed

lemma ctr32_loop_moved:
  assumes "block_ok block" and "ctr32_ok block func" and "length ivec = 16" and "GETU32 ivec 12 = ctr32" and "ahead src dst len"
    and "ctr32_loop func src dst len ivec ctr32 m = (src', dst', len', ivec', ctr32', m')"
  shows "\<exists>k \<le> len. src' = src + k \<and> dst' = dst + k \<and> len' = len - k \<and> len' < 16 \<and> length ivec' = 16 \<and>
    GETU32 ivec' 12 = ctr32' \<and> moved_alike block src dst k ((ivec, ecount, 0), m) ((ivec', ecount, 0), m')"
  using assms
proof (induction func src dst len ivec ctr32 m rule: ctr32_loop.induct)
  case (1 func src dst len ivec ctr32 m)
  show ?case
  proof (cases "16 \<le> len")
    case True
    obtain b c where bc: "ctr32_blocks ctr32 len = (b, c)" by (rule prod.exhaust)
    note b = ctr32_blocks_progress [OF True bc] ctr32_blocks_bound [OF True bc]
    let ?xs = "load m src (16 * b)"
    let ?iv1 = "PUTU32 12 c ivec"
    let ?iv = "if c = 0 then ctr96_inc ?iv1 else ?iv1" and ?m = "store dst (func ?xs b ivec) m"
    have iv: "(ctr128_inc ^^ b) ivec = ?iv"
      using counter_after_blocks [OF 1(4), of b] b 1(5) by (simp add: Let_def)
    have len: "length ?iv = 16" using 1(4) by simp
    have ctr: "GETU32 ?iv 12 = c" using 1(4) GETU32_ctr96_inc [of ?iv1] by (cases "c = 0") simp_all
    have out: "func ?xs b ivec = xor_bytes ?xs (concat (map (\<lambda>i. block ((ctr128_inc ^^ i) ivec)) [0..<b]))"
      by (rule func_blocks [OF 1(3,4)]) (use b 1(5) in simp_all)
    have "moved_alike block src dst (16 * b) ((ivec, ecount, 0), m) ((?iv, ecount, 0), ?m)"
      unfolding moved_alike_def moved_def
      using mealy_ctr_blocks [OF 1(2,4), of ?xs b ecount] iv out by (simp add: same_ctr_def)
    note first = this
    have rec: "ctr32_loop func (src + 16 * b) (dst + 16 * b) (len - 16 * b) ?iv c ?m = (src', dst', len', ivec', ctr32', m')"
      using 1(7) True bc by (simp add: ctr32_loop.simps [of func src] Let_def)
    have ahead: "ahead (src + 16 * b) (dst + 16 * b) (len - 16 * b)" by (rule ahead_mono [OF 1(6)]) (use b in simp)
    obtain k where k: "k \<le> len - 16 * b" "src' = src + 16 * b + k" "dst' = dst + 16 * b + k" "len' = len - 16 * b - k" "len' < 16"
        "length ivec' = 16" "GETU32 ivec' 12 = ctr32'"
        "moved_alike block (src + 16 * b) (dst + 16 * b) k ((?iv, ecount, 0), ?m) ((ivec', ecount, 0), m')"
      using 1(1) [OF True bc [symmetric] refl refl refl 1(2,3) len ctr ahead rec] by blast
    have "moved_alike block src dst (16 * b + k) ((ivec, ecount, 0), m) ((ivec', ecount, 0), m')"
      by (rule moved_alike_trans [OF first k(8) ahead_less [OF 1(6)]]) (use k b in linarith)
    then show ?thesis using k b by (intro exI [of _ "16 * b + k"]) auto
  next
    case False
    then show ?thesis using 1 moved_alike [OF moved_0] by (intro exI [of _ 0]) (auto simp: ctr32_loop.simps [of func src])
  qed
qed


text \<open>
  C36: With a function that does CTR mode for the low 32 bits of the counter only, the encryption is
  that of CTR mode with the whole counter: memory, counter and position agree, and the
  encrypted counter as long as it is in use, wherever the 32 bits overflow.
\<close>

theorem ctr32_is_ctr:
  assumes "block_ok block" and "ctr32_ok block func" and "length ivec = 16" and "length ecount = 16" and "n < 16"
    and "ahead src dst len"
  shows "case CRYPTO_ctr128_encrypt block src dst len (ivec, ecount, n) m of ((ivec1, ecount1, n1), m1) \<Rightarrow>
    (case CRYPTO_ctr128_encrypt_ctr32 func src dst len (ivec, ecount, n) m of ((ivec2, ecount2, n2), m2) \<Rightarrow>
       m1 = m2 \<and> ivec1 = ivec2 \<and> n1 = n2 \<and> (n1 \<noteq> 0 \<longrightarrow> ecount1 = ecount2))"
proof -
  obtain src1 dst1 len1 n1 m1 where p: "xor_pending ecount src dst len n m = (src1, dst1, len1, n1, m1)" by (metis prod_cases5)
  obtain k where k: "k \<le> len" "src1 = src + k" "dst1 = dst + k" "len1 = len - k" "n1 = 0 \<or> len1 = 0" "n1 < 16"
      "moved (ctr_step block) src dst k ((ivec, ecount, n), m) ((ivec, ecount, n1), m1)"
    using xor_pending_moved [OF ctr_uses [OF assms(4)] assms(6,5) p] by blast
  have ahead1: "ahead src1 dst1 len1" unfolding k(2,3) by (rule ahead_mono [OF assms(6)]) (use k in simp)
  obtain src2 dst2 len2 ivec2 c2 m2
    where b: "ctr32_loop func src1 dst1 len1 ivec (GETU32 ivec 12) m1 = (src2, dst2, len2, ivec2, c2, m2)" by (metis prod_cases6)
  obtain j where j: "j \<le> len1" "src2 = src1 + j" "dst2 = dst1 + j" "len2 = len1 - j" "len2 < 16" "length ivec2 = 16"
      "GETU32 ivec2 12 = c2" "moved_alike block src1 dst1 j ((ivec, ecount, 0), m1) ((ivec2, ecount, 0), m2)"
    using ctr32_loop_moved [OF assms(1,2,3) refl ahead1 b] by blast
  have two: "moved_alike block src dst (k + j) ((ivec, ecount, n), m) ((ivec2, ecount, n1), m2)"
  proof (cases "n1 = 0")
    case True
    show ?thesis
      by (rule moved_alike_trans [OF moved_alike [OF k(7) [unfolded True]] j(8) [unfolded k(2,3)] ahead_less [OF assms(6)], folded True])
        (use k j in linarith)
  next
    case False
    then have "len1 = 0" using k(5) by simp
    then have "ctr32_loop func src1 dst1 len1 ivec (GETU32 ivec 12) m1 = (src1, dst1, len1, ivec, GETU32 ivec 12, m1)"
      by (simp add: ctr32_loop.simps [of func src1])
    then have "ivec2 = ivec" "m2 = m1" "j = 0" using b j(1) \<open>len1 = 0\<close> by simp_all
    then show ?thesis using moved_alike [OF k(7)] by simp
  qed
  have total: "moved_alike block src dst len ((ivec, ecount, n), m) (CRYPTO_ctr128_encrypt_ctr32 func src dst len (ivec, ecount, n) m)"
  proof (cases "len2 = 0")
    case True
    then have "k + j = len" using k j by linarith
    then show ?thesis using two True p b by (simp add: CRYPTO_ctr128_encrypt_ctr32_def)
  next
    case False
    let ?ks = "block ivec2"
    have n1: "n1 = 0" using False j k by auto
    have ks: "length ?ks = 16" using assms(1) j(6) by (simp add: block_ok_def)
    have "func (replicate 16 0) 1 ivec2 = xor_bytes (replicate 16 0) (concat (map (\<lambda>i. block ((ctr128_inc ^^ i) ivec2)) [0..<1]))"
      by (rule func_blocks [OF assms(2) j(6)]) (use unsigned_less [of c2, where ?'a = nat] j(7) in simp_all)
    also have "\<dots> = ?ks" using xor_bytes_cancel [of "replicate 16 0" ?ks] ks
      by (intro nth_equalityI) (simp_all add: xor_bytes_def)
    finally have func: "func (replicate 16 0) 1 ivec2 = ?ks" .
    have "moved (ctr_step block) src2 dst2 len2 ((ivec2, ecount, n1), m2)
        ((ctr128_inc ivec2, ?ks, len2 mod 16), store dst2 (xor_bytes (load m2 src2 len2) ?ks) m2)"
      by (rule moved_xor [OF ctr_uses [OF ks]]) (use False j(5) n1 in \<open>simp_all add: ctr_step_def Let_def\<close>)
    moreover have "ahead src2 dst2 len2" unfolding j(2,3) by (rule ahead_mono [OF ahead1]) (use j in simp)
    then have "xor_rest ?ks src2 dst2 len2 n1 m2 = (len2, store dst2 (xor_bytes (load m2 src2 len2) ?ks) m2)"
      using xor_rest_eq [OF ks, of n1 len2 src2 dst2 m2] n1 j(5) by simp
    ultimately have last: "moved_alike block (src + (k + j)) (dst + (k + j)) len2 ((ivec2, ecount, n1), m2)
        (CRYPTO_ctr128_encrypt_ctr32 func src dst len (ivec, ecount, n) m)"
      using False p b j k func ctr128_inc_32 [OF j(6)] moved_alike
      by (simp add: CRYPTO_ctr128_encrypt_ctr32_def Let_def add.assoc)
    obtain st' m' where res: "CRYPTO_ctr128_encrypt_ctr32 func src dst len (ivec, ecount, n) m = (st', m')" by (rule prod.exhaust)
    have "k + j + len2 = len" using j k by linarith
    then show ?thesis using moved_alike_trans [OF two last [unfolded res]] assms(6) res by simp
  qed
  then show ?thesis
    using ctr_moved [OF assms(1,3,4,5,6), of m] unfolding moved_alike_def moved_eq same_ctr_def
    by (auto split: prod.split)
qed

section \<open>CBC block by block\<close>

text \<open>
  The reference: \<open>k\<close> blocks, each of them chained to the cipher text of the one before.  The
  results are the output and the next initialisation vector.
\<close>

primrec cbc_enc_ref :: "(bytes \<Rightarrow> bytes) \<Rightarrow> nat \<Rightarrow> bytes \<Rightarrow> bytes \<Rightarrow> bytes \<times> bytes" where
  "cbc_enc_ref block 0 iv xs = ([], iv)"
| "cbc_enc_ref block (Suc k) iv xs =
     (let c = block (xor_bytes (take 16 xs) iv)
      in case cbc_enc_ref block k c (drop 16 xs) of (out, iv') \<Rightarrow> (c @ out, iv'))"

primrec cbc_dec_ref :: "(bytes \<Rightarrow> bytes) \<Rightarrow> nat \<Rightarrow> bytes \<Rightarrow> bytes \<Rightarrow> bytes \<times> bytes" where
  "cbc_dec_ref block 0 iv xs = ([], iv)"
| "cbc_dec_ref block (Suc k) iv xs =
     (case cbc_dec_ref block k (take 16 xs) (drop 16 xs) of
        (out, iv') \<Rightarrow> (xor_bytes (block (take 16 xs)) iv @ out, iv'))"

lemma cbc_enc_ref_lengths:
  "block_ok block \<Longrightarrow> length iv = 16 \<Longrightarrow> length xs = 16 * k \<Longrightarrow> cbc_enc_ref block k iv xs = (out, iv') \<Longrightarrow>
   length out = 16 * k \<and> length iv' = 16"
proof (induction k arbitrary: iv xs out iv')
  case (Suc k)
  let ?c = "block (xor_bytes (take 16 xs) iv)"
  have c: "length ?c = 16" using Suc.prems by (simp add: block_ok_def)
  obtain out1 iv1 where rec: "cbc_enc_ref block k ?c (drop 16 xs) = (out1, iv1)" by (rule prod.exhaust)
  show ?case using Suc.IH [OF Suc.prems(1) c _ rec] Suc.prems c rec by (auto simp: Let_def)
qed simp

lemma cbc_dec_ref_lengths:
  "block_ok block \<Longrightarrow> length iv = 16 \<Longrightarrow> length xs = 16 * k \<Longrightarrow> cbc_dec_ref block k iv xs = (out, iv') \<Longrightarrow>
   length out = 16 * k \<and> length iv' = 16"
proof (induction k arbitrary: iv xs out iv')
  case (Suc k)
  obtain out1 iv1 where rec: "cbc_dec_ref block k (take 16 xs) (drop 16 xs) = (out1, iv1)" by (rule prod.exhaust)
  have "length (xor_bytes (block (take 16 xs)) iv) = 16" using Suc.prems by (simp add: block_ok_def)
  then show ?case using Suc.IH [OF Suc.prems(1) _ _ rec] Suc.prems rec by auto
qed simp

text \<open>Decrypting with the inverse block function undoes encrypting.\<close>

lemma cbc_ref_inverse:
  assumes "block_ok enc" and "\<forall>b. length b = 16 \<longrightarrow> dec (enc b) = b"
  shows "length iv = 16 \<Longrightarrow> length xs = 16 * k \<Longrightarrow> cbc_enc_ref enc k iv xs = (out, iv') \<Longrightarrow> cbc_dec_ref dec k iv out = (xs, iv')"
proof (induction k arbitrary: iv xs out)
  case (Suc k)
  let ?x = "xor_bytes (take 16 xs) iv"
  let ?c = "enc ?x"
  have c: "length ?c = 16" using assms(1) Suc.prems by (simp add: block_ok_def)
  have x: "dec ?c = ?x" using assms(2) Suc.prems by simp
  obtain out1 where rec: "cbc_enc_ref enc k ?c (drop 16 xs) = (out1, iv')" "out = ?c @ out1"
    using Suc.prems(3) by (auto simp: Let_def split: prod.splits)
  have "cbc_dec_ref dec k ?c out1 = (drop 16 xs, iv')" by (rule Suc.IH [OF c _ rec(1)]) (use Suc.prems in simp)
  moreover have "xor_bytes ?x iv = take 16 xs" using Suc.prems by (intro xor_bytes_cancel) simp
  ultimately show ?case using rec c x by simp
qed simp

lemma cbc_enc_ref_append:
  "length xs = 16 * k \<Longrightarrow> cbc_enc_ref block (k + j) iv (xs @ ys) =
     (case cbc_enc_ref block k iv xs of (out, iv1) \<Rightarrow>
        (case cbc_enc_ref block j iv1 ys of (out', iv2) \<Rightarrow> (out @ out', iv2)))"
proof (induction k arbitrary: iv xs)
  case (Suc k)
  then show ?case by (simp add: Let_def split: prod.split)
qed (simp split: prod.split)

lemma cbc_dec_ref_append:
  "length xs = 16 * k \<Longrightarrow> cbc_dec_ref block (k + j) iv (xs @ ys) =
     (case cbc_dec_ref block k iv xs of (out, iv1) \<Rightarrow>
        (case cbc_dec_ref block j iv1 ys of (out', iv2) \<Rightarrow> (out @ out', iv2)))"
proof (induction k arbitrary: iv xs)
  case (Suc k)
  then show ?case by (simp split: prod.split)
qed (simp split: prod.split)

text \<open>Loops that store one byte after the other.\<close>

lemma store_bytes:
  assumes "\<And>t. i \<le> t \<Longrightarrow> t < j \<Longrightarrow> f (store (dst + i) (map g [i..<t]) m) t = g t" and "i \<le> j"
  shows "fold (\<lambda>n m. store (dst + n) [f m n] m) [i..<j] m = store (dst + i) (map g [i..<j]) m"
  using assms
proof (induction j)
  case (Suc j)
  show ?case
  proof (cases "i = Suc j")
    case False
    then have le: "i \<le> j" using Suc.prems(2) by simp
    have "fold (\<lambda>n m. store (dst + n) [f m n] m) [i..<j] m = store (dst + i) (map g [i..<j]) m"
      using Suc.IH Suc.prems(1) le by simp
    moreover have "store (dst + j) ys (store (dst + i) (map g [i..<j]) m) = store (dst + i) (map g [i..<j] @ ys) m" for ys
      using store_append [of "dst + i" "map g [i..<j]" ys m] le by simp
    ultimately show ?thesis using Suc.prems(1) [of j] le by (simp add: upt_Suc_append)
  qed simp
qed simp

text \<open>The chaining block is not touched: it is \<open>ivec\<close>, or behind or ahead of the output.\<close>

definition iv_kept :: "iv_ptr \<Rightarrow> nat \<Rightarrow> nat \<Rightarrow> bool" where
  "iv_kept iv dst n \<longleftrightarrow> (case iv of Ivec \<Rightarrow> True | At a \<Rightarrow> a + 16 \<le> dst \<or> dst + n \<le> a)"

lemma iv_bytes_store: "iv_kept iv dst n \<Longrightarrow> length A \<le> n \<Longrightarrow> iv_bytes (store dst A m) ivec iv = iv_bytes m ivec iv"
  by (cases iv) (auto simp: iv_kept_def intro!: load_store_other)

lemma length_iv_bytes: "length ivec = 16 \<Longrightarrow> length (iv_bytes m ivec iv) = 16"
  by (cases iv) simp_all

lemma cbc_enc_words:
  assumes "ahead src dst 16" and "iv_kept iv dst 16" and "length ivec = 16"
  shows "fold (\<lambda>n m. store_word_le (dst + n) (load_word_le m (src + n) XOR array_word (iv_bytes m ivec iv) n) m) (word_positions 0) m =
    store dst (xor_bytes (load m src 16) (iv_bytes m ivec iv)) m"
proof -
  have "iv_bytes (store dst A m) ivec iv = iv_bytes m ivec iv" if "length A = 8" for A
    using iv_bytes_store [OF assms(2)] that by simp
  then have "fold (\<lambda>n m. store_word_le (dst + n) (load_word_le m (src + n) XOR array_word (iv_bytes m ivec iv) n) m) (word_positions 0) m =
      xor_block 0 src dst (iv_bytes m ivec iv) m"
    by (simp add: xor_block_def store_word_le_def)
  then show ?thesis using xor_block_eq [OF assms(1) length_iv_bytes [OF assms(3)]] by simp
qed

lemma store_again: "length A = length B \<Longrightarrow> store a B (store a A m) = store a B m"
  by (rule ext) (simp add: store_def)

lemma cbc_encrypt_blocks_eq:
  assumes "block_ok block" and "length ivec = 16" and "ahead src dst len" and "iv_kept iv dst len"
    and "cbc_encrypt_blocks block ivec src dst len iv m = (src', dst', len', iv', m')"
  shows "\<exists>k out. 16 * k \<le> len \<and> src' = src + 16 * k \<and> dst' = dst + 16 * k \<and> len' = len - 16 * k \<and> len' < 16 \<and>
    (k = 0 \<and> iv' = iv \<or> iv' = At (dst' - 16) \<and> 16 \<le> dst') \<and> length out = 16 * k \<and> m' = store dst out m \<and>
    cbc_enc_ref block k (iv_bytes m ivec iv) (load m src (16 * k)) = (out, iv_bytes m' ivec iv')"
  using assms
proof (induction block ivec src dst len iv m rule: cbc_encrypt_blocks.induct)
  case (1 block ivec src dst len iv m)
  show ?case
  proof (cases "16 \<le> len")
    case True
    let ?iv = "iv_bytes m ivec iv"
    let ?c = "block (xor_bytes (load m src 16) ?iv)"
    let ?m = "store dst ?c m"
    have ahead: "ahead src dst 16" by (rule ahead_less [OF 1(4) True])
    have kept: "iv_kept iv dst 16" using 1(5) True by (cases iv) (auto simp: iv_kept_def)
    have x: "length (xor_bytes (load m src 16) ?iv) = 16" using length_iv_bytes [OF 1(3)] by simp
    have c: "length ?c = 16" using 1(2) x by (simp add: block_ok_def)
    note words = cbc_enc_words [OF ahead kept 1(3), of m]
    have "load (store dst (xor_bytes (load m src 16) ?iv) m) dst 16 = xor_bytes (load m src 16) ?iv"
      using load_store_take [of 16 "xor_bytes (load m src 16) ?iv"] x by simp
    then have written: "store dst (block (load (store dst (xor_bytes (load m src 16) ?iv) m) dst 16)) (store dst (xor_bytes (load m src 16) ?iv) m) = ?m"
      using store_again [of "xor_bytes (load m src 16) ?iv" ?c] x c by simp
    then have rec: "cbc_encrypt_blocks block ivec (src + 16) (dst + 16) (len - 16) (At dst) ?m = (src', dst', len', iv', m')"
      using True words 1(6) by (simp add: cbc_encrypt_blocks.simps [of block ivec src] Let_def)
    have ahead1: "ahead (src + 16) (dst + 16) (len - 16)" by (rule ahead_mono [OF 1(4)]) (use True in simp)
    have kept1: "iv_kept (At dst) (dst + 16) (len - 16)" by (simp add: iv_kept_def)
    obtain k out where k: "16 * k \<le> len - 16" "src' = src + 16 + 16 * k" "dst' = dst + 16 + 16 * k" "len' = len - 16 - 16 * k"
        "len' < 16" "k = 0 \<and> iv' = At dst \<or> iv' = At (dst' - 16) \<and> 16 \<le> dst'" "length out = 16 * k" "m' = store (dst + 16) out ?m"
        "cbc_enc_ref block k (iv_bytes ?m ivec (At dst)) (load ?m (src + 16) (16 * k)) = (out, iv_bytes m' ivec iv')"
      using 1(1) [OF True words [symmetric] written [symmetric] 1(2,3) ahead1 kept1 rec] by blast
    have "load ?m (src + 16) (16 * k) = load m (src + 16) (16 * k)"
      by (rule load_ahead [OF ahead_less [OF 1(4)] c]) (use k True in simp)
    moreover have "iv_bytes ?m ivec (At dst) = ?c" using load_store [of dst ?c m] c by simp
    ultimately have "cbc_enc_ref block (Suc k) ?iv (load m src 16 @ load m (src + 16) (16 * k)) = (?c @ out, iv_bytes m' ivec iv')"
      using k(9) by (simp add: Let_def)
    then have "cbc_enc_ref block (Suc k) ?iv (load m src (16 * Suc k)) = (?c @ out, iv_bytes m' ivec iv')"
      by (simp only: load_append [symmetric] mult_Suc_right)
    moreover have "m' = store dst (?c @ out) m" using k(8) store_append [of dst ?c out m] c by simp
    ultimately show ?thesis using k c True by (intro exI [of _ "Suc k"] exI [of _ "?c @ out"]) auto
  next
    case False
    then show ?thesis using 1 by (intro exI [of _ 0] exI [of _ "[]"]) (auto simp: cbc_encrypt_blocks.simps [of block ivec src])
  qed
qed

definition whole_blocks :: "nat \<Rightarrow> nat" where
  "whole_blocks len = (len + 15) div 16"

lemma whole_blocks_split: "len < 16 \<Longrightarrow> whole_blocks (16 * k + len) = k + (if len = 0 then 0 else 1)"
  unfolding whole_blocks_def by (auto intro!: div_nat_eqI)

lemma map_nth_part: "j \<le> length xs \<Longrightarrow> i \<le> j \<Longrightarrow> map ((!) xs) [i..<j] = take (j - i) (drop i xs)"
  by (rule nth_equalityI) simp_all

lemma cbc_encrypt_rest_eq:
  assumes "block_ok block" and "length ivec = 16" and "ahead src dst len" and "iv_kept iv dst 16" and "0 < len" and "len < 16"
  shows "cbc_encrypt_rest block ivec src dst len iv m =
    (At dst, store dst (block (xor_bytes (load m src len @ replicate (16 - len) 0) (iv_bytes m ivec iv))) m)"
proof -
  let ?iv = "iv_bytes m ivec iv"
  let ?x = "xor_bytes (load m src len) ?iv"
  have iv: "length ?iv = 16" by (rule length_iv_bytes [OF assms(2)])
  have x: "length ?x = len" using iv assms(6) by simp
  have "fold (\<lambda>n m. store (dst + n) [m (src + n) XOR iv_bytes m ivec iv ! n] m) [0..<len] m =
      store (dst + 0) (map (\<lambda>n. m (src + n) XOR ?iv ! n) [0..<len]) m"
  proof (rule store_bytes [where f = "\<lambda>m n. m (src + n) XOR iv_bytes m ivec iv ! n"])
    fix t assume t: "0 \<le> t" "t < len"
    let ?A = "map (\<lambda>n. m (src + n) XOR ?iv ! n) [0..<t]"
    have "load (store dst ?A m) (src + t) 1 = load m (src + t) 1"
      by (rule load_ahead) (use ahead_less [OF assms(3), of "t + 1"] t in simp_all)
    moreover have "iv_bytes (store dst ?A m) ivec iv = ?iv" by (rule iv_bytes_store [OF assms(4)]) (use t assms(6) in simp)
    ultimately show "store (dst + 0) ?A m (src + t) XOR iv_bytes (store (dst + 0) ?A m) ivec iv ! t = m (src + t) XOR ?iv ! t"
      by (simp add: load_def)
  qed simp
  moreover have "map (\<lambda>n. m (src + n) XOR ?iv ! n) [0..<len] = ?x"
    using iv assms(6) by (intro nth_equalityI) (simp_all add: xor_bytes_def load_def)
  ultimately have one: "fold (\<lambda>n m. store (dst + n) [m (src + n) XOR iv_bytes m ivec iv ! n] m) [0..<len] m = store dst ?x m"
    by simp
  let ?m = "store dst ?x m"
  have same: "iv_bytes ?m ivec iv = ?iv" by (rule iv_bytes_store [OF assms(4)]) (use x assms(6) in simp)
  have "fold (\<lambda>n m. store (dst + n) [iv_bytes m ivec iv ! n] m) [len..<16] ?m = store (dst + len) (map ((!) ?iv) [len..<16]) ?m"
  proof (rule store_bytes [where f = "\<lambda>m n. iv_bytes m ivec iv ! n"])
    fix t assume t: "len \<le> t" "t < 16"
    let ?A = "map ((!) ?iv) [len..<t]"
    have "store (dst + len) ?A ?m = store dst (?x @ ?A) m" using store_append [of dst ?x ?A m] x by simp
    moreover have "iv_bytes (store dst (?x @ ?A) m) ivec iv = ?iv" by (rule iv_bytes_store [OF assms(4)]) (use t x in simp)
    ultimately show "iv_bytes (store (dst + len) ?A ?m) ivec iv ! t = ?iv ! t" by simp
  qed (use assms(6) in simp)
  also have "map ((!) ?iv) [len..<16] = drop len ?iv" using iv assms(6) by (simp add: map_nth_part)
  also have "store (dst + len) (drop len ?iv) ?m = store dst (?x @ drop len ?iv) m"
    using store_append [of dst ?x "drop len ?iv" m] x by simp
  also have "?x @ drop len ?iv = xor_bytes (load m src len @ replicate (16 - len) 0) ?iv"
    using iv assms(6) by (intro nth_equalityI) (auto simp: xor_bytes_def nth_append)
  finally have two: "fold (\<lambda>n m. store (dst + n) [iv_bytes m ivec iv ! n] m) [len..<16] ?m =
      store dst (xor_bytes (load m src len @ replicate (16 - len) 0) ?iv) m" .
  let ?y = "xor_bytes (load m src len @ replicate (16 - len) 0) ?iv"
  have y: "length ?y = 16" using iv assms(6) by simp
  then have "length (block ?y) = 16" using assms(1) by (simp add: block_ok_def)
  then have "store dst (block (load (store dst ?y m) dst 16)) (store dst ?y m) = store dst (block ?y) m"
    using load_store [of dst ?y m] store_again [of ?y "block ?y" dst m] y by simp
  then show ?thesis using assms(5,6) one two by (simp add: cbc_encrypt_rest.simps [of block ivec src] Let_def)
qed

lemma cbc_encrypt_eq:
  assumes "block_ok block" and "length ivec = 16" and "ahead src dst len"
  shows "CRYPTO_cbc128_encrypt block src dst len ivec m =
    (case cbc_enc_ref block (whole_blocks len) ivec (load m src len @ replicate (16 * whole_blocks len - len) 0) of
       (out, ivec') \<Rightarrow> (ivec', store dst out m))"
proof -
  obtain src1 dst1 len1 iv1 m1 where b: "cbc_encrypt_blocks block ivec src dst len Ivec m = (src1, dst1, len1, iv1, m1)"
    by (metis prod_cases5)
  have "iv_kept Ivec dst len" by (simp add: iv_kept_def)
  from cbc_encrypt_blocks_eq [OF assms this b] obtain k out where k: "16 * k \<le> len" "src1 = src + 16 * k" "dst1 = dst + 16 * k"
      "len1 = len - 16 * k" "len1 < 16" "k = 0 \<and> iv1 = Ivec \<or> iv1 = At (dst1 - 16) \<and> 16 \<le> dst1" "length out = 16 * k"
      "m1 = store dst out m" "cbc_enc_ref block k ivec (load m src (16 * k)) = (out, iv_bytes m1 ivec iv1)"
    by auto
  show ?thesis
  proof (cases "len1 = 0")
    case True
    then have "len = 16 * k" using k by linarith
    then show ?thesis using k(8,9) True b
      by (simp add: CRYPTO_cbc128_encrypt_def cbc_encrypt_rest.simps whole_blocks_def)
  next
    case False
    have len: "len = 16 * k + len1" using k by linarith
    have n: "whole_blocks len = k + 1" unfolding len using whole_blocks_split [OF k(5)] False by simp
    have ahead1: "ahead src1 dst1 len1" unfolding k(2,3) by (rule ahead_mono [OF assms(3)]) (use len in simp)
    have kept: "iv_kept iv1 dst1 16" using k(6) by (auto simp: iv_kept_def)
    let ?iv = "iv_bytes m1 ivec iv1"
    let ?p = "load m src1 len1 @ replicate (16 - len1) 0"
    let ?c = "block (xor_bytes ?p ?iv)"
    have "load m1 src1 len1 = load m src1 len1"
      unfolding k(2,8) by (rule load_ahead [OF _ k(7)]) (use assms(3) len in simp)
    then have rest: "cbc_encrypt_rest block ivec src1 dst1 len1 iv1 m1 = (At dst1, store dst1 ?c m1)"
      using cbc_encrypt_rest_eq [OF assms(1,2) ahead1 kept _ k(5)] False by simp
    have c: "length ?c = 16" using assms(1) k(5) length_iv_bytes [OF assms(2), of m1 iv1] by (simp add: block_ok_def)
    have "load m src len @ replicate (16 * (k + 1) - len) 0 = load m src (16 * k) @ ?p"
      unfolding k(2) using load_append [of m src "16 * k" len1] len by simp
    moreover have "take 16 ?p = ?p" using k(5) by simp
    ultimately have "cbc_enc_ref block (whole_blocks len) ivec (load m src len @ replicate (16 * whole_blocks len - len) 0) = (out @ ?c, ?c)"
      unfolding n using cbc_enc_ref_append [of "load m src (16 * k)" k block 1 ivec ?p] k(9) by (simp add: Let_def)
    moreover have "store dst1 ?c m1 = store dst (out @ ?c) m" using store_append [of dst out ?c m] k(3,7,8) by simp
    moreover have "load (store dst1 ?c m1) dst1 16 = ?c" using load_store [of dst1 ?c m1] c by simp
    ultimately show ?thesis using b rest by (simp add: CRYPTO_cbc128_encrypt_def)
  qed
qed

text \<open>Decrypting: the three ways one block is handled.\<close>

lemma cbc_dec_words:
  assumes "iv_kept iv dst 16" and "length ivec = 16" and "length t = 16"
  shows "fold (\<lambda>n m. store_word_le (dst + n) (load_word_le m (dst + n) XOR array_word (iv_bytes m ivec iv) n) m)
      (word_positions 0) (store dst t m) = store dst (xor_bytes t (iv_bytes m ivec iv)) m"
proof -
  have iv: "iv_bytes (store dst t m) ivec iv = iv_bytes m ivec iv" by (rule iv_bytes_store [OF assms(1)]) (simp add: assms(3))
  have "load (store dst t m) dst 16 = t" using load_store [of dst t m] assms(3) by simp
  moreover have "ahead dst dst 16" by (simp add: ahead_def)
  ultimately show ?thesis
    using cbc_enc_words [OF _ assms(1,2), of dst "store dst t m"] iv
      store_again [of t "xor_bytes t (iv_bytes m ivec iv)" dst m] assms(3) length_iv_bytes [OF assms(2), of m iv] by simp
qed

text \<open>The output is two blocks behind the input, or behind its end.\<close>

definition far :: "nat \<Rightarrow> nat \<Rightarrow> nat \<Rightarrow> bool" where
  "far src dst len \<longleftrightarrow> dst + 32 \<le> src \<or> src + len \<le> dst"

lemma far_ahead: "far src dst len \<Longrightarrow> ahead src dst len"
  by (auto simp: far_def ahead_def)

lemma far_mono: "far src dst len \<Longrightarrow> k + n \<le> len \<Longrightarrow> far (src + k) (dst + k) n"
  by (auto simp: far_def)

lemma cbc_decrypt_direct_eq:
  assumes "block_ok block" and "length ivec = 16" and "far src dst len" and "iv = Ivec \<or> iv = At (src - 16) \<and> 16 \<le> src"
    and "cbc_decrypt_direct block ivec src dst len iv m = (src', dst', len', ivec', m')"
  shows "\<exists>k out. 16 * k \<le> len \<and> src' = src + 16 * k \<and> dst' = dst + 16 * k \<and> len' = len - 16 * k \<and> len' < 16 \<and>
    length ivec' = 16 \<and> length out = 16 * k \<and> m' = store dst out m \<and>
    cbc_dec_ref block k (iv_bytes m ivec iv) (load m src (16 * k)) = (out, ivec')"
  using assms
proof (induction block ivec src dst len iv m rule: cbc_decrypt_direct.induct)
  case (1 block ivec src dst len iv m)
  show ?case
  proof (cases "16 \<le> len")
    case True
    let ?iv = "iv_bytes m ivec iv"
    let ?x = "load m src 16"
    let ?p = "xor_bytes (block ?x) ?iv"
    let ?m = "store dst ?p m"
    have t: "length (block ?x) = 16" using 1(2) by (simp add: block_ok_def)
    have p: "length ?p = 16" using t length_iv_bytes [OF 1(3)] by simp
    have kept: "iv_kept iv dst 16" using 1(4,5) True by (auto simp: iv_kept_def far_def)
    note words = cbc_dec_words [OF kept 1(3) t, of m]
    have rec: "cbc_decrypt_direct block ivec (src + 16) (dst + 16) (len - 16) (At src) ?m = (src', dst', len', ivec', m')"
      using True words 1(6) by (simp add: cbc_decrypt_direct.simps [of block ivec src] Let_def)
    have far1: "far (src + 16) (dst + 16) (len - 16)" by (rule far_mono [OF 1(4)]) (use True in simp)
    obtain k out where k: "16 * k \<le> len - 16" "src' = src + 16 + 16 * k" "dst' = dst + 16 + 16 * k" "len' = len - 16 - 16 * k"
        "len' < 16" "length ivec' = 16" "length out = 16 * k" "m' = store (dst + 16) out ?m"
        "cbc_dec_ref block k (iv_bytes ?m ivec (At src)) (load ?m (src + 16) (16 * k)) = (out, ivec')"
      using 1(1) [OF True refl words [symmetric] 1(2,3) far1 _ rec] by auto
    have "load ?m (src + 16) (16 * k) = load m (src + 16) (16 * k)"
      by (rule load_ahead [OF ahead_less [OF far_ahead [OF 1(4)]] p]) (use k True in simp)
    moreover have "iv_bytes ?m ivec (At src) = ?x"
      using load_store_other [of src 16 dst ?p m] 1(4) True p by (auto simp: far_def)
    ultimately have "cbc_dec_ref block (Suc k) ?iv (?x @ load m (src + 16) (16 * k)) = (?p @ out, ivec')"
      using k(9) by simp
    then have "cbc_dec_ref block (Suc k) ?iv (load m src (16 * Suc k)) = (?p @ out, ivec')"
      by (simp only: load_append [symmetric] mult_Suc_right)
    moreover have "m' = store dst (?p @ out) m" using k(8) store_append [of dst ?p out m] p by simp
    ultimately show ?thesis using k p True by (intro exI [of _ "Suc k"] exI [of _ "?p @ out"]) auto
  next
    case False
    then show ?thesis using 1 length_iv_bytes [OF 1(3), of m iv]
      by (intro exI [of _ 0] exI [of _ "[]"]) (auto simp: cbc_decrypt_direct.simps [of block ivec src])
  qed
qed

lemma cbc_buffer_words:
  assumes "ahead src dst 16" and "length ivec = 16" and "length tmp = 16"
  shows "fold (\<lambda>n (ivec, m).
       let c = load_word_le m (src + n);
           m' = store_word_le (dst + n) (array_word tmp n XOR array_word ivec n) m
       in (array_put_word n c ivec, m')) (word_positions 0) (ivec, m) =
    (load m src 16, store dst (xor_bytes tmp ivec) m)"
proof -
  let ?y1 = "xor_bytes (take 8 tmp) (take 8 ivec)" and ?y2 = "xor_bytes (drop 8 tmp) (drop 8 ivec)"
  have len: "length ?y1 = 8" using assms by simp
  have w: "le_bytes 8 (array_word xs 0) = take 8 xs" "le_bytes 8 (array_word xs 8) = drop 8 xs" if "length xs = 16" for xs
    using that by (simp_all add: le_bytes_array_word)
  have first: "le_bytes 8 (array_word tmp 0 XOR array_word ivec 0) = ?y1"
    using w(1) assms(2,3) by (simp add: le_bytes_xor)
  have second: "le_bytes 8 (array_word tmp 8 XOR array_word (load m src 8 @ drop 8 ivec) 8) = ?y2"
    using w(2) assms(2,3) by (simp add: le_bytes_xor)
  have "load (store dst ?y1 m) (src + 8) 8 = load m (src + 8) 8" by (rule load_ahead [OF _ len]) (use assms(1) in simp)
  moreover have "?y1 @ ?y2 = xor_bytes tmp ivec"
    using xor_bytes_append [of "take 8 tmp" "take 8 ivec" "drop 8 tmp" "drop 8 ivec"] assms by simp
  ultimately show ?thesis
    using first second store_halves [OF len] assms
    by (simp add: Let_def array_put_word_def store_word_le_def le_bytes_load_word_le load_halves)
qed

lemma cbc_decrypt_buffered_eq:
  assumes "block_ok block" and "length ivec = 16" and "ahead src dst len"
    and "cbc_decrypt_buffered block ivec src dst len m = (src', dst', len', ivec', m')"
  shows "\<exists>k out. 16 * k \<le> len \<and> src' = src + 16 * k \<and> dst' = dst + 16 * k \<and> len' = len - 16 * k \<and> len' < 16 \<and>
    length ivec' = 16 \<and> length out = 16 * k \<and> m' = store dst out m \<and>
    cbc_dec_ref block k ivec (load m src (16 * k)) = (out, ivec')"
  using assms
proof (induction block ivec src dst len m rule: cbc_decrypt_buffered.induct)
  case (1 block ivec src dst len m)
  show ?case
  proof (cases "16 \<le> len")
    case True
    let ?x = "load m src 16"
    let ?p = "xor_bytes (block ?x) ivec"
    let ?m = "store dst ?p m"
    have t: "length (block ?x) = 16" using 1(2) by (simp add: block_ok_def)
    have p: "length ?p = 16" using t 1(3) by simp
    note words = cbc_buffer_words [OF ahead_less [OF 1(4) True] 1(3) t, of m]
    have rec: "cbc_decrypt_buffered block ?x (src + 16) (dst + 16) (len - 16) ?m = (src', dst', len', ivec', m')"
      using True words 1(5) by (simp add: cbc_decrypt_buffered.simps [of block ivec src] Let_def)
    have ahead1: "ahead (src + 16) (dst + 16) (len - 16)" by (rule ahead_mono [OF 1(4)]) (use True in simp)
    obtain k out where k: "16 * k \<le> len - 16" "src' = src + 16 + 16 * k" "dst' = dst + 16 + 16 * k" "len' = len - 16 - 16 * k"
        "len' < 16" "length ivec' = 16" "length out = 16 * k" "m' = store (dst + 16) out ?m"
        "cbc_dec_ref block k ?x (load ?m (src + 16) (16 * k)) = (out, ivec')"
      using 1(1) [OF True refl words [symmetric] refl 1(2) _ ahead1 rec] by auto
    have "load ?m (src + 16) (16 * k) = load m (src + 16) (16 * k)"
      by (rule load_ahead [OF ahead_less [OF 1(4)] p]) (use k True in simp)
    then have "cbc_dec_ref block (Suc k) ivec (?x @ load m (src + 16) (16 * k)) = (?p @ out, ivec')"
      using k(9) by simp
    then have "cbc_dec_ref block (Suc k) ivec (load m src (16 * Suc k)) = (?p @ out, ivec')"
      by (simp only: load_append [symmetric] mult_Suc_right)
    moreover have "m' = store dst (?p @ out) m" using k(8) store_append [of dst ?p out m] p by simp
    ultimately show ?thesis using k p True by (intro exI [of _ "Suc k"] exI [of _ "?p @ out"]) auto
  next
    case False
    then show ?thesis using 1
      by (intro exI [of _ 0] exI [of _ "[]"]) (auto simp: cbc_decrypt_buffered.simps [of block ivec src])
  qed
qed

lemma cbc_rest_bytes:
  assumes "ahead src dst j" and "length ivec = 16" and "length tmp = 16" and "j \<le> 16"
  shows "fold (\<lambda>n (ivec, m). let c = m (src + n) in (ivec[n := c], store (dst + n) [tmp ! n XOR ivec ! n] m)) [0..<j] (ivec, m) =
    (load m src j @ drop j ivec, store dst (take j (xor_bytes tmp ivec)) m)"
  using assms(1,4)
proof (induction j)
  case (Suc j)
  let ?A = "take j (xor_bytes tmp ivec)"
  have IH: "fold (\<lambda>n (ivec, m). let c = m (src + n) in (ivec[n := c], store (dst + n) [tmp ! n XOR ivec ! n] m)) [0..<j] (ivec, m) =
      (load m src j @ drop j ivec, store dst ?A m)"
    using Suc.IH Suc.prems ahead_less [of src dst "Suc j" j] by simp
  have A: "length ?A = j" using assms(2,3) Suc.prems by simp
  have "load (store dst ?A m) (src + j) 1 = load m (src + j) 1"
    by (rule load_ahead [OF _ A]) (use Suc.prems in simp)
  then have c: "store dst ?A m (src + j) = m (src + j)" by (simp add: load_def)
  have "(load m src j @ drop j ivec)[j := m (src + j)] = load m src (Suc j) @ drop (Suc j) ivec"
    using Suc.prems assms(2) drop_head [of j ivec] by (simp add: load_snoc list_update_append)
  moreover have "(load m src j @ drop j ivec) ! j = ivec ! j" using Suc.prems assms(2) by (simp add: nth_append)
  moreover have "?A @ [tmp ! j XOR ivec ! j] = take (Suc j) (xor_bytes tmp ivec)"
    using Suc.prems assms by (simp add: take_Suc_conv_app_nth xor_bytes_def)
  moreover have "store (dst + j) ys (store dst ?A m) = store dst (?A @ ys) m" for ys
    using store_append [of dst ?A ys m] A by simp
  ultimately show ?case using IH c by (simp add: upt_Suc_append Let_def)
qed simp

lemma fill_ivec:
  "i \<le> j \<Longrightarrow> j \<le> length xs \<Longrightarrow> fold (\<lambda>n xs. xs[n := f n]) [i..<j] xs = take i xs @ map f [i..<j] @ drop j xs"
proof (induction j)
  case (Suc j)
  then show ?case
  proof (cases "i = Suc j")
    case False
    then have "fold (\<lambda>n xs. xs[n := f n]) [i..<j] xs = take i xs @ map f [i..<j] @ drop j xs" using Suc by simp
    then show ?thesis using Suc.prems False drop_head [of j xs] by (simp add: upt_Suc_append list_update_append)
  qed simp
qed simp

lemma cbc_decrypt_rest_eq:
  assumes "block_ok block" and "length ivec = 16" and "ahead src dst 16" and "0 < len" and "len < 16"
  shows "cbc_decrypt_rest block ivec src dst len m =
    (load m src 16, store dst (take len (xor_bytes (block (load m src 16)) ivec)) m)"
proof -
  let ?tmp = "block (load m src 16)"
  let ?A = "take len (xor_bytes ?tmp ivec)"
  have tmp: "length ?tmp = 16" using assms(1) by (simp add: block_ok_def)
  have A: "length ?A = len" using tmp assms by simp
  note bytes = cbc_rest_bytes [OF ahead_less [OF assms(3), of len] assms(2) tmp, of m]
  have "load (store dst ?A m) (src + len) (16 - len) = load m (src + len) (16 - len)"
    by (rule load_ahead [OF _ A]) (use assms in simp)
  then have "map (\<lambda>n. store dst ?A m (src + n)) [len..<16] = load m (src + len) (16 - len)"
    using assms(5) by (intro nth_equalityI) (auto simp: load_def list_eq_iff_nth_eq add.assoc)
  moreover have "load m src len @ load m (src + len) (16 - len) = load m src 16"
    using load_append [of m src len "16 - len"] assms(5) by simp
  ultimately have "fold (\<lambda>n ivec. ivec[n := store dst ?A m (src + n)]) [len..<16] (load m src len @ drop len ivec) = load m src 16"
    using fill_ivec [of len 16 "load m src len @ drop len ivec" "\<lambda>n. store dst ?A m (src + n)"] assms by simp
  then show ?thesis using bytes assms(4,5) by (simp add: cbc_decrypt_rest.simps [of block ivec src] Let_def)
qed

lemma whole_blocks_le: "len \<le> 16 * whole_blocks len" "whole_blocks len \<noteq> 0 \<longleftrightarrow> 0 < len"
  unfolding whole_blocks_def by presburger+

text \<open>
  C34: Wherever the input and the output overlap, as long as the input is ahead or the output
  begins behind all the blocks that are read, decryption writes the \<open>len\<close> bytes that
  decrypting block by block gives, leaves all other memory as it is, and \<open>ivec\<close> is the last
  block of cipher text.
\<close>

theorem cbc_decrypt_overlap:
  assumes "block_ok block" and "length ivec = 16" and "ahead src dst (16 * whole_blocks len)"
  shows "CRYPTO_cbc128_decrypt block src dst len ivec m =
    (case cbc_dec_ref block (whole_blocks len) ivec (load m src (16 * whole_blocks len)) of
       (out, ivec') \<Rightarrow> (ivec', store dst (take len out) m))"
proof -
  let ?far = "32 \<le> src \<and> dst \<le> src - 32 \<or> src < dst"
  let ?run = "if ?far then cbc_decrypt_direct block ivec src dst len Ivec m else cbc_decrypt_buffered block ivec src dst len m"
  have ahead: "ahead src dst len" by (rule ahead_less [OF assms(3) whole_blocks_le(1)])
  obtain src1 dst1 len1 ivec1 m1 where b: "?run = (src1, dst1, len1, ivec1, m1)" by (metis prod_cases5)
  have run: "CRYPTO_cbc128_decrypt block src dst len ivec m = cbc_decrypt_rest block ivec1 src1 dst1 len1 m1"
    unfolding CRYPTO_cbc128_decrypt_def b by simp
  have "\<exists>k out. 16 * k \<le> len \<and> src1 = src + 16 * k \<and> dst1 = dst + 16 * k \<and> len1 = len - 16 * k \<and> len1 < 16 \<and>
    length ivec1 = 16 \<and> length out = 16 * k \<and> m1 = store dst out m \<and>
    cbc_dec_ref block k ivec (load m src (16 * k)) = (out, ivec1)"
  proof (cases ?far)
    case True
    then have "far src dst len" using ahead by (auto simp: far_def ahead_def)
    moreover have "cbc_decrypt_direct block ivec src dst len Ivec m = (src1, dst1, len1, ivec1, m1)" using b unfolding if_P [OF True] .
    ultimately show ?thesis using cbc_decrypt_direct_eq [OF assms(1,2), of src dst len Ivec] by simp
  next
    case False
    have "cbc_decrypt_buffered block ivec src dst len m = (src1, dst1, len1, ivec1, m1)"
      using b unfolding if_not_P [OF False] .
    from cbc_decrypt_buffered_eq [OF assms(1,2) ahead this] show ?thesis .
  qed
  then obtain k out where k: "16 * k \<le> len" "src1 = src + 16 * k" "dst1 = dst + 16 * k" "len1 = len - 16 * k" "len1 < 16"
      "length ivec1 = 16" "length out = 16 * k" "m1 = store dst out m" "cbc_dec_ref block k ivec (load m src (16 * k)) = (out, ivec1)"
    by blast
  show ?thesis
  proof (cases "len1 = 0")
    case True
    then have "len = 16 * k" using k by linarith
    then show ?thesis using k(7,8,9) True run by (simp add: cbc_decrypt_rest.simps whole_blocks_def)
  next
    case False
    have len: "len = 16 * k + len1" using k by linarith
    have n: "whole_blocks len = k + 1" unfolding len using whole_blocks_split [OF k(5)] False by simp
    have ahead1: "ahead src1 dst1 16" unfolding k(2,3) by (rule ahead_mono [OF assms(3)]) (simp add: n)
    let ?x = "load m src1 16"
    let ?p = "xor_bytes (block ?x) ivec1"
    have "load m1 src1 16 = ?x"
      unfolding k(2,8) by (rule load_ahead [OF _ k(7)]) (use assms(3) n in \<open>simp add: add.commute\<close>)
    then have rest: "cbc_decrypt_rest block ivec1 src1 dst1 len1 m1 = (?x, store dst1 (take len1 ?p) m1)"
      using cbc_decrypt_rest_eq [OF assms(1) k(6) ahead1 _ k(5)] False by simp
    have "load m src (16 * (k + 1)) = load m src (16 * k) @ ?x"
      unfolding k(2) using load_append [of m src "16 * k" 16] by (simp add: add.commute)
    then have "cbc_dec_ref block (whole_blocks len) ivec (load m src (16 * whole_blocks len)) = (out @ ?p, ?x)"
      unfolding n using cbc_dec_ref_append [of "load m src (16 * k)" k block 1 ivec ?x] k(9) by simp
    moreover have "take len (out @ ?p) = out @ take len1 ?p" using k(7) len by simp
    moreover have "store dst1 (take len1 ?p) m1 = store dst (out @ take len1 ?p) m"
      using store_append [of dst out "take len1 ?p" m] k(3,7,8) by simp
    ultimately show ?thesis using run rest by simp
  qed
qed

text \<open>
  C35: Encrypting any number of bytes and decrypting with the inverse block function as many
  gives them back, from any place to any place on the way and back that the overlap permits,
  and both leave the same block in \<open>ivec\<close>.
\<close>

theorem cbc_round_trip:
  assumes "block_ok enc" and "block_ok dec" and "\<forall>b. length b = 16 \<longrightarrow> dec (enc b) = b" and "length ivec = 16"
    and "ahead src mid len" and "ahead mid dst (16 * whole_blocks len)"
  shows "case CRYPTO_cbc128_encrypt enc src mid len ivec m of (ivec1, m1) \<Rightarrow>
    (case CRYPTO_cbc128_decrypt dec mid dst len ivec m1 of (ivec2, m2) \<Rightarrow>
       load m2 dst len = load m src len \<and> ivec2 = ivec1)"
proof -
  let ?k = "whole_blocks len"
  let ?p = "load m src len @ replicate (16 * ?k - len) 0"
  have p: "length ?p = 16 * ?k" using whole_blocks_le(1) [of len] by simp
  obtain out iv where enc: "cbc_enc_ref enc ?k ivec ?p = (out, iv)" by (rule prod.exhaust)
  have out: "length out = 16 * ?k" using cbc_enc_ref_lengths [OF assms(1,4) p enc] by simp
  have "load (store mid out m) mid (16 * ?k) = out" using load_store [of mid out m] out by simp
  moreover have "cbc_dec_ref dec ?k ivec out = (?p, iv)" by (rule cbc_ref_inverse [OF assms(1,3,4) p enc])
  moreover have "load (store dst (load m src len) m') dst len = load m src len" for m'
    using load_store [of dst "load m src len" m'] by simp
  ultimately show ?thesis
    using cbc_encrypt_eq [OF assms(1,4,5), of m] cbc_decrypt_overlap [OF assms(2,4,6), of "store mid out m"] enc by simp
qed

section \<open>The properties on examples\<close>

text \<open>A block function, its inverse, and a function that does CTR with it.\<close>

definition toy_block :: "bytes \<Rightarrow> bytes" where "toy_block b = rev (map (\<lambda>x. x + 7) b)"
definition toy_inverse :: "bytes \<Rightarrow> bytes" where "toy_inverse b = map (\<lambda>x. x - 7) (rev b)"

definition toy_ctr32 :: "bytes \<Rightarrow> nat \<Rightarrow> bytes \<Rightarrow> bytes" where
  "toy_ctr32 xs k ivec = xor_bytes xs (concat (map (\<lambda>i. toy_block (PUTU32 12 (GETU32 ivec 12 + word_of_nat i) ivec)) [0..<k]))"

definition toy_memory :: mem where "toy_memory a = word_of_nat (a * a)"

lemma toy_ok: "block_ok toy_block" "block_ok toy_inverse" "\<forall>b. length b = 16 \<longrightarrow> toy_inverse (toy_block b) = b"
  "ctr32_ok toy_block toy_ctr32"
  by (simp_all add: block_ok_def toy_block_def toy_inverse_def ctr32_ok_def toy_ctr32_def rev_map comp_def)

lemma stream_modes_bytewise_witness:
  "CRYPTO_ofb128_encrypt toy_block 105 100 40 (replicate 16 3, 5) toy_memory =
     (case mealy (ofb_step toy_block) (replicate 16 3, 5) (load toy_memory 105 40) of (out, st) \<Rightarrow> (st, store 100 out toy_memory))"
  using stream_modes_bytewise [OF toy_ok(1), of "replicate 16 3" "replicate 16 0" 5 105 100 40] by (simp add: ahead_def)

lemma stream_modes_round_trip_witness:
  "case CRYPTO_cfb128_encrypt True toy_block 100 100 21 (replicate 16 3, 0) toy_memory of (st1, m1) \<Rightarrow>
     (case CRYPTO_cfb128_encrypt True toy_block (100 + 21) (100 + 21) 30 st1 m1 of (st2, m2) \<Rightarrow>
        CRYPTO_cfb128_encrypt False toy_block 100 100 (21 + 30) (replicate 16 3, 0) m2 = (st2, toy_memory))"
  by (rule conjunct2 [OF stream_modes_round_trip [OF toy_ok(1), of "replicate 16 3" "replicate 16 0" 0]]) simp_all

lemma ctr32_is_ctr_witness:
  "case CRYPTO_ctr128_encrypt toy_block 300 300 100 (replicate 16 255, replicate 16 0, 0) toy_memory of ((ivec1, ecount1, n1), m1) \<Rightarrow>
     (case CRYPTO_ctr128_encrypt_ctr32 toy_ctr32 300 300 100 (replicate 16 255, replicate 16 0, 0) toy_memory of ((ivec2, ecount2, n2), m2) \<Rightarrow>
        m1 = m2 \<and> ivec1 = ivec2 \<and> n1 = n2 \<and> (n1 = 0 \<or> ecount1 = ecount2))"
  using ctr32_is_ctr [OF toy_ok(1,4), of "replicate 16 255" "replicate 16 0" 0 300 300 100 toy_memory]
  by (auto split: prod.splits)

lemma cbc_decrypt_overlap_witness:
  "CRYPTO_cbc128_decrypt toy_inverse 110 100 20 (replicate 16 1) toy_memory =
    (case cbc_dec_ref toy_inverse 2 (replicate 16 1) (load toy_memory 110 32) of
       (out, ivec') \<Rightarrow> (ivec', store 100 (take 20 out) toy_memory))"
  using cbc_decrypt_overlap [OF toy_ok(2), of "replicate 16 1" 110 100 20 toy_memory] by (simp add: ahead_def whole_blocks_def)

lemma cbc_round_trip_witness:
  "case CRYPTO_cbc128_encrypt toy_block 100 100 20 (replicate 16 1) toy_memory of (ivec1, m1) \<Rightarrow>
    (case CRYPTO_cbc128_decrypt toy_inverse 100 60 20 (replicate 16 1) m1 of (ivec2, m2) \<Rightarrow>
       load m2 60 20 = load toy_memory 100 20 \<and> ivec2 = ivec1)"
  by (rule cbc_round_trip [OF toy_ok(1,2,3)]) (simp_all add: ahead_def)

end
