(* ===== verification/Bio_pair.thy ===== *)
theory Bio_pair
  imports Mem
begin

text \<open>
  The BIO pairs of \<open>crypto/bio/pair.c\<close>, and what they are used through in \<open>crypto/bio/bio.c\<close>: two
  BIOs, each with a ring buffer for what is written to it, which its peer reads.
\<close>

section \<open>State\<close>

text \<open>
  A BIO of the heap: what \<open>bio_st\<close> holds and, with the prefix \<open>bb_\<close>, the \<open>bio_bio_st\<close> that its
  \<open>ptr\<close> points to.  A pointer to a BIO is an address.  The reference count and the chain
  \<open>next_bio\<close> are left out: the BIOs have one owner and no successor.  All of them have the method
  table of \<open>pair.c\<close>, so that the checks for missing methods are left out, too.
\<close>

record bio =
  bio_init :: bool
  bio_shutdown :: int
  bio_flags :: u32
  retry_reason :: int
  num_read :: nat
  num_write :: nat
  bb_peer :: "nat option"
  bb_closed :: bool
  bb_len :: nat
  bb_offset :: nat
  bb_size :: nat
  bb_buf :: "bytes option"
  bb_request :: nat

type_synonym bios = "nat \<Rightarrow> bio option"

definition bio_at :: "bios \<Rightarrow> nat \<Rightarrow> bio" where
  "bio_at h a = the (h a)"

definition sizeof_BIO :: nat where "sizeof_BIO = 64"
definition sizeof_bio_bio :: nat where "sizeof_bio_bio = 56"

definition BIO_FLAGS_READ :: u32 where "BIO_FLAGS_READ = 0x01"
definition BIO_FLAGS_WRITE :: u32 where "BIO_FLAGS_WRITE = 0x02"
definition BIO_FLAGS_IO_SPECIAL :: u32 where "BIO_FLAGS_IO_SPECIAL = 0x04"
definition BIO_FLAGS_SHOULD_RETRY :: u32 where "BIO_FLAGS_SHOULD_RETRY = 0x08"
definition kRetryFlags :: u32 where
  "kRetryFlags = BIO_FLAGS_READ OR BIO_FLAGS_WRITE OR BIO_FLAGS_IO_SPECIAL OR BIO_FLAGS_SHOULD_RETRY"

definition BIO_clear_retry_flags :: "bio \<Rightarrow> bio" where
  "BIO_clear_retry_flags b = b\<lparr>bio_flags := bio_flags b AND NOT kRetryFlags, retry_reason := 0\<rparr>"

definition BIO_set_retry_read :: "bio \<Rightarrow> bio" where
  "BIO_set_retry_read b = b\<lparr>bio_flags := bio_flags b OR (BIO_FLAGS_READ OR BIO_FLAGS_SHOULD_RETRY)\<rparr>"

definition BIO_set_retry_write :: "bio \<Rightarrow> bio" where
  "BIO_set_retry_write b = b\<lparr>bio_flags := bio_flags b OR (BIO_FLAGS_WRITE OR BIO_FLAGS_SHOULD_RETRY)\<rparr>"

section \<open>Creating and freeing\<close>

definition bio_new :: "(nat \<Rightarrow> bool) \<Rightarrow> bio \<Rightarrow> bio option" where
  "bio_new alloc b =
     (if OPENSSL_malloc alloc sizeof_bio_bio = None then None
      else Some (b\<lparr>bb_peer := None, bb_closed := False, bb_len := 0, bb_offset := 0, bb_size := 17 * 1024, bb_buf := None,
        bb_request := 0\<rparr>))"

text \<open>\<open>a\<close> is the address that the C library gives.\<close>

definition BIO_new :: "(nat \<Rightarrow> bool) \<Rightarrow> nat \<Rightarrow> bios \<Rightarrow> bios option" where
  "BIO_new alloc a h =
     (if OPENSSL_malloc alloc sizeof_BIO = None then None
      else
        (let ret = \<lparr>bio_init = False, bio_shutdown = 1, bio_flags = 0, retry_reason = 0, num_read = 0, num_write = 0,
                    bb_peer = None, bb_closed = False, bb_len = 0, bb_offset = 0, bb_size = 0, bb_buf = None, bb_request = 0\<rparr>
         in map_option (\<lambda>b. h(a \<mapsto> b)) (bio_new alloc ret)))"

definition bio_destroy_pair :: "nat \<Rightarrow> bios \<Rightarrow> bios" where
  "bio_destroy_pair a h =
     (case bb_peer (bio_at h a) of
        None \<Rightarrow> h
      | Some p \<Rightarrow>
          (let h1 = h(p \<mapsto> (bio_at h p)\<lparr>bb_peer := None, bio_init := False, bb_len := 0, bb_offset := 0\<rparr>)
           in h1(a \<mapsto> (bio_at h1 a)\<lparr>bb_peer := None, bio_init := False, bb_len := 0, bb_offset := 0\<rparr>)))"

definition bio_free :: "nat \<Rightarrow> bios \<Rightarrow> bios" where
  "bio_free a h = (if bb_peer (bio_at h a) \<noteq> None then bio_destroy_pair a h else h)"

definition BIO_free :: "nat option \<Rightarrow> bios \<Rightarrow> bios" where
  "BIO_free bio h = (case bio of None \<Rightarrow> h | Some a \<Rightarrow> (bio_free a h)(a := None))"

section \<open>Reading and writing\<close>

text \<open>
  The loops go on until \<open>rest\<close> is 0, which they need not reach in any state: \<open>None\<close> is a loop that
  does not end.
\<close>

definition bio_buf :: "bio \<Rightarrow> bytes" where
  "bio_buf b = (case bb_buf b of None \<Rightarrow> [] | Some d \<Rightarrow> d)"

definition read_chunk :: "nat \<Rightarrow> bio \<Rightarrow> nat" where
  "read_chunk rest b = (if bb_offset b + rest \<le> bb_size b then rest else bb_size b - bb_offset b)"

definition read_step :: "nat \<Rightarrow> bio \<Rightarrow> bytes \<times> bio" where
  "read_step chunk b =
     (let out = take chunk (drop (bb_offset b) (bio_buf b));
          len' = bb_len b - chunk;
          offset' = (if len' \<noteq> 0 then (let o' = bb_offset b + chunk in if o' = bb_size b then 0 else o') else 0)
      in (out, b\<lparr>bb_len := len', bb_offset := offset'\<rparr>))"

partial_function (option) read_loop :: "nat \<Rightarrow> bio \<Rightarrow> bytes \<Rightarrow> (bytes \<times> bio) option" where
  "read_loop rest b acc =
     (let chunk = read_chunk rest b
      in case read_step chunk b of
           (out, b') \<Rightarrow> if rest - chunk \<noteq> 0 then read_loop (rest - chunk) b' (acc @ out) else Some (acc @ out, b'))"

text \<open>
  \<open>buf\<close> is whether there is a buffer.  The results are the number returned, what is stored to
  the buffer, and the heap.
\<close>

definition bio_read :: "nat \<Rightarrow> bool \<Rightarrow> int \<Rightarrow> bios \<Rightarrow> (int \<times> bytes \<times> bios) option" where
  "bio_read a buf size_arg h =
     (let sz = nat (size_arg mod int size_t_mod);
          h = h(a \<mapsto> BIO_clear_retry_flags (bio_at h a))
      in if \<not> bio_init (bio_at h a) then Some (0, [], h)
         else
           (let p = the (bb_peer (bio_at h a));
                h = h(p \<mapsto> (bio_at h p)\<lparr>bb_request := 0\<rparr>);
                peer_b = bio_at h p
            in if \<not> buf \<or> sz = 0 then Some (0, [], h)
               else if bb_len peer_b = 0 then
                 (if bb_closed peer_b then Some (0, [], h)
                  else
                    (let h = h(a \<mapsto> BIO_set_retry_read (bio_at h a));
                         request = (if sz \<le> bb_size peer_b then sz else bb_size peer_b)
                     in Some (- 1, [], h(p \<mapsto> (bio_at h p)\<lparr>bb_request := request\<rparr>))))
               else
                 (let sz = (if bb_len peer_b < sz then bb_len peer_b else sz)
                  in case read_loop sz peer_b [] of
                       None \<Rightarrow> None
                     | Some (out, peer_b') \<Rightarrow> Some (sint (word_of_nat sz :: u32), out, h(p \<mapsto> peer_b')))))"

definition write_offset :: "bio \<Rightarrow> nat" where
  "write_offset b = (let o' = bb_offset b + bb_len b in if o' \<ge> bb_size b then o' - bb_size b else o')"

definition write_chunk :: "nat \<Rightarrow> bio \<Rightarrow> nat" where
  "write_chunk rest b = (if write_offset b + rest \<le> bb_size b then rest else bb_size b - write_offset b)"

definition write_step :: "nat \<Rightarrow> bytes \<Rightarrow> bio \<Rightarrow> bio" where
  "write_step chunk data b =
     (let o' = write_offset b; d = bio_buf b
      in b\<lparr>bb_buf := Some (take o' d @ take chunk data @ drop (o' + chunk) d), bb_len := bb_len b + chunk\<rparr>)"

partial_function (option) write_loop :: "nat \<Rightarrow> bytes \<Rightarrow> bio \<Rightarrow> bio option" where
  "write_loop rest data b =
     (let chunk = write_chunk rest b; b' = write_step chunk data b
      in if rest - chunk \<noteq> 0 then write_loop (rest - chunk) (drop chunk data) b' else Some b')"

definition bio_write :: "nat \<Rightarrow> bytes option \<Rightarrow> int \<Rightarrow> bios \<Rightarrow> (int \<times> bios) option" where
  "bio_write a buf num_arg h =
     (let num = nat (num_arg mod int size_t_mod);
          h = h(a \<mapsto> BIO_clear_retry_flags (bio_at h a))
      in if \<not> bio_init (bio_at h a) \<or> buf = None \<or> num = 0 then Some (0, h)
         else
           (let h = h(a \<mapsto> (bio_at h a)\<lparr>bb_request := 0\<rparr>); b = bio_at h a
            in if bb_closed b then Some (- 1, h)
               else if bb_len b = bb_size b then Some (- 1, h(a \<mapsto> BIO_set_retry_write b))
               else
                 (let num = (if num > bb_size b - bb_len b then bb_size b - bb_len b else num)
                  in case write_loop num (the buf) b of
                       None \<Rightarrow> None
                     | Some b' \<Rightarrow> Some (sint (word_of_nat num :: u32), h(a \<mapsto> b')))))"

section \<open>Making a pair\<close>

definition attach_buffer :: "(nat \<Rightarrow> bool) \<Rightarrow> nat \<Rightarrow> bio \<Rightarrow> bool \<times> bio" where
  "attach_buffer alloc writebuf_len b =
     (if bb_buf b \<noteq> None then (True, b)
      else
        (let b = (if writebuf_len \<noteq> 0 then b\<lparr>bb_size := writebuf_len\<rparr> else b)
         in case OPENSSL_malloc alloc (bb_size b) of
              None \<Rightarrow> (False, b)
            | Some d \<Rightarrow> (True, b\<lparr>bb_buf := Some d, bb_len := 0, bb_offset := 0\<rparr>)))"

definition bio_make_pair :: "(nat \<Rightarrow> bool) \<Rightarrow> nat \<Rightarrow> nat \<Rightarrow> nat \<Rightarrow> nat \<Rightarrow> bios \<Rightarrow> bool \<times> bios" where
  "bio_make_pair alloc a1 a2 writebuf1_len writebuf2_len h =
     (if bb_peer (bio_at h a1) \<noteq> None \<or> bb_peer (bio_at h a2) \<noteq> None then (False, h)
      else
        (case attach_buffer alloc writebuf1_len (bio_at h a1) of
           (ok1, b1) \<Rightarrow>
             (let h = h(a1 \<mapsto> b1)
              in if \<not> ok1 then (False, h)
                 else
                   (case attach_buffer alloc writebuf2_len (bio_at h a2) of
                      (ok2, b2) \<Rightarrow>
                        (let h = h(a2 \<mapsto> b2)
                         in if \<not> ok2 then (False, h)
                            else
                              (let h = h(a1 \<mapsto> (bio_at h a1)\<lparr>bb_peer := Some a2, bb_closed := False, bb_request := 0, bio_init := True\<rparr>)
                               in (True, h(a2 \<mapsto> (bio_at h a2)\<lparr>bb_peer := Some a1, bb_closed := False, bb_request := 0,
                                     bio_init := True\<rparr>))))))))"

definition BIO_new_bio_pair ::
    "(nat \<Rightarrow> bool) \<Rightarrow> nat \<Rightarrow> nat \<Rightarrow> nat \<Rightarrow> nat \<Rightarrow> bios \<Rightarrow> (nat \<times> nat) option \<times> bios" where
  "BIO_new_bio_pair alloc a1 a2 writebuf1_len writebuf2_len h =
     (let (bio1, h) = (case BIO_new alloc a1 h of None \<Rightarrow> (None, h) | Some h' \<Rightarrow> (Some a1, h'));
          (bio2, h) = (case BIO_new alloc a2 h of None \<Rightarrow> (None, h) | Some h' \<Rightarrow> (Some a2, h'));
          (ok, h) = (if bio1 = None \<or> bio2 = None then (False, h)
                     else bio_make_pair alloc (the bio1) (the bio2) writebuf1_len writebuf2_len h)
      in if \<not> ok then (None, BIO_free bio2 (BIO_free bio1 h)) else (Some (a1, a2), h))"

section \<open>Control\<close>

datatype bio_cmd = BIO_C_GET_WRITE_BUF_SIZE | BIO_C_GET_WRITE_GUARANTEE | BIO_C_GET_READ_REQUEST | BIO_C_RESET_READ_REQUEST
  | BIO_C_SHUTDOWN_WR | BIO_CTRL_GET_CLOSE | BIO_CTRL_SET_CLOSE | BIO_CTRL_PENDING | BIO_CTRL_WPENDING | BIO_CTRL_FLUSH
  | BIO_CTRL_EOF | BIO_CTRL_OTHER

text \<open>\<open>num\<close> is converted to \<open>int\<close>, the sizes to \<open>long\<close>.\<close>

definition bio_ctrl :: "nat \<Rightarrow> bio_cmd \<Rightarrow> int \<Rightarrow> nat option \<Rightarrow> bios \<Rightarrow> int \<times> bios" where
  "bio_ctrl a cmd num ptr h =
     (let b = bio_at h a; long = (\<lambda>n. sint (word_of_nat n :: u64))
      in case cmd of
           BIO_C_GET_WRITE_BUF_SIZE \<Rightarrow> (long (bb_size b), h)
         | BIO_C_GET_WRITE_GUARANTEE \<Rightarrow>
             ((if bb_peer b = None \<or> bb_closed b then 0 else sint (word_of_nat (bb_size b) - word_of_nat (bb_len b) :: u64)), h)
         | BIO_C_GET_READ_REQUEST \<Rightarrow> (long (bb_request b), h)
         | BIO_C_RESET_READ_REQUEST \<Rightarrow> (1, h(a \<mapsto> b\<lparr>bb_request := 0\<rparr>))
         | BIO_C_SHUTDOWN_WR \<Rightarrow> (1, h(a \<mapsto> b\<lparr>bb_closed := True\<rparr>))
         | BIO_CTRL_GET_CLOSE \<Rightarrow> (bio_shutdown b, h)
         | BIO_CTRL_SET_CLOSE \<Rightarrow> (1, h(a \<mapsto> b\<lparr>bio_shutdown := sint (word_of_int num :: u32)\<rparr>))
         | BIO_CTRL_PENDING \<Rightarrow> ((case bb_peer b of None \<Rightarrow> 0 | Some p \<Rightarrow> long (bb_len (bio_at h p))), h)
         | BIO_CTRL_WPENDING \<Rightarrow> ((if bb_buf b \<noteq> None then long (bb_len b) else 0), h)
         | BIO_CTRL_FLUSH \<Rightarrow> (1, h)
         | BIO_CTRL_EOF \<Rightarrow>
             ((case ptr of None \<Rightarrow> 1 | Some p \<Rightarrow> if bb_len (bio_at h p) = 0 \<and> bb_closed (bio_at h p) then 1 else 0), h)
         | BIO_CTRL_OTHER \<Rightarrow> (0, h))"

definition BIO_ctrl :: "nat option \<Rightarrow> bio_cmd \<Rightarrow> int \<Rightarrow> nat option \<Rightarrow> bios \<Rightarrow> int \<times> bios" where
  "BIO_ctrl bio cmd larg parg h = (case bio of None \<Rightarrow> (0, h) | Some a \<Rightarrow> bio_ctrl a cmd larg parg h)"

definition BIO_ctrl_get_read_request :: "nat option \<Rightarrow> bios \<Rightarrow> nat" where
  "BIO_ctrl_get_read_request bio h = nat (fst (BIO_ctrl bio BIO_C_GET_READ_REQUEST 0 None h) mod int size_t_mod)"

definition BIO_ctrl_get_write_guarantee :: "nat option \<Rightarrow> bios \<Rightarrow> nat" where
  "BIO_ctrl_get_write_guarantee bio h = nat (fst (BIO_ctrl bio BIO_C_GET_WRITE_GUARANTEE 0 None h) mod int size_t_mod)"

definition BIO_shutdown_wr :: "nat option \<Rightarrow> bios \<Rightarrow> int \<times> bios" where
  "BIO_shutdown_wr bio h = BIO_ctrl bio BIO_C_SHUTDOWN_WR 0 None h"

definition BIO_flush :: "nat option \<Rightarrow> bios \<Rightarrow> int \<times> bios" where
  "BIO_flush bio h = BIO_ctrl bio BIO_CTRL_FLUSH 0 None h"

definition BIO_eof :: "nat option \<Rightarrow> bios \<Rightarrow> int \<times> bios" where
  "BIO_eof bio h = BIO_ctrl bio BIO_CTRL_EOF 0 None h"

definition BIO_pending :: "nat option \<Rightarrow> bios \<Rightarrow> nat" where
  "BIO_pending bio h = (let r = fst (BIO_ctrl bio BIO_CTRL_PENDING 0 None h) in if r < 0 then 0 else nat r)"

definition BIO_wpending :: "nat option \<Rightarrow> bios \<Rightarrow> nat" where
  "BIO_wpending bio h = (let r = fst (BIO_ctrl bio BIO_CTRL_WPENDING 0 None h) in if r < 0 then 0 else nat r)"

definition BIO_set_close :: "nat option \<Rightarrow> int \<Rightarrow> bios \<Rightarrow> int \<times> bios" where
  "BIO_set_close bio close_flag h = BIO_ctrl bio BIO_CTRL_SET_CLOSE close_flag None h"

section \<open>The functions of the application\<close>

definition BIO_read :: "nat option \<Rightarrow> bool \<Rightarrow> int \<Rightarrow> bios \<Rightarrow> (int \<times> bytes \<times> bios) option" where
  "BIO_read bio buf n h =
     (case bio of
        None \<Rightarrow> Some (- 2, [], h)
      | Some a \<Rightarrow>
          if \<not> bio_init (bio_at h a) then Some (- 2, [], h)
          else if n \<le> 0 then Some (0, [], h)
          else (case bio_read a buf n h of
                  None \<Rightarrow> None
                | Some (ret, out, h) \<Rightarrow>
                    if ret > 0 then Some (ret, out, h(a \<mapsto> (bio_at h a)\<lparr>num_read := (num_read (bio_at h a) + nat ret) mod size_t_mod\<rparr>))
                    else Some (ret, out, h)))"

definition BIO_write :: "nat option \<Rightarrow> bytes option \<Rightarrow> int \<Rightarrow> bios \<Rightarrow> (int \<times> bios) option" where
  "BIO_write bio buf n h =
     (case bio of
        None \<Rightarrow> Some (- 2, h)
      | Some a \<Rightarrow>
          if \<not> bio_init (bio_at h a) then Some (- 2, h)
          else if n \<le> 0 then Some (0, h)
          else (case bio_write a buf n h of
                  None \<Rightarrow> None
                | Some (ret, h) \<Rightarrow>
                    if ret > 0 then Some (ret, h(a \<mapsto> (bio_at h a)\<lparr>num_write := (num_write (bio_at h a) + nat ret) mod size_t_mod\<rparr>))
                    else Some (ret, h)))"

function BIO_write_all :: "nat option \<Rightarrow> bytes \<Rightarrow> nat \<Rightarrow> bios \<Rightarrow> (bool \<times> bios) option" where
  "BIO_write_all bio data n h =
     (if n = 0 then Some (True, h)
      else (case BIO_write bio (Some data) (if n > 2 ^ 31 - 1 then 2 ^ 31 - 1 else int n) h of
              None \<Rightarrow> None
            | Some (ret, h) \<Rightarrow>
                if ret \<le> 0 then Some (False, h) else BIO_write_all bio (drop (nat ret) data) (n - nat ret) h))"
  by pat_completeness auto
termination by (relation "measure (\<lambda>(bio, data, n, h). n)") auto

declare BIO_write_all.simps [simp del]

definition BIO_number_read :: "nat \<Rightarrow> bios \<Rightarrow> nat" where "BIO_number_read a h = num_read (bio_at h a)"
definition BIO_number_written :: "nat \<Rightarrow> bios \<Rightarrow> nat" where "BIO_number_written a h = num_write (bio_at h a)"

section \<open>The ring buffer as a queue\<close>

definition ring_pos :: "bio \<Rightarrow> nat \<Rightarrow> nat" where
  "ring_pos b i = (if bb_offset b + i < bb_size b then bb_offset b + i else bb_offset b + i - bb_size b)"

definition contents :: "bio \<Rightarrow> bytes" where
  "contents b = map (\<lambda>i. bio_buf b ! ring_pos b i) [0..<bb_len b]"

definition ring_ok :: "bio \<Rightarrow> bool" where
  "ring_ok b \<longleftrightarrow> length (bio_buf b) = bb_size b \<and> bb_len b \<le> bb_size b \<and> bb_offset b < bb_size b \<and> (bb_len b = 0 \<longrightarrow> bb_offset b = 0)"

lemma length_contents [simp]: "length (contents b) = bb_len b"
  by (simp add: contents_def)

lemma nth_contents: "i < bb_len b \<Longrightarrow> contents b ! i = bio_buf b ! ring_pos b i"
  by (simp add: contents_def)

text \<open>Reading a run of bytes up to the end of the array.\<close>

lemma read_step_contents:
  assumes ok: "ring_ok b" and le: "c \<le> bb_len b" "bb_offset b + c \<le> bb_size b" and pos: "0 < c"
  shows "fst (read_step c b) = take c (contents b)" and "contents (snd (read_step c b)) = drop c (contents b)"
    and "ring_ok (snd (read_step c b))"
    and "snd (read_step c b) = b\<lparr>bb_len := bb_len b - c, bb_offset := bb_offset (snd (read_step c b))\<rparr>"
    and "bb_len b \<noteq> c \<longrightarrow> bb_offset b + c = bb_size b \<longrightarrow> bb_offset (snd (read_step c b)) = 0"
proof -
  let ?b = "snd (read_step c b)"
  have off: "bb_offset ?b = (if bb_len b = c then 0 else if bb_offset b + c = bb_size b then 0 else bb_offset b + c)"
    using le by (simp add: read_step_def Let_def)
  show new: "?b = b\<lparr>bb_len := bb_len b - c, bb_offset := bb_offset ?b\<rparr>" by (simp add: read_step_def Let_def)
  have len: "bb_len ?b = bb_len b - c" "bb_size ?b = bb_size b" "bio_buf ?b = bio_buf b"
    by (simp_all add: read_step_def Let_def bio_buf_def)
  show "fst (read_step c b) = take c (contents b)"
    using ok le by (intro nth_equalityI) (auto simp: read_step_def Let_def contents_def ring_pos_def ring_ok_def)
  show "contents ?b = drop c (contents b)"
  proof (rule nth_equalityI)
    fix i assume "i < length (contents ?b)"
    then have i: "c + i < bb_len b" using len by simp
    then have "ring_pos ?b i = ring_pos b (c + i)" using off len ok le by (auto simp: ring_pos_def ring_ok_def)
    moreover have "i < bb_len ?b" using i len(1) by simp
    ultimately show "contents ?b ! i = drop c (contents b) ! i" using i len(3) by (simp add: nth_contents)
  qed (simp add: len)
  show "ring_ok ?b" using ok le off len by (auto simp: ring_ok_def)
  show "bb_len b \<noteq> c \<longrightarrow> bb_offset b + c = bb_size b \<longrightarrow> bb_offset ?b = 0" using off by simp
qed

lemma read_step_result: "\<exists>offset'. snd (read_step c b) = b\<lparr>bb_len := bb_len b - c, bb_offset := offset'\<rparr>"
  by (rule exI [of _ "bb_offset (snd (read_step c b))"]) (simp add: read_step_def Let_def)

lemma read_loop_one: "rest \<le> read_chunk rest b \<Longrightarrow> read_loop rest b acc =
    Some (acc @ fst (read_step (read_chunk rest b) b), snd (read_step (read_chunk rest b) b))"
  by (subst read_loop.simps) (simp add: Let_def split: prod.split)

lemma read_loop_more: "read_chunk rest b < rest \<Longrightarrow> read_loop rest b acc =
    read_loop (rest - read_chunk rest b) (snd (read_step (read_chunk rest b) b)) (acc @ fst (read_step (read_chunk rest b) b))"
  by (subst read_loop.simps) (simp add: Let_def split: prod.split)

text \<open>Reading takes the oldest bytes off, in one or two runs.\<close>

lemma read_loop_contents:
  assumes ok: "ring_ok b" and rest: "0 < rest" "rest \<le> bb_len b"
  shows "\<exists>offset'. read_loop rest b [] = Some (take rest (contents b), b\<lparr>bb_len := bb_len b - rest, bb_offset := offset'\<rparr>) \<and>
    ring_ok (b\<lparr>bb_len := bb_len b - rest, bb_offset := offset'\<rparr>) \<and>
    contents (b\<lparr>bb_len := bb_len b - rest, bb_offset := offset'\<rparr>) = drop rest (contents b)"
proof (cases "bb_offset b + rest \<le> bb_size b")
  case True
  then have chunk: "read_chunk rest b = rest" by (simp add: read_chunk_def)
  note step = read_step_contents [OF ok rest(2) True rest(1)]
  have "read_loop rest b [] = Some (take rest (contents b), snd (read_step rest b))"
    using read_loop_one [of rest b "[]"] chunk step(1) by simp
  then show ?thesis using step(2,3) step(4) by metis
next
  case False
  let ?c = "bb_size b - bb_offset b"
  let ?b1 = "snd (read_step ?c b)"
  have chunk: "read_chunk rest b = ?c" using False by (simp add: read_chunk_def)
  have c: "0 < ?c" "?c < rest" "?c \<le> bb_len b" "bb_offset b + ?c \<le> bb_size b" using ok False rest by (auto simp: ring_ok_def)
  note one = read_step_contents [OF ok c(3,4,1)]
  have len1: "bb_len ?b1 = bb_len b - ?c" "bb_size ?b1 = bb_size b" by (simp_all add: read_step_def Let_def)
  have off1: "bb_offset ?b1 = 0" using one(5) c rest by simp
  have chunk1: "read_chunk (rest - ?c) ?b1 = rest - ?c" using ok rest off1 len1 by (auto simp: read_chunk_def ring_ok_def)
  have two: "rest - ?c \<le> bb_len ?b1" "bb_offset ?b1 + (rest - ?c) \<le> bb_size ?b1" "0 < rest - ?c"
    using c rest len1 off1 ok by (auto simp: ring_ok_def)
  note second = read_step_contents [OF one(3) two]
  have "read_loop rest b [] = read_loop (rest - ?c) ?b1 (take ?c (contents b))"
    using read_loop_more [of rest b "[]"] chunk c(2) one(1) by simp
  also have "\<dots> = Some (take ?c (contents b) @ take (rest - ?c) (drop ?c (contents b)), snd (read_step (rest - ?c) ?b1))"
    using read_loop_one [of "rest - ?c" ?b1] chunk1 second(1) one(2) by simp
  also have "take ?c (contents b) @ take (rest - ?c) (drop ?c (contents b)) = take rest (contents b)"
    using take_add [of ?c "rest - ?c" "contents b"] c(2) by simp
  finally have res: "read_loop rest b [] = Some (take rest (contents b), snd (read_step (rest - ?c) ?b1))" .
  have "bb_len ?b1 - (rest - ?c) = bb_len b - rest" using len1 c by simp
  moreover obtain o1 where "?b1 = b\<lparr>bb_len := bb_len b - ?c, bb_offset := o1\<rparr>" using read_step_result by blast
  moreover obtain o2 where "snd (read_step (rest - ?c) ?b1) = ?b1\<lparr>bb_len := bb_len ?b1 - (rest - ?c), bb_offset := o2\<rparr>"
    using read_step_result by blast
  ultimately have "snd (read_step (rest - ?c) ?b1) = b\<lparr>bb_len := bb_len b - rest, bb_offset := o2\<rparr>" by simp
  moreover have "contents (snd (read_step (rest - ?c) ?b1)) = drop rest (contents b)"
    using second(2) one(2) c(2) by simp
  ultimately show ?thesis using res second(3) by metis
qed

text \<open>Writing a run of bytes up to the end of the array.\<close>

lemma write_step_contents:
  assumes ok: "ring_ok b" and le: "c \<le> bb_size b - bb_len b" "write_offset b + c \<le> bb_size b" "c \<le> length data" and pos: "0 < c"
  shows "contents (write_step c data b) = contents b @ take c data" and "ring_ok (write_step c data b)"
    and "write_step c data b = b\<lparr>bb_buf := bb_buf (write_step c data b), bb_len := bb_len b + c\<rparr>"
    and "bb_buf (write_step c data b) \<noteq> None"
    and "write_offset b + c = bb_size b \<longrightarrow> c < bb_size b - bb_len b \<longrightarrow> write_offset (write_step c data b) = 0"
proof -
  let ?b = "write_step c data b"
  let ?d = "take (write_offset b) (bio_buf b) @ take c data @ drop (write_offset b + c) (bio_buf b)"
  have b: "bio_buf ?b = ?d" "bb_len ?b = bb_len b + c" "bb_size ?b = bb_size b" "bb_offset ?b = bb_offset b" "bb_buf ?b = Some ?d"
    by (simp_all add: write_step_def Let_def bio_buf_def)
  have wo: "write_offset b = (if bb_offset b + bb_len b < bb_size b then bb_offset b + bb_len b else bb_offset b + bb_len b - bb_size b)"
    by (simp add: write_offset_def Let_def)
  have d: "length ?d = bb_size b" using ok le by (simp add: ring_ok_def)
  show "bb_buf ?b \<noteq> None" by (simp add: b)
  show "?b = b\<lparr>bb_buf := bb_buf ?b, bb_len := bb_len b + c\<rparr>" by (simp add: write_step_def Let_def)
  show "ring_ok ?b" using ok le b d pos by (simp add: ring_ok_def)
  have pos_eq: "ring_pos ?b i = ring_pos b i" for i by (simp add: ring_pos_def b)
  have nth_d: "?d ! p = (if p < write_offset b then bio_buf b ! p else if p < write_offset b + c then data ! (p - write_offset b) else bio_buf b ! p)"
    if "p < bb_size b" for p
    using ok le that by (auto simp: nth_append ring_ok_def)
  show "contents ?b = contents b @ take c data"
  proof (rule nth_equalityI)
    fix i assume "i < length (contents ?b)"
    then have i: "i < bb_len b + c" by (simp add: b)
    have p: "ring_pos b i < bb_size b" using i ok le by (auto simp: ring_pos_def ring_ok_def)
    have lhs: "contents ?b ! i = ?d ! ring_pos b i" using i by (simp only: nth_contents b pos_eq)
    show "contents ?b ! i = (contents b @ take c data) ! i"
    proof (cases "i < bb_len b")
      case True
      then have "ring_pos b i < write_offset b \<or> write_offset b + c \<le> ring_pos b i"
        using ok le wo by (auto simp: ring_pos_def ring_ok_def)
      then have "?d ! ring_pos b i = bio_buf b ! ring_pos b i" unfolding nth_d [OF p] by auto
      then show ?thesis unfolding lhs using True by (simp add: nth_append nth_contents)
    next
      case False
      then have "ring_pos b i = write_offset b + (i - bb_len b)"
        using ok le wo i by (auto simp: ring_pos_def ring_ok_def)
      then have "?d ! ring_pos b i = data ! (i - bb_len b)" unfolding nth_d [OF p] using False i by auto
      then show ?thesis unfolding lhs using False i le by (simp add: nth_append)
    qed
  qed (use le in \<open>simp add: b\<close>)
  show "write_offset b + c = bb_size b \<longrightarrow> c < bb_size b - bb_len b \<longrightarrow> write_offset ?b = 0"
    using ok wo b by (auto simp: write_offset_def Let_def ring_ok_def)
qed

lemma write_loop_one: "rest \<le> write_chunk rest b \<Longrightarrow> write_loop rest data b = Some (write_step (write_chunk rest b) data b)"
  by (subst write_loop.simps) (simp add: Let_def)

lemma write_loop_more: "write_chunk rest b < rest \<Longrightarrow> write_loop rest data b =
    write_loop (rest - write_chunk rest b) (drop (write_chunk rest b) data) (write_step (write_chunk rest b) data b)"
  by (subst write_loop.simps) (simp add: Let_def)

text \<open>Writing appends the bytes, in one or two runs.\<close>

lemma write_loop_contents:
  assumes ok: "ring_ok b" and rest: "0 < rest" "rest \<le> bb_size b - bb_len b" "rest \<le> length data"
  shows "\<exists>d. write_loop rest data b = Some (b\<lparr>bb_buf := Some d, bb_len := bb_len b + rest\<rparr>) \<and>
    ring_ok (b\<lparr>bb_buf := Some d, bb_len := bb_len b + rest\<rparr>) \<and>
    contents (b\<lparr>bb_buf := Some d, bb_len := bb_len b + rest\<rparr>) = contents b @ take rest data"
proof (cases "write_offset b + rest \<le> bb_size b")
  case True
  then have chunk: "write_chunk rest b = rest" by (simp add: write_chunk_def)
  note step = write_step_contents [OF ok rest(2) True rest(3,1)]
  have "write_loop rest data b = Some (write_step rest data b)" using write_loop_one [of rest b] chunk by simp
  then show ?thesis using step(1,2,3,4) by (metis option.exhaust)
next
  case False
  let ?c = "bb_size b - write_offset b"
  let ?b1 = "write_step ?c data b"
  have chunk: "write_chunk rest b = ?c" using False by (simp add: write_chunk_def)
  have wo: "write_offset b < bb_size b" using ok rest by (auto simp: write_offset_def Let_def ring_ok_def)
  have c: "0 < ?c" "?c < rest" "?c \<le> bb_size b - bb_len b" "write_offset b + ?c \<le> bb_size b" "?c \<le> length data"
    using wo False rest by auto
  note one = write_step_contents [OF ok c(3,4,5,1)]
  have b1: "bb_len ?b1 = bb_len b + ?c" "bb_size ?b1 = bb_size b" by (simp_all add: write_step_def Let_def)
  have off1: "write_offset ?b1 = 0" using one(5) c rest wo by simp
  have chunk1: "write_chunk (rest - ?c) ?b1 = rest - ?c" using rest off1 b1 by (simp add: write_chunk_def)
  have two: "rest - ?c \<le> bb_size ?b1 - bb_len ?b1" "write_offset ?b1 + (rest - ?c) \<le> bb_size ?b1" "rest - ?c \<le> length (drop ?c data)"
      "0 < rest - ?c"
    using c rest b1 off1 by auto
  let ?b2 = "write_step (rest - ?c) (drop ?c data) ?b1"
  note second = write_step_contents [OF one(2) two]
  have res: "write_loop rest data b = Some ?b2"
    using write_loop_more [of rest b data] write_loop_one [of "rest - ?c" ?b1] chunk chunk1 c(2) by simp
  have "bb_len ?b1 + (rest - ?c) = bb_len b + rest" using b1 c by simp
  then have "?b2 = b\<lparr>bb_buf := bb_buf ?b2, bb_len := bb_len b + rest\<rparr>" by (simp add: write_step_def Let_def)
  moreover have "contents ?b2 = contents b @ take rest data"
    using second(1) one(1) c(2) take_add [of ?c "rest - ?c" data] by simp
  ultimately show ?thesis using res second(2,4) by (metis option.exhaust)
qed

section \<open>The invariant\<close>

definition bio_ok :: "bio \<Rightarrow> bool" where
  "bio_ok b \<longleftrightarrow> (bio_init b \<longleftrightarrow> bb_peer b \<noteq> None) \<and> (bb_buf b = None \<longrightarrow> bb_peer b = None) \<and>
     (bb_buf b \<noteq> None \<longrightarrow> ring_ok b) \<and> (bb_peer b = None \<longrightarrow> bb_len b = 0 \<and> bb_offset b = 0) \<and> bb_request b \<le> bb_size b \<and>
     (bb_len b \<noteq> 0 \<longrightarrow> bb_request b = 0) \<and> 0 < bb_size b \<and> bb_size b < 2 ^ 63"

definition bios_inv :: "bios \<Rightarrow> bool" where
  "bios_inv h \<longleftrightarrow> (\<forall>a b. h a = Some b \<longrightarrow> bio_ok b \<and>
     (\<forall>p. bb_peer b = Some p \<longrightarrow> p \<noteq> a \<and> (\<exists>pb. h p = Some pb \<and> bb_peer pb = Some a)))"

lemma bios_invD:
  assumes "bios_inv h" and "h a = Some b"
  shows "bio_ok b"
  using assms unfolding bios_inv_def by blast

lemma bios_inv_peer:
  assumes "bios_inv h" and "h a = Some b" and "bb_peer b = Some p"
  obtains pb where "h p = Some pb" and "bb_peer pb = Some a" and "p \<noteq> a" and "bio_ok pb"
  using assms unfolding bios_inv_def by metis

lemma inv_update:
  assumes inv: "bios_inv h" and b: "h a = Some b" and same: "bb_peer b' = bb_peer b" and ok: "bio_ok b'"
  shows "bios_inv (h(a \<mapsto> b'))"
  unfolding bios_inv_def
proof (intro allI impI)
  fix x y assume y: "(h(a \<mapsto> b')) x = Some y"
  obtain z where z: "h x = Some z" "bb_peer y = bb_peer z" using y b same by (cases "x = a") auto
  have "bio_ok y" using y ok bios_invD [OF inv] by (cases "x = a") auto
  moreover have "p \<noteq> x \<and> (\<exists>pb. (h(a \<mapsto> b')) p = Some pb \<and> bb_peer pb = Some x)" if p: "bb_peer y = Some p" for p
  proof -
    obtain pb where pb: "h p = Some pb" "bb_peer pb = Some x" "p \<noteq> x" using bios_inv_peer [OF inv z(1)] p z(2) by auto
    then show ?thesis using b same by (cases "p = a") auto
  qed
  ultimately show "bio_ok y \<and> (\<forall>p. bb_peer y = Some p \<longrightarrow> p \<noteq> x \<and> (\<exists>pb. (h(a \<mapsto> b')) p = Some pb \<and> bb_peer pb = Some x))"
    by blast
qed

text \<open>What a user sees of a BIO: its peer, whether it is shut down, what can be read at the peer, the room.\<close>

type_synonym abs_bio = "nat option \<times> bool \<times> bytes \<times> nat"

definition abs_bio :: "bio \<Rightarrow> abs_bio" where
  "abs_bio b = (bb_peer b, bb_closed b, contents b, bb_size b)"

definition pairs :: "bios \<Rightarrow> nat \<Rightarrow> abs_bio option" where
  "pairs h = map_option abs_bio \<circ> h"

lemma pairs_update [simp]: "pairs (h(a \<mapsto> b)) = (pairs h)(a \<mapsto> abs_bio b)"
  by (simp add: pairs_def)

lemma pairs_same: "h a = Some b \<Longrightarrow> abs_bio b' = abs_bio b \<Longrightarrow> pairs (h(a \<mapsto> b')) = pairs h"
  by (rule ext) (simp add: pairs_def)

lemma bio_at_update [simp]: "bio_at (h(a \<mapsto> b)) x = (if x = a then b else bio_at h x)"
  by (simp add: bio_at_def)

lemma bio_at_Some [simp]: "h a = Some b \<Longrightarrow> bio_at h a = b"
  by (simp add: bio_at_def)

text \<open>Changes that a user does not see.\<close>

definition unseen :: "bio \<Rightarrow> bio \<Rightarrow> bool" where
  "unseen b b' \<longleftrightarrow> bio_init b' = bio_init b \<and> bb_peer b' = bb_peer b \<and> bb_closed b' = bb_closed b \<and> bb_len b' = bb_len b \<and>
     bb_offset b' = bb_offset b \<and> bb_size b' = bb_size b \<and> bb_buf b' = bb_buf b"

lemma unseen_simps:
  "unseen b (BIO_clear_retry_flags b)" "unseen b (BIO_set_retry_read b)" "unseen b (BIO_set_retry_write b)"
  "unseen b (b\<lparr>bb_request := r\<rparr>)" "unseen b (b\<lparr>num_read := n\<rparr>)" "unseen b (b\<lparr>num_write := n\<rparr>)" "unseen b (b\<lparr>bio_shutdown := s\<rparr>)"
  by (simp_all add: unseen_def BIO_clear_retry_flags_def BIO_set_retry_read_def BIO_set_retry_write_def)

lemma unseen_same: "unseen b b' \<Longrightarrow> abs_bio b' = abs_bio b"
  by (simp add: unseen_def abs_bio_def contents_def ring_pos_def bio_buf_def)

lemma unseen_ok: "unseen b b' \<Longrightarrow> bb_request b' = bb_request b \<or> bb_request b' \<le> bb_size b \<and> (bb_len b \<noteq> 0 \<longrightarrow> bb_request b' = 0) \<Longrightarrow> bio_ok b \<Longrightarrow> bio_ok b'"
  by (auto simp: unseen_def bio_ok_def ring_ok_def bio_buf_def)

lemma unseen_inv:
  assumes "bios_inv h" and "h a = Some b" and "unseen b b'"
    and "bb_request b' = bb_request b \<or> bb_request b' \<le> bb_size b \<and> (bb_len b \<noteq> 0 \<longrightarrow> bb_request b' = 0)"
  shows "bios_inv (h(a \<mapsto> b'))" and "pairs (h(a \<mapsto> b')) = pairs h"
proof -
  have "bio_ok b'" by (rule unseen_ok [OF assms(3,4) bios_invD [OF assms(1,2)]])
  then show "bios_inv (h(a \<mapsto> b'))" using assms(3) by (intro inv_update [OF assms(1,2)]) (simp_all add: unseen_def)
  show "pairs (h(a \<mapsto> b')) = pairs h" using pairs_same assms(2) unseen_same [OF assms(3)] by blast
qed

lemma sint_small: "k < 2 ^ 31 \<Longrightarrow> sint (word_of_nat k :: u32) = int k"
proof -
  assume k: "k < 2 ^ 31"
  then have "uint (word_of_nat k :: u32) = int k" by (simp add: unsigned_of_nat take_bit_nat_eq_self)
  then show ?thesis using k by (simp add: sint_uint signed_take_bit_eq_take_bit_shift take_bit_eq_mod)
qed

section \<open>What each operation does\<close>

lemma ring_of: "bio_ok b \<Longrightarrow> bb_peer b = Some p \<Longrightarrow> bio_init b \<and> ring_ok b"
  by (auto simp: bio_ok_def)

definition read_ret :: "bool \<Rightarrow> bytes \<Rightarrow> nat \<Rightarrow> int" where
  "read_ret closed q n = (if q = [] then if closed then 0 else - 1 else int (min n (length q)))"

lemma bio_read_spec:
  assumes inv: "bios_inv h" and b: "h a = Some b" and p: "bb_peer b = Some p" and pb: "h p = Some pb" and n: "0 < n" "n < 2 ^ 31"
  shows "\<exists>h'. bio_read a True n h = Some (read_ret (bb_closed pb) (contents pb) (nat n), take (nat n) (contents pb), h') \<and>
    bios_inv h' \<and> pairs h' = (pairs h)(p \<mapsto> (bb_peer pb, bb_closed pb, drop (nat n) (contents pb), bb_size pb)) \<and> h' a \<noteq> None"
proof -
  have pa: "p \<noteq> a" "bio_ok pb" using bios_inv_peer [OF inv b p] pb by auto
  have init: "bio_init b" using ring_of [OF bios_invD [OF inv b] p] by simp
  obtain q where "bb_peer pb = Some q" using bios_inv_peer [OF inv b p] pb by (metis option.sel)
  then have ring: "ring_ok pb" using ring_of [OF pa(2)] by simp
  let ?b1 = "BIO_clear_retry_flags b" and ?p1 = "pb\<lparr>bb_request := 0\<rparr>"
  let ?h1 = "h(a \<mapsto> ?b1)"
  let ?h2 = "?h1(p \<mapsto> ?p1)"
  have one: "bios_inv ?h1" "pairs ?h1 = pairs h" "?h1 p = Some pb"
    using unseen_inv [OF inv b unseen_simps(1)] pb pa by (simp_all add: BIO_clear_retry_flags_def)
  have two: "bios_inv ?h2" "pairs ?h2 = pairs h" using unseen_inv [where h = ?h1, OF one(1,3) unseen_simps(4) [of pb 0]] one(2) by simp_all
  have at2: "?h2 a = Some ?b1" "?h2 p = Some ?p1" using pa by simp_all
  have b1: "bio_init ?b1" "bb_peer ?b1 = Some p" using init p by (simp_all add: BIO_clear_retry_flags_def)
  have n_mod: "nat (n mod int size_t_mod) = nat n" "nat n \<noteq> 0" "nat n < 2 ^ 31" using n by (simp_all add: size_t_mod_def)
  show ?thesis
  proof (cases "bb_len pb = 0")
    case empty: True
    then have q: "contents pb = []" using length_contents [of pb] by (metis length_0_conv)
    have drop: "(pairs h)(p \<mapsto> (bb_peer pb, bb_closed pb, drop (nat n) (contents pb), bb_size pb)) = pairs h"
      using pb q by (intro ext) (simp add: pairs_def abs_bio_def)
    show ?thesis
    proof (cases "bb_closed pb")
      case True
      then have "bio_read a True n h = Some (0, [], ?h2)"
        using b b1 pa pb n_mod empty by (simp add: bio_read_def Let_def)
      then show ?thesis using two drop q True at2 by (intro exI [of _ ?h2]) (simp add: read_ret_def)
    next
      case False
      let ?h3 = "?h2(a \<mapsto> BIO_set_retry_read ?b1)"
      let ?r = "if nat n \<le> bb_size pb then nat n else bb_size pb"
      let ?h4 = "?h3(p \<mapsto> ?p1\<lparr>bb_request := ?r\<rparr>)"
      have three: "bios_inv ?h3" "pairs ?h3 = pairs h" "?h3 p = Some ?p1"
        using unseen_inv [where h = ?h2, OF two(1) at2(1) unseen_simps(2)] two(2) at2(2) pa by (simp_all add: BIO_set_retry_read_def)
      have "bios_inv ?h4" "pairs ?h4 = pairs h"
        using unseen_inv [where h = ?h3, OF three(1,3) unseen_simps(4) [of ?p1 ?r]] three(2) empty by simp_all
      moreover have "bio_read a True n h = Some (- 1, [], ?h4)"
        using b b1 pa pb n_mod empty False by (simp add: bio_read_def Let_def)
      ultimately show ?thesis using drop q False by (intro exI [of _ ?h4]) (simp add: read_ret_def)
    qed
  next
    case some: False
    let ?k = "if bb_len pb < nat n then bb_len pb else nat n"
    have ring1: "ring_ok ?p1" using ring by (simp add: ring_ok_def bio_buf_def)
    have con1: "contents ?p1 = contents pb" by (simp add: contents_def ring_pos_def bio_buf_def)
    have k: "0 < ?k" "?k \<le> bb_len ?p1" "?k < 2 ^ 31" using some n_mod by auto
    obtain off where off: "read_loop ?k ?p1 [] = Some (take ?k (contents ?p1), ?p1\<lparr>bb_len := bb_len ?p1 - ?k, bb_offset := off\<rparr>)"
        "ring_ok (?p1\<lparr>bb_len := bb_len ?p1 - ?k, bb_offset := off\<rparr>)"
        "contents (?p1\<lparr>bb_len := bb_len ?p1 - ?k, bb_offset := off\<rparr>) = drop ?k (contents ?p1)"
      using read_loop_contents [OF ring1 k(1,2)] by blast
    let ?p2 = "?p1\<lparr>bb_len := bb_len ?p1 - ?k, bb_offset := off\<rparr>"
    let ?h3 = "?h2(p \<mapsto> ?p2)"
    have "bio_ok ?p2" using pa(2) off(2) \<open>bb_peer pb = Some q\<close> by (simp add: bio_ok_def)
    then have "bios_inv ?h3" by (intro inv_update [where h = ?h2, OF two(1) at2(2)]) simp_all
    moreover have take: "take ?k (contents pb) = take (nat n) (contents pb)" "drop ?k (contents pb) = drop (nat n) (contents pb)" by auto
    then have "pairs ?h3 = (pairs h)(p \<mapsto> (bb_peer pb, bb_closed pb, drop (nat n) (contents pb), bb_size pb))"
      unfolding pairs_update [of ?h2] two(2) using off(3) con1 by (simp add: abs_bio_def)
    moreover have "bio_read a True n h =
        (case read_loop ?k ?p1 [] of None \<Rightarrow> None | Some (out, b') \<Rightarrow> Some (sint (word_of_nat ?k :: u32), out, ?h2(p \<mapsto> b')))"
      using b b1 pa pb n_mod some by (simp add: bio_read_def Let_def split: option.split)
    then have "bio_read a True n h = Some (sint (word_of_nat ?k :: u32), take ?k (contents pb), ?h3)"
      unfolding off(1) con1 by simp
    moreover have "sint (word_of_nat ?k :: u32) = read_ret (bb_closed pb) (contents pb) (nat n)"
    proof -
      have "contents pb \<noteq> []" using some length_contents [of pb] by (metis length_0_conv)
      moreover have "?k = min (nat n) (bb_len pb)" by auto
      ultimately show ?thesis unfolding sint_small [OF k(3)] by (simp add: read_ret_def)
    qed
    ultimately show ?thesis using take pa at2 by (intro exI [of _ ?h3]) simp
  qed
qed

lemma BIO_read_spec:
  assumes inv: "bios_inv h" and b: "h a = Some b" and p: "bb_peer b = Some p" and pb: "h p = Some pb" and n: "0 < n" "n < 2 ^ 31"
  shows "\<exists>h'. BIO_read (Some a) True n h = Some (read_ret (bb_closed pb) (contents pb) (nat n), take (nat n) (contents pb), h') \<and>
    bios_inv h' \<and> pairs h' = (pairs h)(p \<mapsto> (bb_peer pb, bb_closed pb, drop (nat n) (contents pb), bb_size pb))"
proof -
  obtain h1 where h1: "bio_read a True n h = Some (read_ret (bb_closed pb) (contents pb) (nat n), take (nat n) (contents pb), h1)"
      "bios_inv h1" "pairs h1 = (pairs h)(p \<mapsto> (bb_peer pb, bb_closed pb, drop (nat n) (contents pb), bb_size pb))" "h1 a \<noteq> None"
    using bio_read_spec [OF assms] by blast
  obtain b1 where b1: "h1 a = Some b1" using h1(4) by blast
  have init: "bio_init b" using ring_of [OF bios_invD [OF inv b] p] by simp
  let ?h2 = "h1(a \<mapsto> b1\<lparr>num_read := (num_read b1 + nat (read_ret (bb_closed pb) (contents pb) (nat n))) mod size_t_mod\<rparr>)"
  have "bios_inv ?h2" "pairs ?h2 = pairs h1" using unseen_inv [OF h1(2) b1 unseen_simps(5)] by simp_all
  then show ?thesis using h1 b b1 init n by (auto simp: BIO_read_def)
qed

definition write_ret :: "bool \<Rightarrow> nat \<Rightarrow> nat \<Rightarrow> int" where
  "write_ret closed room n = (if closed \<or> room = 0 then - 1 else int (min n room))"

lemma bio_write_spec:
  assumes inv: "bios_inv h" and b: "h a = Some b" and p: "bb_peer b = Some p" and n: "0 < n" "n < 2 ^ 31" "nat n \<le> length data"
  shows "\<exists>h'. bio_write a (Some data) n h = Some (write_ret (bb_closed b) (bb_size b - bb_len b) (nat n), h') \<and> bios_inv h' \<and>
    pairs h' = (pairs h)(a \<mapsto> (bb_peer b, bb_closed b,
      contents b @ take (if bb_closed b then 0 else min (nat n) (bb_size b - bb_len b)) data, bb_size b)) \<and> h' a \<noteq> None"
proof -
  have init: "bio_init b" and ring: "ring_ok b" using ring_of [OF bios_invD [OF inv b] p] by simp_all
  let ?b1 = "BIO_clear_retry_flags b"
  let ?b2 = "?b1\<lparr>bb_request := 0\<rparr>"
  let ?h1 = "h(a \<mapsto> ?b1)"
  let ?h2 = "?h1(a \<mapsto> ?b2)"
  have one: "bios_inv ?h1" "pairs ?h1 = pairs h" "?h1 a = Some ?b1"
    using unseen_inv [OF inv b unseen_simps(1)] by (simp_all add: BIO_clear_retry_flags_def)
  have two: "bios_inv ?h2" "pairs ?h2 = pairs h" "?h2 a = Some ?b2"
    using unseen_inv [where h = ?h1, OF one(1,3) unseen_simps(4) [of ?b1 0]] one(2) by simp_all
  have b1: "bio_init ?b1" "bb_closed ?b1 = bb_closed b" "bb_len ?b1 = bb_len b" "bb_size ?b1 = bb_size b" "bb_peer ?b1 = bb_peer b"
    using init by (simp_all add: BIO_clear_retry_flags_def)
  have abs2: "abs_bio ?b2 = abs_bio b" using unseen_same [OF unseen_simps(4)] unseen_same [OF unseen_simps(1)] by metis
  then have con2: "contents ?b2 = contents b" by (simp add: abs_bio_def)
  have n_mod: "nat (n mod int size_t_mod) = nat n" "nat n \<noteq> 0" "nat n < 2 ^ 31" using n by (simp_all add: size_t_mod_def)
  have same: "(pairs h)(a \<mapsto> (bb_peer b, bb_closed b, contents b, bb_size b)) = pairs h"
    using b by (intro ext) (simp add: pairs_def abs_bio_def)
  consider (closed) "bb_closed b" | (full) "\<not> bb_closed b" "bb_len b = bb_size b" | (room) "\<not> bb_closed b" "bb_len b < bb_size b"
    using ring unfolding ring_ok_def by linarith
  then show ?thesis
  proof cases
    case closed
    then have "bio_write a (Some data) n h = Some (- 1, ?h2)" using b b1 n_mod by (simp add: bio_write_def Let_def)
    then show ?thesis using two same closed by (intro exI [of _ ?h2]) (simp add: write_ret_def)
  next
    case full
    let ?h3 = "?h2(a \<mapsto> BIO_set_retry_write ?b2)"
    have "bios_inv ?h3" "pairs ?h3 = pairs h"
      using unseen_inv [where h = ?h2, OF two(1,3) unseen_simps(3)] two(2) by (simp_all add: BIO_set_retry_write_def)
    moreover have "bio_write a (Some data) n h = Some (- 1, ?h3)" using b b1 n_mod full by (simp add: bio_write_def Let_def)
    ultimately show ?thesis using same full by (intro exI [of _ ?h3]) (simp add: write_ret_def)
  next
    case room
    let ?k = "if nat n > bb_size b - bb_len b then bb_size b - bb_len b else nat n"
    have ring2: "ring_ok ?b2" using ring by (simp add: ring_ok_def bio_buf_def BIO_clear_retry_flags_def)
    have k: "0 < ?k" "?k \<le> bb_size ?b2 - bb_len ?b2" "?k \<le> length data" "?k < 2 ^ 31" using room n_mod n b1 by auto
    obtain d where d: "write_loop ?k data ?b2 = Some (?b2\<lparr>bb_buf := Some d, bb_len := bb_len ?b2 + ?k\<rparr>)"
        "ring_ok (?b2\<lparr>bb_buf := Some d, bb_len := bb_len ?b2 + ?k\<rparr>)"
        "contents (?b2\<lparr>bb_buf := Some d, bb_len := bb_len ?b2 + ?k\<rparr>) = contents ?b2 @ take ?k data"
      using write_loop_contents [OF ring2 k(1,2,3)] by blast
    let ?b3 = "?b2\<lparr>bb_buf := Some d, bb_len := bb_len ?b2 + ?k\<rparr>"
    let ?h3 = "?h2(a \<mapsto> ?b3)"
    have "bio_ok ?b2" by (rule bios_invD [OF two(1,3)])
    then have "bio_ok ?b3" using d(2) p b1 by (simp add: bio_ok_def)
    then have "bios_inv ?h3" by (intro inv_update [where h = ?h2, OF two(1,3)]) simp_all
    moreover have "?k = min (nat n) (bb_size b - bb_len b)" by auto
    then have "pairs ?h3 = (pairs h)(a \<mapsto> (bb_peer b, bb_closed b, contents b @ take (min (nat n) (bb_size b - bb_len b)) data, bb_size b))"
      unfolding pairs_update [of ?h2] two(2) using d(3) con2 b1 by (simp add: abs_bio_def)
    moreover have "bio_write a (Some data) n h =
        (case write_loop ?k data ?b2 of None \<Rightarrow> None | Some b' \<Rightarrow> Some (sint (word_of_nat ?k :: u32), ?h2(a \<mapsto> b')))"
      using b b1 n_mod room by (simp add: bio_write_def Let_def split: option.split)
    then have "bio_write a (Some data) n h = Some (sint (word_of_nat ?k :: u32), ?h3)" unfolding d(1) by simp
    moreover have "sint (word_of_nat ?k :: u32) = write_ret (bb_closed b) (bb_size b - bb_len b) (nat n)"
      unfolding sint_small [OF k(4)] using room by (simp add: write_ret_def min_def)
    ultimately show ?thesis using room by (intro exI [of _ ?h3]) simp
  qed
qed

lemma BIO_write_spec:
  assumes inv: "bios_inv h" and b: "h a = Some b" and p: "bb_peer b = Some p" and n: "0 < n" "n < 2 ^ 31" "nat n \<le> length data"
  shows "\<exists>h'. BIO_write (Some a) (Some data) n h = Some (write_ret (bb_closed b) (bb_size b - bb_len b) (nat n), h') \<and> bios_inv h' \<and>
    pairs h' = (pairs h)(a \<mapsto> (bb_peer b, bb_closed b,
      contents b @ take (if bb_closed b then 0 else min (nat n) (bb_size b - bb_len b)) data, bb_size b))"
proof -
  obtain h1 where h1: "bio_write a (Some data) n h = Some (write_ret (bb_closed b) (bb_size b - bb_len b) (nat n), h1)" "bios_inv h1"
      "pairs h1 = (pairs h)(a \<mapsto> (bb_peer b, bb_closed b,
        contents b @ take (if bb_closed b then 0 else min (nat n) (bb_size b - bb_len b)) data, bb_size b))" "h1 a \<noteq> None"
    using bio_write_spec [OF assms] by blast
  obtain b1 where b1: "h1 a = Some b1" using h1(4) by blast
  have init: "bio_init b" using ring_of [OF bios_invD [OF inv b] p] by simp
  let ?h2 = "h1(a \<mapsto> b1\<lparr>num_write := (num_write b1 + nat (write_ret (bb_closed b) (bb_size b - bb_len b) (nat n))) mod size_t_mod\<rparr>)"
  have "bios_inv ?h2" "pairs ?h2 = pairs h1" using unseen_inv [OF h1(2) b1 unseen_simps(6)] by simp_all
  then show ?thesis using h1 b b1 init n by (auto simp: BIO_write_def)
qed

lemma BIO_read_inv:
  assumes inv: "bios_inv h" and b: "h a = Some b" and n: "n < 2 ^ 31" and res: "BIO_read (Some a) buf n h = Some (ret, out, h')"
  shows "bios_inv h'"
proof (cases "bio_init b \<and> 0 < n")
  case True
  then obtain p where p: "bb_peer b = Some p" using bios_invD [OF inv b] by (auto simp: bio_ok_def)
  then obtain pb where pb: "h p = Some pb" "p \<noteq> a" using bios_inv_peer [OF inv b] by metis
  show ?thesis
  proof (cases buf)
    case buf: True
    then show ?thesis using BIO_read_spec [OF inv b p pb(1) _ n] True res by auto
  next
    case False
    let ?h1 = "h(a \<mapsto> BIO_clear_retry_flags b)"
    have one: "bios_inv ?h1" "?h1 p = Some pb" using unseen_inv [OF inv b unseen_simps(1)] pb by (simp_all add: BIO_clear_retry_flags_def)
    have "bios_inv (?h1(p \<mapsto> pb\<lparr>bb_request := 0\<rparr>))" using unseen_inv [where h = ?h1, OF one unseen_simps(4) [of pb 0]] by simp
    moreover have "bio_read a buf n h = Some (0, [], ?h1(p \<mapsto> pb\<lparr>bb_request := 0\<rparr>))"
      using False True b p pb by (simp add: bio_read_def Let_def BIO_clear_retry_flags_def)
    ultimately show ?thesis using res True b by (simp add: BIO_read_def)
  qed
next
  case False
  then show ?thesis using inv b res by (auto simp: BIO_read_def split: if_splits)
qed

lemma BIO_write_inv:
  assumes inv: "bios_inv h" and b: "h a = Some b" and n: "n < 2 ^ 31" "\<forall>data. buf = Some data \<longrightarrow> nat n \<le> length data"
    and res: "BIO_write (Some a) buf n h = Some (ret, h')"
  shows "bios_inv h'"
proof (cases "bio_init b \<and> 0 < n")
  case True
  then obtain p where p: "bb_peer b = Some p" using bios_invD [OF inv b] by (auto simp: bio_ok_def)
  show ?thesis
  proof (cases buf)
    case (Some data)
    then show ?thesis using BIO_write_spec [OF inv b p _ n(1), of data] n(2) True res by auto
  next
    case None
    let ?h1 = "h(a \<mapsto> BIO_clear_retry_flags b)"
    have "bios_inv ?h1" using unseen_inv [OF inv b unseen_simps(1)] by (simp add: BIO_clear_retry_flags_def)
    moreover have "bio_write a buf n h = Some (0, ?h1)" using None b by (simp add: bio_write_def Let_def)
    ultimately show ?thesis using res True b by (simp add: BIO_write_def)
  qed
next
  case False
  then show ?thesis using inv b res by (auto simp: BIO_write_def split: if_splits)
qed

lemma bio_ctrl_inv:
  assumes inv: "bios_inv h" and b: "h a = Some b" and res: "bio_ctrl a cmd num ptr h = (ret, h')"
  shows "bios_inv h'"
proof -
  have ok: "bio_ok b" by (rule bios_invD [OF inv b])
  have "bios_inv (h(a \<mapsto> b\<lparr>bb_closed := True\<rparr>))"
    by (rule inv_update [OF inv b]) (use ok in \<open>simp_all add: bio_ok_def ring_ok_def bio_buf_def\<close>)
  moreover have "bios_inv (h(a \<mapsto> b\<lparr>bb_request := 0\<rparr>))" using unseen_inv [OF inv b unseen_simps(4) [of b 0]] by simp
  moreover have "bios_inv (h(a \<mapsto> b\<lparr>bio_shutdown := s\<rparr>))" for s using unseen_inv [OF inv b unseen_simps(7) [of b s]] by simp
  ultimately show ?thesis using inv b res by (cases cmd) (auto simp: bio_ctrl_def Let_def)
qed

lemma BIO_free_inv:
  assumes inv: "bios_inv h" and b: "h a = Some b"
  shows "bios_inv (BIO_free (Some a) h)"
proof (cases "bb_peer b")
  case None
  have "bios_inv (h(a := None))"
    unfolding bios_inv_def
  proof (intro allI impI conjI)
    fix x y assume y: "(h(a := None)) x = Some y"
    then have x: "x \<noteq> a" "h x = Some y" by (auto split: if_splits)
    show "bio_ok y" by (rule bios_invD [OF inv x(2)])
    fix p assume p: "bb_peer y = Some p"
    obtain pb where pb: "h p = Some pb" "bb_peer pb = Some x" "p \<noteq> x" by (rule bios_inv_peer [OF inv x(2) p])
    then have "p \<noteq> a" using b None by auto
    then show "p \<noteq> x" and "\<exists>pb. (h(a := None)) p = Some pb \<and> bb_peer pb = Some x" using pb by auto
  qed
  then show ?thesis using None b by (simp add: BIO_free_def bio_free_def)
next
  case (Some p)
  obtain pb where pb: "h p = Some pb" "bb_peer pb = Some a" "p \<noteq> a" "bio_ok pb" by (rule bios_inv_peer [OF inv b Some])
  let ?pb = "pb\<lparr>bb_peer := None, bio_init := False, bb_len := 0, bb_offset := 0\<rparr>"
  let ?h = "h(p \<mapsto> ?pb, a := None)"
  have ok: "bio_ok ?pb" using pb(4) by (auto simp: bio_ok_def ring_ok_def bio_buf_def)
  have "bios_inv ?h"
    unfolding bios_inv_def
  proof (intro allI impI conjI)
    fix x y assume y: "?h x = Some y"
    then have x: "x \<noteq> a" by (auto split: if_splits)
    show "bio_ok y" using y x ok bios_invD [OF inv] by (cases "x = p") auto
    fix q assume q: "bb_peer y = Some q"
    then have "x \<noteq> p" using y x by auto
    then have hx: "h x = Some y" using y x by simp
    obtain qb where qb: "h q = Some qb" "bb_peer qb = Some x" "q \<noteq> x" by (rule bios_inv_peer [OF inv hx q])
    have "q \<noteq> a" using qb(1,2) b Some \<open>x \<noteq> p\<close> by auto
    moreover have "q \<noteq> p" using qb(1,2) pb(1,2) x by auto
    ultimately show "q \<noteq> x" and "\<exists>pb. ?h q = Some pb \<and> bb_peer pb = Some x" using qb by auto
  qed
  moreover have "BIO_free (Some a) h = ?h"
    using Some b pb by (intro ext) (simp add: BIO_free_def bio_free_def bio_destroy_pair_def Let_def)
  ultimately show ?thesis by simp
qed

text \<open>A new pair: two empty buffers of the sizes asked for, or nothing.\<close>

definition new_side :: "bio \<Rightarrow> nat \<Rightarrow> nat \<Rightarrow> bool" where
  "new_side b p w \<longleftrightarrow> bio_init b \<and> bb_peer b = Some p \<and> \<not> bb_closed b \<and> bb_len b = 0 \<and> bb_offset b = 0 \<and> bb_request b = 0 \<and>
     bb_size b = (if w = 0 then 17 * 1024 else w) \<and> (\<exists>d. bb_buf b = Some d \<and> length d = bb_size b)"

lemma attach_buffer_new:
  assumes "bb_buf b = None" and "bb_size b = 17 * 1024" and "w < 2 ^ 63"
  shows "attach_buffer alloc w b = (False, b\<lparr>bb_size := if w = 0 then 17 * 1024 else w\<rparr>) \<or>
    (\<exists>d. attach_buffer alloc w b = (True, b\<lparr>bb_size := if w = 0 then 17 * 1024 else w, bb_buf := Some d, bb_len := 0, bb_offset := 0\<rparr>) \<and>
       length d = (if w = 0 then 17 * 1024 else w))"
proof -
  let ?n = "if w = 0 then 17 * 1024 else w"
  have n: "?n + 8 < size_t_mod" using assms(3) by (simp add: size_t_mod_def)
  have eq: "attach_buffer alloc w b = (case OPENSSL_malloc alloc ?n of None \<Rightarrow> (False, b\<lparr>bb_size := ?n\<rparr>)
      | Some d \<Rightarrow> (True, b\<lparr>bb_size := ?n, bb_buf := Some d, bb_len := 0, bb_offset := 0\<rparr>))"
    using assms(1,2) by (simp add: attach_buffer_def Let_def split: option.split)
  show ?thesis
  proof (cases "OPENSSL_malloc alloc ?n")
    case None
    then show ?thesis unfolding eq by simp
  next
    case (Some d)
    have "length d = ?n" by (rule OPENSSL_malloc_length [OF Some n])
    then show ?thesis unfolding eq Some by auto
  qed
qed

lemma bio_make_pair_new:
  assumes sides: "h a1 = Some b" "h a2 = Some b" "a1 \<noteq> a2" and b: "bb_buf b = None" "bb_size b = 17 * 1024" "bb_peer b = None"
    and w: "w1 < 2 ^ 63" "w2 < 2 ^ 63"
  shows "(\<exists>b1 b2. bio_make_pair alloc a1 a2 w1 w2 h = (True, h(a1 \<mapsto> b1, a2 \<mapsto> b2)) \<and> new_side b1 a2 w1 \<and> new_side b2 a1 w2) \<or>
    (\<exists>b1 b2. bio_make_pair alloc a1 a2 w1 w2 h = (False, h(a1 \<mapsto> b1, a2 \<mapsto> b2)) \<and> bb_peer b1 = None \<and> bb_peer b2 = None)"
proof -
  obtain ok1 c1 where c1: "attach_buffer alloc w1 b = (ok1, c1)" by (rule prod.exhaust)
  obtain ok2 c2 where c2: "attach_buffer alloc w2 b = (ok2, c2)" by (rule prod.exhaust)
  have peers: "bb_peer c1 = None" "bb_peer c2 = None"
    using attach_buffer_new [OF b(1,2) w(1), of alloc] attach_buffer_new [OF b(1,2) w(2), of alloc] c1 c2 b(3) by auto
  show ?thesis
  proof (cases "ok1 \<and> ok2")
    case True
    let ?b1 = "c1\<lparr>bb_peer := Some a2, bb_closed := False, bb_request := 0, bio_init := True\<rparr>"
    let ?b2 = "c2\<lparr>bb_peer := Some a1, bb_closed := False, bb_request := 0, bio_init := True\<rparr>"
    have "new_side ?b1 a2 w1" "new_side ?b2 a1 w2"
      using attach_buffer_new [OF b(1,2) w(1), of alloc] attach_buffer_new [OF b(1,2) w(2), of alloc] c1 c2 True
      by (auto simp: new_side_def)
    moreover have "bio_make_pair alloc a1 a2 w1 w2 h = (True, h(a1 \<mapsto> ?b1, a2 \<mapsto> ?b2))"
      using sides b(3) c1 c2 True by (simp add: bio_make_pair_def Let_def fun_upd_twist)
    ultimately show ?thesis by blast
  next
    case False
    have "\<exists>b1 b2. bio_make_pair alloc a1 a2 w1 w2 h = (False, h(a1 \<mapsto> b1, a2 \<mapsto> b2)) \<and> bb_peer b1 = None \<and> bb_peer b2 = None"
    proof (cases ok1)
      case True
      then show ?thesis using sides b(3) c1 c2 False peers
        by (intro exI [of _ c1] exI [of _ c2]) (simp add: bio_make_pair_def Let_def)
    next
      case False
      have "h(a1 \<mapsto> c1, a2 \<mapsto> b) = h(a1 \<mapsto> c1)" using sides by (intro ext) simp
      then show ?thesis using sides b(3) c1 False peers
        by (intro exI [of _ c1] exI [of _ b]) (simp add: bio_make_pair_def Let_def)
    qed
    then show ?thesis by blast
  qed
qed

lemma BIO_free_unpaired: "bb_peer (bio_at h a) = None \<Longrightarrow> BIO_free (Some a) h = h(a := None)"
  by (simp add: BIO_free_def bio_free_def)

lemma new_bio_pair:
  assumes fresh: "h a1 = None" "h a2 = None" "a1 \<noteq> a2" and w: "w1 < 2 ^ 63" "w2 < 2 ^ 63"
  shows "BIO_new_bio_pair alloc a1 a2 w1 w2 h = (None, h) \<or>
    (\<exists>b1 b2. BIO_new_bio_pair alloc a1 a2 w1 w2 h = (Some (a1, a2), h(a1 \<mapsto> b1, a2 \<mapsto> b2)) \<and> new_side b1 a2 w1 \<and> new_side b2 a1 w2)"
proof (cases "OPENSSL_malloc alloc sizeof_BIO = None \<or> OPENSSL_malloc alloc sizeof_bio_bio = None")
  case True
  then have "BIO_new alloc a h' = None" for a h' by (auto simp: BIO_new_def bio_new_def Let_def)
  then show ?thesis by (simp add: BIO_new_bio_pair_def BIO_free_def)
next
  case False
  let ?b = "\<lparr>bio_init = False, bio_shutdown = 1, bio_flags = 0, retry_reason = 0, num_read = 0, num_write = 0,
    bb_peer = None, bb_closed = False, bb_len = 0, bb_offset = 0, bb_size = 17 * 1024, bb_buf = None, bb_request = 0\<rparr>"
  let ?h = "h(a1 \<mapsto> ?b, a2 \<mapsto> ?b)"
  have new: "BIO_new alloc a h' = Some (h'(a \<mapsto> ?b))" for a h' using False by (simp add: BIO_new_def bio_new_def Let_def)
  have sides: "?h a1 = Some ?b" "?h a2 = Some ?b" using fresh by simp_all
  obtain ok h2 where pair: "bio_make_pair alloc a1 a2 w1 w2 ?h = (ok, h2)" by (rule prod.exhaust)
  have res: "BIO_new_bio_pair alloc a1 a2 w1 w2 h =
      (if \<not> ok then (None, BIO_free (Some a2) (BIO_free (Some a1) h2)) else (Some (a1, a2), h2))"
    using pair by (simp add: BIO_new_bio_pair_def new Let_def)
  have again: "?h(a1 \<mapsto> b1, a2 \<mapsto> b2) = h(a1 \<mapsto> b1, a2 \<mapsto> b2)" for b1 b2 using fresh by (intro ext) simp
  from bio_make_pair_new [of ?h a1 ?b a2, OF sides fresh(3) _ _ _ w, of alloc]
  consider (made) b1 b2 where "ok" "h2 = h(a1 \<mapsto> b1, a2 \<mapsto> b2)" "new_side b1 a2 w1" "new_side b2 a1 w2"
    | (failed) b1 b2 where "\<not> ok" "h2 = h(a1 \<mapsto> b1, a2 \<mapsto> b2)" "bb_peer b1 = None" "bb_peer b2 = None"
    unfolding pair again by auto
  then show ?thesis
  proof cases
    case made
    then show ?thesis unfolding res by auto
  next
    case failed
    have "BIO_free (Some a2) (BIO_free (Some a1) h2) = h"
      using failed fresh by (intro ext) (simp add: BIO_free_def bio_free_def)
    then show ?thesis unfolding res using failed(1) by simp
  qed
qed

lemma new_side_ok: "new_side b p w \<Longrightarrow> w < 2 ^ 63 \<Longrightarrow> bio_ok b"
  by (auto simp: new_side_def bio_ok_def ring_ok_def bio_buf_def split: if_splits)

lemma new_bio_pair_inv:
  assumes inv: "bios_inv h" and fresh: "h a1 = None" "h a2 = None" "a1 \<noteq> a2" and w: "w1 < 2 ^ 63" "w2 < 2 ^ 63"
    and res: "BIO_new_bio_pair alloc a1 a2 w1 w2 h = (r, h')"
  shows "bios_inv h'"
  using new_bio_pair [OF fresh w, of alloc] unfolding res
proof (elim disjE exE conjE)
  fix b1 b2 assume h': "(r, h') = (Some (a1, a2), h(a1 \<mapsto> b1, a2 \<mapsto> b2))" and b1: "new_side b1 a2 w1" and b2: "new_side b2 a1 w2"
  show "bios_inv h'"
    unfolding bios_inv_def
  proof (intro allI impI)
    fix x y assume y: "h' x = Some y"
    show "bio_ok y \<and> (\<forall>p. bb_peer y = Some p \<longrightarrow> p \<noteq> x \<and> (\<exists>pb. h' p = Some pb \<and> bb_peer pb = Some x))"
    proof (cases "x = a1 \<or> x = a2")
      case True
      then show ?thesis using y h' b1 b2 fresh(3) new_side_ok [OF b1 w(1)] new_side_ok [OF b2 w(2)]
        by (auto simp: new_side_def split: if_splits)
    next
      case False
      then have hx: "h x = Some y" using y h' by simp
      have "p \<noteq> x \<and> (\<exists>pb. h' p = Some pb \<and> bb_peer pb = Some x)" if p: "bb_peer y = Some p" for p
      proof -
        obtain pb where pb: "h p = Some pb" "bb_peer pb = Some x" "p \<noteq> x" by (rule bios_inv_peer [OF inv hx p])
        then have "p \<noteq> a1" "p \<noteq> a2" using fresh by auto
        then show ?thesis using pb h' by simp
      qed
      then show ?thesis using bios_invD [OF inv hx] by blast
    qed
  qed
qed (use inv in simp)

section \<open>Every heap of BIO pairs\<close>

text \<open>
  What the application can do: make pairs at free addresses, with buffers that memory can
  hold, free any BIO, read, write and control, with arguments of type \<open>int\<close>, and with as many
  bytes to write as it says.
\<close>

inductive bio_reachable :: "bios \<Rightarrow> bool" where
  reach_empty: "bio_reachable Map.empty"
| reach_pair: "bio_reachable h \<Longrightarrow> h a1 = None \<Longrightarrow> h a2 = None \<Longrightarrow> a1 \<noteq> a2 \<Longrightarrow> w1 < 2 ^ 63 \<Longrightarrow> w2 < 2 ^ 63 \<Longrightarrow>
    BIO_new_bio_pair alloc a1 a2 w1 w2 h = (r, h') \<Longrightarrow> bio_reachable h'"
| reach_free: "bio_reachable h \<Longrightarrow> h a = Some b \<Longrightarrow> bio_reachable (BIO_free (Some a) h)"
| reach_read: "bio_reachable h \<Longrightarrow> h a = Some b \<Longrightarrow> n < 2 ^ 31 \<Longrightarrow> BIO_read (Some a) buf n h = Some (ret, out, h') \<Longrightarrow>
    bio_reachable h'"
| reach_write: "bio_reachable h \<Longrightarrow> h a = Some b \<Longrightarrow> n < 2 ^ 31 \<Longrightarrow> \<forall>data. buf = Some data \<longrightarrow> nat n \<le> length data \<Longrightarrow>
    BIO_write (Some a) buf n h = Some (ret, h') \<Longrightarrow> bio_reachable h'"
| reach_ctrl: "bio_reachable h \<Longrightarrow> h a = Some b \<Longrightarrow> bio_ctrl a cmd num ptr h = (ret, h') \<Longrightarrow> bio_reachable h'"

lemma bio_reachable_inv: "bio_reachable h \<Longrightarrow> bios_inv h"
proof (induction rule: bio_reachable.induct)
  case reach_empty
  then show ?case by (simp add: bios_inv_def)
next
  case (reach_pair h a1 a2 w1 w2 alloc r h')
  show ?case by (rule new_bio_pair_inv [OF reach_pair(8,2,3,4,5,6,7)])
next
  case (reach_free h a b)
  show ?case by (rule BIO_free_inv [OF reach_free(3,2)])
next
  case (reach_read h a b n buf ret out h')
  show ?case by (rule BIO_read_inv [OF reach_read(5,2,3,4)])
next
  case (reach_write h a b n buf ret h')
  show ?case by (rule BIO_write_inv [OF reach_write(6,2,3,4,5)])
next
  case (reach_ctrl h a b cmd num ptr ret h')
  show ?case by (rule bio_ctrl_inv [OF reach_ctrl(4,2,3)])
qed

section \<open>Properties\<close>

text \<open>The bytes on their way from a BIO to its peer, and whether it was shut down.\<close>

definition sent :: "bios \<Rightarrow> nat \<Rightarrow> bytes" where
  "sent h a = contents (bio_at h a)"

text \<open>
  C39: A BIO pair is two queues.  In every state that can be reached a read from a paired BIO
  ends and takes the oldest bytes its peer has sent, as many as it asks for and there are; with
  none it returns 0 if the peer was shut down and -1 otherwise.  A write ends and appends the
  first bytes of the data, as many as there is room for; it returns -1 without room or after
  the BIO was shut down.  No other BIO changes, and the peers stay peers of each other.
\<close>

theorem bio_pair_queues:
  assumes "bio_reachable h" and "h a = Some b" and "bb_peer b = Some p" and "0 < n" and "n < 2 ^ 31" and "nat n \<le> length data"
  shows "(\<exists>h'. BIO_read (Some a) True n h =
        Some (if sent h p = [] then if bb_closed (bio_at h p) then 0 else - 1 else int (min (nat n) (length (sent h p))),
              take (nat n) (sent h p), h') \<and>
      pairs h' = (pairs h)(p \<mapsto> (Some a, bb_closed (bio_at h p), drop (nat n) (sent h p), bb_size (bio_at h p)))) \<and>
    (\<exists>h'. BIO_write (Some a) (Some data) n h =
        Some (if bb_closed b \<or> length (sent h a) = bb_size b then - 1 else int (min (nat n) (bb_size b - length (sent h a))), h') \<and>
      pairs h' = (pairs h)(a \<mapsto> (Some p, bb_closed b,
        sent h a @ take (if bb_closed b then 0 else min (nat n) (bb_size b - length (sent h a))) data, bb_size b)))"
proof
  have inv: "bios_inv h" by (rule bio_reachable_inv [OF assms(1)])
  obtain pb where pb: "h p = Some pb" "bb_peer pb = Some a" by (rule bios_inv_peer [OF inv assms(2,3)])
  show "\<exists>h'. BIO_read (Some a) True n h =
        Some (if sent h p = [] then if bb_closed (bio_at h p) then 0 else - 1 else int (min (nat n) (length (sent h p))),
              take (nat n) (sent h p), h') \<and>
      pairs h' = (pairs h)(p \<mapsto> (Some a, bb_closed (bio_at h p), drop (nat n) (sent h p), bb_size (bio_at h p)))"
    using BIO_read_spec [OF inv assms(2,3) pb(1) assms(4,5)] pb by (auto simp: read_ret_def sent_def)
  have "bb_len b \<le> bb_size b" using ring_of [OF bios_invD [OF inv assms(2)] assms(3)] by (simp add: ring_ok_def)
  then have ret: "write_ret (bb_closed b) (bb_size b - bb_len b) (nat n) =
      (if bb_closed b \<or> length (sent h a) = bb_size b then - 1 else int (min (nat n) (bb_size b - length (sent h a))))"
    using assms(2) by (auto simp: write_ret_def sent_def)
  have queue: "contents b = sent h a" "bb_len b = length (sent h a)" using assms(2) by (simp_all add: sent_def)
  show "\<exists>h'. BIO_write (Some a) (Some data) n h =
        Some (if bb_closed b \<or> length (sent h a) = bb_size b then - 1 else int (min (nat n) (bb_size b - length (sent h a))), h') \<and>
      pairs h' = (pairs h)(a \<mapsto> (Some p, bb_closed b,
        sent h a @ take (if bb_closed b then 0 else min (nat n) (bb_size b - length (sent h a))) data, bb_size b))"
    using BIO_write_spec [OF inv assms(2,3,4,5,6)] unfolding queue ret [unfolded queue] assms(3) by blast
qed

text \<open>Reading again and again, and what the last read of all returns.\<close>

primrec read_on :: "int list \<Rightarrow> nat \<Rightarrow> bios \<Rightarrow> (bytes \<times> bios) option" where
  "read_on [] a h = Some ([], h)"
| "read_on (n # ns) a h =
     (case BIO_read (Some a) True n h of
        None \<Rightarrow> None
      | Some (ret, out, h') \<Rightarrow> map_option (\<lambda>(rest, h''). (out @ rest, h'')) (read_on ns a h'))"

lemma pairs_Some: "pairs h x = Some (p, c, q, s) \<Longrightarrow>
    \<exists>b. h x = Some b \<and> bb_peer b = p \<and> bb_closed b = c \<and> contents b = q \<and> bb_size b = s"
  by (auto simp: pairs_def abs_bio_def)

lemma read_on_spec:
  assumes "bios_inv h" and "pairs h a = Some (Some p, c, q, s)" and "pairs h p = Some (Some a, c', q', s')"
    and "\<forall>n \<in> set ns. 0 < n \<and> n < 2 ^ 31"
  shows "\<exists>h'. read_on ns a h = Some (take (nat (sum_list ns)) q', h') \<and> bios_inv h' \<and>
    pairs h' = (pairs h)(p \<mapsto> (Some a, c', drop (nat (sum_list ns)) q', s'))"
  using assms
proof (induction ns arbitrary: h q')
  case Nil
  then have "pairs h = (pairs h)(p \<mapsto> (Some a, c', q', s'))" by auto
  then show ?case using Nil by simp
next
  case (Cons n ns)
  obtain b where b: "h a = Some b" "bb_peer b = Some p" using pairs_Some [OF Cons.prems(2)] by blast
  obtain pb where pb: "h p = Some pb" "bb_peer pb = Some a" "bb_closed pb = c'" "contents pb = q'" "bb_size pb = s'"
    using pairs_Some [OF Cons.prems(3)] by blast
  have n: "0 < n" "n < 2 ^ 31" using Cons.prems(4) by simp_all
  obtain ret h1 where h1: "BIO_read (Some a) True n h = Some (ret, take (nat n) q', h1)" "bios_inv h1"
      "pairs h1 = (pairs h)(p \<mapsto> (Some a, c', drop (nat n) q', s'))"
    using BIO_read_spec [OF Cons.prems(1) b pb(1) n] pb by auto
  have "p \<noteq> a" using bios_inv_peer [OF Cons.prems(1) b] by metis
  then have a: "pairs h1 a = Some (Some p, c, q, s)" using h1(3) Cons.prems(2) by simp
  have p: "pairs h1 p = Some (Some a, c', drop (nat n) q', s')" using h1(3) by simp
  have rest: "\<forall>n \<in> set ns. 0 < n \<and> n < 2 ^ 31" using Cons.prems(4) by simp
  obtain h2 where h2: "read_on ns a h1 = Some (take (nat (sum_list ns)) (drop (nat n) q'), h2)" "bios_inv h2"
      "pairs h2 = (pairs h1)(p \<mapsto> (Some a, c', drop (nat (sum_list ns)) (drop (nat n) q'), s'))"
    using Cons.IH [OF h1(2) a p rest] by blast
  have "0 \<le> sum_list ns" using Cons.prems(4) by (intro sum_list_nonneg) auto
  then have sum: "nat (sum_list (n # ns)) = nat n + nat (sum_list ns)" using n by (simp add: nat_add_distrib)
  have "read_on (n # ns) a h = Some (take (nat (sum_list (n # ns))) q', h2)" using h1(1) h2(1) unfolding sum by (simp add: take_add)
  moreover have "pairs h2 = (pairs h)(p \<mapsto> (Some a, c', drop (nat (sum_list (n # ns))) q', s'))"
    unfolding h2(3) h1(3) sum by (intro ext) (simp add: add.commute)
  ultimately show ?case using h2(2) by blast
qed

text \<open>
  C40: Nothing that was sent is lost: however much is asked for at a time, after as many reads
  as there are bytes on the way, all of them have been delivered, in order, nothing more can be
  read, and the next read says that the peer has shut down or that it is to be tried again.
\<close>

theorem bio_pair_delivers:
  assumes "bio_reachable h" and "h a = Some b" and "bb_peer b = Some p" and "\<forall>n \<in> set ns. 0 < n \<and> n < 2 ^ 31"
    and "length (sent h p) \<le> length ns" and "0 < k" and "k < 2 ^ 31"
  shows "\<exists>h'. read_on ns a h = Some (sent h p, h') \<and> sent h' p = [] \<and>
    map_option fst (BIO_read (Some a) True k h') = Some (if bb_closed (bio_at h p) then 0 else - 1)"
proof -
  have inv: "bios_inv h" by (rule bio_reachable_inv [OF assms(1)])
  obtain pb where pb: "h p = Some pb" "bb_peer pb = Some a" by (rule bios_inv_peer [OF inv assms(2,3)])
  have views: "pairs h a = Some (Some p, bb_closed b, contents b, bb_size b)" "pairs h p = Some (Some a, bb_closed pb, contents pb, bb_size pb)"
    using assms(2,3) pb by (simp_all add: pairs_def abs_bio_def)
  obtain h' where h': "read_on ns a h = Some (take (nat (sum_list ns)) (contents pb), h')" "bios_inv h'"
      "pairs h' = (pairs h)(p \<mapsto> (Some a, bb_closed pb, drop (nat (sum_list ns)) (contents pb), bb_size pb))"
    using read_on_spec [OF inv views assms(4)] by blast
  have "int (length ns) \<le> sum_list ns" using assms(4) by (induction ns) auto
  then have all: "length (contents pb) \<le> nat (sum_list ns)" using assms(5) pb(1) by (simp add: sent_def)
  have "p \<noteq> a" using bios_inv_peer [OF inv assms(2,3)] by metis
  then obtain b1 where b1: "h' a = Some b1" "bb_peer b1 = Some p" using pairs_Some [of h' a] h'(3) views(1) by auto
  obtain pb1 where pb1: "h' p = Some pb1" "bb_closed pb1 = bb_closed pb" "contents pb1 = []"
    using pairs_Some [of h' p] h'(3) all by auto
  show ?thesis
    using BIO_read_spec [OF h'(2) b1 pb1(1) assms(6,7)] pb1 pb(1) h'(1) all
    by (intro exI [of _ h']) (auto simp: sent_def read_ret_def)
qed

section \<open>A pair in use\<close>

definition small_pair :: bios where
  "small_pair = snd (BIO_new_bio_pair (\<lambda>n. True) 16 32 4 4 Map.empty)"

lemma small_pair_sides: "\<exists>b1 b2. small_pair = [16 \<mapsto> b1, 32 \<mapsto> b2] \<and> new_side b1 32 4 \<and> new_side b2 16 4"
proof -
  have "fst (BIO_new_bio_pair (\<lambda>n. True) 16 32 4 4 Map.empty) \<noteq> None"
    by (simp add: BIO_new_bio_pair_def BIO_new_def bio_new_def bio_make_pair_def attach_buffer_def OPENSSL_malloc_def Let_def)
  then obtain b1 b2 where "BIO_new_bio_pair (\<lambda>n. True) 16 32 4 4 Map.empty = (Some (16, 32), [16 \<mapsto> b1, 32 \<mapsto> b2])"
      "new_side b1 32 4" "new_side b2 16 4"
    using new_bio_pair [of Map.empty 16 32 4 4 "\<lambda>n. True"] by auto
  moreover from this(1) have "small_pair = [16 \<mapsto> b1, 32 \<mapsto> b2]" unfolding small_pair_def by (metis snd_conv)
  ultimately show ?thesis by blast
qed

lemma small_pair_reachable: "bio_reachable small_pair"
proof -
  obtain r h' where "BIO_new_bio_pair (\<lambda>n. True) 16 32 4 4 Map.empty = (r, h')" by (rule prod.exhaust)
  then show ?thesis using reach_pair [OF reach_empty, of 16 32 4 4] by (simp add: small_pair_def)
qed

lemma bio_pair_queues_witness:
  "(\<exists>h'. BIO_read (Some 16) True 5 small_pair = Some (- 1, [], h')) \<and>
    (\<exists>h'. BIO_write (Some 16) (Some [97, 98, 99, 100, 101]) 5 small_pair = Some (4, h') \<and>
       pairs h' 16 = Some (Some 32, False, [97, 98, 99, 100], 4))"
proof -
  obtain b1 b2 where sides: "small_pair = [16 \<mapsto> b1, 32 \<mapsto> b2]" "new_side b1 32 4" "new_side b2 16 4" using small_pair_sides by blast
  have "small_pair 16 = Some b1" unfolding sides(1) by simp
  moreover have "bb_peer b1 = Some 32" using sides(2) by (simp add: new_side_def)
  ultimately have b1: "small_pair 16 = Some b1" "bb_peer b1 = Some 32" by blast+
  have b2: "small_pair 32 = Some b2" unfolding sides(1) by simp
  have facts: "sent small_pair 16 = []" "sent small_pair 32 = []" "\<not> bb_closed b1" "bb_size b1 = 4" "\<not> bb_closed (bio_at small_pair 32)"
    using b1(1) b2 sides(2,3) by (simp_all add: sent_def contents_def new_side_def)
  show ?thesis
    using bio_pair_queues [OF small_pair_reachable b1, of 5 "[97, 98, 99, 100, 101]"] facts by auto
qed

definition after_write :: bios where
  "after_write = snd (the (BIO_write (Some 16) (Some [97, 98, 99]) 3 small_pair))"

lemma after_write_reachable:
  "bio_reachable after_write \<and> pairs after_write 16 = Some (Some 32, False, [97, 98, 99], 4) \<and> pairs after_write 32 = Some (Some 16, False, [], 4)"
proof -
  obtain b1 b2 where sides: "small_pair = [16 \<mapsto> b1, 32 \<mapsto> b2]" "new_side b1 32 4" "new_side b2 16 4" using small_pair_sides by blast
  have "small_pair 16 = Some b1" unfolding sides(1) by simp
  moreover have "bb_peer b1 = Some 32" using sides(2) by (simp add: new_side_def)
  ultimately have b1: "small_pair 16 = Some b1" "bb_peer b1 = Some 32" by blast+
  have b2: "small_pair 32 = Some b2" unfolding sides(1) by simp
  have view: "bb_closed b1 = False" "bb_size b1 = 4" "bb_len b1 = 0" "contents b1 = []" using sides by (simp_all add: contents_def new_side_def)
  obtain h' where h': "BIO_write (Some 16) (Some [97, 98, 99]) 3 small_pair = Some (3, h')"
      "pairs h' = (pairs small_pair)(16 \<mapsto> (Some 32, False, [97, 98, 99], 4))"
    using BIO_write_spec [OF bio_reachable_inv [OF small_pair_reachable] b1, of 3 "[97, 98, 99]"] view b1(2)
    by (auto simp: write_ret_def)
  then have after: "after_write = h'" by (simp add: after_write_def)
  have "bio_reachable h'" by (rule reach_write [OF small_pair_reachable b1(1) _ _ h'(1)]) simp_all
  moreover have "pairs small_pair 32 = Some (Some 16, False, [], 4)"
    using b2 sides(3) by (simp add: pairs_def abs_bio_def new_side_def contents_def)
  ultimately show ?thesis unfolding after h'(2) by simp
qed

lemma bio_pair_delivers_witness:
  "\<exists>h'. read_on [1, 1, 1] 32 after_write = Some ([97, 98, 99], h') \<and> sent h' 16 = [] \<and>
    map_option fst (BIO_read (Some 32) True 10 h') = Some (- 1)"
proof -
  note after = after_write_reachable
  obtain b where b: "after_write 32 = Some b" "bb_peer b = Some 16" using pairs_Some [of after_write 32] after by auto
  have "sent after_write 16 = [97, 98, 99]" "\<not> bb_closed (bio_at after_write 16)"
    using pairs_Some [OF conjunct1 [OF conjunct2 [OF after]]] by (auto simp: sent_def)
  then show ?thesis using bio_pair_delivers [of after_write 32 b 16 "[1, 1, 1]" 10] after b by simp
qed

end
