(* ===== verification/Spec2Isabelle.thy ===== *)
theory Spec2Isabelle
  imports Cbb_reach Oid Ber Unicode Fbase64 Pb_ends Stack Lhash Modes Bio_pair
begin

text \<open>
  Verification of the C core of the FXSignal app: see the end of this sitting.
\<close>

section \<open>Properties that span components\<close>

text \<open>
  C2: A list of 64-bit integers written with \<open>CBB_add_asn1_int64\<close> into a fresh builder and
  finished is read back by \<open>CBS_get_asn1_int64\<close> as the same list, until the input is
  empty; memory aside, building cannot fail.
\<close>

theorem int64_list_round_trip:
  assumes "\<forall>v \<in> set vs. - (2 ^ 63) \<le> v \<and> v < 2 ^ 63" and "capacity + 8 < 2 ^ 63"
    and "length (concat (map (\<lambda>v. der_element CBS_ASN1_INTEGER (der_int_body v)) vs)) < 2 ^ 60"
  shows "\<exists>out. cbb_build capacity
        (put_all (\<lambda>alloc d v. CBB_add_asn1_int64 alloc d (word_of_int v)) 0 vs) alloc_total = Some out \<and>
      (\<exists>ws. get_all (length vs) CBS_get_asn1_int64 (cbs_over out r) = Some (Some ws) \<and> map sint ws = vs)"
proof -
  have "\<forall>v \<in> set vs. der_element CBS_ASN1_INTEGER (der_int_body v) \<noteq> []" by simp
  then show ?thesis
    using int64_trip.build_total [OF assms] int64_trip.build_then_get_all [OF assms(1) _ assms(2)
        alloc_total_ok, of _ "length vs" r] by blast
qed

lemma int64_list_round_trip_witness:
  "\<exists>out. cbb_build 16 (put_all (\<lambda>alloc d v. CBB_add_asn1_int64 alloc d (word_of_int v)) 0 [-129, 300])
      alloc_total = Some out \<and>
    (\<exists>ws. get_all (length [-129, 300 :: int]) CBS_get_asn1_int64 (cbs_over out [7]) = Some (Some ws) \<and>
       map sint ws = [-129, 300])"
  by (rule int64_list_round_trip)
    (simp_all add: der_element_def der_header_def der_int_body_def der_uint_body_def be_min.simps
      der_length_def der_tag_def)

lemma length_oid_text: "length cs \<le> length (oid_text cs)"
proof (induction cs rule: oid_text.induct)
  case (2 n)
  then show ?case using decimal_nonempty [of n] by (cases "decimal n") simp_all
qed simp_all

text \<open>
  C3: Text that \<open>CBB_add_asn1_oid_from_text\<close> accepts is exactly a dotted list of shortest
  decimal numerals of a valid object identifier; what it appends is that identifier's DER
  contents, and \<open>CBS_asn1_oid_to_text\<close> prints those contents as the same text, terminated.
\<close>

theorem oid_text_round_trip:
  assumes "CBB_add_asn1_oid_from_text fuel alloc d (txt @ r0) (length txt) s = Some (True, s')"
    and "alloc_ok alloc" and "cbb_wf s" and "cbb_live d s"
    and "length txt \<le> fuel" and "length txt < 2 ^ 40"
  shows "\<exists>cs. oid_valid cs \<and> txt = oid_text cs \<and> cbb_written s' = sealed d s @ oid_body cs \<and>
    CBS_asn1_oid_to_text (length txt) alloc_total (cbs_over (oid_body cs) r) = Some (Some (txt @ [0]))"
proof -
  obtain cs where cs: "oid_valid cs" "txt = oid_text cs" using oid_from_text_sound [OF assms(1)] by blast
  then have len: "length cs \<le> length txt" using length_oid_text by simp
  obtain g where g: "writes d g (oid_body cs)"
    "CBB_add_asn1_oid_from_text fuel alloc d (txt @ r0) (length txt) s = Some (g alloc s)"
    using oid_from_text_writes [OF cs(1), of fuel d r0] len assms(5) cs(2) by fastforce
  then have "wrote d (oid_body cs) s (True, s')"
    using assms(1-4) by (metis writes_def option.inject)
  then have w: "cbb_written s' = sealed d s @ oid_body cs" by (simp add: wrote_def)
  obtain f where f: "writes 0 f (oid_text cs @ [0])"
    "CBS_asn1_oid_to_text (length txt) alloc_total (cbs_over (oid_body cs) r) =
      Some (cbb_build 32 f alloc_total)"
    using oid_to_text [OF cs(1) len, of r] by blast
  have "cbb_build 32 f alloc_total = Some (oid_text cs @ [0])"
    by (rule cbb_build_writes(2) [OF f(1)]) (use cs(2) assms(6) in simp_all)
  then show ?thesis using cs f(2) w by metis
qed

lemma oid_text_round_trip_witness:
  "\<exists>s s' cs. CBB_add_asn1_oid_from_text 7 alloc_total 0 (oid_text [1, 2, 840] @ [9])
      (length (oid_text [1, 2, 840])) s = Some (True, s') \<and>
    oid_valid cs \<and> oid_text [1, 2, 840] = oid_text cs \<and> cbb_written s' = sealed 0 s @ oid_body cs \<and>
    CBS_asn1_oid_to_text (length (oid_text [1, 2, 840])) alloc_total (cbs_over (oid_body cs) []) =
      Some (Some (oid_text [1, 2, 840] @ [0]))"
proof -
  have "fst (CBB_init alloc_total 4)" by (rule CBB_init_total) simp
  then obtain s where i: "CBB_init alloc_total 4 = (True, s)" by (metis prod.collapse)
  have s: "cbb_wf s" "cbb_live 0 s" "sealed 0 s = []" "cbb_children s = []"
    "can_resize (cbb_buf s)" "\<not> error (cbb_buf s)"
    using CBB_init_step [OF alloc_total_ok i, of 0] by (simp_all add: size_t_mod_def)
  have len: "length (oid_text [1, 2, 840]) = 7"
    by (simp add: decimal_def dec_digits.simps)
  obtain g where g: "writes 0 g (oid_body [1, 2, 840])"
    "\<And>alloc s. CBB_add_asn1_oid_from_text 7 alloc 0 (oid_text [1, 2, 840] @ [9])
      (length (oid_text [1, 2, 840])) s = Some (g alloc s)"
    using oid_from_text_writes [of "[1, 2, 840]" 7 0 "[9]"] by auto
  have "length (oid_body [1, 2, 840]) < 2 ^ 60" by (simp add: b128_def b128_hi.simps)
  then have "cbb_room 0 (length (oid_body [1, 2, 840])) s"
    using s by (simp add: cbb_room_def)
  then obtain s' where "g alloc_total s = (True, s')" using g(1) by (metis writes_def prod.collapse)
  then have "CBB_add_asn1_oid_from_text 7 alloc_total 0 (oid_text [1, 2, 840] @ [9])
      (length (oid_text [1, 2, 840])) s = Some (True, s')" using g(2) by metis
  from this oid_text_round_trip [OF this alloc_total_ok s(1,2), of "[]"] show ?thesis
    unfolding len by auto
qed

end
